(* ===== verification/Prelude.thy ===== *)
theory Prelude
  imports Main "HOL-Library.Word" "HOL-Library.Signed_Division"
begin

text \<open>
  What the components share: the faults a C++ operation can end in, results as values of a sum
  type, the wrap-around of \<^verbatim>\<open>size_t\<close> and the conversions to \<^verbatim>\<open>int\<close>, \<^verbatim>\<open>memcpy\<close> and
  \<^verbatim>\<open>std::vector\<close> as list operations, and the standard searches (\<^verbatim>\<open>std::search\<close>,
  \<^verbatim>\<open>std::find\<close>, \<^verbatim>\<open>memchr\<close>) with their characteristic lemmas.
\<close>

named_theorems res_simps \<open>equations that compute with results\<close>
named_theorems size_simps \<open>wrap-around arithmetic that does not wrap\<close>

section \<open>Results\<close>

text \<open>
  \<open>AssertFail\<close> is a failing \<^verbatim>\<open>assert\<close>, \<open>LengthError\<close> and \<open>OutOfRange\<close> the exceptions of
  \<^verbatim>\<open>std::vector\<close>, \<open>LogicError\<close> an explicit \<^verbatim>\<open>throw std::logic_error\<close>, \<open>Fatal\<close> a
  \<^verbatim>\<open>LOG_FATAL\<close> or \<^verbatim>\<open>LOG_SYSFATAL\<close> (which abort), \<open>UndefinedBehaviour\<close> an access the
  language gives no meaning to, and \<open>BadAlloc\<close> a \<^verbatim>\<open>new\<close> that finds no memory.
\<close>

datatype fault =
    AssertFail
  | LengthError
  | OutOfRange
  | LogicError string
  | Fatal
  | UndefinedBehaviour
  | BadAlloc

type_synonym 'a res = "fault + 'a"

definition bindE :: "'a res \<Rightarrow> ('a \<Rightarrow> 'b res) \<Rightarrow> 'b res" where
  "bindE m f = (case m of Inl e \<Rightarrow> Inl e | Inr x \<Rightarrow> f x)"

definition assert_that :: "bool \<Rightarrow> 'a res \<Rightarrow> 'a res" where
  "assert_that P r = (if P then r else Inl AssertFail)"

lemma bindE_Inr [simp, res_simps]: "bindE (Inr x) f = f x"
  by (simp add: bindE_def)

lemma bindE_Inl [simp, res_simps]: "bindE (Inl e) f = Inl e"
  by (simp add: bindE_def)

lemma bindE_eq_Inr [res_simps]: "bindE m f = Inr y \<longleftrightarrow> (\<exists>x. m = Inr x \<and> f x = Inr y)"
  by (cases m) auto

lemma bindE_assoc: "bindE (bindE m f) g = bindE m (\<lambda>x. bindE (f x) g)"
  by (cases m) auto

lemma bindE_cong [fundef_cong]:
  "m = n \<Longrightarrow> (\<And>x. n = Inr x \<Longrightarrow> f x = g x) \<Longrightarrow> bindE m f = bindE n g"
  by (cases n) auto

lemma assert_that_True [simp]: "P \<Longrightarrow> assert_that P r = r"
  by (simp add: assert_that_def)

lemma assert_that_False [simp]: "\<not> P \<Longrightarrow> assert_that P r = Inl AssertFail"
  by (simp add: assert_that_def)

lemma assert_that_eq_Inr [res_simps]: "assert_that P r = Inr y \<longleftrightarrow> P \<and> r = Inr y"
  by (simp add: assert_that_def)

lemma if_fault_eq_Inr [res_simps]: "(if P then Inl e else r) = Inr y \<longleftrightarrow> \<not> P \<and> r = Inr y"
  by simp

text \<open>A loop over a list whose body may fail.\<close>

fun foldE :: "('x \<Rightarrow> 's \<Rightarrow> 's res) \<Rightarrow> 'x list \<Rightarrow> 's \<Rightarrow> 's res" where
  "foldE f [] s = Inr s"
| "foldE f (x # xs) s = bindE (f x s) (foldE f xs)"

lemma foldE_append: "foldE f (xs @ ys) s = bindE (foldE f xs s) (foldE f ys)"
  by (induction xs arbitrary: s) (auto simp: bindE_def split: sum.splits)

text \<open>
  A result is safe when it is a value with the postcondition or one of the faults that are allowed.
\<close>

definition safeE :: "fault set \<Rightarrow> ('a \<Rightarrow> bool) \<Rightarrow> 'a res \<Rightarrow> bool" where
  "safeE F P r \<longleftrightarrow> (case r of Inl e \<Rightarrow> e \<in> F | Inr x \<Rightarrow> P x)"

lemma safeE_simps [simp]: "safeE F P (Inr x) \<longleftrightarrow> P x" "safeE F P (Inl e) \<longleftrightarrow> e \<in> F"
  by (simp_all add: safeE_def)

lemma safeE_bind:
  assumes "safeE F P m" "\<And>x. P x \<Longrightarrow> safeE F Q (f x)"
  shows "safeE F Q (bindE m f)"
  using assms by (cases m) simp_all

lemma safeE_mono: "safeE F P r \<Longrightarrow> (\<And>x. P x \<Longrightarrow> Q x) \<Longrightarrow> safeE F Q r"
  by (cases r) simp_all

lemma safeE_faults: "safeE F P r \<Longrightarrow> F \<subseteq> G \<Longrightarrow> safeE G P r"
  by (cases r) auto

lemma safeE_foldE:
  assumes "I s" "\<And>x s. x \<in> set xs \<Longrightarrow> I s \<Longrightarrow> safeE F I (f x s)"
  shows "safeE F I (foldE f xs s)"
  using assms
proof (induction xs arbitrary: s)
  case (Cons x xs)
  have "safeE F I (foldE f xs t)" if "I t" for t using Cons that by simp
  with Cons.prems show ?case by (simp add: safeE_bind [where P = I])
qed simp

lemma safeE_cases:
  assumes "safeE F P r"
  obtains (fault) e where "r = Inl e" "e \<in> F" | (ok) x where "r = Inr x" "P x"
  using assms by (cases r) auto

section \<open>Step relations\<close>

text \<open>Every interleaving of a step relation keeps what its steps keep.\<close>

lemma invariant_star:
  assumes "step\<^sup>*\<^sup>* s t" "I s" "\<And>s t. step s t \<Longrightarrow> I s \<Longrightarrow> I t"
  shows "I t"
  using assms(1,2) by (induction rule: rtranclp_induct) (simp_all add: assms(3))

lemma star_map: "R\<^sup>*\<^sup>* x y \<Longrightarrow> (\<And>x y. R x y \<Longrightarrow> S (f x) (f y)) \<Longrightarrow> S\<^sup>*\<^sup>* (f x) (f y)"
  by (induction rule: rtranclp_induct) (auto intro: rtranclp.rtrancl_into_rtrancl)

section \<open>Machine integers\<close>

text \<open>
  A \<^verbatim>\<open>size_t\<close> is a \<open>nat\<close> below \<open>2 ^ 64\<close> whose sums and differences wrap; a signed
  32-bit or 64-bit integer is an \<open>int\<close>, and a conversion to it takes the representative in range.
\<close>

definition size_mod :: nat where
  "size_mod = 2 ^ 64"

definition add64 :: "nat \<Rightarrow> nat \<Rightarrow> nat" where
  "add64 a b = (a + b) mod size_mod"

definition sub64 :: "nat \<Rightarrow> nat \<Rightarrow> nat" where
  "sub64 a b = (if b \<le> a then a - b else a + size_mod - b)"

definition to_int32 :: "int \<Rightarrow> int" where
  "to_int32 x = (x + 2 ^ 31) mod 2 ^ 32 - 2 ^ 31"

definition to_int64 :: "int \<Rightarrow> int" where
  "to_int64 x = (x + 2 ^ 63) mod 2 ^ 64 - 2 ^ 63"

definition in_int32 :: "int \<Rightarrow> bool" where
  "in_int32 x \<longleftrightarrow> - (2 ^ 31) \<le> x \<and> x < 2 ^ 31"

definition in_int64 :: "int \<Rightarrow> bool" where
  "in_int64 x \<longleftrightarrow> - (2 ^ 63) \<le> x \<and> x < 2 ^ 63"

lemma add64_exact [size_simps]: "a + b < size_mod \<Longrightarrow> add64 a b = a + b"
  by (simp add: add64_def)

lemma sub64_exact [size_simps]: "b \<le> a \<Longrightarrow> sub64 a b = a - b"
  by (simp add: sub64_def)

lemma to_int32_exact [size_simps]: "in_int32 x \<Longrightarrow> to_int32 x = x"
  by (simp add: to_int32_def in_int32_def mod_pos_pos_trivial)

lemma to_int64_exact [size_simps]: "in_int64 x \<Longrightarrow> to_int64 x = x"
  by (simp add: to_int64_def in_int64_def mod_pos_pos_trivial)

lemma to_int32_range: "in_int32 (to_int32 x)"
proof -
  have "0 \<le> (x + 2 ^ 31) mod 2 ^ 32" and "(x + 2 ^ 31) mod 2 ^ 32 < 2 ^ 32"
    by simp_all
  then show ?thesis by (simp add: to_int32_def in_int32_def)
qed

lemma to_int64_range: "in_int64 (to_int64 x)"
proof -
  have "0 \<le> (x + 2 ^ 63) mod 2 ^ 64" and "(x + 2 ^ 63) mod 2 ^ 64 < 2 ^ 64"
    by simp_all
  then show ?thesis by (simp add: to_int64_def in_int64_def)
qed

text \<open>
  Signed overflow is undefined: \<open>ints32\<close> guards a statement with the list of the \<^verbatim>\<open>int\<close>
  values its subexpressions take, \<open>ints64\<close> with the \<^verbatim>\<open>int64_t\<close> ones.
\<close>

definition ints32 :: "int list \<Rightarrow> 'a res \<Rightarrow> 'a res" where
  "ints32 vs r = (if list_all in_int32 vs then r else Inl UndefinedBehaviour)"

definition ints64 :: "int list \<Rightarrow> 'a res \<Rightarrow> 'a res" where
  "ints64 vs r = (if list_all in_int64 vs then r else Inl UndefinedBehaviour)"

lemma ints32_ok: "list_all in_int32 vs \<Longrightarrow> ints32 vs r = r"
  by (simp add: ints32_def)

lemma ints64_ok: "list_all in_int64 vs \<Longrightarrow> ints64 vs r = r"
  by (simp add: ints64_def)

lemma ints32_eq_Inr [res_simps]: "ints32 vs r = Inr y \<longleftrightarrow> list_all in_int32 vs \<and> r = Inr y"
  by (simp add: ints32_def)

lemma ints64_eq_Inr [res_simps]: "ints64 vs r = Inr y \<longleftrightarrow> list_all in_int64 vs \<and> r = Inr y"
  by (simp add: ints64_def)

text \<open>Truncating division of a non-negative dividend by a positive divisor is \<open>div\<close>.\<close>

lemma sdiv_nonneg [size_simps]: "0 \<le> a \<Longrightarrow> 0 < b \<Longrightarrow> (a::int) sdiv b = a div b"
  by (simp add: signed_divide_int_def sgn_if)

lemma smod_nonneg [size_simps]: "0 \<le> a \<Longrightarrow> 0 < b \<Longrightarrow> (a::int) smod b = a mod b"
  by (simp add: signed_modulo_int_def sgn_if)

section \<open>Memory and vectors\<close>

text \<open>
  \<open>vector_max\<close> is \<^verbatim>\<open>std::vector<char>::max_size()\<close> on a 64-bit platform (\<^verbatim>\<open>PTRDIFF_MAX\<close>).
  \<open>mem_write\<close> is a \<^verbatim>\<open>memcpy\<close> or \<^verbatim>\<open>std::copy\<close> into an array, undefined past its end.
\<close>

definition vector_max :: nat where
  "vector_max = 2 ^ 63 - 1"

definition vector_resize :: "'a \<Rightarrow> nat \<Rightarrow> 'a list \<Rightarrow> 'a list res" where
  "vector_resize z n xs =
     (if n > vector_max then Inl LengthError
      else if n \<le> length xs then Inr (take n xs)
      else Inr (xs @ replicate (n - length xs) z))"

definition subrange :: "nat \<Rightarrow> nat \<Rightarrow> 'a list \<Rightarrow> 'a list" where
  "subrange i j xs = take (j - i) (drop i xs)"

definition mem_write :: "nat \<Rightarrow> 'a list \<Rightarrow> 'a list \<Rightarrow> 'a list res" where
  "mem_write i ds xs =
     (if i + length ds \<le> length xs
      then Inr (take i xs @ ds @ drop (i + length ds) xs)
      else Inl UndefinedBehaviour)"

text \<open>Element access: \<^verbatim>\<open>operator[]\<close>, \<^verbatim>\<open>front\<close> and \<^verbatim>\<open>back\<close> are undefined out of range, \<^verbatim>\<open>at\<close> throws.\<close>

definition vec_nth :: "'a list \<Rightarrow> int \<Rightarrow> 'a res" where
  "vec_nth xs i = (if 0 \<le> i \<and> i < int (length xs) then Inr (xs ! nat i) else Inl UndefinedBehaviour)"

definition vec_at :: "'a list \<Rightarrow> int \<Rightarrow> 'a res" where
  "vec_at xs i = (if 0 \<le> i \<and> i < int (length xs) then Inr (xs ! nat i) else Inl OutOfRange)"

definition vec_front :: "'a list \<Rightarrow> 'a res" where
  "vec_front xs = (if xs = [] then Inl UndefinedBehaviour else Inr (hd xs))"

definition vec_back :: "'a list \<Rightarrow> 'a res" where
  "vec_back xs = (if xs = [] then Inl UndefinedBehaviour else Inr (last xs))"

text \<open>
  \<^verbatim>\<open>std::upper_bound\<close> and \<^verbatim>\<open>std::lower_bound\<close> as offsets: the standard defines them as the end
  of the longest prefix that holds no element after, or only elements before, the value.
\<close>

definition upper_bound :: "('a \<Rightarrow> 'a \<Rightarrow> bool) \<Rightarrow> 'a \<Rightarrow> 'a list \<Rightarrow> nat" where
  "upper_bound lt v xs = length (takeWhile (\<lambda>x. \<not> lt v x) xs)"

definition lower_bound :: "('a \<Rightarrow> 'a \<Rightarrow> bool) \<Rightarrow> 'a \<Rightarrow> 'a list \<Rightarrow> nat" where
  "lower_bound lt v xs = length (takeWhile (\<lambda>x. lt x v) xs)"

lemma vec_nth_ok: "i < length xs \<Longrightarrow> vec_nth xs (int i) = Inr (xs ! i)"
  by (simp add: vec_nth_def)

lemma upper_bound_le: "upper_bound lt v xs \<le> length xs"
  by (simp add: upper_bound_def length_takeWhile_le)

lemma upper_bound_before: "i < upper_bound lt v xs \<Longrightarrow> \<not> lt v (xs ! i)"
  unfolding upper_bound_def by (metis nth_mem set_takeWhileD takeWhile_nth)

lemma upper_bound_at: "upper_bound lt v xs < length xs \<Longrightarrow> lt v (xs ! upper_bound lt v xs)"
  unfolding upper_bound_def using nth_length_takeWhile [of "\<lambda>x. \<not> lt v x" xs] by simp

lemma upper_bound_eqI:
  assumes "n \<le> length xs" "\<And>i. i < n \<Longrightarrow> \<not> lt v (xs ! i)" "n < length xs \<Longrightarrow> lt v (xs ! n)"
  shows "upper_bound lt v xs = n"
proof (rule antisym)
  show "upper_bound lt v xs \<le> n"
  proof (rule ccontr)
    assume "\<not> ?thesis"
    then have n: "n < upper_bound lt v xs" by simp
    then have "\<not> lt v (xs ! n)" by (rule upper_bound_before)
    moreover have "n < length xs" using n upper_bound_le [of lt v xs] by simp
    ultimately show False using assms(3) by simp
  qed
  show "n \<le> upper_bound lt v xs"
  proof (rule ccontr)
    assume "\<not> ?thesis"
    then have "upper_bound lt v xs < n" by simp
    then show False
      using assms(1,2) upper_bound_at [of lt v xs] by simp
  qed
qed

lemma vector_max_size_mod: "2 * vector_max + 2 = size_mod"
  by (simp add: vector_max_def size_mod_def)

lemma length_subrange: "j \<le> length xs \<Longrightarrow> length (subrange i j xs) = j - i"
  by (simp add: subrange_def)

lemma subrange_full [simp]: "subrange 0 (length xs) xs = xs"
  by (simp add: subrange_def)

lemma subrange_empty [simp]: "j \<le> i \<Longrightarrow> subrange i j xs = []"
  by (simp add: subrange_def)

lemma subrange_split:
  "i \<le> j \<Longrightarrow> j \<le> k \<Longrightarrow> subrange i k xs = subrange i j xs @ subrange j k xs"
proof -
  assume "i \<le> j" "j \<le> k"
  then have "k - i = (j - i) + (k - j)" by simp
  then have "subrange i k xs = take ((j - i) + (k - j)) (drop i xs)" by (simp add: subrange_def)
  also have "\<dots> = subrange i j xs @ take (k - j) (drop ((j - i) + i) xs)"
    by (simp only: take_add drop_drop subrange_def)
  finally show ?thesis using \<open>i \<le> j\<close> by (simp add: subrange_def)
qed

lemma subrange_append_left [simp]: "j \<le> length xs \<Longrightarrow> subrange i j (xs @ ys) = subrange i j xs"
  by (cases "i \<le> length xs") (auto simp: subrange_def)

lemma mem_write_length: "mem_write i ds xs = Inr ys \<Longrightarrow> length ys = length xs"
  by (auto simp: mem_write_def split: if_splits)

lemma mem_write_here:
  "mem_write i ds xs = Inr ys \<Longrightarrow> subrange i (i + length ds) ys = ds"
  by (auto simp: mem_write_def subrange_def split: if_splits)

lemma mem_write_before:
  "mem_write i ds xs = Inr ys \<Longrightarrow> k \<le> i \<Longrightarrow> subrange j k ys = subrange j k xs"
proof -
  assume w: "mem_write i ds xs = Inr ys" and k: "k \<le> i"
  then have ys: "ys = take i xs @ ds @ drop (i + length ds) xs" and l: "i + length ds \<le> length xs"
    by (auto simp: mem_write_def split: if_splits)
  have "subrange j k ys = subrange j k (take i xs)"
    unfolding ys using k l by (intro subrange_append_left) simp
  also have "\<dots> = subrange j k xs"
    using k by (simp add: subrange_def drop_take min_def)
  finally show ?thesis .
qed

lemma mem_write_after:
  "mem_write i ds xs = Inr ys \<Longrightarrow> i + length ds \<le> j \<Longrightarrow> subrange j k ys = subrange j k xs"
  by (auto simp: mem_write_def subrange_def split: if_splits)

lemma mem_write_ok: "i + length ds \<le> length xs \<Longrightarrow> \<exists>ys. mem_write i ds xs = Inr ys"
  by (simp add: mem_write_def)

section \<open>Standard searches\<close>

text \<open>
  The searches return an offset from the start of the range, and the length of the range where
  the source's iterator would be the end of it.
\<close>

fun std_search :: "'a list \<Rightarrow> 'a list \<Rightarrow> nat" where
  "std_search [] pat = 0"
| "std_search (x # xs) pat =
     (if take (length pat) (x # xs) = pat then 0 else Suc (std_search xs pat))"

fun std_find :: "'a \<Rightarrow> 'a list \<Rightarrow> nat" where
  "std_find c [] = 0"
| "std_find c (x # xs) = (if x = c then 0 else Suc (std_find c xs))"

definition memchr :: "'a \<Rightarrow> 'a list \<Rightarrow> nat option" where
  "memchr c xs = (let i = std_find c xs in if i = length xs then None else Some i)"

lemma std_find_le: "std_find c xs \<le> length xs"
  by (induction xs) auto

lemma std_find_less_iff: "std_find c xs < length xs \<longleftrightarrow> c \<in> set xs"
  by (induction xs) auto

lemma std_find_nth: "std_find c xs < length xs \<Longrightarrow> xs ! std_find c xs = c"
  by (induction xs) auto

lemma std_find_before: "c \<notin> set (take (std_find c xs) xs)"
  by (induction xs) auto

lemma std_find_append: "c \<notin> set xs \<Longrightarrow> std_find c (xs @ c # ys) = length xs"
  by (induction xs) auto

lemma std_find_none: "c \<notin> set xs \<Longrightarrow> std_find c xs = length xs"
  by (induction xs) auto

lemma std_search_le: "std_search xs pat \<le> length xs"
  by (induction xs pat rule: std_search.induct) auto

lemma std_search_found:
  "std_search xs pat < length xs \<Longrightarrow>
     take (length pat) (drop (std_search xs pat) xs) = pat"
  by (induction xs pat rule: std_search.induct) auto

lemma std_search_first:
  "i < std_search xs pat \<Longrightarrow> take (length pat) (drop i xs) \<noteq> pat"
proof (induction xs pat arbitrary: i rule: std_search.induct)
  case (2 x xs pat)
  then show ?case
    by (cases i) (auto split: if_splits)
qed simp

lemma std_search_at_most:
  "i < length xs \<Longrightarrow> take (length pat) (drop i xs) = pat \<Longrightarrow> std_search xs pat \<le> i"
  using std_search_first not_le_imp_less by blast

section \<open>Ordered maps of strings\<close>

text \<open>
  \<^verbatim>\<open>std::map<string, string>\<close> as an association list in increasing order of its keys, which is
  the order of iteration; strings compare by their bytes, as \<^verbatim>\<open>char_traits<char>\<close> does.
\<close>

fun str_less :: "string \<Rightarrow> string \<Rightarrow> bool" where
  "str_less _ [] = False"
| "str_less [] (d # ds) = True"
| "str_less (c # cs) (d # ds) =
     (if c = d then str_less cs ds else (of_char c :: nat) < of_char d)"

fun smap_set :: "string \<Rightarrow> 'v \<Rightarrow> (string \<times> 'v) list \<Rightarrow> (string \<times> 'v) list" where
  "smap_set k v [] = [(k, v)]"
| "smap_set k v ((l, w) # m) =
     (if str_less k l then (k, v) # (l, w) # m
      else if k = l then (k, v) # m
      else (l, w) # smap_set k v m)"

fun smap_erase :: "string \<Rightarrow> (string \<times> 'v) list \<Rightarrow> (string \<times> 'v) list" where
  "smap_erase k [] = []"
| "smap_erase k ((l, w) # m) = (if k = l then m else (l, w) # smap_erase k m)"

definition smap_ok :: "(string \<times> 'v) list \<Rightarrow> bool" where
  "smap_ok m \<longleftrightarrow> sorted_wrt str_less (map fst m)"

lemma str_less_irrefl [simp]: "\<not> str_less k k"
  by (induction k) auto

lemma str_less_trans: "str_less a b \<Longrightarrow> str_less b c \<Longrightarrow> str_less a c"
proof (induction a b arbitrary: c rule: str_less.induct)
  case (3 x xs y ys)
  then show ?case by (cases c) (auto split: if_splits)
next
  case (2 d ds)
  then show ?case by (cases c) auto
qed simp

lemma str_less_linear: "str_less a b \<or> a = b \<or> str_less b a"
proof (induction a b rule: str_less.induct)
  case (1 a)
  then show ?case by (cases a) auto
next
  case (3 c cs d ds)
  have "(of_char c :: nat) < of_char d \<or> (of_char d :: nat) < of_char c" if "c \<noteq> d"
    using that by (metis linorder_neqE_nat of_char_eq_iff)
  then show ?case using 3 by (cases "c = d") auto
qed simp

lemma smap_set_keys: "set (map fst (smap_set k v m)) = insert k (set (map fst m))"
  by (induction k v m rule: smap_set.induct) auto

lemma smap_set_ok: "smap_ok m \<Longrightarrow> smap_ok (smap_set k v m)"
  unfolding smap_ok_def
proof (induction k v m rule: smap_set.induct)
  case (2 k v l w m)
  show ?case
  proof (cases "str_less k l \<or> k = l")
    case True
    then show ?thesis using 2(2) str_less_trans by (auto simp: less_imp_neq)
  next
    case False
    then have "str_less l k" using str_less_linear by blast
    then show ?thesis using 2 False smap_set_keys [of k v m] by auto
  qed
qed simp

lemma smap_lookup_set: "smap_ok m \<Longrightarrow> map_of (smap_set k v m) = (map_of m)(k \<mapsto> v)"
  unfolding smap_ok_def
proof (induction k v m rule: smap_set.induct)
  case (2 k v l w m)
  then show ?case by (auto simp: fun_eq_iff)
qed auto

lemma smap_ok_Nil [simp]: "smap_ok []"
  by (simp add: smap_ok_def)

end
