(* ===== verification/Endian.thy ===== *)
theory Endian
  imports Prelude
begin

text \<open>
  \<^verbatim>\<open>muduo/net/Endian.h\<close>: the conversions between host and network byte order, on the bytes
  an integer occupies in memory. The host is little-endian (x86-64), so \<^verbatim>\<open>htobe64\<close> and its
  kin swap bytes. Bytes are \<open>char\<close>s, which range over exactly 256 values.
\<close>

section \<open>Integers in memory\<close>

text \<open>\<open>mem_bytes n v\<close>: the \<open>n\<close> bytes of the unsigned value \<open>v\<close> in memory order.\<close>

fun mem_bytes :: "nat \<Rightarrow> nat \<Rightarrow> char list" where
  "mem_bytes 0 v = []"
| "mem_bytes (Suc n) v = char_of (v mod 256) # mem_bytes n (v div 256)"

fun mem_value :: "char list \<Rightarrow> nat" where
  "mem_value [] = 0"
| "mem_value (c # cs) = of_char c + 256 * mem_value cs"

definition word_bytes :: "'a::len word \<Rightarrow> char list" where
  "word_bytes w = mem_bytes (LENGTH('a) div 8) (unat w)"

definition bytes_word :: "char list \<Rightarrow> 'a::len word" where
  "bytes_word cs = of_nat (mem_value cs)"

definition bswap :: "'a::len word \<Rightarrow> 'a word" where
  "bswap w = bytes_word (rev (word_bytes w))"

lemma length_mem_bytes [simp]: "length (mem_bytes n v) = n"
  by (induction n arbitrary: v) auto

lemma mem_bytes_numeral:
  "mem_bytes (numeral k) v = char_of v # mem_bytes (pred_numeral k) (v div 256)"
  by (simp only: numeral_eq_Suc [of k] mem_bytes.simps char_of_mod_256)

lemma mem_value_less: "mem_value cs < 256 ^ length cs"
proof (induction cs)
  case (Cons c cs)
  have "of_char c < (256 :: nat)" by (rule nat_of_char_less_256)
  then show ?case
    using Cons by (simp only: mem_value.simps length_Cons power_Suc)
qed simp

lemma mem_value_bytes: "v < 256 ^ n \<Longrightarrow> mem_value (mem_bytes n v) = v"
proof (induction n arbitrary: v)
  case (Suc n)
  have "v div 256 < 256 ^ n"
    using Suc.prems by (simp add: less_mult_imp_div_less mult.commute)
  then have "mem_value (mem_bytes n (v div 256)) = v div 256"
    by (rule Suc.IH)
  then show ?case by simp
qed simp

lemma mem_bytes_value: "mem_bytes (length cs) (mem_value cs) = cs"
proof (induction cs)
  case (Cons c cs)
  have c: "of_char c < (256 :: nat)" by (rule nat_of_char_less_256)
  then have "(of_char c + 256 * mem_value cs) mod 256 = of_char c"
    and "(of_char c + 256 * mem_value cs) div 256 = mem_value cs"
    by simp_all
  with Cons show ?case by simp
qed simp

text \<open>The byte-sized words: their width is a multiple of eight.\<close>

lemma unat_less_bytes:
  fixes w :: "'a::len word"
  assumes "8 dvd LENGTH('a)"
  shows "unat w < 256 ^ (LENGTH('a) div 8)"
proof -
  have "(256::nat) ^ (LENGTH('a) div 8) = (2 ^ 8) ^ (LENGTH('a) div 8)" by simp
  also have "\<dots> = 2 ^ (8 * (LENGTH('a) div 8))" by (simp only: power_mult)
  also have "\<dots> = 2 ^ LENGTH('a)" using assms by simp
  finally show ?thesis by simp
qed

lemma length_word_bytes [simp]: "length (word_bytes (w :: 'a::len word)) = LENGTH('a) div 8"
  by (simp add: word_bytes_def)

lemma bytes_word_bytes:
  fixes w :: "'a::len word"
  assumes "8 dvd LENGTH('a)"
  shows "bytes_word (word_bytes w) = w"
  using unat_less_bytes [OF assms, of w]
  by (simp add: bytes_word_def word_bytes_def mem_value_bytes)

lemma word_bytes_word:
  assumes "8 dvd LENGTH('a::len)" and "length cs = LENGTH('a) div 8"
  shows "word_bytes (bytes_word cs :: 'a word) = cs"
proof -
  have "mem_value cs < 2 ^ LENGTH('a)"
  proof -
    have "mem_value cs < 256 ^ length cs" by (rule mem_value_less)
    also have "\<dots> = (2 ^ 8) ^ (LENGTH('a) div 8)" using assms(2) by simp
    also have "\<dots> = 2 ^ (8 * (LENGTH('a) div 8))" by (simp only: power_mult)
    also have "\<dots> = 2 ^ LENGTH('a)" using assms(1) by simp
    finally show ?thesis .
  qed
  then have "unat (bytes_word cs :: 'a word) = mem_value cs"
    by (simp add: bytes_word_def unat_of_nat take_bit_nat_eq_self)
  then show ?thesis
    using mem_bytes_value [of cs] assms(2) by (simp add: word_bytes_def)
qed

lemma word_bytes_bswap:
  "8 dvd LENGTH('a::len) \<Longrightarrow> word_bytes (bswap (w :: 'a word)) = rev (word_bytes w)"
  by (simp add: bswap_def word_bytes_word)

lemma bswap_bswap:
  "8 dvd LENGTH('a::len) \<Longrightarrow> bswap (bswap (w :: 'a word)) = w"
  by (simp add: bswap_def [of "bswap w"] word_bytes_bswap bytes_word_bytes)

section \<open>Host and network order\<close>

definition hostToNetwork64 :: "64 word \<Rightarrow> 64 word" where
  "hostToNetwork64 host64 = bswap host64"

definition hostToNetwork32 :: "32 word \<Rightarrow> 32 word" where
  "hostToNetwork32 host32 = bswap host32"

definition hostToNetwork16 :: "16 word \<Rightarrow> 16 word" where
  "hostToNetwork16 host16 = bswap host16"

definition networkToHost64 :: "64 word \<Rightarrow> 64 word" where
  "networkToHost64 net64 = bswap net64"

definition networkToHost32 :: "32 word \<Rightarrow> 32 word" where
  "networkToHost32 net32 = bswap net32"

definition networkToHost16 :: "16 word \<Rightarrow> 16 word" where
  "networkToHost16 net16 = bswap net16"

lemma network_host_inverse [simp]:
  "networkToHost64 (hostToNetwork64 w64) = w64"
  "networkToHost32 (hostToNetwork32 w32) = w32"
  "networkToHost16 (hostToNetwork16 w16) = w16"
  by (simp_all add: networkToHost64_def hostToNetwork64_def networkToHost32_def
      hostToNetwork32_def networkToHost16_def hostToNetwork16_def bswap_bswap)

end
