(* ===== verification/Buffer.thy ===== *)
theory Buffer
  imports Endian
begin

text \<open>
  \<^verbatim>\<open>muduo/net/Buffer.h\<close> and \<^verbatim>\<open>Buffer.cc\<close>: the buffer every connection reads into and
  writes from. A pointer into the buffer is its offset from \<^verbatim>\<open>begin()\<close>.
\<close>

section \<open>State and observers\<close>

record Buffer =
  buffer :: "char list"
  readerIndex :: nat
  writerIndex :: nat

definition kCheapPrepend :: nat where
  "kCheapPrepend = 8"

definition kInitialSize :: nat where
  "kInitialSize = 1024"

definition kCRLF :: "char list" where
  "kCRLF = [CHR 0x0D, CHR 0x0A]"

definition readableBytes :: "Buffer \<Rightarrow> nat" where
  "readableBytes b = sub64 (writerIndex b) (readerIndex b)"

definition writableBytes :: "Buffer \<Rightarrow> nat" where
  "writableBytes b = sub64 (length (buffer b)) (writerIndex b)"

definition prependableBytes :: "Buffer \<Rightarrow> nat" where
  "prependableBytes b = readerIndex b"

definition peek :: "Buffer \<Rightarrow> nat" where
  "peek b = readerIndex b"

definition beginWrite :: "Buffer \<Rightarrow> nat" where
  "beginWrite b = writerIndex b"

definition Buffer_new :: "nat \<Rightarrow> Buffer res" where
  "Buffer_new initialSize =
     (if add64 kCheapPrepend initialSize > vector_max then Inl LengthError
      else let b = \<lparr>buffer = replicate (add64 kCheapPrepend initialSize) (CHR 0x00),
                    readerIndex = kCheapPrepend, writerIndex = kCheapPrepend\<rparr>
           in assert_that (readableBytes b = 0)
              (assert_that (writableBytes b = initialSize)
              (assert_that (prependableBytes b = kCheapPrepend) (Inr b))))"

definition Buffer_swap :: "Buffer \<Rightarrow> Buffer \<Rightarrow> Buffer \<times> Buffer" where
  "Buffer_swap b rhs = (rhs, b)"

text \<open>The bytes between two offsets, and the readable ones.\<close>

definition bytes_at :: "Buffer \<Rightarrow> nat \<Rightarrow> nat \<Rightarrow> char list" where
  "bytes_at b i j = subrange i j (buffer b)"

definition content :: "Buffer \<Rightarrow> char list" where
  "content b = bytes_at b (readerIndex b) (writerIndex b)"

section \<open>Searching\<close>

definition findCRLF :: "Buffer \<Rightarrow> nat option" where
  "findCRLF b =
     (let crlf = peek b + std_search (bytes_at b (peek b) (beginWrite b)) kCRLF
      in if crlf = beginWrite b then None else Some crlf)"

definition findCRLF_from :: "Buffer \<Rightarrow> nat \<Rightarrow> nat option res" where
  "findCRLF_from b start =
     assert_that (peek b \<le> start)
     (assert_that (start \<le> beginWrite b)
       (let crlf = start + std_search (bytes_at b start (beginWrite b)) kCRLF
        in Inr (if crlf = beginWrite b then None else Some crlf)))"

definition findEOL :: "Buffer \<Rightarrow> nat option" where
  "findEOL b =
     map_option ((+) (peek b)) (memchr (CHR 0x0A) (bytes_at b (peek b) (peek b + readableBytes b)))"

definition findEOL_from :: "Buffer \<Rightarrow> nat \<Rightarrow> nat option res" where
  "findEOL_from b start =
     assert_that (peek b \<le> start)
     (assert_that (start \<le> beginWrite b)
       (Inr (map_option ((+) start) (memchr (CHR 0x0A) (bytes_at b start (beginWrite b))))))"

section \<open>Reading\<close>

definition retrieveAll :: "Buffer \<Rightarrow> Buffer" where
  "retrieveAll b = b\<lparr>readerIndex := kCheapPrepend, writerIndex := kCheapPrepend\<rparr>"

definition retrieve :: "nat \<Rightarrow> Buffer \<Rightarrow> Buffer res" where
  "retrieve len b =
     assert_that (len \<le> readableBytes b)
       (Inr (if len < readableBytes b
             then b\<lparr>readerIndex := add64 (readerIndex b) len\<rparr>
             else retrieveAll b))"

definition retrieveUntil :: "nat \<Rightarrow> Buffer \<Rightarrow> Buffer res" where
  "retrieveUntil endp b =
     assert_that (peek b \<le> endp)
     (assert_that (endp \<le> beginWrite b) (retrieve (sub64 endp (peek b)) b))"

definition retrieveInt64 :: "Buffer \<Rightarrow> Buffer res" where
  "retrieveInt64 b = retrieve 8 b"

definition retrieveInt32 :: "Buffer \<Rightarrow> Buffer res" where
  "retrieveInt32 b = retrieve 4 b"

definition retrieveInt16 :: "Buffer \<Rightarrow> Buffer res" where
  "retrieveInt16 b = retrieve 2 b"

definition retrieveInt8 :: "Buffer \<Rightarrow> Buffer res" where
  "retrieveInt8 b = retrieve 1 b"

definition retrieveAsString :: "nat \<Rightarrow> Buffer \<Rightarrow> (char list \<times> Buffer) res" where
  "retrieveAsString len b =
     assert_that (len \<le> readableBytes b)
       (let result = bytes_at b (peek b) (peek b + len)
        in bindE (retrieve len b) (\<lambda>b'. Inr (result, b')))"

definition retrieveAllAsString :: "Buffer \<Rightarrow> (char list \<times> Buffer) res" where
  "retrieveAllAsString b = retrieveAsString (readableBytes b) b"

text \<open>
  A \<^verbatim>\<open>StringPiece\<close> over buffer memory: its bytes and its length, which is an \<^verbatim>\<open>int\<close>.
\<close>

definition toStringPiece :: "Buffer \<Rightarrow> char list \<times> int" where
  "toStringPiece b = (content b, to_int32 (int (readableBytes b)))"

section \<open>Writing\<close>

definition hasWritten :: "nat \<Rightarrow> Buffer \<Rightarrow> Buffer res" where
  "hasWritten len b =
     assert_that (len \<le> writableBytes b) (Inr (b\<lparr>writerIndex := add64 (writerIndex b) len\<rparr>))"

definition unwrite :: "nat \<Rightarrow> Buffer \<Rightarrow> Buffer res" where
  "unwrite len b =
     assert_that (len \<le> readableBytes b) (Inr (b\<lparr>writerIndex := sub64 (writerIndex b) len\<rparr>))"

definition makeSpace :: "nat \<Rightarrow> Buffer \<Rightarrow> Buffer res" where
  "makeSpace len b =
     (if add64 (writableBytes b) (prependableBytes b) < add64 len kCheapPrepend
      then bindE (vector_resize (CHR 0x00) (add64 (writerIndex b) len) (buffer b))
             (\<lambda>xs. Inr (b\<lparr>buffer := xs\<rparr>))
      else assert_that (kCheapPrepend < readerIndex b)
        (let readable = readableBytes b
         in bindE (mem_write kCheapPrepend (bytes_at b (readerIndex b) (writerIndex b)) (buffer b))
              (\<lambda>xs. let b' = b\<lparr>buffer := xs, readerIndex := kCheapPrepend,
                                writerIndex := add64 kCheapPrepend readable\<rparr>
                    in assert_that (readable = readableBytes b') (Inr b'))))"

definition ensureWritableBytes :: "nat \<Rightarrow> Buffer \<Rightarrow> Buffer res" where
  "ensureWritableBytes len b =
     bindE (if writableBytes b < len then makeSpace len b else Inr b)
       (\<lambda>b'. assert_that (writableBytes b' \<ge> len) (Inr b'))"

definition Buffer_append :: "char list \<Rightarrow> Buffer \<Rightarrow> Buffer res" where
  "Buffer_append data b =
     bindE (ensureWritableBytes (length data) b)
       (\<lambda>b1. bindE (mem_write (beginWrite b1) data (buffer b1))
         (\<lambda>xs. hasWritten (length data) (b1\<lparr>buffer := xs\<rparr>)))"

definition Buffer_append_piece :: "char list \<times> int \<Rightarrow> Buffer \<Rightarrow> Buffer res" where
  "Buffer_append_piece str b =
     (if 0 \<le> snd str \<and> snd str \<le> int (length (fst str))
      then Buffer_append (take (nat (snd str)) (fst str)) b
      else Inl UndefinedBehaviour)"

definition prepend :: "char list \<Rightarrow> Buffer \<Rightarrow> Buffer res" where
  "prepend data b =
     assert_that (length data \<le> prependableBytes b)
       (let r = sub64 (readerIndex b) (length data)
        in bindE (mem_write r data (buffer b))
             (\<lambda>xs. Inr (b\<lparr>buffer := xs, readerIndex := r\<rparr>)))"

definition shrink :: "nat \<Rightarrow> Buffer \<Rightarrow> Buffer res" where
  "shrink reserve b =
     bindE (Buffer_new kInitialSize)
       (\<lambda>other. bindE (ensureWritableBytes (add64 (readableBytes b) reserve) other)
         (\<lambda>other. bindE (Buffer_append_piece (toStringPiece b) other)
           (\<lambda>other. Inr (fst (Buffer_swap b other)))))"

section \<open>Integers in network order\<close>

definition appendInt64 :: "64 word \<Rightarrow> Buffer \<Rightarrow> Buffer res" where
  "appendInt64 x b = Buffer_append (word_bytes (hostToNetwork64 x)) b"

definition appendInt32 :: "32 word \<Rightarrow> Buffer \<Rightarrow> Buffer res" where
  "appendInt32 x b = Buffer_append (word_bytes (hostToNetwork32 x)) b"

definition appendInt16 :: "16 word \<Rightarrow> Buffer \<Rightarrow> Buffer res" where
  "appendInt16 x b = Buffer_append (word_bytes (hostToNetwork16 x)) b"

definition appendInt8 :: "8 word \<Rightarrow> Buffer \<Rightarrow> Buffer res" where
  "appendInt8 x b = Buffer_append (word_bytes x) b"

definition prependInt64 :: "64 word \<Rightarrow> Buffer \<Rightarrow> Buffer res" where
  "prependInt64 x b = prepend (word_bytes (hostToNetwork64 x)) b"

definition prependInt32 :: "32 word \<Rightarrow> Buffer \<Rightarrow> Buffer res" where
  "prependInt32 x b = prepend (word_bytes (hostToNetwork32 x)) b"

definition prependInt16 :: "16 word \<Rightarrow> Buffer \<Rightarrow> Buffer res" where
  "prependInt16 x b = prepend (word_bytes (hostToNetwork16 x)) b"

definition prependInt8 :: "8 word \<Rightarrow> Buffer \<Rightarrow> Buffer res" where
  "prependInt8 x b = prepend (word_bytes x) b"

definition peekInt64 :: "Buffer \<Rightarrow> 64 word res" where
  "peekInt64 b =
     assert_that (readableBytes b \<ge> 8)
       (Inr (networkToHost64 (bytes_word (bytes_at b (peek b) (peek b + 8)))))"

definition peekInt32 :: "Buffer \<Rightarrow> 32 word res" where
  "peekInt32 b =
     assert_that (readableBytes b \<ge> 4)
       (Inr (networkToHost32 (bytes_word (bytes_at b (peek b) (peek b + 4)))))"

definition peekInt16 :: "Buffer \<Rightarrow> 16 word res" where
  "peekInt16 b =
     assert_that (readableBytes b \<ge> 2)
       (Inr (networkToHost16 (bytes_word (bytes_at b (peek b) (peek b + 2)))))"

definition peekInt8 :: "Buffer \<Rightarrow> 8 word res" where
  "peekInt8 b =
     assert_that (readableBytes b \<ge> 1)
       (Inr (bytes_word (bytes_at b (peek b) (peek b + 1))))"

definition readInt64 :: "Buffer \<Rightarrow> (64 word \<times> Buffer) res" where
  "readInt64 b = bindE (peekInt64 b) (\<lambda>x. bindE (retrieveInt64 b) (\<lambda>b'. Inr (x, b')))"

definition readInt32 :: "Buffer \<Rightarrow> (32 word \<times> Buffer) res" where
  "readInt32 b = bindE (peekInt32 b) (\<lambda>x. bindE (retrieveInt32 b) (\<lambda>b'. Inr (x, b')))"

definition readInt16 :: "Buffer \<Rightarrow> (16 word \<times> Buffer) res" where
  "readInt16 b = bindE (peekInt16 b) (\<lambda>x. bindE (retrieveInt16 b) (\<lambda>b'. Inr (x, b')))"

definition readInt8 :: "Buffer \<Rightarrow> (8 word \<times> Buffer) res" where
  "readInt8 b = bindE (peekInt8 b) (\<lambda>x. bindE (retrieveInt8 b) (\<lambda>b'. Inr (x, b')))"

section \<open>Reading from a file descriptor\<close>

text \<open>
  What \<^verbatim>\<open>readv(2)\<close> did: failed with an \<^verbatim>\<open>errno\<close>, or stored the bytes in the first
  segment and then the second. The kernel stores no more than the segments hold.
\<close>

datatype readv_result = ReadvErr int | ReadvOk "char list"

definition extrabuf_size :: nat where
  "extrabuf_size = 65536"

definition readv_room :: "Buffer \<Rightarrow> nat" where
  "readv_room b =
     (let writable = writableBytes b; iovcnt = (if writable < extrabuf_size then 2 else 1 :: nat)
      in if iovcnt = 2 then writable + extrabuf_size else writable)"

definition readFd :: "readv_result \<Rightarrow> Buffer \<Rightarrow> (int \<times> int option \<times> Buffer) res" where
  "readFd rv b =
     (let writable = writableBytes b in
      case rv of
        ReadvErr e \<Rightarrow> Inr (-1, Some e, b)
      | ReadvOk ds \<Rightarrow>
          if length ds > readv_room b then Inl UndefinedBehaviour
          else if length ds \<le> writable
          then bindE (mem_write (writerIndex b) ds (buffer b))
                 (\<lambda>xs. Inr (int (length ds), None,
                    b\<lparr>buffer := xs, writerIndex := add64 (writerIndex b) (length ds)\<rparr>))
          else bindE (mem_write (writerIndex b) (take writable ds) (buffer b))
                 (\<lambda>xs. bindE (Buffer_append (drop writable ds)
                                (b\<lparr>buffer := xs, writerIndex := length xs\<rparr>))
                   (\<lambda>b'. Inr (int (length ds), None, b'))))"

section \<open>The invariant\<close>

definition buf_inv :: "Buffer \<Rightarrow> bool" where
  "buf_inv b \<longleftrightarrow>
     readerIndex b \<le> writerIndex b \<and> writerIndex b \<le> length (buffer b) \<and>
     kCheapPrepend \<le> length (buffer b) \<and> length (buffer b) \<le> vector_max"

definition buf_room :: "Buffer \<Rightarrow> nat \<Rightarrow> bool" where
  "buf_room b n \<longleftrightarrow> writerIndex b + n \<le> vector_max \<and> kCheapPrepend + n \<le> vector_max"

lemma buf_sizes:
  assumes "buf_inv b"
  shows "readableBytes b = writerIndex b - readerIndex b"
    and "writableBytes b = length (buffer b) - writerIndex b"
    and "length (content b) = writerIndex b - readerIndex b"
  using assms
  by (simp_all add: buf_inv_def readableBytes_def writableBytes_def content_def bytes_at_def
      sub64_exact length_subrange)

lemma readable_content: "buf_inv b \<Longrightarrow> readableBytes b = length (content b)"
  by (simp add: buf_sizes)

lemma add64_small: "a \<le> vector_max \<Longrightarrow> b \<le> vector_max + 1 \<Longrightarrow> add64 a b = a + b"
  using vector_max_size_mod by (intro add64_exact) linarith

lemma buf_inv_new:
  assumes "n \<le> vector_max - kCheapPrepend"
  shows "\<exists>b. Buffer_new n = Inr b \<and> buf_inv b \<and> content b = [] \<and> readerIndex b = kCheapPrepend \<and>
           writerIndex b = kCheapPrepend \<and> length (buffer b) = kCheapPrepend + n"
proof -
  have k: "kCheapPrepend \<le> vector_max" by (simp add: kCheapPrepend_def vector_max_def)
  with assms have "kCheapPrepend + n \<le> vector_max" by simp
  then have "add64 kCheapPrepend n = kCheapPrepend + n"
    using k by (intro add64_small) simp_all
  with \<open>kCheapPrepend + n \<le> vector_max\<close> show ?thesis
    by (simp add: Buffer_new_def Let_def readableBytes_def writableBytes_def prependableBytes_def
        sub64_exact buf_inv_def content_def bytes_at_def)
qed

lemma makeSpace_ok:
  assumes inv: "buf_inv b" and small: "writableBytes b < len" and len: "len \<le> vector_max"
    and room: "writableBytes b + readerIndex b < len + kCheapPrepend \<Longrightarrow> writerIndex b + len \<le> vector_max"
  shows "\<exists>b'. makeSpace len b = Inr b' \<and> buf_inv b' \<and> content b' = content b \<and>
    len \<le> length (buffer b') - writerIndex b' \<and> writerIndex b' \<le> writerIndex b \<and>
    (kCheapPrepend \<le> readerIndex b \<longrightarrow> kCheapPrepend \<le> readerIndex b')"
proof -
  note sz = buf_sizes [OF inv]
  have i: "readerIndex b \<le> writerIndex b" "writerIndex b \<le> length (buffer b)"
    "kCheapPrepend \<le> length (buffer b)" "length (buffer b) \<le> vector_max"
    using inv by (simp_all add: buf_inv_def)
  have a1: "add64 (writableBytes b) (prependableBytes b) = writableBytes b + readerIndex b"
    unfolding prependableBytes_def using i sz by (intro add64_small) simp_all
  have a2: "add64 len kCheapPrepend = len + kCheapPrepend"
    using len by (intro add64_small) (simp_all add: kCheapPrepend_def vector_max_def)
  have a3: "add64 (writerIndex b) len = writerIndex b + len"
    using i len by (intro add64_small) simp_all
  show ?thesis
  proof (cases "writableBytes b + readerIndex b < len + kCheapPrepend")
    case True
    have "length (buffer b) < writerIndex b + len"
      using small i sz by simp
    then obtain xs where xs: "vector_resize (CHR 0x00) (writerIndex b + len) (buffer b) = Inr (buffer b @ xs)"
        and lx: "length (buffer b) + length xs = writerIndex b + len"
      using room [OF True] by (simp add: vector_resize_def)
    have "makeSpace len b = Inr (b\<lparr>buffer := buffer b @ xs\<rparr>)"
      using True xs by (simp add: makeSpace_def a1 a2 a3)
    with i room [OF True] lx show ?thesis
      by (simp add: buf_inv_def content_def bytes_at_def)
  next
    case False
    have moved: "kCheapPrepend < readerIndex b"
      using False small by simp
    define w where "w = content b"
    have lw: "length w = writerIndex b - readerIndex b"
      using sz by (simp add: w_def)
    have "kCheapPrepend + length w \<le> length (buffer b)"
      using moved i lw by linarith
    then obtain xs where xs: "mem_write kCheapPrepend w (buffer b) = Inr xs"
      using mem_write_ok by blast
    have lx: "length xs = length (buffer b)" using xs by (rule mem_write_length)
    have here: "subrange kCheapPrepend (kCheapPrepend + length w) xs = w"
      using xs by (rule mem_write_here)
    have a4: "add64 kCheapPrepend (length w) = kCheapPrepend + length w"
      using i moved lw by (intro add64_small) simp_all
    let ?b = "b\<lparr>buffer := xs, readerIndex := kCheapPrepend, writerIndex := kCheapPrepend + length w\<rparr>"
    have "makeSpace len b = Inr ?b"
      unfolding makeSpace_def a1 a2 using False moved xs sz(1) lw a4
      by (simp add: Let_def content_def [symmetric] w_def [symmetric] readableBytes_def sub64_exact)
    moreover have "len \<le> length (buffer b) - (kCheapPrepend + length w)"
      using False i sz lw by simp
    moreover have "content ?b = w"
      using here by (simp add: content_def bytes_at_def)
    moreover have "kCheapPrepend + length w \<le> writerIndex b"
      using moved i lw by linarith
    ultimately show ?thesis
      using i lx by (simp add: buf_inv_def w_def)
  qed
qed

lemma makeSpace_fault:
  assumes inv: "buf_inv b" and len: "len \<le> vector_max"
    and full: "writableBytes b + readerIndex b < len + kCheapPrepend" "vector_max < writerIndex b + len"
  shows "makeSpace len b = Inl LengthError"
proof -
  note sz = buf_sizes [OF inv]
  have i: "readerIndex b \<le> writerIndex b" "writerIndex b \<le> length (buffer b)" "length (buffer b) \<le> vector_max"
    using inv by (simp_all add: buf_inv_def)
  have "add64 (writableBytes b) (prependableBytes b) = writableBytes b + readerIndex b"
    unfolding prependableBytes_def using i sz by (intro add64_small) simp_all
  moreover have "add64 len kCheapPrepend = len + kCheapPrepend"
    using len by (intro add64_small) (simp_all add: kCheapPrepend_def vector_max_def)
  moreover have "add64 (writerIndex b) len = writerIndex b + len"
    using i len by (intro add64_small) simp_all
  ultimately show ?thesis using full by (simp add: makeSpace_def vector_resize_def)
qed

lemma ensureWritableBytes_ok:
  assumes inv: "buf_inv b" and room: "writerIndex b + len \<le> vector_max"
  shows "\<exists>b'. ensureWritableBytes len b = Inr b' \<and> buf_inv b' \<and> content b' = content b \<and>
    len \<le> length (buffer b') - writerIndex b' \<and> writerIndex b' \<le> writerIndex b \<and>
    (kCheapPrepend \<le> readerIndex b \<longrightarrow> kCheapPrepend \<le> readerIndex b')"
proof (cases "writableBytes b < len")
  case True
  have "len \<le> vector_max" using room by simp
  with True makeSpace_ok [OF inv True _ room] show ?thesis
    by (auto simp: ensureWritableBytes_def buf_sizes)
next
  case False
  with inv show ?thesis
    by (auto simp: ensureWritableBytes_def buf_sizes)
qed

lemma append_reserved:
  assumes inv: "buf_inv b" and fits: "length ds \<le> length (buffer b) - writerIndex b"
  shows "\<exists>b'. bindE (mem_write (beginWrite b) ds (buffer b)) (\<lambda>xs. hasWritten (length ds) (b\<lparr>buffer := xs\<rparr>)) = Inr b' \<and>
    buf_inv b' \<and> content b' = content b @ ds \<and> writerIndex b' = writerIndex b + length ds \<and> readerIndex b' = readerIndex b"
proof -
  have i: "readerIndex b \<le> writerIndex b" "writerIndex b \<le> length (buffer b)" "length (buffer b) \<le> vector_max"
    using inv by (simp_all add: buf_inv_def)
  then have fits': "writerIndex b + length ds \<le> length (buffer b)" using fits by simp
  then obtain xs where xs: "mem_write (writerIndex b) ds (buffer b) = Inr xs"
    using mem_write_ok by blast
  have lx: "length xs = length (buffer b)" using xs by (rule mem_write_length)
  have "subrange (readerIndex b) (writerIndex b + length ds) xs =
      subrange (readerIndex b) (writerIndex b) xs @ subrange (writerIndex b) (writerIndex b + length ds) xs"
    using i by (intro subrange_split) simp_all
  also have "\<dots> = content b @ ds"
    using mem_write_before [OF xs order_refl] mem_write_here [OF xs]
    by (simp add: content_def bytes_at_def)
  finally have c: "subrange (readerIndex b) (writerIndex b + length ds) xs = content b @ ds" .
  have "add64 (writerIndex b) (length ds) = writerIndex b + length ds"
    using fits' i by (intro add64_small) simp_all
  then show ?thesis
    using fits fits' xs lx i inv c
    by (simp add: beginWrite_def hasWritten_def writableBytes_def sub64_exact buf_inv_def content_def bytes_at_def)
qed

lemma Buffer_append_ok:
  assumes inv: "buf_inv b" and room: "writerIndex b + length ds \<le> vector_max"
  shows "\<exists>b'. Buffer_append ds b = Inr b' \<and> buf_inv b' \<and> content b' = content b @ ds \<and>
    writerIndex b' \<le> writerIndex b + length ds \<and>
    (kCheapPrepend \<le> readerIndex b \<longrightarrow> kCheapPrepend \<le> readerIndex b')"
proof -
  obtain b1 where b1: "ensureWritableBytes (length ds) b = Inr b1" "buf_inv b1"
      "content b1 = content b" "length ds \<le> length (buffer b1) - writerIndex b1"
      "writerIndex b1 \<le> writerIndex b"
      "kCheapPrepend \<le> readerIndex b \<longrightarrow> kCheapPrepend \<le> readerIndex b1"
    using ensureWritableBytes_ok [OF inv room] by blast
  with append_reserved [OF b1(2,4)] show ?thesis by (auto simp: Buffer_append_def)
qed

text \<open>Appending either works or throws \<^verbatim>\<open>std::length_error\<close>.\<close>

lemma ensureWritableBytes_safe:
  assumes inv: "buf_inv b" and len: "len \<le> vector_max"
  shows "safeE {LengthError} (\<lambda>b'. buf_inv b' \<and> content b' = content b \<and> len \<le> length (buffer b') - writerIndex b')
    (ensureWritableBytes len b)"
proof (cases "writableBytes b < len")
  case small: True
  show ?thesis
  proof (cases "writableBytes b + readerIndex b < len + kCheapPrepend \<and> vector_max < writerIndex b + len")
    case True
    then show ?thesis using makeSpace_fault [OF inv len] small by (simp add: ensureWritableBytes_def)
  next
    case False
    then obtain b' where b': "makeSpace len b = Inr b'" "buf_inv b'" "content b' = content b"
        "len \<le> length (buffer b') - writerIndex b'"
      using makeSpace_ok [OF inv small len] by auto
    then show ?thesis using small by (simp add: ensureWritableBytes_def buf_sizes)
  qed
next
  case False
  then show ?thesis using inv by (simp add: ensureWritableBytes_def buf_sizes)
qed

lemma Buffer_append_safe:
  assumes inv: "buf_inv b" and len: "length ds \<le> vector_max"
  shows "safeE {LengthError} (\<lambda>b'. buf_inv b' \<and> content b' = content b @ ds) (Buffer_append ds b)"
  unfolding Buffer_append_def
proof (rule safeE_bind [OF ensureWritableBytes_safe [OF inv len]])
  fix b1 assume b1: "buf_inv b1 \<and> content b1 = content b \<and> length ds \<le> length (buffer b1) - writerIndex b1"
  then show "safeE {LengthError} (\<lambda>b'. buf_inv b' \<and> content b' = content b @ ds)
      (bindE (mem_write (beginWrite b1) ds (buffer b1)) (\<lambda>xs. hasWritten (length ds) (b1\<lparr>buffer := xs\<rparr>)))"
    using append_reserved [of b1 ds] by auto
qed

lemma retrieve_ok:
  assumes inv: "buf_inv b" and n: "n \<le> length (content b)"
  shows "\<exists>b'. retrieve n b = Inr b' \<and> buf_inv b' \<and> content b' = drop n (content b) \<and>
    writerIndex b' \<le> max kCheapPrepend (writerIndex b) \<and>
    (kCheapPrepend \<le> readerIndex b \<longrightarrow> kCheapPrepend \<le> readerIndex b')"
proof -
  have i: "readerIndex b \<le> writerIndex b" "writerIndex b \<le> length (buffer b)"
      "length (buffer b) \<le> vector_max" "kCheapPrepend \<le> length (buffer b)"
    using inv by (simp_all add: buf_inv_def)
  show ?thesis
  proof (cases "n < length (content b)")
    case True
    then have lt: "readerIndex b + n < writerIndex b" using buf_sizes [OF inv] by simp
    then have "add64 (readerIndex b) n = readerIndex b + n"
      using i by (intro add64_small) simp_all
    then have "retrieve n b = Inr (b\<lparr>readerIndex := readerIndex b + n\<rparr>)"
      using True by (simp add: retrieve_def readable_content [OF inv])
    moreover have "subrange (readerIndex b + n) (writerIndex b) (buffer b) = drop n (content b)"
      using lt by (simp add: content_def bytes_at_def subrange_def drop_take add.commute)
    ultimately show ?thesis
      using i lt by (simp add: buf_inv_def content_def bytes_at_def)
  next
    case False
    then have "retrieve n b = Inr (retrieveAll b)"
      using n by (simp add: retrieve_def readable_content [OF inv])
    then show ?thesis
      using False i by (simp add: buf_inv_def content_def bytes_at_def retrieveAll_def)
  qed
qed

lemma retrieve_fail:
  "buf_inv b \<Longrightarrow> length (content b) < n \<Longrightarrow> retrieve n b = Inl AssertFail"
  by (simp add: retrieve_def readable_content)

lemma retrieveAll_ok:
  "buf_inv b \<Longrightarrow> buf_inv (retrieveAll b) \<and> content (retrieveAll b) = []"
  by (simp add: retrieveAll_def buf_inv_def content_def bytes_at_def)

lemma prepend_ok:
  assumes inv: "buf_inv b" and n: "length ds \<le> readerIndex b"
  shows "\<exists>b'. prepend ds b = Inr b' \<and> buf_inv b' \<and> content b' = ds @ content b \<and>
    writerIndex b' = writerIndex b"
proof -
  have i: "readerIndex b \<le> writerIndex b" "writerIndex b \<le> length (buffer b)"
    using inv by (simp_all add: buf_inv_def)
  define r where "r = readerIndex b - length ds"
  have r: "r + length ds = readerIndex b" using n by (simp add: r_def)
  obtain xs where xs: "mem_write r ds (buffer b) = Inr xs"
    using mem_write_ok [of r ds "buffer b"] r i by auto
  have "subrange r (writerIndex b) xs =
      subrange r (r + length ds) xs @ subrange (r + length ds) (writerIndex b) xs"
    using i r by (intro subrange_split) simp_all
  also have "\<dots> = ds @ content b"
    using mem_write_here [OF xs] mem_write_after [OF xs order_refl] r
    by (simp add: content_def bytes_at_def)
  finally have "subrange r (writerIndex b) xs = ds @ content b" .
  moreover have "prepend ds b = Inr (b\<lparr>buffer := xs, readerIndex := r\<rparr>)"
    using n xs by (simp add: prepend_def prependableBytes_def sub64_exact r_def)
  ultimately show ?thesis
    using inv i r mem_write_length [OF xs] by (simp add: buf_inv_def content_def bytes_at_def)
qed

lemma unwrite_ok:
  assumes inv: "buf_inv b" and n: "n \<le> length (content b)"
  shows "\<exists>b'. unwrite n b = Inr b' \<and> buf_inv b' \<and>
    content b' = take (length (content b) - n) (content b) \<and>
    writerIndex b' \<le> writerIndex b \<and> readerIndex b' = readerIndex b"
proof -
  have i: "readerIndex b \<le> writerIndex b" "n \<le> writerIndex b - readerIndex b"
    using inv n buf_sizes [OF inv] by (simp_all add: buf_inv_def)
  then have "unwrite n b = Inr (b\<lparr>writerIndex := writerIndex b - n\<rparr>)"
    using n by (simp add: unwrite_def readable_content [OF inv] sub64_exact)
  moreover have "subrange (readerIndex b) (writerIndex b - n) (buffer b) =
      take (length (content b) - n) (content b)"
    unfolding buf_sizes [OF inv] using i
    by (simp add: content_def bytes_at_def subrange_def min_def add.commute)
  moreover have "readerIndex b \<le> writerIndex b - n" "writerIndex b - n \<le> length (buffer b)"
    using i inv unfolding buf_inv_def by linarith+
  ultimately show ?thesis
    using inv by (simp add: buf_inv_def content_def bytes_at_def)
qed

lemma shrink_ok:
  assumes inv: "buf_inv b" and small: "length (content b) < 2 ^ 31"
    and room: "kCheapPrepend + length (content b) + reserve \<le> vector_max"
  shows "\<exists>b'. shrink reserve b = Inr b' \<and> buf_inv b' \<and> content b' = content b \<and>
    kCheapPrepend \<le> readerIndex b' \<and> writerIndex b' \<le> kCheapPrepend + length (content b)"
proof -
  let ?n = "length (content b)"
  obtain o1 where o1: "Buffer_new kInitialSize = Inr o1" "buf_inv o1" "content o1 = []"
      "readerIndex o1 = kCheapPrepend" "writerIndex o1 = kCheapPrepend"
    using buf_inv_new [of kInitialSize] by (auto simp: kInitialSize_def vector_max_def kCheapPrepend_def)
  have sum: "add64 (readableBytes b) reserve = ?n + reserve"
    unfolding readable_content [OF inv] using room by (intro add64_small) simp_all
  obtain o2 where o2: "ensureWritableBytes (?n + reserve) o1 = Inr o2" "buf_inv o2"
      "content o2 = []" "writerIndex o2 \<le> kCheapPrepend" "kCheapPrepend \<le> readerIndex o2"
    using ensureWritableBytes_ok [OF o1(2), of "?n + reserve"] o1 room by auto
  have piece: "Buffer_append_piece (toStringPiece b) o2 = Buffer_append (content b) o2"
    using small
    by (simp add: Buffer_append_piece_def toStringPiece_def readable_content [OF inv]
        to_int32_exact in_int32_def)
  obtain o3 where "Buffer_append (content b) o2 = Inr o3" "buf_inv o3" "content o3 = content b"
      "writerIndex o3 \<le> kCheapPrepend + ?n" "kCheapPrepend \<le> readerIndex o3"
    using Buffer_append_ok [OF o2(2), of "content b"] o2 room by fastforce
  then show ?thesis
    using o1 o2 sum piece by (simp add: shrink_def Buffer_swap_def)
qed

text \<open>What fits is stored in place, the rest goes through the extra buffer and \<^verbatim>\<open>append\<close>.\<close>

lemma readFd_split:
  assumes inv: "buf_inv b" and n: "length ds \<le> readv_room b"
  obtains (fits) b' where "readFd (ReadvOk ds) b = Inr (int (length ds), None, b')" "buf_inv b'" "content b' = content b @ ds"
  | (extra) b1 d1 d2 where "ds = d1 @ d2" "length d2 \<le> extrabuf_size" "buf_inv b1" "content b1 = content b @ d1"
      "writerIndex b1 = length (buffer b)"
      "readFd (ReadvOk ds) b = bindE (Buffer_append d2 b1) (\<lambda>b'. Inr (int (length ds), None, b'))"
proof -
  have i: "readerIndex b \<le> writerIndex b" "writerIndex b \<le> length (buffer b)"
      "length (buffer b) \<le> vector_max"
    using inv by (simp_all add: buf_inv_def)
  note w = buf_sizes(2) [OF inv]
  let ?W = "length (buffer b) - writerIndex b"
  define d1 where "d1 = take ?W ds"
  have d1: "writerIndex b + length d1 \<le> length (buffer b)" using i by (simp add: d1_def)
  then obtain xs where xs: "mem_write (writerIndex b) d1 (buffer b) = Inr xs"
    using mem_write_ok by blast
  have lx: "length xs = length (buffer b)" using xs by (rule mem_write_length)
  have c1: "subrange (readerIndex b) (writerIndex b + length d1) xs = content b @ d1"
    using subrange_split [of "readerIndex b" "writerIndex b" "writerIndex b + length d1" xs] i
      mem_write_before [OF xs order_refl, of "readerIndex b"] mem_write_here [OF xs]
    by (simp add: content_def bytes_at_def)
  show thesis
  proof (cases "length ds \<le> ?W")
    case True
    then have "d1 = ds" by (simp add: d1_def)
    moreover have "add64 (writerIndex b) (length ds) = writerIndex b + length ds"
      using True i by (intro add64_small) simp_all
    ultimately show thesis
      using True n xs c1 d1 lx inv w
      by (intro fits [of "b\<lparr>buffer := xs, writerIndex := writerIndex b + length ds\<rparr>"])
        (simp_all add: readFd_def Let_def buf_inv_def content_def bytes_at_def)
  next
    case False
    then have full: "writerIndex b + length d1 = length xs"
      using i lx by (simp add: d1_def)
    define b1 where "b1 = b\<lparr>buffer := xs, writerIndex := length xs\<rparr>"
    have b1: "buf_inv b1" "content b1 = content b @ d1" "writerIndex b1 = length (buffer b)"
      using inv c1 full lx i by (simp_all add: b1_def buf_inv_def content_def bytes_at_def)
    have "length ds \<le> ?W + extrabuf_size"
      using n False w by (simp add: readv_room_def Let_def split: if_splits)
    then show thesis
      using b1 False n xs w
      by (intro extra [of d1 "drop ?W ds" b1]) (simp_all add: readFd_def Let_def d1_def b1_def)
  qed
qed

lemma readFd_ok:
  assumes inv: "buf_inv b" and n: "length ds \<le> readv_room b"
    and room: "length (buffer b) + extrabuf_size \<le> vector_max"
  shows "\<exists>b'. readFd (ReadvOk ds) b = Inr (int (length ds), None, b') \<and> buf_inv b' \<and>
    content b' = content b @ ds"
  using inv n
proof (cases rule: readFd_split)
  case (extra b1 d1 d2)
  then show ?thesis using Buffer_append_ok [of b1 d2] room by auto
qed blast

lemma readFd_safe:
  assumes inv: "buf_inv b" and n: "length ds \<le> readv_room b"
  shows "safeE {LengthError} (\<lambda>(k, e, b'). k = int (length ds) \<and> e = None \<and> buf_inv b' \<and> content b' = content b @ ds)
    (readFd (ReadvOk ds) b)"
  using inv n
proof (cases rule: readFd_split)
  case (extra b1 d1 d2)
  have "length d2 \<le> vector_max" using extra(2) by (simp add: extrabuf_size_def vector_max_def)
  from Buffer_append_safe [OF extra(3) this] show ?thesis
    unfolding extra(6) by (rule safeE_bind) (use extra in auto)
qed auto

section \<open>The interface its clients rely on\<close>

text \<open>
  A bounded byte queue: \<open>put\<close> appends, \<open>get\<close> removes from the front, and both keep the
  invariant. \<open>room\<close> says that so many more bytes can be stored.
\<close>

locale byte_queue =
  fixes inv :: "'b \<Rightarrow> bool" and cont :: "'b \<Rightarrow> char list" and room :: "'b \<Rightarrow> nat \<Rightarrow> bool"
    and put :: "char list \<Rightarrow> 'b \<Rightarrow> 'b res" and get :: "nat \<Rightarrow> 'b \<Rightarrow> 'b res"
  assumes put_law: "inv b \<Longrightarrow> room b (length xs + k) \<Longrightarrow>
      \<exists>b'. put xs b = Inr b' \<and> inv b' \<and> cont b' = cont b @ xs \<and> room b' k"
    and get_law: "inv b \<Longrightarrow> n \<le> length (cont b) \<Longrightarrow>
      \<exists>b'. get n b = Inr b' \<and> inv b' \<and> cont b' = drop n (cont b) \<and> (\<forall>k. room b k \<longrightarrow> room b' k)"
    and get_underflow: "inv b \<Longrightarrow> length (cont b) < n \<Longrightarrow> get n b = Inl AssertFail"
begin

lemma put_all_law:
  "inv b \<Longrightarrow> room b (length (concat xss) + k) \<Longrightarrow>
     \<exists>b'. foldE put xss b = Inr b' \<and> inv b' \<and> cont b' = cont b @ concat xss \<and> room b' k"
proof (induction xss arbitrary: b)
  case (Cons xs xss)
  then have "room b (length xs + (length (concat xss) + k))"
    by (simp add: add.assoc)
  then obtain b1 where b1: "put xs b = Inr b1" "inv b1" "cont b1 = cont b @ xs"
      "room b1 (length (concat xss) + k)"
    using put_law Cons.prems(1) by blast
  then show ?case
    using Cons.IH [OF b1(2,4)] by auto
qed simp

lemma put_get_law:
  assumes "inv b" and "room b (length xs)"
  shows "\<exists>b1 b2. put xs b = Inr b1 \<and> get (length (cont b)) b1 = Inr b2 \<and> inv b2 \<and> cont b2 = xs"
proof -
  obtain b1 where b1: "put xs b = Inr b1" "inv b1" "cont b1 = cont b @ xs"
    using put_law [of b xs 0] assms by auto
  then show ?thesis
    using get_law [OF b1(2), of "length (cont b)"] by auto
qed

end

interpretation bufq: byte_queue buf_inv content buf_room Buffer_append retrieve
proof
  fix b k and xs :: "char list"
  assume b: "buf_inv b" "buf_room b (length xs + k)"
  then have "writerIndex b + length xs \<le> vector_max" by (simp add: buf_room_def)
  from Buffer_append_ok [OF b(1) this] b(2)
  show "\<exists>b'. Buffer_append xs b = Inr b' \<and> buf_inv b' \<and> content b' = content b @ xs \<and> buf_room b' k"
    by (fastforce simp: buf_room_def)
next
  fix b n
  assume b: "buf_inv b" "n \<le> length (content b)"
  from retrieve_ok [OF b]
  show "\<exists>b'. retrieve n b = Inr b' \<and> buf_inv b' \<and> content b' = drop n (content b) \<and>
      (\<forall>k. buf_room b k \<longrightarrow> buf_room b' k)"
    by (fastforce simp: buf_room_def max_def split: if_splits)
next
  show "\<And>b n. buf_inv b \<Longrightarrow> length (content b) < n \<Longrightarrow> retrieve n b = Inl AssertFail"
    by (rule retrieve_fail)
qed

section \<open>Sequences of operations refine operations on the content\<close>

datatype buffer_op =
    OpAppend "char list" | OpRetrieve nat | OpRetrieveAll | OpUnwrite nat
  | OpEnsureWritable nat | OpShrink nat

fun buffer_step :: "buffer_op \<Rightarrow> Buffer \<Rightarrow> Buffer res" where
  "buffer_step (OpAppend ds) b = Buffer_append ds b"
| "buffer_step (OpRetrieve n) b = retrieve n b"
| "buffer_step OpRetrieveAll b = Inr (retrieveAll b)"
| "buffer_step (OpUnwrite n) b = unwrite n b"
| "buffer_step (OpEnsureWritable n) b = ensureWritableBytes n b"
| "buffer_step (OpShrink n) b = shrink n b"

fun content_step :: "buffer_op \<Rightarrow> char list \<Rightarrow> char list option" where
  "content_step (OpAppend ds) xs = Some (xs @ ds)"
| "content_step (OpRetrieve n) xs = (if n \<le> length xs then Some (drop n xs) else None)"
| "content_step OpRetrieveAll xs = Some []"
| "content_step (OpUnwrite n) xs =
     (if n \<le> length xs then Some (take (length xs - n) xs) else None)"
| "content_step (OpEnsureWritable n) xs = Some xs"
| "content_step (OpShrink n) xs = (if length xs < 2 ^ 31 then Some xs else None)"

fun content_run :: "buffer_op list \<Rightarrow> char list \<Rightarrow> char list option" where
  "content_run [] xs = Some xs"
| "content_run (p # ps) xs = Option.bind (content_step p xs) (content_run ps)"

fun op_bytes :: "buffer_op \<Rightarrow> nat" where
  "op_bytes (OpAppend ds) = length ds"
| "op_bytes (OpEnsureWritable n) = n"
| "op_bytes (OpShrink n) = n"
| "op_bytes _ = 0"

lemma buffer_step_refines:
  assumes inv: "buf_inv b" and cheap: "kCheapPrepend \<le> readerIndex b"
    and room: "writerIndex b + op_bytes p \<le> vector_max"
    and spec: "content_step p (content b) = Some xs"
  shows "\<exists>b'. buffer_step p b = Inr b' \<and> buf_inv b' \<and> kCheapPrepend \<le> readerIndex b' \<and>
    writerIndex b' \<le> writerIndex b + op_bytes p \<and> content b' = xs"
proof -
  have rw: "readerIndex b \<le> writerIndex b" using inv by (simp add: buf_inv_def)
  show ?thesis
  proof (cases p)
    case (OpAppend ds)
    with Buffer_append_ok [OF inv, of ds] cheap room spec show ?thesis by auto
  next
    case (OpRetrieve n)
    with retrieve_ok [OF inv, of n] cheap spec rw show ?thesis by (fastforce split: if_splits)
  next
    case OpRetrieveAll
    with retrieveAll_ok [OF inv] cheap spec rw show ?thesis by (simp add: retrieveAll_def)
  next
    case (OpUnwrite n)
    with unwrite_ok [OF inv, of n] cheap spec show ?thesis by (fastforce split: if_splits)
  next
    case (OpEnsureWritable n)
    with ensureWritableBytes_ok [OF inv, of n] cheap room spec show ?thesis by fastforce
  next
    case (OpShrink n)
    have "kCheapPrepend + length (content b) \<le> writerIndex b"
      using cheap rw buf_sizes(3) [OF inv] by simp
    moreover have "length (content b) < 2 ^ 31" "xs = content b"
      using spec OpShrink by (simp_all split: if_splits)
    moreover have "kCheapPrepend + length (content b) + n \<le> vector_max"
      using room OpShrink \<open>kCheapPrepend + length (content b) \<le> writerIndex b\<close> by simp
    ultimately show ?thesis
      using shrink_ok [OF inv, of n] OpShrink by fastforce
  qed
qed

text \<open>
  C1. Starting from a buffer whose reader index is not below \<^verbatim>\<open>kCheapPrepend\<close>, every sequence of
  appends, retrieves, unwrites, reservations and shrinks that is legal on the byte string it holds
  runs without a failing assertion or exception, keeps
  \<open>readerIndex \<le> writerIndex \<le> size\<close>, and leaves exactly the byte string the same operations
  give on lists: the index arithmetic, the move to the front in \<^verbatim>\<open>makeSpace\<close> and the
  reallocation never lose, duplicate or reorder a byte.
\<close>

theorem buffer_run_refines:
  assumes "buf_inv b" and "kCheapPrepend \<le> readerIndex b"
    and "writerIndex b + sum_list (map op_bytes ps) \<le> vector_max"
    and "content_run ps (content b) = Some xs"
  shows "\<exists>b'. foldE buffer_step ps b = Inr b' \<and> buf_inv b' \<and> kCheapPrepend \<le> readerIndex b' \<and>
    content b' = xs"
  using assms
proof (induction ps arbitrary: b)
  case (Cons p ps)
  then obtain ys where ys: "content_step p (content b) = Some ys" "content_run ps ys = Some xs"
    by (auto simp: bind_eq_Some_conv)
  from Cons.prems(3) have "writerIndex b + op_bytes p \<le> vector_max" by simp
  from buffer_step_refines [OF Cons.prems(1,2) this ys(1)]
  obtain b1 where b1: "buffer_step p b = Inr b1" "buf_inv b1" "kCheapPrepend \<le> readerIndex b1"
      "writerIndex b1 \<le> writerIndex b + op_bytes p" "content b1 = ys"
    by blast
  then show ?case
    using Cons.IH [OF b1(2,3)] Cons.prems(3) ys(2) by auto
qed simp

theorem buffer_run_refines_witness:
  "\<exists>b b'. Buffer_new kInitialSize = Inr b \<and>
     foldE buffer_step [OpAppend ''hello world'', OpRetrieve 6, OpShrink 0, OpUnwrite 2] b = Inr b' \<and>
     content b' = ''wor''"
proof -
  let ?ps = "[OpAppend ''hello world'', OpRetrieve 6, OpShrink 0, OpUnwrite 2]"
  obtain b where b: "Buffer_new kInitialSize = Inr b" "buf_inv b" "content b = []"
      "kCheapPrepend \<le> readerIndex b" "writerIndex b = kCheapPrepend"
    using buf_inv_new [of kInitialSize] by (auto simp: kInitialSize_def vector_max_def kCheapPrepend_def)
  have run: "content_run ?ps (content b) = Some ''wor''"
    using b(3) by simp
  have room: "writerIndex b + sum_list (map op_bytes ?ps) \<le> vector_max"
    using b(5) by (simp add: vector_max_def kCheapPrepend_def)
  show ?thesis
    using b(1) buffer_run_refines [OF b(2,4) room run] by blast
qed

section \<open>Integers, searches and reads\<close>

lemma bytes_at_front:
  assumes "buf_inv b" and "content b = us @ vs"
  shows "bytes_at b (peek b) (peek b + length us) = us"
proof -
  have "bytes_at b (peek b) (peek b + length us) = take (length us) (content b)"
  proof -
    have "length us \<le> writerIndex b - readerIndex b"
      using buf_sizes(3) [OF assms(1)] assms(2) by simp
    then show ?thesis
      by (simp add: bytes_at_def content_def peek_def subrange_def min_def)
  qed
  then show ?thesis using assms(2) by simp
qed

lemma networkToHost_bytes:
  "networkToHost64 (bytes_word (rev (word_bytes x))) = x"
  "networkToHost32 (bytes_word (rev (word_bytes y))) = y"
  "networkToHost16 (bytes_word (rev (word_bytes z))) = z"
  by (simp_all add: networkToHost64_def networkToHost32_def networkToHost16_def
      bswap_def [symmetric] bswap_bswap)

lemma read_fields:
  assumes inv: "buf_inv b"
  shows "content b = rev (word_bytes x) @ rest \<Longrightarrow>
      \<exists>b'. readInt64 b = Inr (x, b') \<and> buf_inv b' \<and> content b' = rest"
    and "content b = rev (word_bytes y) @ rest \<Longrightarrow>
      \<exists>b'. readInt32 b = Inr (y, b') \<and> buf_inv b' \<and> content b' = rest"
    and "content b = rev (word_bytes z) @ rest \<Longrightarrow>
      \<exists>b'. readInt16 b = Inr (z, b') \<and> buf_inv b' \<and> content b' = rest"
    and "content b = rev (word_bytes w) @ rest \<Longrightarrow>
      \<exists>b'. readInt8 b = Inr (w, b') \<and> buf_inv b' \<and> content b' = rest"
proof -
  assume c: "content b = rev (word_bytes x) @ rest"
  show "\<exists>b'. readInt64 b = Inr (x, b') \<and> buf_inv b' \<and> content b' = rest"
    using retrieve_ok [OF inv, of 8] bytes_at_front [OF inv c] c
    by (auto simp: readInt64_def peekInt64_def retrieveInt64_def readable_content [OF inv]
        networkToHost_bytes)
next
  assume c: "content b = rev (word_bytes y) @ rest"
  show "\<exists>b'. readInt32 b = Inr (y, b') \<and> buf_inv b' \<and> content b' = rest"
    using retrieve_ok [OF inv, of 4] bytes_at_front [OF inv c] c
    by (auto simp: readInt32_def peekInt32_def retrieveInt32_def readable_content [OF inv]
        networkToHost_bytes)
next
  assume c: "content b = rev (word_bytes z) @ rest"
  show "\<exists>b'. readInt16 b = Inr (z, b') \<and> buf_inv b' \<and> content b' = rest"
    using retrieve_ok [OF inv, of 2] bytes_at_front [OF inv c] c
    by (auto simp: readInt16_def peekInt16_def retrieveInt16_def readable_content [OF inv]
        networkToHost_bytes)
next
  have one: "rev (word_bytes w) = word_bytes w" by (simp add: word_bytes_def)
  assume c: "content b = rev (word_bytes w) @ rest"
  show "\<exists>b'. readInt8 b = Inr (w, b') \<and> buf_inv b' \<and> content b' = rest"
    using retrieve_ok [OF inv, of 1] bytes_at_front [OF inv c] c
    by (auto simp: readInt8_def peekInt8_def retrieveInt8_def readable_content [OF inv]
        one bytes_word_bytes)
qed

datatype int_width = W64 | W32 | W16 | W8

datatype int_field = Int64 "64 word" | Int32 "32 word" | Int16 "16 word" | Int8 "8 word"

fun width_of :: "int_field \<Rightarrow> int_width" where
  "width_of (Int64 x) = W64"
| "width_of (Int32 x) = W32"
| "width_of (Int16 x) = W16"
| "width_of (Int8 x) = W8"

fun append_field :: "int_field \<Rightarrow> Buffer \<Rightarrow> Buffer res" where
  "append_field (Int64 x) b = appendInt64 x b"
| "append_field (Int32 x) b = appendInt32 x b"
| "append_field (Int16 x) b = appendInt16 x b"
| "append_field (Int8 x) b = appendInt8 x b"

fun read_field :: "int_width \<Rightarrow> Buffer \<Rightarrow> (int_field \<times> Buffer) res" where
  "read_field W64 b = bindE (readInt64 b) (\<lambda>(x, b'). Inr (Int64 x, b'))"
| "read_field W32 b = bindE (readInt32 b) (\<lambda>(x, b'). Inr (Int32 x, b'))"
| "read_field W16 b = bindE (readInt16 b) (\<lambda>(x, b'). Inr (Int16 x, b'))"
| "read_field W8 b = bindE (readInt8 b) (\<lambda>(x, b'). Inr (Int8 x, b'))"

fun read_fields_seq :: "int_width list \<Rightarrow> Buffer \<Rightarrow> (int_field list \<times> Buffer) res" where
  "read_fields_seq [] b = Inr ([], b)"
| "read_fields_seq (w # ws) b =
     bindE (read_field w b) (\<lambda>(f, b1). bindE (read_fields_seq ws b1) (\<lambda>(fs, b2). Inr (f # fs, b2)))"

text \<open>The bytes of a field on the wire: most significant byte first.\<close>

fun field_wire :: "int_field \<Rightarrow> char list" where
  "field_wire (Int64 x) = rev (mem_bytes 8 (unat x))"
| "field_wire (Int32 x) = rev (mem_bytes 4 (unat x))"
| "field_wire (Int16 x) = rev (mem_bytes 2 (unat x))"
| "field_wire (Int8 x) = rev (mem_bytes 1 (unat x))"

lemma word_bytes_widths:
  "mem_bytes 8 (unat (x :: 64 word)) = word_bytes x"
  "mem_bytes 4 (unat (y :: 32 word)) = word_bytes y"
  "mem_bytes 2 (unat (z :: 16 word)) = word_bytes z"
  by (simp_all add: word_bytes_def)

lemma append_field_wire: "append_field f = Buffer_append (field_wire f)"
proof (cases f)
  case (Int8 x)
  then show ?thesis
    by (simp add: fun_eq_iff appendInt8_def word_bytes_def)
qed (simp_all add: fun_eq_iff appendInt64_def appendInt32_def appendInt16_def hostToNetwork64_def
    hostToNetwork32_def hostToNetwork16_def word_bytes_bswap word_bytes_widths)

lemma append_field_seq: "foldE append_field fs b = foldE Buffer_append (map field_wire fs) b"
  by (induction fs arbitrary: b) (auto simp: append_field_wire bindE_def split: sum.splits)

lemma read_field_wire:
  assumes "buf_inv b" and "content b = field_wire f @ rest"
  shows "\<exists>b'. read_field (width_of f) b = Inr (f, b') \<and> buf_inv b' \<and> content b' = rest"
proof (cases f)
  case (Int64 x)
  with assms read_fields(1) [OF assms(1), of x rest] show ?thesis by (auto simp: word_bytes_def)
next
  case (Int32 x)
  with assms read_fields(2) [OF assms(1), of x rest] show ?thesis by (auto simp: word_bytes_def)
next
  case (Int16 x)
  with assms read_fields(3) [OF assms(1), of x rest] show ?thesis by (auto simp: word_bytes_def)
next
  case (Int8 x)
  with assms read_fields(4) [OF assms(1), of x rest] show ?thesis by (auto simp: word_bytes_def)
qed

lemma read_fields_wire:
  "buf_inv b \<Longrightarrow> content b = concat (map field_wire fs) @ rest \<Longrightarrow>
     \<exists>b'. read_fields_seq (map width_of fs) b = Inr (fs, b') \<and> buf_inv b' \<and> content b' = rest"
proof (induction fs arbitrary: b)
  case (Cons f fs)
  then have "content b = field_wire f @ concat (map field_wire fs) @ rest" by simp
  from read_field_wire [OF Cons.prems(1) this]
  obtain b1 where b1: "read_field (width_of f) b = Inr (f, b1)" "buf_inv b1"
      "content b1 = concat (map field_wire fs) @ rest"
    by blast
  then show ?case
    using Cons.IH [OF b1(2,3)] by auto
qed simp

text \<open>
  C24. Any sequence of 64-, 32-, 16- and 8-bit integers appended to a buffer goes onto the wire most
  significant byte first behind what the buffer holds, and, once that is retrieved, reading the
  same widths back in the same order returns the same integers and empties the buffer.
\<close>

theorem int_fields_roundtrip:
  assumes "buf_inv b" and "buf_room b (length (concat (map field_wire fs)))"
  shows "\<exists>b1 b2 b3. foldE append_field fs b = Inr b1 \<and>
    content b1 = content b @ concat (map field_wire fs) \<and>
    retrieve (length (content b)) b1 = Inr b2 \<and>
    read_fields_seq (map width_of fs) b2 = Inr (fs, b3) \<and> buf_inv b3 \<and> content b3 = []"
proof -
  obtain b1 where b1: "foldE append_field fs b = Inr b1" "buf_inv b1"
      "content b1 = content b @ concat (map field_wire fs)"
    using bufq.put_all_law [OF assms(1), of "map field_wire fs" 0] assms(2)
    by (auto simp: append_field_seq)
  then obtain b2 where b2: "retrieve (length (content b)) b1 = Inr b2" "buf_inv b2"
      "content b2 = concat (map field_wire fs) @ []"
    using bufq.get_law [OF b1(2), of "length (content b)"] by auto
  show ?thesis
    using b1 b2(1) read_fields_wire [OF b2(2,3)] by blast
qed

theorem int_fields_roundtrip_witness:
  "\<exists>b b1. Buffer_new 64 = Inr b \<and>
     foldE append_field [Int32 0x01020304, Int16 0xFFFE, Int8 7, Int64 (- 1)] b = Inr b1 \<and>
     take 4 (content b1) = [CHR 0x01, CHR 0x02, CHR 0x03, CHR 0x04]"
proof -
  let ?fs = "[Int32 0x01020304, Int16 0xFFFE, Int8 7, Int64 (- 1)]"
  obtain b where b: "Buffer_new 64 = Inr b" "buf_inv b" "content b = []" "writerIndex b = kCheapPrepend"
    using buf_inv_new [of 64] by (auto simp: vector_max_def kCheapPrepend_def)
  have len: "length (concat (map field_wire ?fs)) = 15" by simp
  then have room: "buf_room b (length (concat (map field_wire ?fs)))"
    using b(4) by (simp only: buf_room_def len) (simp add: vector_max_def kCheapPrepend_def)
  obtain b1 where b1: "foldE append_field ?fs b = Inr b1"
      "content b1 = content b @ concat (map field_wire ?fs)"
    using int_fields_roundtrip [OF b(2) room] by blast
  have "field_wire (Int32 0x01020304) = [CHR 0x01, CHR 0x02, CHR 0x03, CHR 0x04]"
    by (simp add: mem_bytes_numeral char_of_eq_iff)
  then have "take 4 (content b1) = [CHR 0x01, CHR 0x02, CHR 0x03, CHR 0x04]"
    unfolding b1(2) b(3) by simp
  then show ?thesis
    using b(1) b1(1) by blast
qed

text \<open>
  C26. \<^verbatim>\<open>readFd\<close> appends exactly the bytes \<^verbatim>\<open>readv\<close> delivered, in order, whether they fit the
  writable space or spill into the 64 KiB stack buffer, returns their number, and leaves the buffer
  as it was when the read failed, handing the saved \<^verbatim>\<open>errno\<close> to the caller.
\<close>

theorem readFd_appends:
  assumes "buf_inv b" and "length (buffer b) + extrabuf_size \<le> vector_max"
    and "length ds \<le> readv_room b"
  shows "(\<exists>b'. readFd (ReadvOk ds) b = Inr (int (length ds), None, b') \<and> buf_inv b' \<and>
      content b' = content b @ ds) \<and> readFd (ReadvErr e) b = Inr (-1, Some e, b)"
  using readFd_ok [OF assms(1,3,2)] by (simp add: readFd_def)

theorem readFd_appends_witness:
  "\<exists>b b'. Buffer_new 2 = Inr b \<and> readFd (ReadvOk ''abcdef'') b = Inr (6, None, b') \<and>
     content b' = ''abcdef''"
proof -
  obtain b where b: "Buffer_new 2 = Inr b" "buf_inv b" "content b = []" "writerIndex b = kCheapPrepend"
      "length (buffer b) = kCheapPrepend + 2"
    using buf_inv_new [of 2] by (auto simp: vector_max_def kCheapPrepend_def)
  have room: "length (buffer b) + extrabuf_size \<le> vector_max"
    using b(5) by (simp add: vector_max_def kCheapPrepend_def extrabuf_size_def)
  have fits: "length ''abcdef'' \<le> readv_room b"
    using b(4,5) buf_sizes(2) [OF b(2)] by (simp add: readv_room_def extrabuf_size_def Let_def)
  obtain b' where "readFd (ReadvOk ''abcdef'') b = Inr (int (length ''abcdef''), None, b')"
      "content b' = content b @ ''abcdef''"
    using readFd_appends [OF b(2) room fits] by blast
  then show ?thesis
    using b(1,3) by auto
qed

end
