(* ===== verification/Format.thy ===== *)
theory Format
  imports Prelude
begin

text \<open>
  The part of \<^verbatim>\<open>printf\<close> formatting the sources use: decimal conversions with a minimum width,
  padded with blanks or zeros, and the truncation \<^verbatim>\<open>snprintf\<close> makes at the end of its buffer.
\<close>

definition digit_char :: "nat \<Rightarrow> char" where
  "digit_char d = char_of (48 + d)"

definition char_digit :: "char \<Rightarrow> nat option" where
  "char_digit c = (let n = of_char c in if 48 \<le> n \<and> n \<le> (57 :: nat) then Some (n - 48) else None)"

fun dec_digits :: "nat \<Rightarrow> string" where
  "dec_digits n = (if n < 10 then [digit_char n] else dec_digits (n div 10) @ [digit_char (n mod 10)])"

declare dec_digits.simps [simp del]

definition fmt_d :: "int \<Rightarrow> string" where
  "fmt_d i = (if i < 0 then CHR ''-'' # dec_digits (nat (- i)) else dec_digits (nat i))"

definition pad_left :: "char \<Rightarrow> nat \<Rightarrow> string \<Rightarrow> string" where
  "pad_left c w s = replicate (w - length s) c @ s"

text \<open>\<^verbatim>\<open>%wd\<close> and \<^verbatim>\<open>%0wd\<close>: the zeros come after the sign.\<close>

definition fmt_wd :: "nat \<Rightarrow> int \<Rightarrow> string" where
  "fmt_wd w i = pad_left (CHR '' '') w (fmt_d i)"

definition fmt_0wd :: "nat \<Rightarrow> int \<Rightarrow> string" where
  "fmt_0wd w i =
     (if i < 0 then CHR ''-'' # pad_left (CHR ''0'') (w - 1) (dec_digits (nat (- i)))
      else pad_left (CHR ''0'') w (dec_digits (nat i)))"

definition snprintf_buf :: "nat \<Rightarrow> string \<Rightarrow> string" where
  "snprintf_buf sz s = take (sz - 1) s"

text \<open>The number a string of decimal digits stands for.\<close>

fun dec_value_acc :: "nat \<Rightarrow> string \<Rightarrow> nat option" where
  "dec_value_acc acc [] = Some acc"
| "dec_value_acc acc (c # cs) =
     (case char_digit c of None \<Rightarrow> None | Some d \<Rightarrow> dec_value_acc (10 * acc + d) cs)"

definition dec_value :: "string \<Rightarrow> nat option" where
  "dec_value s = (if s = [] then None else dec_value_acc 0 s)"

section \<open>Lemmas\<close>

lemma eq_char_of: "c = char_of (n :: nat) \<longleftrightarrow> take_bit 8 n = of_char c"
  using char_of_eq_iff [of n c] by auto

lemma char_digit_char [simp]: "d < 10 \<Longrightarrow> char_digit (digit_char d) = Some d"
  by (simp add: char_digit_def digit_char_def Let_def)

lemma dec_digits_small: "n < 10 \<Longrightarrow> dec_digits n = [digit_char n]"
  by (simp add: dec_digits.simps)

lemma dec_digits_large: "10 \<le> n \<Longrightarrow> dec_digits n = dec_digits (n div 10) @ [digit_char (n mod 10)]"
  by (subst dec_digits.simps) simp

lemma dec_digits_not_Nil [simp]: "dec_digits n \<noteq> []"
  by (subst dec_digits.simps) simp

lemma dec_value_acc_append:
  "dec_value_acc a (xs @ ys) = Option.bind (dec_value_acc a xs) (\<lambda>v. dec_value_acc v ys)"
  by (induction xs arbitrary: a) (auto split: option.splits)

lemma dec_value_acc_digits:
  "dec_value_acc 0 (dec_digits n) = Some n"
proof (induction n rule: dec_digits.induct)
  case (1 n)
  then show ?case
    by (cases "n < 10") (simp_all add: dec_digits_small dec_digits_large dec_value_acc_append)
qed

lemma dec_value_digits [simp]: "dec_value (dec_digits n) = Some n"
  by (simp add: dec_value_def dec_value_acc_digits)

lemma dec_value_pad: "dec_value (pad_left (CHR ''0'') w (dec_digits n)) = Some n"
proof -
  have z: "char_digit (CHR ''0'') = Some 0" by (simp add: char_digit_def Let_def)
  have "dec_value_acc 0 (replicate k (CHR ''0'')) = Some 0" for k
    by (induction k) (simp_all add: z)
  then show ?thesis
    by (simp add: dec_value_def pad_left_def dec_value_acc_append dec_value_acc_digits)
qed

lemma dec_digits_length: "0 < k \<Longrightarrow> length (dec_digits n) \<le> k \<longleftrightarrow> n < 10 ^ k"
proof (induction n arbitrary: k rule: dec_digits.induct)
  case (1 n)
  show ?case
  proof (cases "n < 10")
    case True
    moreover have "(10 :: nat) \<le> 10 ^ k" using 1(2) by (cases k) auto
    ultimately show ?thesis using 1(2) by (simp add: dec_digits_small)
  next
    case False
    show ?thesis
    proof (cases "k = 1")
      case True
      moreover have "length (dec_digits (n div 10)) \<noteq> 0" by simp
      ultimately show ?thesis using False by (simp add: dec_digits_large del: length_0_conv)
    next
      case nk: False
      then obtain j where j: "k = Suc j" "0 < j" using 1(2) by (cases k) auto
      have "length (dec_digits n) \<le> k \<longleftrightarrow> n div 10 < 10 ^ j"
        using 1(1) [OF False j(2)] False j(1) by (simp add: dec_digits_large)
      then show ?thesis using j(1) by (simp add: div_less_iff_less_mult mult.commute)
    qed
  qed
qed

lemma dec_digits_numeral: "set (dec_digits n) \<subseteq> digit_char ` {0..<10}"
proof (induction n rule: dec_digits.induct)
  case (1 n)
  then show ?case
    by (cases "n < 10") (auto simp: dec_digits_small dec_digits_large)
qed

lemma length_pad_left [simp]: "length (pad_left c w s) = max w (length s)"
  by (simp add: pad_left_def)

lemma pad_left_exact: "w \<le> length s \<Longrightarrow> pad_left c w s = s"
  by (simp add: pad_left_def)

end
