(* ===== verification/Date.thy ===== *)
theory Date
  imports Format
begin

text \<open>
  \<^verbatim>\<open>muduo/base/Date\<close>: days counted by their Julian Day Number. The conversions are translated
  with truncating division and a guard on every \<^verbatim>\<open>int\<close> subexpression; they are compared with the
  proleptic Gregorian calendar, written down independently as a successor function on dates.
\<close>

section \<open>The class\<close>

record YearMonthDay =
  ymd_year :: int
  ymd_month :: int
  ymd_day :: int

record Date =
  julianDayNumber :: int

definition kDaysPerWeek :: int where
  "kDaysPerWeek = 7"

definition getJulianDayNumber :: "int \<Rightarrow> int \<Rightarrow> int \<Rightarrow> int res" where
  "getJulianDayNumber year month day =
     (let a = (14 - month) sdiv 12;
          y = year + 4800 - a;
          m = month + 12 * a - 3;
          s1 = day + (153 * m + 2) sdiv 5;
          s2 = s1 + y * 365;
          s3 = s2 + y sdiv 4;
          s4 = s3 - y sdiv 100;
          s5 = s4 + y sdiv 400;
          s6 = s5 - 32045
      in ints32 [14 - month, year + 4800, y, 12 * a, month + 12 * a, m, 153 * m, 153 * m + 2,
                 s1, y * 365, s2, s3, s4, s5, s6] (Inr s6))"

definition getYearMonthDay :: "int \<Rightarrow> YearMonthDay res" where
  "getYearMonthDay jdn =
     (let a = jdn + 32044;
          b = (4 * a + 3) sdiv 146097;
          c = a - (b * 146097) sdiv 4;
          d = (4 * c + 3) sdiv 1461;
          e = c - (1461 * d) sdiv 4;
          m = (5 * e + 2) sdiv 153;
          ymd = \<lparr>ymd_year = b * 100 + d - 4800 + m sdiv 10,
                 ymd_month = m + 3 - 12 * (m sdiv 10),
                 ymd_day = e - (153 * m + 2) sdiv 5 + 1\<rparr>
      in ints32 [a, 4 * a, 4 * a + 3, b * 146097, c, 4 * c, 4 * c + 3, 1461 * d, e, 5 * e, 5 * e + 2,
                 153 * m, 153 * m + 2, e - (153 * m + 2) sdiv 5, ymd_day ymd, m + 3, ymd_month ymd,
                 b * 100, b * 100 + d, b * 100 + d - 4800, ymd_year ymd] (Inr ymd))"

definition kJulianDayOf1970_01_01 :: int where
  "kJulianDayOf1970_01_01 = (case getJulianDayNumber 1970 1 1 of Inr n \<Rightarrow> n | Inl _ \<Rightarrow> 0)"

definition Date_invalid :: Date where
  "Date_invalid = \<lparr>julianDayNumber = 0\<rparr>"

definition Date_ymd :: "int \<Rightarrow> int \<Rightarrow> int \<Rightarrow> Date res" where
  "Date_ymd y m d = bindE (getJulianDayNumber y m d) (\<lambda>n. Inr \<lparr>julianDayNumber = n\<rparr>)"

definition Date_jdn :: "int \<Rightarrow> Date" where
  "Date_jdn n = \<lparr>julianDayNumber = n\<rparr>"

record tm =
  tm_year :: int
  tm_mon :: int
  tm_mday :: int
  tm_hour :: int
  tm_min :: int
  tm_sec :: int

definition Date_tm :: "tm \<Rightarrow> Date res" where
  "Date_tm t = ints32 [tm_year t + 1900, tm_mon t + 1]
     (Date_ymd (tm_year t + 1900) (tm_mon t + 1) (tm_mday t))"

definition Date_swap :: "Date \<Rightarrow> Date \<Rightarrow> Date \<times> Date" where
  "Date_swap this that = (that, this)"

definition Date_valid :: "Date \<Rightarrow> bool" where
  "Date_valid d \<longleftrightarrow> julianDayNumber d > 0"

definition yearMonthDay :: "Date \<Rightarrow> YearMonthDay res" where
  "yearMonthDay d = getYearMonthDay (julianDayNumber d)"

definition Date_year :: "Date \<Rightarrow> int res" where
  "Date_year d = bindE (yearMonthDay d) (\<lambda>ymd. Inr (ymd_year ymd))"

definition Date_month :: "Date \<Rightarrow> int res" where
  "Date_month d = bindE (yearMonthDay d) (\<lambda>ymd. Inr (ymd_month ymd))"

definition Date_day :: "Date \<Rightarrow> int res" where
  "Date_day d = bindE (yearMonthDay d) (\<lambda>ymd. Inr (ymd_day ymd))"

definition weekDay :: "Date \<Rightarrow> int res" where
  "weekDay d = ints32 [julianDayNumber d + 1] (Inr ((julianDayNumber d + 1) smod kDaysPerWeek))"

definition Date_toIsoString :: "Date \<Rightarrow> string res" where
  "Date_toIsoString d = bindE (yearMonthDay d) (\<lambda>ymd.
     Inr (snprintf_buf 32 (fmt_wd 4 (ymd_year ymd) @ ''-'' @ fmt_0wd 2 (ymd_month ymd) @ ''-'' @
       fmt_0wd 2 (ymd_day ymd))))"

definition Date_less :: "Date \<Rightarrow> Date \<Rightarrow> bool" where
  "Date_less x y \<longleftrightarrow> julianDayNumber x < julianDayNumber y"

definition Date_equal :: "Date \<Rightarrow> Date \<Rightarrow> bool" where
  "Date_equal x y \<longleftrightarrow> julianDayNumber x = julianDayNumber y"

section \<open>The Gregorian calendar\<close>

definition leap_year :: "int \<Rightarrow> bool" where
  "leap_year y \<longleftrightarrow> y mod 4 = 0 \<and> (y mod 100 \<noteq> 0 \<or> y mod 400 = 0)"

definition month_days :: "int \<Rightarrow> int \<Rightarrow> int" where
  "month_days y m =
     (if m = 2 then (if leap_year y then 29 else 28)
      else if m \<in> {4, 6, 9, 11} then 30 else 31)"

definition valid_ymd :: "YearMonthDay \<Rightarrow> bool" where
  "valid_ymd d \<longleftrightarrow> 1 \<le> ymd_month d \<and> ymd_month d \<le> 12 \<and> 1 \<le> ymd_day d \<and>
     ymd_day d \<le> month_days (ymd_year d) (ymd_month d)"

definition next_ymd :: "YearMonthDay \<Rightarrow> YearMonthDay" where
  "next_ymd d =
     (if ymd_day d < month_days (ymd_year d) (ymd_month d) then d\<lparr>ymd_day := ymd_day d + 1\<rparr>
      else if ymd_month d < 12 then d\<lparr>ymd_month := ymd_month d + 1, ymd_day := 1\<rparr>
      else \<lparr>ymd_year = ymd_year d + 1, ymd_month = 1, ymd_day = 1\<rparr>)"

text \<open>
  The years and day numbers whose conversions stay inside \<^verbatim>\<open>int\<close> and whose dividends are not
  negative; they contain every date from 4800 BC to the year 1400000.
\<close>

definition year_range :: "int \<Rightarrow> bool" where
  "year_range y \<longleftrightarrow> -4799 \<le> y \<and> y \<le> 1400000"

definition jdn_range :: "int \<Rightarrow> bool" where
  "jdn_range n \<longleftrightarrow> -31738 \<le> n \<and> n \<le> 511000000"

text \<open>Years and months counted from March, as both conversions do internally.\<close>

definition march_jdn :: "int \<Rightarrow> int \<Rightarrow> int \<Rightarrow> int" where
  "march_jdn y m d = d + (153 * m + 2) div 5 + y * 365 + y div 4 - y div 100 + y div 400 - 32045"

section \<open>The conversions compute the calendar\<close>

definition march_year :: "YearMonthDay \<Rightarrow> int" where
  "march_year d = ymd_year d + 4800 - (if ymd_month d \<le> 2 then 1 else 0)"

definition march_month :: "YearMonthDay \<Rightarrow> int" where
  "march_month d = (if ymd_month d \<le> 2 then ymd_month d + 9 else ymd_month d - 3)"

definition jdn_of :: "YearMonthDay \<Rightarrow> int" where
  "jdn_of d = march_jdn (march_year d) (march_month d) (ymd_day d)"

lemma month_days_le: "month_days y m \<le> 31"
  by (simp add: month_days_def)

lemma jdn_no_overflow:
  fixes y m d q5 q4 q100 q400 :: int
  assumes "0 \<le> m" "m \<le> 11" "0 \<le> y" "y \<le> 1404800" "1 \<le> d" "d \<le> 31"
    "0 \<le> q5" "q5 \<le> 337" "0 \<le> q4" "q4 \<le> 351200" "0 \<le> q100" "q100 \<le> 14048" "0 \<le> q400" "q400 \<le> 3512"
  shows "list_all in_int32 [m, 153 * m, 153 * m + 2, d + q5, y * 365, d + q5 + y * 365,
    d + q5 + y * 365 + q4, d + q5 + y * 365 + q4 - q100, d + q5 + y * 365 + q4 - q100 + q400,
    d + q5 + y * 365 + q4 - q100 + q400 - 32045]"
  using assms by (simp add: in_int32_def)

lemma getJulianDayNumber_jdn:
  assumes v: "valid_ymd d" and y: "year_range (ymd_year d)"
  shows "getJulianDayNumber (ymd_year d) (ymd_month d) (ymd_day d) = Inr (jdn_of d)"
proof -
  let ?m = "march_month d" and ?y = "march_year d"
  have m: "1 \<le> ymd_month d" "ymd_month d \<le> 12" "1 \<le> ymd_day d" "ymd_day d \<le> 31"
    using v month_days_le [of "ymd_year d" "ymd_month d"] by (auto simp: valid_ymd_def)
  have a: "(14 - ymd_month d) sdiv 12 = (if ymd_month d \<le> 2 then 1 else 0)"
    using m by (auto simp: sdiv_nonneg)
  have r: "0 \<le> ?m" "?m \<le> 11" "0 \<le> ?y" "?y \<le> 1404800"
    using m y by (auto simp: march_month_def march_year_def year_range_def)
  have e: "ymd_year d + 4800 - (14 - ymd_month d) sdiv 12 = ?y"
      "ymd_month d + 12 * ((14 - ymd_month d) sdiv 12) - 3 = ?m"
    unfolding a by (simp_all add: march_month_def march_year_def)
  have q: "0 \<le> (153 * ?m + 2) div 5" "(153 * ?m + 2) div 5 \<le> 337"
      "0 \<le> ?y div 4" "?y div 4 \<le> 351200" "0 \<le> ?y div 100" "?y div 100 \<le> 14048"
      "0 \<le> ?y div 400" "?y div 400 \<le> 3512"
    using r by linarith+
  have s: "(153 * ?m + 2) sdiv 5 = (153 * ?m + 2) div 5" "?y sdiv 4 = ?y div 4"
      "?y sdiv 100 = ?y div 100" "?y sdiv 400 = ?y div 400"
    using r by (simp_all add: sdiv_nonneg)
  have "list_all in_int32 [14 - ymd_month d, ymd_year d + 4800, ?y,
      12 * ((14 - ymd_month d) sdiv 12), ymd_month d + 12 * ((14 - ymd_month d) sdiv 12)]"
    unfolding a using m y r by (simp add: in_int32_def year_range_def)
  with jdn_no_overflow [OF r m(3,4) q] show ?thesis
    unfolding getJulianDayNumber_def Let_def e s ints32_def jdn_of_def march_jdn_def
    by (simp only: list.pred_inject simp_thms if_True)
qed

text \<open>The last day of February, month 11 of the year counted from March, depends on the year.\<close>

definition march_valid :: "int \<Rightarrow> int \<Rightarrow> int \<Rightarrow> bool" where
  "march_valid y m e \<longleftrightarrow> 0 \<le> m \<and> m \<le> 11 \<and> (153 * m + 2) div 5 \<le> e \<and>
     e < (if m = 11 then (if leap_year (y + 1) then 366 else 365) else (153 * (m + 1) + 2) div 5)"

lemma month_cases:
  fixes m :: int
  assumes "1 \<le> m" "m \<le> 12"
  shows "m = 1 \<or> m = 2 \<or> m = 3 \<or> m = 4 \<or> m = 5 \<or> m = 6 \<or> m = 7 \<or> m = 8 \<or> m = 9 \<or>
    m = 10 \<or> m = 11 \<or> m = 12"
  using assms by presburger

lemma march_month_cases:
  fixes m :: int
  assumes "0 \<le> m" "m \<le> 11"
  shows "m = 0 \<or> m = 1 \<or> m = 2 \<or> m = 3 \<or> m = 4 \<or> m = 5 \<or> m = 6 \<or> m = 7 \<or> m = 8 \<or>
    m = 9 \<or> m = 10 \<or> m = 11"
  using assms by presburger

lemma leap_year_4800: "leap_year (4800 + y) = leap_year y"
proof -
  have "(4800 + y) mod 4 = y mod 4" "(4800 + y) mod 100 = y mod 100" "(4800 + y) mod 400 = y mod 400"
    using mod_mult_self1 [of y 1200 4] mod_mult_self1 [of y 48 100] mod_mult_self1 [of y 12 400]
    by (simp_all add: add.commute)
  then show ?thesis by (simp add: leap_year_def)
qed

lemma march_valid_of:
  assumes m: "1 \<le> m" "m \<le> 12" and d: "1 \<le> d" "d \<le> month_days y m"
  shows "march_valid (y + 4800 - (if m \<le> 2 then 1 else 0)) (if m \<le> 2 then m + 9 else m - 3)
    ((153 * (if m \<le> 2 then m + 9 else m - 3) + 2) div 5 + d - 1)"
proof (cases "leap_year y")
  case True
  then show ?thesis
    using month_cases [OF m] d
    by (elim disjE; hypsubst; simp add: march_valid_def month_days_def leap_year_4800)
next
  case False
  then show ?thesis
    using month_cases [OF m] d
    by (elim disjE; hypsubst; simp add: march_valid_def month_days_def leap_year_4800)
qed

lemma valid_march:
  assumes "valid_ymd d"
  shows "march_valid (march_year d) (march_month d) ((153 * march_month d + 2) div 5 + ymd_day d - 1)"
  using assms march_valid_of unfolding march_month_def march_year_def valid_ymd_def by blast

text \<open>The quotients \<^verbatim>\<open>getYearMonthDay\<close> takes recover century, year of the century and month.\<close>

lemma div_eqI:
  fixes a b q :: int
  assumes "b * q \<le> a" "a < b * q + b"
  shows "a div b = q"
proof -
  have "a = b * q + (a - b * q)" by simp
  moreover have "0 \<le> a - b * q" "a - b * q < b" using assms by simp_all
  ultimately show ?thesis by (metis div_pos_pos_trivial div_mult_self4 add.commute add_0
      less_irrefl order_le_less_trans)
qed

lemma year_of_century:
  fixes r e :: int
  assumes "0 \<le> e" "e \<le> 365" "e = 365 \<Longrightarrow> r mod 4 = 3"
  shows "(4 * ((1461 * r) div 4 + e) + 3) div 1461 = r"
proof (rule div_eqI)
  have q: "4 * ((1461 * r) div 4) = 1461 * r - (1461 * r) mod 4"
    by (simp add: minus_mod_eq_mult_div)
  have "(1461 * r) mod 4 = r mod 4"
    using mod_mult_left_eq [of 1461 4 r] by simp
  moreover have "0 \<le> r mod 4" "r mod 4 \<le> 3" by simp_all
  ultimately show "1461 * r \<le> 4 * ((1461 * r) div 4 + e) + 3"
      "4 * ((1461 * r) div 4 + e) + 3 < 1461 * r + 1461"
    using assms q by (cases "e = 365"; simp add: distrib_left)+
qed

lemma century_of_days:
  fixes b c :: int
  assumes "0 \<le> c" "c \<le> 36524" "c = 36524 \<Longrightarrow> b mod 4 = 3"
  shows "(4 * ((b * 146097) div 4 + c) + 3) div 146097 = b"
proof (rule div_eqI)
  have q: "4 * ((b * 146097) div 4) = b * 146097 - (b * 146097) mod 4"
    by (simp add: minus_mod_eq_mult_div)
  have "(b * 146097) mod 4 = b mod 4"
    using mod_mult_right_eq [of b 146097 4] by simp
  moreover have "0 \<le> b mod 4" "b mod 4 \<le> 3" by simp_all
  ultimately show "146097 * b \<le> 4 * ((b * 146097) div 4 + c) + 3"
      "4 * ((b * 146097) div 4 + c) + 3 < 146097 * b + 146097"
    using assms q by (cases "c = 36524"; simp add: distrib_left)+
qed

lemma month_of_days:
  assumes "march_valid y m e"
  shows "(5 * e + 2) div 153 = m" and "0 \<le> e" and "e \<le> 365"
proof -
  have m: "0 \<le> m" "m \<le> 11" and e: "(153 * m + 2) div 5 \<le> e"
      "e < (if m = 11 then 366 else (153 * (m + 1) + 2) div 5)"
    using assms by (auto simp: march_valid_def split: if_splits)
  have lo: "153 * m \<le> 5 * e + 2" using e(1) by linarith
  have hi: "5 * e + 2 < 153 * m + 153" "e \<le> 365"
    using e(2) m(2) by (cases "m = 11"; simp; linarith)+
  show "(5 * e + 2) div 153 = m" using lo hi(1) by (rule div_eqI)
  show "0 \<le> e" using lo m(1) by simp
  show "e \<le> 365" by (rule hi(2))
qed

lemma march_leap:
  assumes "march_valid y m 365"
  shows "y mod 100 mod 4 = 3" and "y mod 100 = 99 \<Longrightarrow> y div 100 mod 4 = 3"
proof -
  have "m = 11"
  proof (rule ccontr)
    assume "m \<noteq> 11"
    then have m: "0 \<le> m" "m \<le> 11" "365 < (153 * (m + 1) + 2) div 5" "m \<noteq> 11"
      using assms by (simp_all add: march_valid_def)
    show False using march_month_cases [OF m(1,2)] m(3,4) by (elim disjE; hypsubst; simp)
  qed
  then have l: "leap_year (y + 1)"
    using assms by (auto simp: march_valid_def split: if_splits)
  then have "(y + 1) mod 4 = 0" by (simp add: leap_year_def)
  then have "y mod 4 = 3" by presburger
  then show "y mod 100 mod 4 = 3" by (simp add: mod_mod_cancel)
  show "y div 100 mod 4 = 3" if y: "y mod 100 = 99"
  proof -
    define b where "b = y div 100"
    have yb: "y = 100 * b + 99" using y b_def by (metis mult_div_mod_eq)
    then have yb1: "y + 1 = 100 * (b + 1)" by simp
    then have "(y + 1) mod 100 = 0" by (simp only: mod_mult_self1_is_0)
    then have "(100 * (b + 1)) mod (100 * 4) = 0" using l yb1 by (simp add: leap_year_def)
    then have "(b + 1) mod 4 = 0" unfolding mult_mod_right [symmetric] by simp
    then have "b mod 4 = 3" by presburger
    then show ?thesis by (simp add: b_def)
  qed
qed

lemma march_days_split:
  fixes y :: int
  shows "y * 365 + y div 4 - y div 100 + y div 400
    = ((y div 100) * 146097) div 4 + (1461 * (y mod 100)) div 4"
proof -
  define b r where "b = y div 100" and "r = y mod 100"
  have y: "y = b * 100 + r" by (simp add: b_def r_def)
  have r: "0 \<le> r" "r < 100" by (simp_all add: r_def)
  have "y div 4 = (r + (b * 25) * 4) div 4" unfolding y by (simp add: algebra_simps)
  also have "\<dots> = b * 25 + r div 4" by (subst div_mult_self1) simp_all
  finally have d4: "y div 4 = b * 25 + r div 4" .
  have d400: "y div 400 = b div 4"
    using zdiv_zmult2_eq [of 4 y 100] by (simp add: b_def)
  have "(b * 146097) div 4 = (b + (b * 36524) * 4) div 4" by (simp add: algebra_simps)
  also have "\<dots> = b * 36524 + b div 4" by (subst div_mult_self1) simp_all
  finally have db: "(b * 146097) div 4 = b * 36524 + b div 4" .
  have "(1461 * r) div 4 = (r + (r * 365) * 4) div 4" by (simp add: algebra_simps)
  also have "\<dots> = r * 365 + r div 4" by (subst div_mult_self1) simp_all
  finally have dr: "(1461 * r) div 4 = r * 365 + r div 4" .
  have "y * 365 + y div 4 - y div 100 + y div 400 = (b * 100 + r) * 365 + (b * 25 + r div 4) - b + b div 4"
    unfolding d4 d400 b_def [symmetric] by (simp add: y)
  then show ?thesis
    unfolding db dr b_def [symmetric] r_def [symmetric] by simp
qed

lemma ymd_no_overflow:
  fixes a b c d e m q k t :: int
  assumes "0 \<le> a" "a \<le> 536870911" "0 \<le> b" "b \<le> 14699" "0 \<le> c" "c \<le> 36524" "0 \<le> d" "d \<le> 99"
    "0 \<le> e" "e \<le> 365" "0 \<le> m" "m \<le> 11" "0 \<le> q" "q \<le> 337" "0 \<le> t" "t \<le> 1"
  shows "list_all in_int32 [a, 4 * a, 4 * a + 3, b * 146097, c, 4 * c, 4 * c + 3, 1461 * d, e,
    5 * e, 5 * e + 2, 153 * m, 153 * m + 2, e - q, e - q + 1, m + 3, m + 3 - 12 * t,
    b * 100, b * 100 + d, b * 100 + d - 4800, b * 100 + d - 4800 + t]"
  using assms by (simp add: in_int32_def)

lemma getYearMonthDay_march:
  assumes y: "0 \<le> y" "y \<le> 1404800" and e: "march_valid y m e"
  shows "getYearMonthDay (y * 365 + y div 4 - y div 100 + y div 400 + e - 32044) =
    Inr \<lparr>ymd_year = y - 4800 + m div 10, ymd_month = m + 3 - 12 * (m div 10),
         ymd_day = e - (153 * m + 2) div 5 + 1\<rparr>"
proof -
  define b r where "b = y div 100" and "r = y mod 100"
  define c where "c = (1461 * r) div 4 + e"
  define a where "a = (b * 146097) div 4 + c"
  note me = month_of_days [OF e]
  have m: "0 \<le> m" "m \<le> 11" using e by (simp_all add: march_valid_def)
  have b: "0 \<le> b" "b \<le> 14048" using y by (simp_all add: b_def pos_imp_zdiv_nonneg_iff)
  have r: "0 \<le> r" "r \<le> 99" by (simp_all add: r_def)
  have leap: "r mod 4 = 3" "r = 99 \<Longrightarrow> b mod 4 = 3" if "e = 365"
    using march_leap e that by (simp_all add: b_def r_def)
  have c0: "0 \<le> c" using r me(2) by (simp add: c_def)
  have r4: "4 * ((1461 * r) div 4) \<le> 1461 * r" by simp
  have c1: "c \<le> 36524" using r4 r me(3) by (simp add: c_def)
  have c2: "b mod 4 = 3" if "c = 36524"
    using r4 r me(3) that leap by (cases "e = 365"; cases "r = 99"; simp add: c_def)
  have a0: "0 \<le> a" using b c0 by (simp add: a_def)
  have "4 * ((b * 146097) div 4) \<le> b * 146097" by simp
  then have a1: "a \<le> 536870911" using b c1 by (simp add: a_def)
  have jdn: "y * 365 + y div 4 - y div 100 + y div 400 + e - 32044 + 32044 = a"
    unfolding march_days_split by (simp add: a_def c_def b_def r_def)
  have sb: "(4 * a + 3) sdiv 146097 = b"
    using a0 century_of_days [OF c0 c1 c2] by (simp add: sdiv_nonneg a_def)
  have sc: "a - (b * 146097) sdiv 4 = c" using b by (simp add: sdiv_nonneg a_def)
  have sr: "(4 * c + 3) sdiv 1461 = r"
    using c0 year_of_century [OF me(2,3) leap(1)] by (simp add: sdiv_nonneg c_def)
  have se: "c - (1461 * r) sdiv 4 = e" using r by (simp add: sdiv_nonneg c_def)
  have sm: "(5 * e + 2) sdiv 153 = m" using me by (simp add: sdiv_nonneg)
  have q: "(153 * m + 2) sdiv 5 = (153 * m + 2) div 5" "m sdiv 10 = m div 10"
      "0 \<le> (153 * m + 2) div 5" "(153 * m + 2) div 5 \<le> 337" "0 \<le> m div 10" "m div 10 \<le> 1"
    using m by (simp_all add: sdiv_nonneg)
  have b1: "b \<le> 14699" using b(2) by simp
  have yr: "b * 100 + r = y" by (simp add: b_def r_def)
  note no = ymd_no_overflow [OF a0 a1 b(1) b1 c0 c1 r me(2,3) m q(3-6)]
  show ?thesis
    unfolding getYearMonthDay_def Let_def jdn sb sc sr se sm q(1,2) YearMonthDay.simps ints32_def
    using no by (simp only: if_True yr)
qed

lemma jdn_of_roundtrip:
  assumes v: "valid_ymd d" and y: "year_range (ymd_year d)"
  shows "getYearMonthDay (jdn_of d) = Inr d"
proof -
  let ?m = "march_month d" and ?y = "march_year d"
  let ?e = "(153 * ?m + 2) div 5 + ymd_day d - 1"
  have m: "1 \<le> ymd_month d" "ymd_month d \<le> 12" using v by (simp_all add: valid_ymd_def)
  have r: "0 \<le> ?y" "?y \<le> 1404800"
    using y by (auto simp: march_year_def year_range_def)
  have "jdn_of d = ?y * 365 + ?y div 4 - ?y div 100 + ?y div 400 + ?e - 32044"
    by (simp add: jdn_of_def march_jdn_def)
  moreover have "?y - 4800 + ?m div 10 = ymd_year d" "?m + 3 - 12 * (?m div 10) = ymd_month d"
    using month_cases [OF m] unfolding march_month_def march_year_def
    by (elim disjE; simp)+
  ultimately show ?thesis
    using getYearMonthDay_march [OF r valid_march [OF v]] by simp
qed

lemma multiple_step:
  fixes y k :: int
  assumes "0 < k"
  shows "(y + 1) div k = y div k + (if (y + 1) mod k = 0 then 1 else 0)"
proof -
  have y: "y = k * (y div k) + y mod k" and r: "0 \<le> y mod k" "y mod k < k"
    using assms by simp_all
  show ?thesis
  proof (cases "y mod k = k - 1")
    case True
    then have s: "y + 1 = k * (y div k + 1)" using y by (simp add: distrib_left)
    have "(y + 1) div k = y div k + 1" and "(y + 1) mod k = 0"
      unfolding s using assms by simp_all
    then show ?thesis by simp
  next
    case False
    then have "(y + 1) div k = y div k" using r y by (intro div_eqI) linarith+
    moreover have "(y + 1) mod k = y mod k + 1"
      using False r mod_add_left_eq [of y k 1] by (simp add: mod_pos_pos_trivial)
    ultimately show ?thesis using r by simp
  qed
qed

lemma leap_step:
  fixes y :: int
  shows "(y + 1) div 4 - (y + 1) div 100 + (y + 1) div 400 =
    y div 4 - y div 100 + y div 400 + (if leap_year (y + 1) then 1 else 0)"
proof -
  have count: "a' = a + (if P then 1 else 0) \<Longrightarrow> b' = b + (if Q then 1 else 0) \<Longrightarrow>
      c' = c + (if R then 1 else 0) \<Longrightarrow> (Q \<Longrightarrow> P) \<Longrightarrow> (R \<Longrightarrow> Q) \<Longrightarrow>
      a' - b' + c' = a - b + c + (if P \<and> (\<not> Q \<or> R) then 1 else 0)"
    for a a' b b' c c' :: int and P Q R
    by (cases P; cases Q; cases R; simp)
  have "(y + 1) mod 100 = 0 \<Longrightarrow> (y + 1) mod 4 = 0" "(y + 1) mod 400 = 0 \<Longrightarrow> (y + 1) mod 100 = 0"
    unfolding mod_eq_0_iff_dvd using dvd_trans [of 4 100 "y + 1"] dvd_trans [of 100 400 "y + 1"]
    by simp_all
  then show ?thesis
    unfolding leap_year_def by (intro count multiple_step) simp_all
qed

lemma march_year_step:
  "march_jdn (y + 1) 0 1 = march_jdn y 11 (if leap_year (y + 1) then 29 else 28) + 1"
proof -
  have count: "a' - b' + c' = a - b + c + (if P then 1 else 0) \<Longrightarrow>
      1 + 0 + (y + 1) * 365 + a' - b' + c' - 32045 =
      (if P then 29 else 28) + 337 + y * 365 + a - b + c - 32045 + 1"
    for a a' b b' c c' :: int and P
    by (simp split: if_splits)
  show ?thesis
    using count [OF leap_step [of y]] by (simp add: march_jdn_def)
qed

lemma next_ymd_valid:
  assumes "valid_ymd d"
  shows "valid_ymd (next_ymd d)"
proof -
  have "1 \<le> month_days y m" for y m by (simp add: month_days_def)
  then show ?thesis using assms by (auto simp: valid_ymd_def next_ymd_def)
qed

lemma jdn_of_next:
  assumes "valid_ymd d"
  shows "jdn_of (next_ymd d) = jdn_of d + 1"
proof (cases "ymd_day d < month_days (ymd_year d) (ymd_month d)")
  case True
  then show ?thesis
    by (simp add: next_ymd_def jdn_of_def march_jdn_def march_month_def march_year_def)
next
  case False
  have m: "1 \<le> ymd_month d" "ymd_month d \<le> 12"
    and dd: "ymd_day d = month_days (ymd_year d) (ymd_month d)"
    using False assms by (auto simp: valid_ymd_def)
  obtain y k where yk: "ymd_year d = y" "ymd_month d = k" by blast
  have n: "next_ymd d = (if k < 12 then \<lparr>ymd_year = y, ymd_month = k + 1, ymd_day = 1\<rparr>
      else \<lparr>ymd_year = y + 1, ymd_month = 1, ymd_day = 1\<rparr>)"
    using False yk by (cases d) (simp add: next_ymd_def)
  have feb: "march_jdn (y + 4800) 0 1 = march_jdn (4799 + y) 11 (if leap_year y then 29 else 28) + 1"
    using march_year_step [of "4799 + y"] leap_year_4800 [of y] by (simp add: add.commute)
  show ?thesis
  proof (cases "k = 2")
    case True
    then show ?thesis
      using yk dd n feb by (simp add: jdn_of_def march_year_def march_month_def month_days_def)
  next
    case False
    then show ?thesis
      unfolding jdn_of_def march_year_def march_month_def n dd yk
      using month_cases [OF m, unfolded yk]
      by (elim disjE; hypsubst) (simp_all add: month_days_def march_jdn_def add.commute [of y])
  qed
qed

lemma next_ymd_year: "ymd_year d \<le> ymd_year (next_ymd d)"
  by (simp add: next_ymd_def)

lemma date_of_jdn:
  "\<exists>d. valid_ymd d \<and> -4799 \<le> ymd_year d \<and> jdn_of d = int k - 31738"
proof (induction k)
  case 0
  show ?case
    by (rule exI [of _ "\<lparr>ymd_year = -4799, ymd_month = 1, ymd_day = 1\<rparr>"])
      (simp add: valid_ymd_def month_days_def jdn_of_def march_jdn_def march_year_def march_month_def)
next
  case (Suc k)
  then obtain d where "valid_ymd d" "-4799 \<le> ymd_year d" "jdn_of d = int k - 31738" by blast
  then have "valid_ymd (next_ymd d)" "-4799 \<le> ymd_year (next_ymd d)"
      "jdn_of (next_ymd d) = int (Suc k) - 31738"
    using next_ymd_valid next_ymd_year [of d] jdn_of_next [of d] by simp_all
  then show ?case by blast
qed

lemma jdn_of_year_bound:
  assumes "valid_ymd d" "jdn_of d \<le> 511000001"
  shows "ymd_year d \<le> 1400000"
proof -
  let ?y = "march_year d"
  have m: "0 \<le> march_month d" and dd: "1 \<le> ymd_day d"
    using assms(1) by (simp_all add: valid_ymd_def march_month_def)
  have "0 \<le> (153 * march_month d + 2) div 5" using m by simp
  then have s: "?y * 365 + ?y div 4 - ?y div 100 + ?y div 400 \<le> 511032045"
    using assms(2) dd by (simp add: jdn_of_def march_jdn_def)
  have "?y \<le> 1404798"
  proof (rule ccontr)
    assume "\<not> ?thesis"
    then have g: "1404799 \<le> ?y" by simp
    have "4 * (?y div 4) \<ge> ?y - 3" "100 * (?y div 100) \<le> ?y" "0 \<le> ?y div 400"
      using g by simp_all
    then show False using s g by linarith
  qed
  then show ?thesis by (simp add: march_year_def split: if_splits)
qed

lemma jdn_of_lower:
  assumes "valid_ymd d" "-4799 \<le> ymd_year d"
  shows "- 31738 \<le> jdn_of d"
proof -
  let ?y = "march_year d"
  have y: "0 \<le> ?y" using assms(2) by (simp add: march_year_def)
  have m: "0 \<le> march_month d" and dd: "1 \<le> ymd_day d"
    using assms(1) by (simp_all add: valid_ymd_def march_month_def)
  have q: "0 \<le> ?y div 4" "?y div 100 \<le> ?y div 4" "0 \<le> ?y div 400"
    using y by (simp_all add: zdiv_mono2)
  show ?thesis
  proof (cases "?y = 0")
    case True
    then have "ymd_month d \<le> 2" using assms(2) by (simp add: march_year_def split: if_splits)
    then have "march_month d = ymd_month d + 9" by (simp add: march_month_def)
    then have "10 \<le> march_month d" using assms(1) by (simp add: valid_ymd_def)
    then have "306 \<le> (153 * march_month d + 2) div 5" by simp
    then show ?thesis using True dd by (simp add: jdn_of_def march_jdn_def)
  next
    case False
    then have "365 \<le> ?y * 365" using y by simp
    moreover have "0 \<le> (153 * march_month d + 2) div 5" using m by simp
    ultimately show ?thesis using q dd by (simp add: jdn_of_def march_jdn_def)
  qed
qed

lemma jdn_of_upper:
  assumes "valid_ymd d" "ymd_year d \<le> 1400000"
  shows "jdn_of d \<le> 520000000"
proof -
  let ?y = "march_year d"
  have y: "?y \<le> 1404800" using assms(2) by (simp add: march_year_def)
  have m: "march_month d \<le> 11" and dd: "ymd_day d \<le> 31"
    using assms(1) month_days_le [of "ymd_year d" "ymd_month d"]
    by (simp_all add: valid_ymd_def march_month_def)
  have q: "4 * (?y div 4) \<le> ?y" "?y - 99 \<le> 100 * (?y div 100)" "400 * (?y div 400) \<le> ?y"
      "5 * ((153 * march_month d + 2) div 5) \<le> 153 * march_month d + 2"
    by simp_all
  have "d' + q5 + y * 365 + q4 - q100 + q400 - 32045 \<le> 520000000"
    if "4 * q4 \<le> y" "y - 99 \<le> 100 * q100" "400 * q400 \<le> y" "5 * q5 \<le> 153 * m + 2" "y \<le> 1404800"
      "m \<le> 11" "d' \<le> 31" for d' q5 q4 q100 q400 y m :: int
    using that by linarith
  from this [OF q y m dd] show ?thesis by (simp add: jdn_of_def march_jdn_def)
qed

lemma jdn_range_date:
  assumes "jdn_range n"
  obtains d where "valid_ymd d" "year_range (ymd_year d)" "jdn_of d = n" "getYearMonthDay n = Inr d"
proof -
  obtain d where d: "valid_ymd d" "-4799 \<le> ymd_year d" "jdn_of d = n"
    using date_of_jdn [of "nat (n + 31738)"] assms by (auto simp: jdn_range_def)
  have "ymd_year d \<le> 1400000"
    using jdn_of_year_bound [OF d(1)] d(3) assms by (simp add: jdn_range_def)
  then have y: "year_range (ymd_year d)" using d(2) by (simp add: year_range_def)
  with that [OF d(1) y d(3)] jdn_of_roundtrip [OF d(1) y] d(3) show thesis by simp
qed

lemma jdn_of_epoch: "jdn_of \<lparr>ymd_year = 1970, ymd_month = 1, ymd_day = 1\<rparr> = 2440588"
  by (simp add: jdn_of_def march_jdn_def march_year_def march_month_def)

lemma epoch_date: "getYearMonthDay 2440588 = Inr \<lparr>ymd_year = 1970, ymd_month = 1, ymd_day = 1\<rparr>"
  using jdn_of_roundtrip [of "\<lparr>ymd_year = 1970, ymd_month = 1, ymd_day = 1\<rparr>"]
  unfolding jdn_of_epoch by (simp add: valid_ymd_def month_days_def year_range_def)

lemma kJulianDayOf1970_eq: "kJulianDayOf1970_01_01 = 2440588"
  using getJulianDayNumber_jdn [of "\<lparr>ymd_year = 1970, ymd_month = 1, ymd_day = 1\<rparr>"]
  unfolding jdn_of_epoch by (simp add: kJulianDayOf1970_01_01_def valid_ymd_def month_days_def year_range_def)

section \<open>Properties\<close>

text \<open>
  Every date of the Gregorian calendar from the year -4799 to the year 1400000 has a Julian Day
  Number, computed without overflow, and \<^verbatim>\<open>getYearMonthDay\<close> gives the date back.
\<close>

theorem date_roundtrip:
  assumes "valid_ymd d" and "year_range (ymd_year d)"
  shows "\<exists>n. getJulianDayNumber (ymd_year d) (ymd_month d) (ymd_day d) = Inr n \<and>
    getYearMonthDay n = Inr d"
  using getJulianDayNumber_jdn [OF assms] jdn_of_roundtrip [OF assms] by simp

theorem date_roundtrip_witness:
  "valid_ymd \<lparr>ymd_year = 2000, ymd_month = 2, ymd_day = 29\<rparr> \<and>
   (\<exists>n. getJulianDayNumber 2000 2 29 = Inr n \<and>
      getYearMonthDay n = Inr \<lparr>ymd_year = 2000, ymd_month = 2, ymd_day = 29\<rparr>)"
proof -
  have v: "valid_ymd \<lparr>ymd_year = 2000, ymd_month = 2, ymd_day = 29\<rparr>"
    by (simp add: valid_ymd_def month_days_def leap_year_def)
  have y: "year_range (ymd_year \<lparr>ymd_year = 2000, ymd_month = 2, ymd_day = 29\<rparr>)"
    by (simp add: year_range_def)
  show ?thesis using v date_roundtrip [OF v y] by simp
qed

text \<open>
  C28. The day numbers count the calendar: for every number in range the conversion returns a valid
  date whose number it is, the next number is the next day of the calendar, and 1970-01-01 is day
  2440588. So the conversion of every number in range is determined, leap years included.
\<close>

theorem day_numbers_count_calendar:
  assumes "jdn_range n"
  shows "(\<exists>d. getYearMonthDay n = Inr d \<and> valid_ymd d \<and>
      getJulianDayNumber (ymd_year d) (ymd_month d) (ymd_day d) = Inr n \<and>
      (n < 511000000 \<longrightarrow> getYearMonthDay (n + 1) = Inr (next_ymd d))) \<and>
    getYearMonthDay 2440588 = Inr \<lparr>ymd_year = 1970, ymd_month = 1, ymd_day = 1\<rparr>"
proof (intro conjI)
  obtain d where d: "valid_ymd d" "year_range (ymd_year d)" "jdn_of d = n" "getYearMonthDay n = Inr d"
    using jdn_range_date [OF assms] by blast
  have "getYearMonthDay (n + 1) = Inr (next_ymd d)" if "n < 511000000"
  proof -
    have j: "jdn_of (next_ymd d) = n + 1" using jdn_of_next [OF d(1)] d(3) by simp
    have "ymd_year (next_ymd d) \<le> 1400000"
      using jdn_of_year_bound [OF next_ymd_valid [OF d(1)]] j that by simp
    then have "year_range (ymd_year (next_ymd d))"
      using d(2) next_ymd_year [of d] by (simp add: year_range_def)
    then show ?thesis using jdn_of_roundtrip [OF next_ymd_valid [OF d(1)]] j by simp
  qed
  then show "\<exists>d. getYearMonthDay n = Inr d \<and> valid_ymd d \<and>
      getJulianDayNumber (ymd_year d) (ymd_month d) (ymd_day d) = Inr n \<and>
      (n < 511000000 \<longrightarrow> getYearMonthDay (n + 1) = Inr (next_ymd d))"
    using d getJulianDayNumber_jdn [OF d(1,2)] by auto
  show "getYearMonthDay 2440588 = Inr \<lparr>ymd_year = 1970, ymd_month = 1, ymd_day = 1\<rparr>"
    by (rule epoch_date)
qed

theorem day_numbers_count_calendar_witness:
  "jdn_range 2451604 \<and> (\<exists>d. getYearMonthDay 2451604 = Inr d \<and>
     getYearMonthDay 2451605 = Inr (next_ymd d))"
proof -
  have j: "jdn_range 2451604" by (simp add: jdn_range_def)
  show ?thesis using j day_numbers_count_calendar [OF j] by auto
qed

end
