(* ===== verification/TimeZone.thy ===== *)
theory TimeZone
  imports Endian Date
begin

text \<open>
  \<^verbatim>\<open>muduo/base/TimeZone\<close>: broken-down time, the tables of a time zone and the two searches in
  them, and the reader of compiled time zone files. A file is the list of its bytes and a
  position; \<^verbatim>\<open>int\<close> and \<^verbatim>\<open>int64_t\<close> overflow is undefined behaviour.
\<close>

section \<open>Tables\<close>

record Transition =
  utctime :: int
  localtime :: int
  localtimeIdx :: int

record LocalTime =
  utcOffset :: int
  isDst :: bool
  desigIdx :: int

record Data =
  transitions :: "Transition list"
  localtimes :: "LocalTime list"
  abbrev :: string
  tzstring :: string

definition Data_new :: Data where
  "Data_new = \<lparr>transitions = [], localtimes = [], abbrev = [], tzstring = []\<rparr>"

definition addLocalTime :: "int \<Rightarrow> bool \<Rightarrow> int \<Rightarrow> Data \<Rightarrow> Data" where
  "addLocalTime offset dst idx data =
     data\<lparr>localtimes := localtimes data @ [\<lparr>utcOffset = offset, isDst = dst, desigIdx = idx\<rparr>]\<rparr>"

definition addTransition :: "int \<Rightarrow> int \<Rightarrow> Data \<Rightarrow> Data res" where
  "addTransition utcTime idx data =
     bindE (vec_at (localtimes data) idx) (\<lambda>lt.
       ints64 [utcTime + utcOffset lt]
         (Inr (data\<lparr>transitions := transitions data @
            [\<lparr>utctime = utcTime, localtime = utcTime + utcOffset lt, localtimeIdx = idx\<rparr>]\<rparr>)))"

definition CompareUtcTime :: "Transition \<Rightarrow> Transition \<Rightarrow> bool" where
  "CompareUtcTime lhs rhs \<longleftrightarrow> utctime lhs < utctime rhs"

definition CompareLocalTime :: "Transition \<Rightarrow> Transition \<Rightarrow> bool" where
  "CompareLocalTime lhs rhs \<longleftrightarrow> localtime lhs < localtime rhs"

section \<open>Broken-down time\<close>

record DateTime =
  dt_year :: int
  dt_month :: int
  dt_day :: int
  dt_hour :: int
  dt_minute :: int
  dt_second :: int

definition kSecondsPerDay :: int where
  "kSecondsPerDay = 24 * 60 * 60"

definition fillHMS :: "int \<Rightarrow> DateTime \<Rightarrow> DateTime" where
  "fillHMS seconds dt =
     (let minutes = seconds div 60
      in dt\<lparr>dt_second := seconds mod 60, dt_minute := minutes mod 60, dt_hour := minutes div 60\<rparr>)"

definition BreakTime :: "int \<Rightarrow> DateTime res" where
  "BreakTime t =
     (let s0 = to_int32 (t smod kSecondsPerDay);
          d0 = to_int32 (t sdiv kSecondsPerDay);
          seconds = (if s0 < 0 then s0 + kSecondsPerDay else s0);
          days = (if s0 < 0 then d0 - 1 else d0);
          dt = fillHMS seconds \<lparr>dt_year = 0, dt_month = 0, dt_day = 0, dt_hour = 0, dt_minute = 0,
                                dt_second = 0\<rparr>
      in ints32 [days, days + kJulianDayOf1970_01_01]
        (bindE (yearMonthDay (Date_jdn (days + kJulianDayOf1970_01_01))) (\<lambda>ymd.
           Inr (dt\<lparr>dt_year := ymd_year ymd, dt_month := ymd_month ymd, dt_day := ymd_day ymd\<rparr>))))"

definition toUtcTime :: "int \<Rightarrow> DateTime res" where
  "toUtcTime secondsSinceEpoch = BreakTime secondsSinceEpoch"

definition fromUtcTime :: "DateTime \<Rightarrow> int res" where
  "fromUtcTime dt =
     bindE (Date_ymd (dt_year dt) (dt_month dt) (dt_day dt)) (\<lambda>date.
       let secondsInDay = dt_hour dt * 3600 + dt_minute dt * 60 + dt_second dt;
           days = julianDayNumber date - kJulianDayOf1970_01_01
       in ints32 [dt_hour dt * 3600, dt_minute dt * 60, dt_hour dt * 3600 + dt_minute dt * 60,
                  secondsInDay, days]
            (ints64 [days * kSecondsPerDay, days * kSecondsPerDay + secondsInDay]
              (Inr (days * kSecondsPerDay + secondsInDay))))"

definition DateTime_tm :: "tm \<Rightarrow> DateTime res" where
  "DateTime_tm t = ints32 [tm_year t + 1900, tm_mon t + 1]
     (Inr \<lparr>dt_year = tm_year t + 1900, dt_month = tm_mon t + 1, dt_day = tm_mday t,
           dt_hour = tm_hour t, dt_minute = tm_min t, dt_second = tm_sec t\<rparr>)"

definition DateTime_toIsoString :: "DateTime \<Rightarrow> string" where
  "DateTime_toIsoString dt = snprintf_buf 64
     (fmt_0wd 4 (dt_year dt) @ ''-'' @ fmt_0wd 2 (dt_month dt) @ ''-'' @ fmt_0wd 2 (dt_day dt) @ '' '' @
      fmt_0wd 2 (dt_hour dt) @ '':'' @ fmt_0wd 2 (dt_minute dt) @ '':'' @ fmt_0wd 2 (dt_second dt))"

section \<open>The searches\<close>

definition findLocalTime :: "int \<Rightarrow> Data \<Rightarrow> LocalTime res" where
  "findLocalTime utcTime data =
     (let ts = transitions data
      in if ts = [] \<or> utcTime < utctime (hd ts) then vec_front (localtimes data)
         else (let sentry = \<lparr>utctime = utcTime, localtime = 0, localtimeIdx = 0\<rparr>;
                   transI = upper_bound CompareUtcTime sentry ts
               in assert_that (transI \<noteq> 0)
                 (if transI \<noteq> length ts
                  then bindE (vec_nth ts (int transI - 1)) (\<lambda>t. vec_nth (localtimes data) (localtimeIdx t))
                  else bindE (vec_back ts) (\<lambda>t. vec_nth (localtimes data) (localtimeIdx t)))))"

definition findLocalTime_local :: "DateTime \<Rightarrow> bool \<Rightarrow> Data \<Rightarrow> LocalTime res" where
  "findLocalTime_local lt postTransition data =
     bindE (fromUtcTime lt) (\<lambda>ltime.
       let ts = transitions data
       in if ts = [] \<or> ltime < localtime (hd ts) then vec_front (localtimes data)
          else (let sentry = \<lparr>utctime = 0, localtime = ltime, localtimeIdx = 0\<rparr>;
                    transI = upper_bound CompareLocalTime sentry ts
                in assert_that (transI \<noteq> 0)
                  (if transI = length ts
                   then bindE (vec_back ts) (\<lambda>t. vec_nth (localtimes data) (localtimeIdx t))
                   else
                     bindE (vec_nth ts (int transI - 1)) (\<lambda>prior_trans.
                     bindE (vec_nth ts (int transI)) (\<lambda>t.
                     bindE (vec_nth (localtimes data) (localtimeIdx prior_trans)) (\<lambda>pl.
                     let prior_second = utctime t - 1 + utcOffset pl
                     in ints64 [utctime t - 1, prior_second]
                       (if prior_second < ltime
                        then vec_nth (localtimes data)
                               (localtimeIdx (if postTransition then t else prior_trans))
                        else
                          let transI = transI - 1
                          in bindE (vec_nth ts (int transI)) (\<lambda>t.
                             bindE (if transI \<noteq> 0
                                    then bindE (vec_nth ts (int transI - 1)) (\<lambda>prior_trans.
                                         bindE (vec_nth (localtimes data) (localtimeIdx prior_trans)) (\<lambda>pl.
                                         ints64 [utctime t - 1, utctime t - 1 + utcOffset pl]
                                           (Inr (prior_trans, utctime t - 1 + utcOffset pl))))
                                    else Inr (prior_trans, prior_second))
                             (\<lambda>(prior_trans, prior_second).
                               if ltime \<le> prior_second
                               then vec_nth (localtimes data)
                                      (localtimeIdx (if postTransition then t else prior_trans))
                               else vec_nth (localtimes data) (localtimeIdx t))))))))))"

section \<open>The class\<close>

text \<open>An invalid time zone has no data.\<close>

type_synonym TimeZone = "Data option"

definition TimeZone_fixed :: "int \<Rightarrow> string \<Rightarrow> TimeZone" where
  "TimeZone_fixed eastOfUtc name = Some ((addLocalTime eastOfUtc False 0 Data_new)\<lparr>abbrev := name\<rparr>)"

definition UTC :: TimeZone where
  "UTC = TimeZone_fixed 0 ''UTC''"

definition toLocalTime :: "int \<Rightarrow> TimeZone \<Rightarrow> (DateTime \<times> int) res" where
  "toLocalTime seconds tz =
     (case tz of None \<Rightarrow> Inl AssertFail
      | Some data \<Rightarrow>
          bindE (findLocalTime seconds data) (\<lambda>local.
            ints64 [seconds + utcOffset local]
              (bindE (BreakTime (seconds + utcOffset local)) (\<lambda>localTime.
                 Inr (localTime, utcOffset local)))))"

definition fromLocalTime :: "DateTime \<Rightarrow> bool \<Rightarrow> TimeZone \<Rightarrow> int res" where
  "fromLocalTime lt postTransition tz =
     (case tz of None \<Rightarrow> Inl AssertFail
      | Some data \<Rightarrow>
          bindE (findLocalTime_local lt postTransition data) (\<lambda>local.
            bindE (fromUtcTime lt) (\<lambda>localSeconds.
              ints64 [localSeconds - utcOffset local] (Inr (localSeconds - utcOffset local)))))"

section \<open>Broken-down time and seconds\<close>

definition dt_ymd :: "DateTime \<Rightarrow> YearMonthDay" where
  "dt_ymd dt = \<lparr>ymd_year = dt_year dt, ymd_month = dt_month dt, ymd_day = dt_day dt\<rparr>"

definition valid_dt :: "DateTime \<Rightarrow> bool" where
  "valid_dt dt \<longleftrightarrow> valid_ymd (dt_ymd dt) \<and> 0 \<le> dt_hour dt \<and> dt_hour dt < 24 \<and>
     0 \<le> dt_minute dt \<and> dt_minute dt < 60 \<and> 0 \<le> dt_second dt \<and> dt_second dt < 60"

text \<open>The seconds whose day number is in the range of the date conversions.\<close>

definition time_range :: "int \<Rightarrow> bool" where
  "time_range t \<longleftrightarrow> - 2472326 * 86400 \<le> t \<and> t < 508559413 * 86400"

lemma trunc_floor:
  fixes t k :: int
  assumes "0 < k"
  shows "(if t smod k < 0 then t smod k + k else t smod k) = t mod k"
    and "(if t smod k < 0 then t sdiv k - 1 else t sdiv k) = t div k"
    and "- k < t smod k" and "t smod k < k"
proof -
  have pos: "t smod k = t mod k" "t sdiv k = t div k" if "0 \<le> t"
    using that assms by (simp_all add: sdiv_nonneg smod_nonneg)
  have neg: "t smod k = - ((- t) mod k)" "t sdiv k = - ((- t) div k)" if "t < 0"
    using that assms by (simp_all add: signed_divide_int_def signed_modulo_int_def sgn_if)
  have r: "0 \<le> t mod k" "t mod k < k" "0 \<le> (- t) mod k" "(- t) mod k < k"
    using assms by simp_all
  show "(if t smod k < 0 then t smod k + k else t smod k) = t mod k"
    using pos neg r assms by (cases "0 \<le> t"; cases "t mod k = 0"; simp add: zmod_zminus1_eq_if)
  show "(if t smod k < 0 then t sdiv k - 1 else t sdiv k) = t div k"
    using pos neg r assms
    by (cases "0 \<le> t"; cases "t mod k = 0"; simp add: zmod_zminus1_eq_if zdiv_zminus1_eq_if)
  show "- k < t smod k" "t smod k < k"
    using pos(1) neg(1) r assms by (cases "0 \<le> t"; linarith)+
qed

lemma BreakTime_day:
  assumes t: "in_int32 (t div 86400 + 2440588)" "in_int32 (t div 86400)" "in_int32 (t div 86400 + 1)"
    and ymd: "getYearMonthDay (t div 86400 + 2440588) = Inr ymd"
  shows "BreakTime t = Inr \<lparr>dt_year = ymd_year ymd, dt_month = ymd_month ymd, dt_day = ymd_day ymd,
    dt_hour = (t mod 86400) div 60 div 60, dt_minute = (t mod 86400) div 60 mod 60,
    dt_second = (t mod 86400) mod 60\<rparr>"
proof -
  let ?s = "t smod 86400" and ?d = "t sdiv 86400"
  have f: "(if ?s < 0 then ?s + 86400 else ?s) = t mod 86400"
      "(if ?s < 0 then ?d - 1 else ?d) = t div 86400"
    and b: "- 86400 < ?s" "?s < 86400"
    using trunc_floor [of 86400 t] by simp_all
  have s: "to_int32 ?s = ?s" using b by (intro to_int32_exact) (simp add: in_int32_def)
  have "?d = t div 86400 \<or> ?d = t div 86400 + 1" using f(2) by (cases "?s < 0") simp_all
  then have "in_int32 ?d" using t by auto
  then have d: "to_int32 ?d = ?d" by (rule to_int32_exact)
  have k: "kSecondsPerDay = 86400" by (simp add: kSecondsPerDay_def)
  have i: "list_all in_int32 [t div 86400, t div 86400 + 2440588]" using t by simp
  show ?thesis
    unfolding BreakTime_def k s d Let_def f kJulianDayOf1970_eq ints32_ok [OF i]
    by (simp add: yearMonthDay_def Date_jdn_def ymd fillHMS_def Let_def)
qed

lemma fromUtcTime_valid:
  assumes v: "valid_dt dt" and y: "year_range (dt_year dt)"
  shows "fromUtcTime dt = Inr ((jdn_of (dt_ymd dt) - 2440588) * 86400 +
    (dt_hour dt * 3600 + dt_minute dt * 60 + dt_second dt))"
proof -
  have "year_range (ymd_year (dt_ymd dt))" "valid_ymd (dt_ymd dt)"
    using v y by (simp_all add: dt_ymd_def valid_dt_def)
  from getJulianDayNumber_jdn [OF this(2,1)]
  have j: "getJulianDayNumber (dt_year dt) (dt_month dt) (dt_day dt) = Inr (jdn_of (dt_ymd dt))"
    by (simp add: dt_ymd_def)
  then have "in_int32 (jdn_of (dt_ymd dt))"
    by (auto simp: getJulianDayNumber_def Let_def ints32_def split: if_splits)
  moreover have "- 31738 \<le> jdn_of (dt_ymd dt)"
    using jdn_of_lower [of "dt_ymd dt"] v y by (simp add: valid_dt_def dt_ymd_def year_range_def)
  ultimately have n: "- 31738 \<le> jdn_of (dt_ymd dt)" "jdn_of (dt_ymd dt) < 2 ^ 31"
    by (simp_all add: in_int32_def)
  show ?thesis
    using v n unfolding fromUtcTime_def Date_ymd_def j valid_dt_def
    by (simp add: kJulianDayOf1970_eq kSecondsPerDay_def ints32_def ints64_def in_int32_def in_int64_def)
qed

lemma BreakTime_range:
  assumes "time_range t"
  shows "\<exists>dt. BreakTime t = Inr dt \<and> valid_dt dt \<and> year_range (dt_year dt) \<and> fromUtcTime dt = Inr t"
proof -
  let ?n = "t div 86400 + 2440588" and ?s = "t mod 86400"
  have t: "- 2472326 \<le> t div 86400" "t div 86400 \<le> 508559412"
    using zdiv_mono1 [of "- 213608966400" t 86400] zdiv_mono1 [of t "43939533283199" 86400] assms
    by (simp_all add: time_range_def)
  have n: "jdn_range ?n" using t by (simp add: jdn_range_def)
  obtain d where d: "valid_ymd d" "year_range (ymd_year d)" "jdn_of d = ?n" "getYearMonthDay ?n = Inr d"
    using jdn_range_date [OF n] by blast
  define dt where "dt = \<lparr>dt_year = ymd_year d, dt_month = ymd_month d, dt_day = ymd_day d,
      dt_hour = ?s div 60 div 60, dt_minute = ?s div 60 mod 60, dt_second = ?s mod 60\<rparr>"
  have b: "BreakTime t = Inr dt"
    unfolding dt_def using t d(4) by (intro BreakTime_day) (simp_all add: in_int32_def)
  have ymd: "dt_ymd dt = d" by (simp add: dt_def dt_ymd_def)
  have s: "0 \<le> ?s" "?s < 86400" by simp_all
  then have "0 \<le> ?s div 60 div 60" "?s div 60 div 60 < 24" by linarith+
  then have v: "valid_dt dt"
    using d(1) unfolding valid_dt_def ymd by (simp add: dt_def)
  have "x div 60 div 60 * 3600 + x div 60 mod 60 * 60 + x mod 60 = x" for x :: int
  proof -
    have "q * 60 + r = m \<Longrightarrow> m * 60 + z = x \<Longrightarrow> q * 3600 + r * 60 + z = x" for q r m z :: int
      by simp
    then show ?thesis using div_mult_mod_eq by blast
  qed
  then have "dt_hour dt * 3600 + dt_minute dt * 60 + dt_second dt = ?s"
    unfolding dt_def DateTime.simps by blast
  moreover have "(jdn_of (dt_ymd dt) - 2440588) * 86400 + ?s = t"
    unfolding ymd d(3) using div_mult_mod_eq [of t 86400] by simp
  ultimately have "fromUtcTime dt = Inr t"
    using fromUtcTime_valid [OF v] d(2) by (simp only: dt_def DateTime.simps simp_thms)
  with b v d(2) show ?thesis by (auto simp: dt_def)
qed

section \<open>The tables\<close>

text \<open>
  The offset in force from a transition on, and before it. In local time the window of a transition
  is repeated (when the offset falls) or skipped (when it rises); in a well-formed table the windows
  of neighbouring transitions do not overlap.
\<close>

definition off_at :: "Data \<Rightarrow> nat \<Rightarrow> int" where
  "off_at data i = utcOffset (localtimes data ! nat (localtimeIdx (transitions data ! i)))"

definition off_before :: "Data \<Rightarrow> nat \<Rightarrow> int" where
  "off_before data i = (if i = 0 then utcOffset (hd (localtimes data)) else off_at data (i - 1))"

definition tz_wf :: "Data \<Rightarrow> bool" where
  "tz_wf data \<longleftrightarrow>
     (let ts = transitions data; lts = localtimes data in
      lts \<noteq> [] \<and> list_all (\<lambda>lt. in_int32 (utcOffset lt)) lts \<and>
      list_all (\<lambda>i. 0 \<le> localtimeIdx (ts ! i) \<and> localtimeIdx (ts ! i) < int (length lts) \<and>
        localtime (ts ! i) = utctime (ts ! i) + off_at data i \<and>
        - (2 ^ 62) \<le> utctime (ts ! i) \<and> utctime (ts ! i) \<le> 2 ^ 62) [0..<length ts] \<and>
      list_all (\<lambda>i. utctime (ts ! i) + max (off_before data i) (off_at data i) <
        utctime (ts ! Suc i) + min (off_at data i) (off_at data (Suc i))) [0..<length ts - 1])"

lemma tz_wf_localtimes: "tz_wf data \<Longrightarrow> localtimes data \<noteq> []"
  by (simp add: tz_wf_def Let_def)

lemma tz_wf_transition:
  assumes "tz_wf data" "i < length (transitions data)"
  shows "vec_nth (localtimes data) (localtimeIdx (transitions data ! i)) =
      Inr (localtimes data ! nat (localtimeIdx (transitions data ! i)))"
    and "localtime (transitions data ! i) = utctime (transitions data ! i) + off_at data i"
    and "- (2 ^ 62) \<le> utctime (transitions data ! i)" and "utctime (transitions data ! i) \<le> 2 ^ 62"
    and "in_int32 (off_at data i)"
proof -
  have i: "0 \<le> localtimeIdx (transitions data ! i)"
      "localtimeIdx (transitions data ! i) < int (length (localtimes data))"
    using assms by (auto simp: tz_wf_def Let_def list_all_iff)
  then have "localtimes data ! nat (localtimeIdx (transitions data ! i)) \<in> set (localtimes data)"
    by (intro nth_mem) (simp add: nat_less_iff)
  then show "in_int32 (off_at data i)"
    using assms by (auto simp: tz_wf_def Let_def list_all_iff off_at_def)
  show "vec_nth (localtimes data) (localtimeIdx (transitions data ! i)) =
      Inr (localtimes data ! nat (localtimeIdx (transitions data ! i)))"
    using i by (simp add: vec_nth_def)
qed (use assms in \<open>auto simp: tz_wf_def Let_def list_all_iff\<close>)

lemma tz_wf_spaced:
  assumes "tz_wf data" "Suc i < length (transitions data)"
  shows "utctime (transitions data ! i) + max (off_before data i) (off_at data i) <
    utctime (transitions data ! Suc i) + min (off_at data i) (off_at data (Suc i))"
  using assms by (auto simp: tz_wf_def Let_def list_all_iff)

lemma tz_wf_mono:
  assumes "tz_wf data" "i < j" "j < length (transitions data)"
  shows "utctime (transitions data ! i) < utctime (transitions data ! j) \<and>
    localtime (transitions data ! i) < localtime (transitions data ! j)"
  using assms(2,3)
proof (induction j)
  case (Suc j)
  have s: "utctime (transitions data ! j) + max (off_before data j) (off_at data j) <
      utctime (transitions data ! Suc j) + min (off_at data j) (off_at data (Suc j))"
    using tz_wf_spaced [OF assms(1) Suc.prems(2)] .
  have l: "localtime (transitions data ! j) = utctime (transitions data ! j) + off_at data j"
      "localtime (transitions data ! Suc j) = utctime (transitions data ! Suc j) + off_at data (Suc j)"
    using tz_wf_transition(2) [OF assms(1)] Suc.prems by simp_all
  have n: "utctime (transitions data ! j) < utctime (transitions data ! Suc j)"
      "localtime (transitions data ! j) < localtime (transitions data ! Suc j)"
    using s l by linarith+
  show ?case using n Suc by (cases "i = j") auto
qed simp

text \<open>The transition in force at a time: the last one that is not later.\<close>

definition in_force :: "Data \<Rightarrow> int \<Rightarrow> nat \<Rightarrow> bool" where
  "in_force data t i \<longleftrightarrow> i < length (transitions data) \<and> utctime (transitions data ! i) \<le> t \<and>
     (Suc i < length (transitions data) \<longrightarrow> t < utctime (transitions data ! Suc i))"

lemma in_force_exists:
  assumes "tz_wf data"
  shows "(transitions data = [] \<or> t < utctime (hd (transitions data))) \<or> (\<exists>i. in_force data t i)"
proof (cases "transitions data = [] \<or> t < utctime (hd (transitions data))")
  case False
  let ?P = "\<lambda>i. i < length (transitions data) \<and> utctime (transitions data ! i) \<le> t"
  have "?P 0" using False by (cases "transitions data") auto
  moreover have "\<forall>i. ?P i \<longrightarrow> i \<le> length (transitions data)" by simp
  ultimately obtain i where i: "?P i" "\<forall>j. ?P j \<longrightarrow> j \<le> i"
    using ex_has_greatest_nat [of ?P 0 id "length (transitions data)"] by auto
  have "t < utctime (transitions data ! Suc i)" if "Suc i < length (transitions data)"
    using that i(2) [rule_format, of "Suc i"] by linarith
  then show ?thesis using i(1) by (auto simp: in_force_def)
qed simp

lemma findLocalTime_in_force:
  assumes wf: "tz_wf data" and i: "in_force data t i"
  shows "findLocalTime t data = Inr (localtimes data ! nat (localtimeIdx (transitions data ! i)))"
proof -
  let ?ts = "transitions data"
  let ?s = "\<lparr>utctime = t, localtime = 0, localtimeIdx = 0\<rparr>"
  have il: "i < length ?ts" and le: "utctime (?ts ! i) \<le> t" using i by (simp_all add: in_force_def)
  have before: "utctime (?ts ! k) \<le> t" if "k \<le> i" for k
    using that le tz_wf_mono [OF wf, of k i] il by (cases "k = i") auto
  have "upper_bound CompareUtcTime ?s ?ts = Suc i"
    using il before i
    by (intro upper_bound_eqI) (auto simp: CompareUtcTime_def in_force_def not_less less_Suc_eq_le)
  moreover have "\<not> t < utctime (hd ?ts)"
    using before [of 0] il by (cases ?ts) auto
  moreover have "?ts \<noteq> []" using il by auto
  moreover have "last ?ts = ?ts ! i" if "Suc i = length ?ts"
    using that \<open>?ts \<noteq> []\<close> by (simp add: last_conv_nth) (metis diff_Suc_1 One_nat_def)
  moreover have "vec_nth ?ts (int i) = Inr (?ts ! i)" using il by (rule vec_nth_ok)
  ultimately show ?thesis
    using tz_wf_transition(1) [OF wf il] by (simp add: findLocalTime_def Let_def vec_back_def)
qed

lemma findLocalTime_first:
  assumes "tz_wf data" and "transitions data = [] \<or> t < utctime (hd (transitions data))"
  shows "findLocalTime t data = Inr (hd (localtimes data))"
  using assms tz_wf_localtimes [OF assms(1)] by (simp add: findLocalTime_def Let_def vec_front_def)

text \<open>The local search, by the position of the first transition that is later in local time.\<close>

lemma upper_bound_local:
  assumes wf: "tz_wf data" and j: "j \<le> length (transitions data)"
    and before: "0 < j \<Longrightarrow> localtime (transitions data ! (j - 1)) \<le> l"
    and after: "j < length (transitions data) \<Longrightarrow> l < localtime (transitions data ! j)"
  shows "upper_bound CompareLocalTime \<lparr>utctime = 0, localtime = l, localtimeIdx = 0\<rparr> (transitions data) = j"
proof (rule upper_bound_eqI [OF j])
  fix k assume k: "k < j"
  then have "k = j - 1 \<or> k < j - 1 \<and> j - 1 < length (transitions data)" using j by linarith
  then have "localtime (transitions data ! k) \<le> localtime (transitions data ! (j - 1))"
    using tz_wf_mono [OF wf, of k "j - 1"] by auto
  then show "\<not> CompareLocalTime \<lparr>utctime = 0, localtime = l, localtimeIdx = 0\<rparr> (transitions data ! k)"
    using before k by (simp add: CompareLocalTime_def)
qed (use after in \<open>simp add: CompareLocalTime_def\<close>)

lemma findLocalTime_local_last:
  assumes wf: "tz_wf data" and l: "fromUtcTime dt = Inr l"
    and n: "Suc i = length (transitions data)" and i: "localtime (transitions data ! i) \<le> l"
  shows "findLocalTime_local dt post data =
    Inr (localtimes data ! nat (localtimeIdx (transitions data ! i)))"
proof -
  let ?ts = "transitions data"
  have il: "i < length ?ts" using n by simp
  have ub: "upper_bound CompareLocalTime \<lparr>utctime = 0, localtime = l, localtimeIdx = 0\<rparr> ?ts = length ?ts"
    by (rule upper_bound_local [OF wf]) (simp_all add: i n [symmetric])
  have ne: "?ts \<noteq> []" using il by auto
  have "localtime (?ts ! 0) \<le> l"
    using tz_wf_mono [OF wf, of 0 i] il i by (cases "i = 0") auto
  then have h: "\<not> l < localtime (hd ?ts)" using ne by (simp add: hd_conv_nth)
  have lst: "last ?ts = ?ts ! i" using ne by (simp add: last_conv_nth n [symmetric])
  show ?thesis
    unfolding findLocalTime_local_def l bindE_Inr Let_def ub
    using ne h lst tz_wf_transition(1) [OF wf il] by (simp add: vec_back_def)
qed

lemma findLocalTime_local_between:
  assumes wf: "tz_wf data" and l: "fromUtcTime dt = Inr l"
    and n: "Suc i < length (transitions data)" and i: "localtime (transitions data ! i) \<le> l"
    and j: "l < localtime (transitions data ! Suc i)"
    and noskip: "l < utctime (transitions data ! Suc i) + off_at data i"
  shows "findLocalTime_local dt post data =
    Inr (localtimes data ! nat (localtimeIdx (transitions data !
      (if 0 < i \<and> l < utctime (transitions data ! i) + off_at data (i - 1) \<and> \<not> post then i - 1 else i))))"
proof -
  let ?ts = "transitions data"
  have il: "i < length ?ts" "i - 1 < length ?ts" using n by simp_all
  have ub: "upper_bound CompareLocalTime \<lparr>utctime = 0, localtime = l, localtimeIdx = 0\<rparr> ?ts = Suc i"
    by (rule upper_bound_local [OF wf]) (use n i j in auto)
  have ne: "?ts \<noteq> []" using il by auto
  have "localtime (?ts ! 0) \<le> l"
    using tz_wf_mono [OF wf, of 0 i] il i by (cases "i = 0") auto
  then have h: "\<not> l < localtime (hd ?ts)" using ne by (simp add: hd_conv_nth)
  have v: "vec_nth ?ts (int i) = Inr (?ts ! i)" "vec_nth ?ts (1 + int i) = Inr (?ts ! Suc i)"
      "0 < i \<Longrightarrow> vec_nth ?ts (int i - 1) = Inr (?ts ! (i - 1))"
    using vec_nth_ok [of i ?ts] vec_nth_ok [of "Suc i" ?ts] vec_nth_ok [of "i - 1" ?ts] n
    by (simp_all add: of_nat_diff add.commute)
  note w = tz_wf_transition [OF wf il(1)] tz_wf_transition [OF wf il(2)] tz_wf_transition [OF wf n]
  have b: "ints64 [utctime (?ts ! Suc i) - 1, utctime (?ts ! Suc i) - 1 + off_at data i] r = r"
      and b': "ints64 [utctime (?ts ! i) - 1, utctime (?ts ! i) - 1 + off_at data (i - 1)] r' = r'"
    for r :: "LocalTime res" and r' :: "(Transition \<times> int) res"
    using w(3-5,8-10,13-15) by (simp_all add: ints64_def in_int64_def in_int32_def)
  show ?thesis
    unfolding findLocalTime_local_def l bindE_Inr Let_def ub
    using ne h n noskip v w(1,6) b b' by (cases "i = 0") (simp_all add: off_at_def [symmetric])
qed

text \<open>A time just before a transition that turns the clock back shows a local time that comes again.\<close>

definition repeats_later :: "Data \<Rightarrow> int \<Rightarrow> nat \<Rightarrow> bool" where
  "repeats_later data t i \<longleftrightarrow> Suc i < length (transitions data) \<and>
     localtime (transitions data ! Suc i) \<le> t + off_at data i"

lemma findLocalTime_local_in_force:
  assumes wf: "tz_wf data" and i: "in_force data t i"
    and dt: "fromUtcTime dt = Inr (t + off_at data i)"
    and last: "repeats_later data t i \<Longrightarrow> Suc (Suc i) < length (transitions data)"
  shows "findLocalTime_local dt (\<not> repeats_later data t i) data =
    Inr (localtimes data ! nat (localtimeIdx (transitions data ! i)))"
proof -
  let ?ts = "transitions data"
  have il: "i < length ?ts" and ti: "utctime (?ts ! i) \<le> t"
    and nx: "Suc i < length ?ts \<Longrightarrow> t < utctime (?ts ! Suc i)"
    using i by (simp_all add: in_force_def)
  have li: "localtime (?ts ! i) \<le> t + off_at data i"
    using tz_wf_transition(2) [OF wf il] ti by simp
  show ?thesis
  proof (cases "repeats_later data t i")
    case True
    then have n: "Suc (Suc i) < length ?ts" and l1: "localtime (?ts ! Suc i) \<le> t + off_at data i"
      using last by (simp_all add: repeats_later_def)
    have n1: "Suc i < length ?ts" using n by simp
    have sp: "utctime (?ts ! Suc i) + off_at data i <
        utctime (?ts ! Suc (Suc i)) + min (off_at data (Suc i)) (off_at data (Suc (Suc i)))"
      using tz_wf_spaced [OF wf n] by (simp add: off_before_def)
    have t1: "t < utctime (?ts ! Suc i)" using nx n1 by simp
    have l2: "t + off_at data i < localtime (?ts ! Suc (Suc i))"
        "t + off_at data i < utctime (?ts ! Suc (Suc i)) + off_at data (Suc i)"
      using tz_wf_transition(2) [OF wf n] sp t1 by linarith+
    show ?thesis
      using findLocalTime_local_between [OF wf dt n l1 l2, of "\<not> repeats_later data t i"] True t1 by simp
  next
    case False
    show ?thesis
    proof (cases "Suc i < length ?ts")
      case True
      then have "t + off_at data i < localtime (?ts ! Suc i)"
        using False by (simp add: repeats_later_def)
      from findLocalTime_local_between [OF wf dt True li this, of "\<not> repeats_later data t i"] False
      show ?thesis using nx [OF True] by simp
    next
      case nolast: False
      then have "Suc i = length ?ts" using il by simp
      from findLocalTime_local_last [OF wf dt this li] show ?thesis .
    qed
  qed
qed

lemma toLocalTime_in_force:
  assumes wf: "tz_wf data" and i: "in_force data t i" and r: "time_range (t + off_at data i)"
  obtains dt where "toLocalTime t (Some data) = Inr (dt, off_at data i)"
    "BreakTime (t + off_at data i) = Inr dt" "fromUtcTime dt = Inr (t + off_at data i)"
proof -
  obtain dt where dt: "BreakTime (t + off_at data i) = Inr dt" "fromUtcTime dt = Inr (t + off_at data i)"
    using BreakTime_range [OF r] by blast
  have "list_all in_int64 [t + off_at data i]"
    using r by (simp add: time_range_def in_int64_def)
  then have "toLocalTime t (Some data) = Inr (dt, off_at data i)"
    using dt(1) findLocalTime_in_force [OF wf i]
    by (simp add: toLocalTime_def ints64_def off_at_def [symmetric])
  with dt that show thesis by blast
qed

text \<open>The table of the comment in \<^verbatim>\<open>findLocalTime\<close>: China from 1989 to 1991.\<close>

definition prc_zone :: Data where
  "prc_zone = \<lparr>transitions =
       [\<lparr>utctime = 621968400, localtime = 621968400 + 28800, localtimeIdx = 0\<rparr>,
        \<lparr>utctime = 640116000, localtime = 640116000 + 32400, localtimeIdx = 1\<rparr>,
        \<lparr>utctime = 653418000, localtime = 653418000 + 28800, localtimeIdx = 0\<rparr>,
        \<lparr>utctime = 671565600, localtime = 671565600 + 32400, localtimeIdx = 1\<rparr>,
        \<lparr>utctime = 684867600, localtime = 684867600 + 28800, localtimeIdx = 0\<rparr>],
     localtimes = [\<lparr>utcOffset = 28800, isDst = False, desigIdx = 0\<rparr>,
                   \<lparr>utcOffset = 32400, isDst = True, desigIdx = 4\<rparr>],
     abbrev = [], tzstring = []\<rparr>"

lemma prc_zone_wf: "tz_wf prc_zone"
  by (simp add: tz_wf_def prc_zone_def off_at_def off_before_def in_int32_def upt_rec)

text \<open>From the last transition on the search never uses the flag, also not for repeated times.\<close>

lemma last_transition_ignores_flag:
  assumes "tz_wf data" "fromUtcTime dt = Inr l" "Suc i = length (transitions data)"
    "localtime (transitions data ! i) \<le> l"
  shows "fromLocalTime dt True (Some data) = fromLocalTime dt False (Some data)"
  using findLocalTime_local_last [OF assms] by (simp add: fromLocalTime_def)

section \<open>Properties\<close>

text \<open>
  C29. Seconds and broken-down UTC time are inverse to each other on the whole range of the date
  conversions, before and after 1970: breaking a time down gives a valid date and time of day that
  \<^verbatim>\<open>fromUtcTime\<close> turns back into the same seconds, and conversely for every valid date and time.
\<close>

theorem utc_roundtrip:
  "(time_range t \<longrightarrow> (\<exists>dt. toUtcTime t = Inr dt \<and> valid_dt dt \<and> fromUtcTime dt = Inr t)) \<and>
   (valid_dt dt \<and> year_range (dt_year dt) \<longrightarrow> (\<exists>t. fromUtcTime dt = Inr t \<and> toUtcTime t = Inr dt))"
proof (intro conjI impI)
  assume "time_range t"
  from BreakTime_range [OF this] show "\<exists>dt. toUtcTime t = Inr dt \<and> valid_dt dt \<and> fromUtcTime dt = Inr t"
    by (auto simp: toUtcTime_def)
next
  assume v: "valid_dt dt \<and> year_range (dt_year dt)"
  let ?n = "jdn_of (dt_ymd dt)" and ?s = "dt_hour dt * 3600 + dt_minute dt * 60 + dt_second dt"
  let ?t = "(?n - 2440588) * 86400 + ?s"
  have vd: "valid_ymd (dt_ymd dt)" and y: "year_range (ymd_year (dt_ymd dt))"
    and hms: "0 \<le> dt_hour dt" "dt_hour dt < 24" "0 \<le> dt_minute dt" "dt_minute dt < 60"
      "0 \<le> dt_second dt" "dt_second dt < 60"
    using v by (simp_all add: valid_dt_def dt_ymd_def)
  have n: "- 31738 \<le> ?n" "?n \<le> 520000000"
    using jdn_of_lower [OF vd] jdn_of_upper [OF vd] y by (simp_all add: year_range_def)
  have d: "?t div 86400 = ?n - 2440588" using hms by (intro div_eqI) simp_all
  have m: "?t mod 86400 = ?s" using d div_mult_mod_eq [of ?t 86400] by simp
  have q: "?s div 60 = dt_hour dt * 60 + dt_minute dt" using hms by (intro div_eqI) simp_all
  have q2: "(dt_hour dt * 60 + dt_minute dt) div 60 = dt_hour dt" using hms by (intro div_eqI) simp_all
  have r: "(dt_hour dt * 60 + dt_minute dt) mod 60 = dt_minute dt" "?s mod 60 = dt_second dt"
    using q2 div_mult_mod_eq [of "dt_hour dt * 60 + dt_minute dt" 60] q div_mult_mod_eq [of ?s 60]
    by simp_all
  have "BreakTime ?t = Inr dt"
    using BreakTime_day [of ?t "dt_ymd dt"] n jdn_of_roundtrip [OF vd y]
    unfolding d m q q2 r by (simp add: in_int32_def dt_ymd_def)
  then show "\<exists>t. fromUtcTime dt = Inr t \<and> toUtcTime t = Inr dt"
    using fromUtcTime_valid [of dt] v by (auto simp: toUtcTime_def)
qed

theorem utc_roundtrip_witness:
  "\<exists>dt. toUtcTime (-1) = Inr dt \<and> valid_dt dt \<and> fromUtcTime dt = Inr (-1)"
  using utc_roundtrip [of "-1"] by (simp add: time_range_def)

text \<open>
  In a well-formed table every time is given the offset of the last transition that is not
  later, and the first local time record before the first transition.
\<close>

theorem findLocalTime_last_transition:
  assumes "tz_wf data"
  shows "(\<exists>i. in_force data t i \<and>
      findLocalTime t data = Inr (localtimes data ! nat (localtimeIdx (transitions data ! i)))) \<or>
    ((\<forall>tr \<in> set (transitions data). t < utctime tr) \<and> findLocalTime t data = Inr (hd (localtimes data)))"
proof (cases "transitions data = [] \<or> t < utctime (hd (transitions data))")
  case True
  have "t < utctime tr" if "tr \<in> set (transitions data)" for tr
  proof -
    obtain j where j: "j < length (transitions data)" "tr = transitions data ! j"
      using \<open>tr \<in> set (transitions data)\<close> by (auto simp: in_set_conv_nth)
    have "utctime (hd (transitions data)) \<le> utctime tr"
      using tz_wf_mono [OF assms, of 0 j] j by (cases "j = 0"; cases "transitions data") auto
    then show ?thesis using True j by auto
  qed
  then show ?thesis using findLocalTime_first [OF assms True] by blast
next
  case False
  then show ?thesis
    using in_force_exists [OF assms, of t] findLocalTime_in_force [OF assms] by blast
qed

theorem findLocalTime_last_transition_witness:
  "\<exists>lt. findLocalTime 644198400 prc_zone = Inr lt"
  using findLocalTime_last_transition [OF prc_zone_wf, of 644198400] by blast



end
