(* ===== verification/TimeZoneFile.thy ===== *)
theory TimeZoneFile
  imports TimeZone
begin

text \<open>
  The reader of compiled time zone files (RFC 8536) of \<^verbatim>\<open>muduo/base/TimeZone.cc\<close>. An open file is
  its bytes and the position; \<^verbatim>\<open>fread\<close> stops at the end of the file and \<^verbatim>\<open>fseek\<close> refuses a
  position before its start. Memory for a table that fits \<^verbatim>\<open>max_size()\<close> is assumed to be there.
\<close>

section \<open>Files\<close>

record File =
  file_bytes :: "char list"
  file_pos :: nat

definition fread :: "nat \<Rightarrow> File \<Rightarrow> char list \<times> File" where
  "fread n f = (let bs = take n (drop (file_pos f) (file_bytes f))
                in (bs, f\<lparr>file_pos := file_pos f + length bs\<rparr>))"

definition readBytes :: "int \<Rightarrow> File \<Rightarrow> (string \<times> File) res" where
  "readBytes n f =
     (if n < 0 then Inl UndefinedBehaviour
      else (let (buf, f') = fread (nat n) f
            in if int (length buf) \<noteq> n then Inl (LogicError ''no enough data'') else Inr (buf, f')))"

function readToEnd_loop :: "string \<Rightarrow> File \<Rightarrow> string \<times> File" where
  "readToEnd_loop result f =
     (let (buf, f') = fread 4096 f
      in if length buf > 0 then readToEnd_loop (result @ buf) f' else (result, f'))"
  by auto

termination
proof (relation "measure (\<lambda>(result, f). length (file_bytes f) - file_pos f)")
  fix result f x buf f'
  assume x: "x = fread 4096 f" "(buf, f') = x" "length buf > 0"
  then have "file_pos f < length (file_bytes f)" "length (file_bytes f') = length (file_bytes f)"
      "file_pos f' = file_pos f + length buf" "length buf \<noteq> 0"
    by (auto simp: fread_def Let_def)
  then show "((result @ buf, f'), (result, f)) \<in>
      measure (\<lambda>(result, f). length (file_bytes f) - file_pos f)"
    unfolding in_measure prod.case by linarith
qed simp

declare readToEnd_loop.simps [simp del]

definition readToEnd :: "File \<Rightarrow> string \<times> File" where
  "readToEnd f = readToEnd_loop [] f"

definition file_readInt64 :: "File \<Rightarrow> (int \<times> File) res" where
  "file_readInt64 f =
     (let (x, f') = fread 8 f
      in if length x \<noteq> 8 then Inl (LogicError ''bad int64_t data'')
         else Inr (sint (bswap (bytes_word x :: 64 word)), f'))"

definition file_readInt32 :: "File \<Rightarrow> (int \<times> File) res" where
  "file_readInt32 f =
     (let (x, f') = fread 4 f
      in if length x \<noteq> 4 then Inl (LogicError ''bad int32_t data'')
         else Inr (sint (bswap (bytes_word x :: 32 word)), f'))"

definition readUInt8 :: "File \<Rightarrow> (int \<times> File) res" where
  "readUInt8 f =
     (let (x, f') = fread 1 f
      in if length x \<noteq> 1 then Inl (LogicError ''bad uint8_t data'')
         else Inr (uint (bytes_word x :: 8 word), f'))"

definition skip :: "int \<Rightarrow> File \<Rightarrow> File" where
  "skip n f = (if int (file_pos f) + n < 0 then f else f\<lparr>file_pos := nat (int (file_pos f) + n)\<rparr>)"

section \<open>The reader\<close>

text \<open>\<^verbatim>\<open>reserve\<close> with a negative count asks for more than \<^verbatim>\<open>max_size()\<close>.\<close>

definition vector_reserve :: "int \<Rightarrow> 'a res \<Rightarrow> 'a res" where
  "vector_reserve n r = (if n < 0 then Inl LengthError else r)"

fun read_many :: "nat \<Rightarrow> (File \<Rightarrow> ('a \<times> File) res) \<Rightarrow> File \<Rightarrow> ('a list \<times> File) res" where
  "read_many 0 rd f = Inr ([], f)"
| "read_many (Suc n) rd f =
     bindE (rd f) (\<lambda>(x, f). bindE (read_many n rd f) (\<lambda>(xs, f). Inr (x # xs, f)))"

definition readLocalTime :: "File \<Rightarrow> ((int \<times> bool \<times> int) \<times> File) res" where
  "readLocalTime f =
     bindE (file_readInt32 f) (\<lambda>(gmtoff, f).
     bindE (readUInt8 f) (\<lambda>(isdst, f).
     bindE (readUInt8 f) (\<lambda>(abbrind, f).
     Inr ((gmtoff, isdst \<noteq> 0, abbrind), f))))"

definition readDataBlock :: "bool \<Rightarrow> Data \<Rightarrow> File \<Rightarrow> (bool \<times> Data \<times> File) res" where
  "readDataBlock v1 data f =
     (let time_size = (if v1 then 4 else 8 :: int) in
      bindE (file_readInt32 f) (\<lambda>(isutccnt, f).
      bindE (file_readInt32 f) (\<lambda>(isstdcnt, f).
      bindE (file_readInt32 f) (\<lambda>(leapcnt, f).
      bindE (file_readInt32 f) (\<lambda>(timecnt, f).
      bindE (file_readInt32 f) (\<lambda>(typecnt, f).
      bindE (file_readInt32 f) (\<lambda>(charcnt, f).
      if leapcnt \<noteq> 0 then Inr (False, data, f)
      else if isutccnt \<noteq> 0 \<and> isutccnt \<noteq> typecnt then Inr (False, data, f)
      else if isstdcnt \<noteq> 0 \<and> isstdcnt \<noteq> typecnt then Inr (False, data, f)
      else
        vector_reserve timecnt
       (bindE (read_many (nat timecnt) (if v1 then file_readInt32 else file_readInt64) f) (\<lambda>(trans, f).
        bindE (read_many (nat timecnt) readUInt8 f) (\<lambda>(idxs, f).
        vector_reserve typecnt
       (bindE (read_many (nat typecnt) readLocalTime f) (\<lambda>(lts, f).
        let data = fold (\<lambda>(gmtoff, isdst, abbrind). addLocalTime gmtoff isdst abbrind) lts data in
        bindE (foldE (\<lambda>(t, localIdx). addTransition t localIdx) (zip trans idxs) data) (\<lambda>data.
        bindE (readBytes charcnt f) (\<lambda>(abbr, f).
        let data = data\<lparr>abbrev := abbr\<rparr>;
            f = skip isutccnt (skip isstdcnt (skip (leapcnt * (time_size + 4)) f))
        in if \<not> v1
           then (let (rest, f) = readToEnd f in Inr (True, data\<lparr>tzstring := rest\<rparr>, f))
           else Inr (True, data, f)))))))))))))))"

text \<open>
  The exceptions that derive from \<^verbatim>\<open>std::logic_error\<close> (its own, \<^verbatim>\<open>length_error\<close> and
  \<^verbatim>\<open>out_of_range\<close>) are caught. \<open>None\<close> is the result \<^verbatim>\<open>false\<close>, after which the only caller
  drops the tables.
\<close>

definition catch_logic_error :: "'a option res \<Rightarrow> 'a option res" where
  "catch_logic_error r =
     (case r of Inl (LogicError _) \<Rightarrow> Inr None | Inl LengthError \<Rightarrow> Inr None | Inl OutOfRange \<Rightarrow> Inr None
      | _ \<Rightarrow> r)"

definition data_if :: "bool \<times> Data \<times> File \<Rightarrow> Data option res" where
  "data_if r = Inr (if fst r then Some (fst (snd r)) else None)"

definition readTimeZoneFile :: "char list option \<Rightarrow> Data \<Rightarrow> Data option res" where
  "readTimeZoneFile contents data =
     (case contents of None \<Rightarrow> Inr None
      | Some bytes \<Rightarrow> catch_logic_error
         (bindE (readBytes 4 \<lparr>file_bytes = bytes, file_pos = 0\<rparr>) (\<lambda>(head, f).
          if head \<noteq> ''TZif'' then Inl (LogicError ''bad head'')
          else
            bindE (readBytes 1 f) (\<lambda>(version, f).
            bindE (readBytes 15 f) (\<lambda>(_, f).
            bindE (file_readInt32 f) (\<lambda>(isgmtcnt, f).
            bindE (file_readInt32 f) (\<lambda>(isstdcnt, f).
            bindE (file_readInt32 f) (\<lambda>(leapcnt, f).
            bindE (file_readInt32 f) (\<lambda>(timecnt, f).
            bindE (file_readInt32 f) (\<lambda>(typecnt, f).
            bindE (file_readInt32 f) (\<lambda>(charcnt, f).
            if version = ''2''
            then ints32 [6 * typecnt, 8 * leapcnt]
              (let n = to_int64 (4 * timecnt + timecnt + 6 * typecnt + charcnt + 8 * leapcnt +
                                 isstdcnt + isgmtcnt);
                   f = skip n f
               in bindE (readBytes 4 f) (\<lambda>(head, f).
                  if head \<noteq> ''TZif'' then Inl (LogicError ''bad head'')
                  else bindE (readDataBlock False data (skip 16 f)) data_if))
            else bindE (readDataBlock True data (skip (- (4 * 6)) f)) data_if)))))))))))"

definition loadZoneFile :: "char list option \<Rightarrow> TimeZone res" where
  "loadZoneFile contents = readTimeZoneFile contents Data_new"

section \<open>Written files\<close>

text \<open>A file whose position is between two halves of its contents.\<close>

definition at_file :: "char list \<Rightarrow> char list \<Rightarrow> File" where
  "at_file pre post = \<lparr>file_bytes = pre @ post, file_pos = length pre\<rparr>"

definition be32 :: "int \<Rightarrow> char list" where
  "be32 i = rev (word_bytes (word_of_int i :: 32 word))"

definition be64 :: "int \<Rightarrow> char list" where
  "be64 i = rev (word_bytes (word_of_int i :: 64 word))"

definition byte_of :: "int \<Rightarrow> char list" where
  "byte_of i = word_bytes (word_of_int i :: 8 word)"

lemma length_be [simp]: "length (be32 i) = 4" "length (be64 i) = 8" "length (byte_of i) = 1"
  by (simp_all add: be32_def be64_def byte_of_def)

lemma fread_at:
  "length xs = n \<Longrightarrow> fread n (at_file pre (xs @ ys)) = (xs, at_file (pre @ xs) ys)"
  by (auto simp: fread_def at_file_def)

lemma readBytes_at:
  "int (length xs) = n \<Longrightarrow> readBytes n (at_file pre (xs @ ys)) = Inr (xs, at_file (pre @ xs) ys)"
  by (auto simp: readBytes_def fread_at)

lemma sint_word32: "in_int32 i \<Longrightarrow> sint (word_of_int i :: 32 word) = i"
  by (simp add: signed_of_int signed_take_bit_int_eq_self in_int32_def)

lemma sint_word64: "in_int64 i \<Longrightarrow> sint (word_of_int i :: 64 word) = i"
  by (simp add: signed_of_int signed_take_bit_int_eq_self in_int64_def)

lemma file_readInt32_at:
  "in_int32 i \<Longrightarrow> file_readInt32 (at_file pre (be32 i @ ys)) = Inr (i, at_file (pre @ be32 i) ys)"
  by (simp add: file_readInt32_def fread_at)
    (simp add: be32_def bswap_def word_bytes_word bytes_word_bytes sint_word32)

lemma file_readInt64_at:
  "in_int64 i \<Longrightarrow> file_readInt64 (at_file pre (be64 i @ ys)) = Inr (i, at_file (pre @ be64 i) ys)"
  by (simp add: file_readInt64_def fread_at)
    (simp add: be64_def bswap_def word_bytes_word bytes_word_bytes sint_word64)

lemma readUInt8_at:
  "0 \<le> i \<Longrightarrow> i < 256 \<Longrightarrow> readUInt8 (at_file pre (byte_of i @ ys)) = Inr (i, at_file (pre @ byte_of i) ys)"
  by (simp add: readUInt8_def fread_at)
    (simp add: byte_of_def bytes_word_bytes uint_word_of_int)

lemma read_many_at:
  assumes "\<And>x pre ys. x \<in> set xs \<Longrightarrow> rd (at_file pre (enc x @ ys)) = Inr (dec x, at_file (pre @ enc x) ys)"
    and "n = length xs"
  shows "read_many n rd (at_file pre (concat (map enc xs) @ ys)) =
    Inr (map dec xs, at_file (pre @ concat (map enc xs)) ys)"
  using assms unfolding assms(2)
  by (induction xs arbitrary: pre) simp_all

lemma skip_at: "n = int (length xs) \<Longrightarrow> skip n (at_file pre (xs @ ys)) = at_file (pre @ xs) ys"
  by (simp add: skip_def at_file_def nat_int_add)

lemma skip_back_at: "n = - int (length xs) \<Longrightarrow> skip n (at_file (pre @ xs) ys) = at_file pre (xs @ ys)"
  by (simp add: skip_def at_file_def)

lemma readToEnd_loop_at:
  "readToEnd_loop acc (at_file pre ys) = (acc @ ys, at_file (pre @ ys) [])"
proof (induction ys arbitrary: acc pre rule: length_induct)
  case (1 ys)
  show ?case
  proof (cases "ys = []")
    case True
    then have "fread 4096 (at_file pre ys) = ([], at_file pre [])"
      by (simp add: fread_def at_file_def)
    then show ?thesis using True by (subst readToEnd_loop.simps) simp
  next
    case False
    have "ys = take 4096 ys @ drop 4096 ys" by simp
    have r: "fread 4096 (at_file pre ys) = (take 4096 ys, at_file (pre @ take 4096 ys) (drop 4096 ys))"
      by (simp add: fread_def at_file_def)
    have "length (drop 4096 ys) < length ys" using False by simp
    with 1 have "readToEnd_loop (acc @ take 4096 ys) (at_file (pre @ take 4096 ys) (drop 4096 ys)) =
        ((acc @ take 4096 ys) @ drop 4096 ys, at_file ((pre @ take 4096 ys) @ drop 4096 ys) [])"
      by blast
    then show ?thesis using False by (subst readToEnd_loop.simps) (simp add: r)
  qed
qed

lemma readToEnd_at: "readToEnd (at_file pre ys) = (ys, at_file (pre @ ys) [])"
  by (simp add: readToEnd_def readToEnd_loop_at)

text \<open>The layout of RFC 8536: a block of counts and tables, indicators for it and a footer.\<close>

definition local_bytes :: "LocalTime \<Rightarrow> char list" where
  "local_bytes lt = be32 (utcOffset lt) @ byte_of (if isDst lt then 1 else 0) @ byte_of (desigIdx lt)"

definition tz_counts :: "Data \<Rightarrow> char list \<Rightarrow> char list \<Rightarrow> char list" where
  "tz_counts data stds utcs =
     be32 (int (length utcs)) @ be32 (int (length stds)) @ be32 0 @
     be32 (int (length (transitions data))) @ be32 (int (length (localtimes data))) @
     be32 (int (length (abbrev data)))"

definition tz_tables :: "(int \<Rightarrow> char list) \<Rightarrow> Data \<Rightarrow> char list" where
  "tz_tables time data =
     concat (map (time \<circ> utctime) (transitions data)) @
     concat (map (byte_of \<circ> localtimeIdx) (transitions data)) @
     concat (map local_bytes (localtimes data)) @ abbrev data"

definition tz_storable :: "(int \<Rightarrow> bool) \<Rightarrow> Data \<Rightarrow> bool" where
  "tz_storable time_ok data \<longleftrightarrow>
     length (transitions data) < 2 ^ 31 \<and> length (localtimes data) < 2 ^ 28 \<and>
     length (abbrev data) < 2 ^ 31 \<and>
     list_all (\<lambda>lt. in_int32 (utcOffset lt) \<and> 0 \<le> desigIdx lt \<and> desigIdx lt < 256) (localtimes data) \<and>
     list_all (\<lambda>t. 0 \<le> localtimeIdx t \<and> localtimeIdx t < 256 \<and>
       localtimeIdx t < int (length (localtimes data)) \<and> time_ok (utctime t) \<and>
       localtime t = utctime t + utcOffset (localtimes data ! nat (localtimeIdx t)) \<and>
       in_int64 (localtime t)) (transitions data)"

definition indicators_ok :: "Data \<Rightarrow> char list \<Rightarrow> bool" where
  "indicators_ok data inds \<longleftrightarrow> inds = [] \<or> length inds = length (localtimes data)"

lemma readLocalTime_at:
  assumes "in_int32 (utcOffset lt)" "0 \<le> desigIdx lt" "desigIdx lt < 256"
  shows "readLocalTime (at_file pre (local_bytes lt @ ys)) =
    Inr ((utcOffset lt, isDst lt, desigIdx lt), at_file (pre @ local_bytes lt) ys)"
  using assms
  by (simp add: readLocalTime_def local_bytes_def file_readInt32_at readUInt8_at)

lemma fold_addLocalTime:
  "fold (\<lambda>(gmtoff, isdst, abbrind). addLocalTime gmtoff isdst abbrind)
     (map (\<lambda>lt. (utcOffset lt, isDst lt, desigIdx lt)) lts) data =
   data\<lparr>localtimes := localtimes data @ lts\<rparr>"
  by (induction lts arbitrary: data) (simp_all add: addLocalTime_def)

lemma foldE_addTransition:
  assumes "list_all (\<lambda>t. 0 \<le> localtimeIdx t \<and> localtimeIdx t < int (length lts) \<and>
       localtime t = utctime t + utcOffset (lts ! nat (localtimeIdx t)) \<and> in_int64 (localtime t)) ts"
    and "localtimes data = lts"
  shows "foldE (\<lambda>(t, i). addTransition t i) (zip (map utctime ts) (map localtimeIdx ts)) data =
    Inr (data\<lparr>transitions := transitions data @ ts\<rparr>)"
  using assms
proof (induction ts arbitrary: data)
  case (Cons t ts)
  have "addTransition (utctime t) (localtimeIdx t) data = Inr (data\<lparr>transitions := transitions data @ [t]\<rparr>)"
    using Cons.prems by (cases t) (simp add: addTransition_def vec_at_def ints64_def)
  then show ?case using Cons by simp
qed simp

lemma readDataBlock_at:
  assumes st: "tz_storable time_ok data"
    and time: "\<And>i pre ys. time_ok i \<Longrightarrow>
      (if one then file_readInt32 else file_readInt64) (at_file pre (tb i @ ys)) = Inr (i, at_file (pre @ tb i) ys)"
    and ind: "indicators_ok data stds" "indicators_ok data utcs"
  shows "\<exists>f. readDataBlock one Data_new
      (at_file pre (tz_counts data stds utcs @ tz_tables tb data @ stds @ utcs @ rest)) =
    Inr (True, data\<lparr>tzstring := if one then [] else rest\<rparr>, f)"
proof -
  let ?ts = "transitions data" and ?lts = "localtimes data"
  have len: "length ?ts < 2 ^ 31" "length ?lts < 2 ^ 28" "length (abbrev data) < 2 ^ 31"
      "length stds < 2 ^ 28" "length utcs < 2 ^ 28"
    using st ind by (auto simp: tz_storable_def indicators_ok_def)
  then have i32: "in_int32 (int (length ?ts))" "in_int32 (int (length ?lts))"
      "in_int32 (int (length (abbrev data)))" "in_int32 (int (length stds))"
      "in_int32 (int (length utcs))" "in_int32 0"
    by (simp_all add: in_int32_def)
  have t: "time_ok (utctime x)" "0 \<le> localtimeIdx x" "localtimeIdx x < 256" if "x \<in> set ?ts" for x
    using st that by (auto simp: tz_storable_def list_all_iff)
  have l: "in_int32 (utcOffset x)" "0 \<le> desigIdx x" "desigIdx x < 256" if "x \<in> set ?lts" for x
    using st that by (auto simp: tz_storable_def list_all_iff)
  have tr: "read_many (length ?ts) (if one then file_readInt32 else file_readInt64)
      (at_file pre (concat (map (tb \<circ> utctime) ?ts) @ ys)) =
      Inr (map utctime ?ts, at_file (pre @ concat (map (tb \<circ> utctime) ?ts)) ys)" for pre ys
    using time t by (intro read_many_at) simp_all
  have ix: "read_many (length ?ts) readUInt8 (at_file pre (concat (map (byte_of \<circ> localtimeIdx) ?ts) @ ys)) =
      Inr (map localtimeIdx ?ts, at_file (pre @ concat (map (byte_of \<circ> localtimeIdx) ?ts)) ys)" for pre ys
    using t by (intro read_many_at) (simp_all add: readUInt8_at)
  have lo: "read_many (length ?lts) readLocalTime (at_file pre (concat (map local_bytes ?lts) @ ys)) =
      Inr (map (\<lambda>lt. (utcOffset lt, isDst lt, desigIdx lt)) ?lts,
        at_file (pre @ concat (map local_bytes ?lts)) ys)" for pre ys
    using l by (intro read_many_at) (simp_all add: readLocalTime_at)
  have ok: "list_all (\<lambda>t. 0 \<le> localtimeIdx t \<and> localtimeIdx t < int (length ?lts) \<and>
       localtime t = utctime t + utcOffset (?lts ! nat (localtimeIdx t)) \<and> in_int64 (localtime t)) ?ts"
    using st by (auto simp: tz_storable_def list_all_iff)
  have fe: "foldE (\<lambda>(t, i). addTransition t i) (zip (map utctime ?ts) (map localtimeIdx ?ts))
      (Data_new\<lparr>localtimes := ?lts\<rparr>) = Inr (Data_new\<lparr>localtimes := ?lts, transitions := ?ts\<rparr>)"
    using foldE_addTransition [OF ok, of "Data_new\<lparr>localtimes := ?lts\<rparr>"] by (simp add: Data_new_def)
  have c: "\<not> (int (length stds) \<noteq> 0 \<and> int (length stds) \<noteq> int (length ?lts))"
      "\<not> (int (length utcs) \<noteq> 0 \<and> int (length utcs) \<noteq> int (length ?lts))"
    using ind by (auto simp: indicators_ok_def)
  have sk: "skip 0 f = f" for f by (simp add: skip_def)
  have d: "localtimes Data_new @ ?lts = ?lts"
      "Data_new\<lparr>localtimes := ?lts, transitions := ?ts, abbrev := abbrev data\<rparr> = data\<lparr>tzstring := []\<rparr>"
      "Data_new\<lparr>localtimes := ?lts, transitions := ?ts, abbrev := abbrev data, tzstring := rest\<rparr> =
        data\<lparr>tzstring := rest\<rparr>"
    by (simp_all add: Data_new_def)
  show ?thesis
    using c unfolding tz_counts_def tz_tables_def readDataBlock_def Let_def
    by (simp add: file_readInt32_at i32 tr ix lo fold_addLocalTime d fe
        vector_reserve_def readBytes_at sk skip_at readToEnd_at)
qed

definition tz_header :: "char \<Rightarrow> char list" where
  "tz_header version = ''TZif'' @ [version] @ replicate 15 (CHR 0x00)"

text \<open>
  A version 2 file: a first header whose counts describe a first block of any contents, then the
  header, the counts and the tables that are read, their indicators and the footer.
\<close>

definition tz_file_v2 :: "Data \<Rightarrow> char list \<Rightarrow> char list \<Rightarrow> char list \<Rightarrow> Data \<Rightarrow> char list" where
  "tz_file_v2 data stds utcs footer old =
     tz_header (CHR ''2'') @ tz_counts old [] [] @ tz_tables be32 old @
     tz_header (CHR ''2'') @ tz_counts data stds utcs @ tz_tables be64 data @ stds @ utcs @ footer"

definition tz_file_v1 :: "char \<Rightarrow> Data \<Rightarrow> char list \<Rightarrow> char list \<Rightarrow> char list \<Rightarrow> char list" where
  "tz_file_v1 version data stds utcs rest =
     tz_header version @ tz_counts data stds utcs @ tz_tables be32 data @ stds @ utcs @ rest"

lemma length_concat_const: "(\<And>x. length (f x) = k) \<Longrightarrow> length (concat (map f xs)) = k * length xs"
  by (induction xs) simp_all

lemma length_tz_tables:
  "int (length (tz_tables be32 d)) = 4 * int (length (transitions d)) + int (length (transitions d)) +
     6 * int (length (localtimes d)) + int (length (abbrev d))"
  by (simp add: tz_tables_def local_bytes_def length_concat_const [of "be32 \<circ> utctime" 4]
      length_concat_const [of "byte_of \<circ> localtimeIdx" 1] length_concat_const [of local_bytes 6])

lemma readTimeZoneFile_head:
  assumes "rest = counts @ rest'" "counts = be32 a @ be32 b @ be32 c @ be32 d @ be32 e @ be32 g"
    "list_all in_int32 [a, b, c, d, e, g]"
  shows "readTimeZoneFile (Some (tz_header version @ rest)) data = catch_logic_error
    (let f = at_file (tz_header version @ counts) rest' in
     if [version] = ''2''
     then ints32 [6 * e, 8 * c]
       (let n = to_int64 (4 * d + d + 6 * e + g + 8 * c + b + a); f = skip n f
        in bindE (readBytes 4 f) (\<lambda>(head, f).
           if head \<noteq> ''TZif'' then Inl (LogicError ''bad head'')
           else bindE (readDataBlock False data (skip 16 f)) data_if))
     else bindE (readDataBlock True data (skip (- (4 * 6)) f)) data_if)"
proof -
  have f0: "\<lparr>file_bytes = xs, file_pos = 0\<rparr> = at_file [] xs" for xs by (simp add: at_file_def)
  have b: "readBytes 4 (at_file pre (''TZif'' @ ys)) = Inr (''TZif'', at_file (pre @ ''TZif'') ys)"
      "readBytes 1 (at_file pre ([v] @ ys)) = Inr ([v], at_file (pre @ [v]) ys)"
      "readBytes 15 (at_file pre (replicate 15 (CHR 0x00) @ ys)) =
        Inr (replicate 15 (CHR 0x00), at_file (pre @ replicate 15 (CHR 0x00)) ys)" for pre ys v
    by (rule readBytes_at; simp)+
  show ?thesis
    using assms(3) unfolding assms(1,2) tz_header_def readTimeZoneFile_def option.case f0 append_assoc b bindE_Inr prod.case
    by (simp add: file_readInt32_at del: replicate.simps)
qed

lemma length_tz_header [simp]: "length (tz_header v) = 20"
  by (simp add: tz_header_def)

lemma tz_counts_in_int32:
  assumes "tz_storable ok data" "indicators_ok data stds" "indicators_ok data utcs"
  shows "list_all in_int32 [int (length utcs), int (length stds), 0, int (length (transitions data)),
    int (length (localtimes data)), int (length (abbrev data))]"
  using assms by (auto simp: tz_storable_def indicators_ok_def in_int32_def)

lemma loadZoneFile_v2:
  assumes st: "tz_storable in_int64 data" and ind: "indicators_ok data stds" "indicators_ok data utcs"
    and old: "tz_storable in_int32 old"
  shows "loadZoneFile (Some (tz_file_v2 data stds utcs footer old)) = Inr (Some (data\<lparr>tzstring := footer\<rparr>))"
proof -
  let ?block = "tz_counts data stds utcs @ tz_tables be64 data @ stds @ utcs @ footer"
  let ?n = "4 * int (length (transitions old)) + int (length (transitions old)) +
     6 * int (length (localtimes old)) + int (length (abbrev old)) + 8 * 0 + 0 + 0"
  have o: "length (transitions old) < 2 ^ 31" "length (localtimes old) < 2 ^ 28" "length (abbrev old) < 2 ^ 31"
    using old by (auto simp: tz_storable_def)
  have n: "to_int64 ?n = int (length (tz_tables be32 old))"
    unfolding length_tz_tables using o by (subst to_int64_exact) (simp_all add: in_int64_def)
  have n': "to_int64 (4 * int (length (transitions old)) + int (length (transitions old)) +
     6 * int (length (localtimes old)) + int (length (abbrev old)) + 8 * 0 +
     int (length ([] :: char list)) + int (length ([] :: char list))) = int (length (tz_tables be32 old))"
    using n by simp
  have g: "list_all in_int32 [6 * int (length (localtimes old)), 8 * 0]"
    using o by (simp add: in_int32_def)
  obtain f where f: "readDataBlock False Data_new (at_file (((tz_header (CHR ''2'') @ tz_counts old [] []) @
      tz_tables be32 old) @ tz_header (CHR ''2'')) ?block) = Inr (True, data\<lparr>tzstring := footer\<rparr>, f)"
    using readDataBlock_at [OF st _ ind, where one = False and rest = footer and tb = be64] file_readInt64_at
    by fastforce
  have h: "readBytes 4 (at_file pre (tz_header (CHR ''2'') @ ys)) =
      Inr (''TZif'', at_file (pre @ ''TZif'') (([CHR ''2''] @ replicate 15 (CHR 0x00)) @ ys))"
      "skip 16 (at_file (pre @ ''TZif'') (([CHR ''2''] @ replicate 15 (CHR 0x00)) @ ys)) =
        at_file (pre @ tz_header (CHR ''2'')) ys" for pre ys
    using readBytes_at [of "''TZif''" 4 pre] skip_at [of 16 "[CHR ''2''] @ replicate 15 (CHR 0x00)" "pre @ ''TZif''" ys]
    by (simp_all add: tz_header_def)
  have c: "list_all in_int32 [int (length ([] :: char list)), int (length ([] :: char list)), 0,
      int (length (transitions old)), int (length (localtimes old)), int (length (abbrev old))]"
    by (rule tz_counts_in_int32 [OF old]) (simp_all add: indicators_ok_def)
  note head = readTimeZoneFile_head [OF refl tz_counts_def c, where version = "CHR ''2''" and data = Data_new]
  show ?thesis
    unfolding loadZoneFile_def tz_file_v2_def head Let_def ints32_ok [OF g] skip_at [OF n'] h
      bindE_Inr prod.case f data_if_def
    by (simp add: catch_logic_error_def)
qed

lemma loadZoneFile_v1:
  assumes st: "tz_storable in_int32 data" and ind: "indicators_ok data stds" "indicators_ok data utcs"
    and v: "version \<noteq> CHR ''2''"
  shows "loadZoneFile (Some (tz_file_v1 version data stds utcs rest)) = Inr (Some (data\<lparr>tzstring := []\<rparr>))"
proof -
  let ?tables = "tz_tables be32 data @ stds @ utcs @ rest"
  have v2: "[version] \<noteq> ''2''" using v by simp
  obtain f where f: "readDataBlock True Data_new (at_file (tz_header version)
      (tz_counts data stds utcs @ ?tables)) = Inr (True, data\<lparr>tzstring := []\<rparr>, f)"
    using readDataBlock_at [OF st _ ind, where one = True and rest = rest and tb = be32] file_readInt32_at
    by fastforce
  have sk: "- (4 * 6) = - int (length (tz_counts data stds utcs))" by (simp add: tz_counts_def)
  note head = readTimeZoneFile_head [OF refl tz_counts_def tz_counts_in_int32 [OF st ind],
      where version = version and data = Data_new]
  show ?thesis
    unfolding loadZoneFile_def tz_file_v1_def head Let_def if_not_P [OF v2] skip_back_at [OF sk]
      f bindE_Inr data_if_def
    by (simp add: catch_logic_error_def)
qed

text \<open>What a successful load guarantees of any file, also a corrupt one.\<close>

definition idx_ok :: "Data \<Rightarrow> bool" where
  "idx_ok data \<longleftrightarrow> list_all (\<lambda>t. 0 \<le> localtimeIdx t \<and> localtimeIdx t < int (length (localtimes data)) \<and>
     localtime t = utctime t + utcOffset (localtimes data ! nat (localtimeIdx t))) (transitions data)"

lemma addTransition_idx_ok:
  "addTransition t i data = Inr data' \<Longrightarrow> idx_ok data \<Longrightarrow> idx_ok data'"
  by (auto simp: addTransition_def vec_at_def idx_ok_def ints64_eq_Inr list_all_iff bindE_eq_Inr split: if_splits)

lemma foldE_addTransition_idx_ok:
  "foldE (\<lambda>(t, i). addTransition t i) xs data = Inr data' \<Longrightarrow> idx_ok data \<Longrightarrow> idx_ok data'"
proof (induction xs arbitrary: data)
  case (Cons x xs)
  then show ?case using addTransition_idx_ok by (cases x) (auto simp: bindE_eq_Inr)
qed simp

lemma readDataBlock_idx_ok:
  assumes "readDataBlock v1 Data_new f = Inr (ok, data, f')"
  shows "idx_ok data"
proof -
  have new: "idx_ok Data_new" by (simp add: idx_ok_def Data_new_def)
  have lts: "idx_ok (fold (\<lambda>(gmtoff, isdst, abbrind). addLocalTime gmtoff isdst abbrind) lts Data_new)" for lts
  proof -
    have "transitions (fold (\<lambda>(gmtoff, isdst, abbrind). addLocalTime gmtoff isdst abbrind) lts d) = transitions d" for d
      by (induction lts arbitrary: d) (auto simp: addLocalTime_def)
    then show ?thesis by (simp add: idx_ok_def Data_new_def)
  qed
  have upd: "idx_ok (d\<lparr>abbrev := a\<rparr>) = idx_ok d" "idx_ok (d\<lparr>tzstring := a\<rparr>) = idx_ok d" for d a
    by (simp_all add: idx_ok_def)
  show ?thesis
    using assms foldE_addTransition_idx_ok [OF _ lts] new
    by (auto simp: readDataBlock_def bindE_eq_Inr vector_reserve_def Let_def upd
        case_prod_beta [where p = "readToEnd f" for f] split: if_splits)
qed

lemma loadZoneFile_idx_ok:
  assumes "loadZoneFile contents = Inr (Some data)"
  shows "idx_ok data"
  using assms readDataBlock_idx_ok
  by (auto simp: loadZoneFile_def readTimeZoneFile_def catch_logic_error_def bindE_eq_Inr data_if_def
      ints32_eq_Inr Let_def split: option.splits sum.splits fault.splits if_splits)

text \<open>
  A file with no local time records is accepted, although RFC 8536 demands at least one; every
  lookup in the zone it gives then reads the front of an empty vector.
\<close>

lemma empty_zone_undefined:
  "\<exists>data. loadZoneFile (Some (tz_file_v2 Data_new [] [] [] Data_new)) = Inr (Some data) \<and>
     toLocalTime t (Some data) = Inl UndefinedBehaviour"
proof -
  have "tz_storable in_int64 Data_new" "tz_storable in_int32 Data_new" "indicators_ok Data_new []"
    by (simp_all add: tz_storable_def Data_new_def indicators_ok_def)
  then show ?thesis
    using loadZoneFile_v2 [of Data_new "[]" "[]" Data_new "[]"]
    by (simp add: toLocalTime_def findLocalTime_def vec_front_def Data_new_def)
qed

lemma prc_zone_storable: "tz_storable in_int64 prc_zone" "tz_storable in_int32 prc_zone"
  by (simp_all add: tz_storable_def prc_zone_def in_int32_def in_int64_def)

section \<open>Properties\<close>



text \<open>
  Whatever bytes a file holds, a zone loaded from it refers only to local time records it
  has: when it has at least one and its transitions are in order (which \<^verbatim>\<open>std::upper_bound\<close>
  requires), every lookup returns one of them.
\<close>

theorem loaded_zone_lookup_safe:
  assumes "loadZoneFile contents = Inr (Some data)" and "localtimes data \<noteq> []"
    and "sorted_wrt CompareUtcTime (transitions data)"
  shows "\<exists>lt \<in> set (localtimes data). findLocalTime t data = Inr lt"
proof -
  let ?ts = "transitions data" and ?lts = "localtimes data"
  have ok: "vec_nth ?lts (localtimeIdx tr) = Inr (?lts ! nat (localtimeIdx tr)) \<and>
      ?lts ! nat (localtimeIdx tr) \<in> set ?lts" if "tr \<in> set ?ts" for tr
    using loadZoneFile_idx_ok [OF assms(1)] that
    by (auto simp: idx_ok_def list_all_iff vec_nth_def intro!: nth_mem)
  show ?thesis
  proof (cases "?ts = [] \<or> t < utctime (hd ?ts)")
    case True
    then show ?thesis using assms(2) by (auto simp: findLocalTime_def Let_def vec_front_def)
  next
    case False
    let ?u = "upper_bound CompareUtcTime \<lparr>utctime = t, localtime = 0, localtimeIdx = 0\<rparr> ?ts"
    have u: "0 < ?u"
      using False by (cases ?ts) (auto simp: upper_bound_def CompareUtcTime_def)
    moreover have "?u \<le> length ?ts" by (rule upper_bound_le)
    ultimately have "vec_nth ?ts (int ?u - 1) = Inr (?ts ! (?u - 1))" "?ts ! (?u - 1) \<in> set ?ts"
      using vec_nth_ok [of "?u - 1" ?ts] by (simp_all add: of_nat_diff)
    moreover have "vec_back ?ts = Inr (last ?ts)" "last ?ts \<in> set ?ts"
      using False by (simp_all add: vec_back_def)
    ultimately show ?thesis
      using False u ok by (auto simp: findLocalTime_def Let_def)
  qed
qed

theorem loaded_zone_lookup_safe_witness:
  "\<exists>lt \<in> set (localtimes prc_zone). findLocalTime 644198400 (prc_zone\<lparr>tzstring := []\<rparr>) = Inr lt"
proof -
  have l: "loadZoneFile (Some (tz_file_v1 (CHR 0x00) prc_zone [] [] [])) = Inr (Some (prc_zone\<lparr>tzstring := []\<rparr>))"
    using loadZoneFile_v1 [OF prc_zone_storable(2)] by (simp add: indicators_ok_def)
  have s: "sorted_wrt CompareUtcTime (transitions (prc_zone\<lparr>tzstring := []\<rparr>))"
      "localtimes (prc_zone\<lparr>tzstring := []\<rparr>) \<noteq> []"
    by (simp_all add: prc_zone_def CompareUtcTime_def)
  from loaded_zone_lookup_safe [OF l s(2,1)] show ?thesis by simp
qed

end
