(* ===== verification/Http.thy ===== *)
theory Http
  imports Buffer Format
begin

text \<open>
  \<^verbatim>\<open>muduo/net/http\<close>: the request and its incremental parser, the response and its rendering, and
  the server that ties them to a connection. The user's callback is an argument; the calls the
  server makes on the connection are returned in order. A \<^verbatim>\<open>Timestamp\<close> is its microseconds.
\<close>

section \<open>Requests\<close>

datatype Method = kInvalid | kGet | kPost | kHead | kPut | kDelete

datatype Version = kUnknown | kHttp10 | kHttp11

record HttpRequest =
  req_method :: Method
  req_version :: Version
  req_path :: string
  req_query :: string
  receiveTime :: int
  req_headers :: "(string \<times> string) list"

definition HttpRequest_new :: HttpRequest where
  "HttpRequest_new = \<lparr>req_method = kInvalid, req_version = kUnknown, req_path = [], req_query = [],
     receiveTime = 0, req_headers = []\<rparr>"

definition setVersion :: "Version \<Rightarrow> HttpRequest \<Rightarrow> HttpRequest" where
  "setVersion v r = r\<lparr>req_version := v\<rparr>"

definition method_of :: "string \<Rightarrow> Method" where
  "method_of m =
     (if m = ''GET'' then kGet else if m = ''POST'' then kPost else if m = ''HEAD'' then kHead
      else if m = ''PUT'' then kPut else if m = ''DELETE'' then kDelete else kInvalid)"

definition setMethod :: "string \<Rightarrow> HttpRequest \<Rightarrow> (bool \<times> HttpRequest) res" where
  "setMethod m r =
     assert_that (req_method r = kInvalid)
       (let r' = r\<lparr>req_method := method_of m\<rparr> in Inr (req_method r' \<noteq> kInvalid, r'))"

fun methodString :: "Method \<Rightarrow> string" where
  "methodString kGet = ''GET''"
| "methodString kPost = ''POST''"
| "methodString kHead = ''HEAD''"
| "methodString kPut = ''PUT''"
| "methodString kDelete = ''DELETE''"
| "methodString kInvalid = ''UNKNOWN''"

definition setPath :: "string \<Rightarrow> HttpRequest \<Rightarrow> HttpRequest" where
  "setPath s r = r\<lparr>req_path := s\<rparr>"

definition setQuery :: "string \<Rightarrow> HttpRequest \<Rightarrow> HttpRequest" where
  "setQuery s r = r\<lparr>req_query := s\<rparr>"

definition setReceiveTime :: "int \<Rightarrow> HttpRequest \<Rightarrow> HttpRequest" where
  "setReceiveTime t r = r\<lparr>receiveTime := t\<rparr>"

text \<open>\<^verbatim>\<open>isspace\<close> in the C locale.\<close>

definition isspace :: "char \<Rightarrow> bool" where
  "isspace c \<longleftrightarrow> c = CHR '' '' \<or> c = CHR 0x09 \<or> c = CHR 0x0A \<or> c = CHR 0x0B \<or> c = CHR 0x0C \<or> c = CHR 0x0D"

fun strip_back :: "string \<Rightarrow> string" where
  "strip_back value = (if value \<noteq> [] \<and> isspace (last value) then strip_back (butlast value) else value)"

declare strip_back.simps [simp del]

definition req_addHeader :: "string \<Rightarrow> nat \<Rightarrow> HttpRequest \<Rightarrow> HttpRequest" where
  "req_addHeader line colon r =
     (let field = take colon line;
          value = strip_back (dropWhile isspace (drop (colon + 1) line))
      in r\<lparr>req_headers := smap_set field value (req_headers r)\<rparr>)"

definition getHeader :: "string \<Rightarrow> HttpRequest \<Rightarrow> string" where
  "getHeader field r = (case map_of (req_headers r) field of None \<Rightarrow> [] | Some v \<Rightarrow> v)"

definition req_swap :: "HttpRequest \<Rightarrow> HttpRequest \<Rightarrow> HttpRequest \<times> HttpRequest" where
  "req_swap r that = (that, r)"

section \<open>The parser\<close>

datatype HttpRequestParseState = kExpectRequestLine | kExpectHeaders | kExpectBody | kGotAll

record HttpContext =
  ctx_state :: HttpRequestParseState
  request :: HttpRequest

definition HttpContext_new :: HttpContext where
  "HttpContext_new = \<lparr>ctx_state = kExpectRequestLine, request = HttpRequest_new\<rparr>"

definition gotAll :: "HttpContext \<Rightarrow> bool" where
  "gotAll c \<longleftrightarrow> ctx_state c = kGotAll"

definition ctx_reset :: "HttpContext \<Rightarrow> HttpContext" where
  "ctx_reset c = c\<lparr>ctx_state := kExpectRequestLine, request := fst (req_swap (request c) HttpRequest_new)\<rparr>"

text \<open>The line is the range from \<^verbatim>\<open>begin\<close> to \<^verbatim>\<open>end\<close>; positions are offsets in it.\<close>

definition processRequestLine :: "string \<Rightarrow> HttpRequest \<Rightarrow> (bool \<times> HttpRequest) res" where
  "processRequestLine line r =
     (let space = std_find (CHR '' '') line in
      if space = length line then Inr (False, r)
      else bindE (setMethod (take space line) r) (\<lambda>(ok, r).
        if \<not> ok then Inr (False, r)
        else let start = space + 1;
                 space = start + std_find (CHR '' '') (drop start line)
             in if space = length line then Inr (False, r)
                else let question = start + std_find (CHR ''?'') (subrange start space line);
                         r = (if question \<noteq> space
                              then setQuery (subrange question space line)
                                     (setPath (subrange start question line) r)
                              else setPath (subrange start space line) r);
                         start = space + 1;
                         succeed = (length line - start = 8 \<and>
                                    subrange start (length line - 1) line = ''HTTP/1.'')
                     in Inr (if \<not> succeed then (False, r)
                             else if last line = CHR ''1'' then (True, setVersion kHttp11 r)
                             else if last line = CHR ''0'' then (True, setVersion kHttp10 r)
                             else (False, r))))"

text \<open>
  One pass of the loop of \<^verbatim>\<open>parseRequest\<close>: the new \<^verbatim>\<open>hasMore\<close> and \<^verbatim>\<open>ok\<close>, the buffer and the
  context. In the states that expect nothing more the pass changes nothing and the loop goes on.
\<close>

definition parseRequest_step ::
    "int \<Rightarrow> bool \<times> Buffer \<times> HttpContext \<Rightarrow> (bool \<times> bool \<times> Buffer \<times> HttpContext) res" where
  "parseRequest_step now s =
     (case s of (ok, buf, ctx) \<Rightarrow>
        case ctx_state ctx of
          kExpectRequestLine \<Rightarrow>
            (case findCRLF buf of
               Some crlf \<Rightarrow>
                 bindE (processRequestLine (bytes_at buf (peek buf) crlf) (request ctx)) (\<lambda>(ok, r).
                   if ok
                   then bindE (retrieveUntil (crlf + 2) buf) (\<lambda>buf.
                          Inr (True, ok, buf, ctx\<lparr>ctx_state := kExpectHeaders,
                                                 request := setReceiveTime now r\<rparr>))
                   else Inr (False, ok, buf, ctx\<lparr>request := r\<rparr>))
             | None \<Rightarrow> Inr (False, ok, buf, ctx))
        | kExpectHeaders \<Rightarrow>
            (case findCRLF buf of
               Some crlf \<Rightarrow>
                 (let line = bytes_at buf (peek buf) crlf;
                      colon = std_find (CHR '':'') line;
                      ctx' = (if colon \<noteq> length line
                              then ctx\<lparr>request := req_addHeader line colon (request ctx)\<rparr>
                              else ctx\<lparr>ctx_state := kGotAll\<rparr>)
                  in bindE (retrieveUntil (crlf + 2) buf) (\<lambda>buf.
                       Inr (colon \<noteq> length line, ok, buf, ctx')))
             | None \<Rightarrow> Inr (False, ok, buf, ctx))
        | kExpectBody \<Rightarrow> Inr (True, ok, buf, ctx)
        | kGotAll \<Rightarrow> Inr (True, ok, buf, ctx))"

partial_function (option) parseRequest_loop ::
    "int \<Rightarrow> bool \<times> Buffer \<times> HttpContext \<Rightarrow> (bool \<times> Buffer \<times> HttpContext) res option" where
  "parseRequest_loop now s =
     (case parseRequest_step now s of
        Inl e \<Rightarrow> Some (Inl e)
      | Inr (hasMore, s') \<Rightarrow> if hasMore then parseRequest_loop now s' else Some (Inr s'))"

definition parseRequest ::
    "int \<Rightarrow> Buffer \<Rightarrow> HttpContext \<Rightarrow> (bool \<times> Buffer \<times> HttpContext) res option" where
  "parseRequest now buf ctx = parseRequest_loop now (True, buf, ctx)"

section \<open>Responses\<close>

datatype HttpStatusCode = status_kUnknown | k200Ok | k301MovedPermanently | k400BadRequest | k404NotFound

fun status_value :: "HttpStatusCode \<Rightarrow> int" where
  "status_value status_kUnknown = 0"
| "status_value k200Ok = 200"
| "status_value k301MovedPermanently = 301"
| "status_value k400BadRequest = 400"
| "status_value k404NotFound = 404"

record HttpResponse =
  resp_headers :: "(string \<times> string) list"
  statusCode :: HttpStatusCode
  statusMessage :: string
  closeConnection :: bool
  resp_body :: string

definition HttpResponse_new :: "bool \<Rightarrow> HttpResponse" where
  "HttpResponse_new close = \<lparr>resp_headers = [], statusCode = status_kUnknown, statusMessage = [],
     closeConnection = close, resp_body = []\<rparr>"

definition setStatusCode :: "HttpStatusCode \<Rightarrow> HttpResponse \<Rightarrow> HttpResponse" where
  "setStatusCode code r = r\<lparr>statusCode := code\<rparr>"

definition setStatusMessage :: "string \<Rightarrow> HttpResponse \<Rightarrow> HttpResponse" where
  "setStatusMessage message r = r\<lparr>statusMessage := message\<rparr>"

definition setCloseConnection :: "bool \<Rightarrow> HttpResponse \<Rightarrow> HttpResponse" where
  "setCloseConnection on r = r\<lparr>closeConnection := on\<rparr>"

definition resp_addHeader :: "string \<Rightarrow> string \<Rightarrow> HttpResponse \<Rightarrow> HttpResponse" where
  "resp_addHeader key value r = r\<lparr>resp_headers := smap_set key value (resp_headers r)\<rparr>"

definition setContentType :: "string \<Rightarrow> HttpResponse \<Rightarrow> HttpResponse" where
  "setContentType contentType r = resp_addHeader ''Content-Type'' contentType r"

definition setBody :: "string \<Rightarrow> HttpResponse \<Rightarrow> HttpResponse" where
  "setBody body r = r\<lparr>resp_body := body\<rparr>"

text \<open>\<^verbatim>\<open>append\<close> takes a \<^verbatim>\<open>StringPiece\<close>, whose length is an \<^verbatim>\<open>int\<close>.\<close>

definition append_string :: "string \<Rightarrow> Buffer \<Rightarrow> Buffer res" where
  "append_string s = Buffer_append_piece (s, to_int32 (int (length s)))"

definition crlf_string :: string where
  "crlf_string = [CHR 0x0D, CHR 0x0A]"

definition response_pieces :: "HttpResponse \<Rightarrow> string list" where
  "response_pieces r =
     [snprintf_buf 32 (''HTTP/1.1 '' @ fmt_d (status_value (statusCode r)) @ '' ''), statusMessage r, crlf_string] @
     (if closeConnection r then [''Connection: close'' @ crlf_string]
      else [snprintf_buf 32 (''Content-Length: '' @ fmt_d (int (length (resp_body r))) @ crlf_string),
            ''Connection: Keep-Alive'' @ crlf_string]) @
     concat (map (\<lambda>(k, v). [k, '': '', v, crlf_string]) (resp_headers r)) @
     [crlf_string, resp_body r]"

definition appendToBuffer :: "HttpResponse \<Rightarrow> Buffer \<Rightarrow> Buffer res" where
  "appendToBuffer r output = foldE append_string (response_pieces r) output"

section \<open>The server\<close>

datatype conn_call = ConnSend string | ConnShutdown

definition defaultHttpCallback :: "HttpRequest \<Rightarrow> HttpResponse \<Rightarrow> HttpResponse" where
  "defaultHttpCallback req resp =
     setCloseConnection True (setStatusMessage ''Not Found'' (setStatusCode k404NotFound resp))"

definition http_onConnection :: "bool \<Rightarrow> HttpContext option \<Rightarrow> HttpContext option" where
  "http_onConnection connected context = (if connected then Some HttpContext_new else context)"

definition onRequest ::
    "(HttpRequest \<Rightarrow> HttpResponse \<Rightarrow> HttpResponse) \<Rightarrow> HttpRequest \<Rightarrow> conn_call list res" where
  "onRequest httpCallback req =
     (let connection = getHeader ''Connection'' req;
          close = (connection = ''close'' \<or> (req_version req = kHttp10 \<and> connection \<noteq> ''Keep-Alive''));
          response = httpCallback req (HttpResponse_new close)
      in bindE (Buffer_new kInitialSize) (\<lambda>buf.
         bindE (appendToBuffer response buf) (\<lambda>buf.
         Inr (ConnSend (content buf) # (if closeConnection response then [ConnShutdown] else [])))))"

definition http_onMessage ::
    "(HttpRequest \<Rightarrow> HttpResponse \<Rightarrow> HttpResponse) \<Rightarrow> int \<Rightarrow> Buffer \<Rightarrow> HttpContext \<Rightarrow>
     (conn_call list \<times> Buffer \<times> HttpContext) res option" where
  "http_onMessage httpCallback now buf context =
     (case parseRequest now buf context of
        None \<Rightarrow> None
      | Some (Inl e) \<Rightarrow> Some (Inl e)
      | Some (Inr (ok, buf, context)) \<Rightarrow>
          let calls = (if ok then []
                       else [ConnSend (''HTTP/1.1 400 Bad Request'' @ crlf_string @ crlf_string), ConnShutdown])
          in Some (if gotAll context
                   then bindE (onRequest httpCallback (request context)) (\<lambda>cs.
                          Inr (calls @ cs, buf, ctx_reset context))
                   else Inr (calls, buf, context)))"

section \<open>The parser on the readable bytes\<close>

text \<open>The first line of a text, without and beyond its line end.\<close>

definition line_split :: "string \<Rightarrow> (string \<times> string) option" where
  "line_split xs =
     (let i = std_search xs kCRLF in if i = length xs then None else Some (take i xs, drop (i + 2) xs))"

lemma length_kCRLF [simp]: "length kCRLF = 2"
  by (simp add: kCRLF_def)

lemma line_split_length: "line_split xs = Some (l, r) \<Longrightarrow> length r < length xs"
  using std_search_le [of xs kCRLF] by (auto simp: line_split_def Let_def split: if_splits)

lemma line_split_Some:
  assumes "line_split xs = Some (l, r)"
  shows "xs = l @ kCRLF @ r"
proof -
  let ?i = "std_search xs kCRLF"
  have i: "?i < length xs" "l = take ?i xs" "r = drop (?i + 2) xs"
    using assms std_search_le [of xs kCRLF] by (auto simp: line_split_def Let_def split: if_splits)
  have "take 2 (drop ?i xs) = kCRLF" using std_search_found [OF i(1)] by simp
  then have "drop ?i xs = kCRLF @ drop 2 (drop ?i xs)" by (metis append_take_drop_id)
  then show ?thesis unfolding i by (metis append_take_drop_id drop_drop add.commute)
qed

lemma line_split_append:
  assumes "line_split xs = Some (l, r)"
  shows "line_split (xs @ zs) = Some (l, r @ zs)"
proof -
  let ?i = "std_search xs kCRLF"
  have i: "?i < length xs" "l = take ?i xs" "r = drop (?i + 2) xs"
    using assms std_search_le [of xs kCRLF] by (auto simp: line_split_def Let_def split: if_splits)
  have f: "take 2 (drop ?i xs) = kCRLF" using std_search_found [OF i(1)] by simp
  have "length (take 2 (drop ?i xs)) = 2" unfolding f by simp
  then have i2: "?i + 2 \<le> length xs" by simp
  have "std_search (xs @ zs) kCRLF = ?i"
  proof (rule antisym)
    show "std_search (xs @ zs) kCRLF \<le> ?i"
      using i f i2 by (intro std_search_at_most) simp_all
    show "?i \<le> std_search (xs @ zs) kCRLF"
    proof (rule ccontr)
      let ?j = "std_search (xs @ zs) kCRLF"
      assume "\<not> ?thesis"
      then have j: "?j < ?i" by simp
      then have "take 2 (drop ?j (xs @ zs)) = kCRLF"
        using std_search_found [of "xs @ zs" kCRLF] i by simp
      then have "take 2 (drop ?j xs) = kCRLF" using j i2 by simp
      then show False using std_search_first [OF j] by simp
    qed
  qed
  then show ?thesis using i i2 by (simp add: line_split_def Let_def)
qed

lemma line_split_line:
  assumes "CHR 0x0D \<notin> set l"
  shows "line_split (l @ kCRLF @ r) = Some (l, r)"
proof -
  have "std_search (l @ kCRLF @ r) kCRLF = length l"
    using assms by (induction l) (auto simp: kCRLF_def)
  then show ?thesis by (simp add: line_split_def kCRLF_def)
qed

text \<open>The parser as recursion over the lines of a text.\<close>

function http_parse :: "int \<Rightarrow> HttpContext \<Rightarrow> string \<Rightarrow> (bool \<times> HttpContext \<times> string) res" where
  "http_parse now ctx xs =
     (case line_split xs of
        None \<Rightarrow> Inr (True, ctx, xs)
      | Some (line, rest) \<Rightarrow>
          if ctx_state ctx = kExpectRequestLine
          then bindE (processRequestLine line (request ctx)) (\<lambda>(ok, r).
                 if ok then http_parse now (ctx\<lparr>ctx_state := kExpectHeaders, request := setReceiveTime now r\<rparr>) rest
                 else Inr (False, ctx\<lparr>request := r\<rparr>, xs))
          else if std_find (CHR '':'') line \<noteq> length line
          then http_parse now (ctx\<lparr>request := req_addHeader line (std_find (CHR '':'') line) (request ctx)\<rparr>) rest
          else Inr (True, ctx\<lparr>ctx_state := kGotAll\<rparr>, rest))"
  by pat_completeness auto

termination
  by (relation "measure (\<lambda>(now, ctx, xs). length xs)") (auto dest: line_split_length)

declare http_parse.simps [simp del]

definition expects :: "HttpContext \<Rightarrow> bool" where
  "expects ctx \<longleftrightarrow> ctx_state ctx = kExpectRequestLine \<or> ctx_state ctx = kExpectHeaders"

lemma bytes_at_peek:
  assumes "buf_inv b" "n \<le> length (content b)"
  shows "bytes_at b (peek b) (peek b + n) = take n (content b)"
proof -
  have "n \<le> writerIndex b - readerIndex b"
    using assms by (simp add: content_def bytes_at_def length_subrange buf_inv_def)
  then show ?thesis by (simp add: content_def bytes_at_def peek_def subrange_def min_absorb1)
qed

lemma findCRLF_split:
  assumes "buf_inv b"
  shows "findCRLF b = None \<and> line_split (content b) = None \<or>
    (\<exists>i. findCRLF b = Some (peek b + i) \<and> i + 2 \<le> length (content b) \<and>
      bytes_at b (peek b) (peek b + i) = take i (content b) \<and>
      line_split (content b) = Some (take i (content b), drop (i + 2) (content b)))"
proof -
  let ?xs = "content b" and ?i = "std_search (content b) kCRLF"
  have b: "bytes_at b (peek b) (beginWrite b) = ?xs" "peek b + length ?xs = beginWrite b"
      "readerIndex b \<le> writerIndex b" "writerIndex b \<le> length (buffer b)"
    using assms by (simp_all add: content_def peek_def beginWrite_def bytes_at_def length_subrange buf_inv_def)
  show ?thesis
  proof (cases "?i = length ?xs")
    case True
    then show ?thesis using b by (simp add: findCRLF_def Let_def line_split_def)
  next
    case False
    then have "?i < length ?xs" using std_search_le [of ?xs kCRLF] by simp
    then have "length (take 2 (drop ?i ?xs)) = 2" using std_search_found [of ?xs kCRLF] by simp
    then have "?i + 2 \<le> length ?xs" by simp
    moreover have "bytes_at b (peek b) (peek b + ?i) = take ?i ?xs"
      using calculation by (intro bytes_at_peek [OF assms]) simp
    moreover have "findCRLF b = Some (peek b + ?i)"
      using False b by (simp add: findCRLF_def Let_def)
    ultimately show ?thesis using False by (auto simp: line_split_def Let_def)
  qed
qed

lemma retrieveUntil_ok:
  assumes "buf_inv b" "n \<le> length (content b)"
  shows "\<exists>b'. retrieveUntil (peek b + n) b = Inr b' \<and> buf_inv b' \<and> content b' = drop n (content b) \<and>
    (\<forall>k. buf_room b k \<longrightarrow> buf_room b' k)"
proof -
  have "peek b + length (content b) = beginWrite b"
    using assms(1) by (simp add: content_def peek_def beginWrite_def bytes_at_def length_subrange buf_inv_def)
  then have "retrieveUntil (peek b + n) b = retrieve n b"
    using assms(2) by (simp add: retrieveUntil_def sub64_def)
  then show ?thesis using bufq.get_law [OF assms] by simp
qed

text \<open>The loop over the buffer computes the recursion over its text.\<close>

lemma parseRequest_loop_refines:
  assumes "buf_inv buf" and "expects ctx"
  shows "case http_parse now ctx (content buf) of
      Inl e \<Rightarrow> parseRequest_loop now (True, buf, ctx) = Some (Inl e)
    | Inr (ok, ctx', xs) \<Rightarrow> \<exists>buf'. parseRequest_loop now (True, buf, ctx) = Some (Inr (ok, buf', ctx')) \<and>
        buf_inv buf' \<and> content buf' = xs \<and> (\<forall>k. buf_room buf k \<longrightarrow> buf_room buf' k)"
  using assms
proof (induction "length (content buf)" arbitrary: buf ctx rule: less_induct)
  case less
  note pr = http_parse.simps [of now ctx] parseRequest_loop.simps [of now "(True, buf, ctx)"]
  show ?case
  proof (cases "line_split (content buf)")
    case None
    then show ?thesis using findCRLF_split [OF less(2)] less(2,3)
      unfolding pr by (auto simp: parseRequest_step_def expects_def)
  next
    case (Some lr)
    then obtain i where i: "findCRLF buf = Some (peek buf + i)" "i + 2 \<le> length (content buf)"
        "bytes_at buf (peek buf) (peek buf + i) = take i (content buf)"
        "lr = (take i (content buf), drop (i + 2) (content buf))"
      using findCRLF_split [OF less(2)] by auto
    obtain b2 where b2: "retrieveUntil (peek buf + (i + 2)) buf = Inr b2" "buf_inv b2"
        "content b2 = drop (i + 2) (content buf)" "\<forall>k. buf_room buf k \<longrightarrow> buf_room b2 k"
      using retrieveUntil_ok [OF less(2) i(2)] by blast
    have b2': "retrieveUntil (Suc (Suc (peek buf + i))) buf = Inr b2" using b2(1) by simp
    have len: "length (content b2) < length (content buf)" using b2(3) i(2) by simp
    note IH = less(1) [OF len b2(2)]
    show ?thesis
    proof (cases "ctx_state ctx = kExpectRequestLine")
      case True
      show ?thesis
      proof (cases "processRequestLine (take i (content buf)) (request ctx)")
        case (Inl e)
        then show ?thesis using True i Some unfolding pr by (simp add: parseRequest_step_def)
      next
        case (Inr okr)
        let ?c = "ctx\<lparr>ctx_state := kExpectHeaders, request := setReceiveTime now (snd okr)\<rparr>"
        show ?thesis
        proof (cases "fst okr")
          case ok: True
          have e: "expects ?c" by (simp add: expects_def)
          have "parseRequest_loop now (True, buf, ctx) = parseRequest_loop now (True, b2, ?c)"
            using True i Inr ok b2' unfolding pr by (cases okr) (simp add: parseRequest_step_def)
          moreover have "http_parse now ctx (content buf) = http_parse now ?c (content b2)"
            using True i Inr ok Some b2(3) unfolding pr by (cases okr) simp
          ultimately show ?thesis using IH [OF e] b2(4)
            by (auto split: sum.splits prod.splits)
        next
          case False
          then show ?thesis using True i Inr Some less(2) unfolding pr
            by (cases okr) (simp add: parseRequest_step_def)
        qed
      qed
    next
      case False
      then have st: "ctx_state ctx = kExpectHeaders" using less(3) by (simp add: expects_def)
      let ?colon = "std_find (CHR '':'') (take i (content buf))"
      let ?c = "ctx\<lparr>request := req_addHeader (take i (content buf)) ?colon (request ctx)\<rparr>"
      show ?thesis
      proof (cases "?colon = length (take i (content buf))")
        case True
        then show ?thesis using st i Some b2 b2' unfolding pr by (auto simp: parseRequest_step_def Let_def)
      next
        case c: False
        have e: "expects ?c" using st by (simp add: expects_def)
        have "parseRequest_loop now (True, buf, ctx) = parseRequest_loop now (True, b2, ?c)"
          using st c i b2' unfolding pr by (simp add: parseRequest_step_def Let_def)
        moreover have "http_parse now ctx (content buf) = http_parse now ?c (content b2)"
          using st c i Some b2(3) unfolding pr by simp
        ultimately show ?thesis using IH [OF e] b2(4) by (auto split: sum.splits prod.splits)
      qed
    qed
  qed
qed

section \<open>Arrival in pieces\<close>

lemma http_parse_resume:
  assumes "expects ctx"
  shows "case http_parse now ctx xs of
      Inl e \<Rightarrow> http_parse now ctx (xs @ zs) = Inl e
    | Inr (ok, ctx1, ys) \<Rightarrow>
        if ok \<and> \<not> gotAll ctx1
        then expects ctx1 \<and> http_parse now ctx (xs @ zs) = http_parse now ctx1 (ys @ zs) \<and>
          (ctx1 = ctx \<and> ys = xs \<or> ctx_state ctx1 = kExpectHeaders)
        else http_parse now ctx (xs @ zs) = Inr (ok, ctx1, ys @ zs)"
  using assms
proof (induction "length xs" arbitrary: xs ctx rule: less_induct)
  case less
  show ?case
  proof (cases "line_split xs")
    case None
    then have "http_parse now ctx xs = Inr (True, ctx, xs)" by (simp add: http_parse.simps)
    then show ?thesis using less(2) by (auto simp: gotAll_def expects_def)
  next
    case (Some lr)
    obtain l r where lr: "lr = (l, r)" by fastforce
    have split: "line_split xs = Some (l, r)" "line_split (xs @ zs) = Some (l, r @ zs)"
      using Some lr line_split_append by blast+
    have len: "length r < length xs" using line_split_length [OF split(1)] .
    note p = http_parse.simps [of now ctx xs] http_parse.simps [of now ctx "xs @ zs"]
    note IH = less(1) [OF len]
    show ?thesis
    proof (cases "ctx_state ctx = kExpectRequestLine")
      case True
      show ?thesis
      proof (cases "processRequestLine l (request ctx)")
        case (Inl e)
        then show ?thesis using True split unfolding p by simp
      next
        case (Inr okr)
        let ?c = "ctx\<lparr>ctx_state := kExpectHeaders, request := setReceiveTime now (snd okr)\<rparr>"
        have e: "expects ?c" by (simp add: expects_def)
        show ?thesis using True Inr split IH [OF e] unfolding p
          by (cases okr) (auto split: sum.splits prod.splits if_splits)
      qed
    next
      case False
      then have st: "ctx_state ctx = kExpectHeaders" using less(2) by (simp add: expects_def)
      let ?c = "ctx\<lparr>request := req_addHeader l (std_find (CHR '':'') l) (request ctx)\<rparr>"
      have e: "expects ?c" using st by (simp add: expects_def)
      show ?thesis using st split IH [OF e] unfolding p
        by (auto simp: gotAll_def split: sum.splits prod.splits if_splits)
    qed
  qed
qed

lemma http_parse_headers_time:
  assumes "ctx_state ctx = kExpectHeaders"
  shows "http_parse now ctx xs = http_parse now' ctx xs"
  using assms
proof (induction "length xs" arbitrary: xs ctx rule: less_induct)
  case less
  show ?case
  proof (cases "line_split xs")
    case None
    then show ?thesis by (simp add: http_parse.simps)
  next
    case (Some lr)
    obtain l r where lr: "lr = (l, r)" by fastforce
    have "length r < length xs" using line_split_length Some lr by blast
    from less(1) [OF this] show ?thesis
      using Some lr less(2) by (simp add: http_parse.simps [of now ctx xs] http_parse.simps [of now' ctx xs])
  qed
qed

section \<open>Rendered requests\<close>

definition version_string :: "Version \<Rightarrow> string" where
  "version_string v = (if v = kHttp11 then ''HTTP/1.1'' else ''HTTP/1.0'')"

definition render_request :: "HttpRequest \<Rightarrow> string" where
  "render_request r =
     methodString (req_method r) @ '' '' @ req_path r @ req_query r @ '' '' @ version_string (req_version r) @ kCRLF @
     concat (map (\<lambda>(k, v). k @ '': '' @ v @ kCRLF) (req_headers r)) @ kCRLF"

text \<open>
  The requests the renderer can express: a method and a version, a target without blanks whose
  query starts at its first question mark, and headers without line ends or surrounding blanks.
\<close>

definition header_ok :: "string \<times> string \<Rightarrow> bool" where
  "header_ok kv \<longleftrightarrow> CHR '':'' \<notin> set (fst kv) \<and> CHR 0x0D \<notin> set (fst kv) \<and> CHR 0x0D \<notin> set (snd kv) \<and>
     (snd kv = [] \<or> \<not> isspace (hd (snd kv)) \<and> \<not> isspace (last (snd kv)))"

definition valid_request :: "HttpRequest \<Rightarrow> bool" where
  "valid_request r \<longleftrightarrow>
     req_method r \<noteq> kInvalid \<and> req_version r \<noteq> kUnknown \<and>
     CHR '' '' \<notin> set (req_path r) \<and> CHR ''?'' \<notin> set (req_path r) \<and> CHR 0x0D \<notin> set (req_path r) \<and>
     CHR '' '' \<notin> set (req_query r) \<and> CHR 0x0D \<notin> set (req_query r) \<and>
     (req_query r = [] \<or> hd (req_query r) = CHR ''?'') \<and>
     smap_ok (req_headers r) \<and> list_all header_ok (req_headers r)"

lemma std_find_not_in: "c \<notin> set xs \<Longrightarrow> std_find c xs = length xs"
  by (induction xs) auto

lemma setMethod_string:
  assumes "m \<noteq> kInvalid"
  shows "setMethod (methodString m) HttpRequest_new = Inr (True, HttpRequest_new\<lparr>req_method := m\<rparr>)"
  using assms by (cases m) (simp_all add: setMethod_def method_of_def HttpRequest_new_def)

lemma methodString_chars:
  "CHR '' '' \<notin> set (methodString m)" "CHR 0x0D \<notin> set (methodString m)"
  by (cases m; simp)+

lemma processRequestLine_render:
  assumes "valid_request r"
  shows "processRequestLine (methodString (req_method r) @ '' '' @ req_path r @ req_query r @ '' '' @
      version_string (req_version r)) HttpRequest_new =
    Inr (True, r\<lparr>receiveTime := 0, req_headers := []\<rparr>)"
proof -
  let ?m = "methodString (req_method r)" and ?p = "req_path r" and ?q = "req_query r"
  let ?v = "version_string (req_version r)"
  let ?line = "?m @ '' '' @ ?p @ ?q @ '' '' @ ?v"
  have v: "CHR '' '' \<notin> set ?p" "CHR ''?'' \<notin> set ?p" "CHR '' '' \<notin> set ?q" "req_method r \<noteq> kInvalid"
      "?q = [] \<or> hd ?q = CHR ''?''" "req_version r = kHttp10 \<or> req_version r = kHttp11"
    using assms by (cases "req_version r"; simp add: valid_request_def)+
  let ?s1 = "length ?m + 1" and ?s2 = "length ?m + 1 + length (?p @ ?q)"
  have f1: "std_find (CHR '' '') ?line = length ?m"
    using std_find_append [OF methodString_chars(1)] by simp
  have f2: "std_find (CHR '' '') (drop ?s1 ?line) = length (?p @ ?q)"
    using std_find_append [of "CHR '' ''" "?p @ ?q" ?v] v(1,3) by simp
  have t: "subrange ?s1 ?s2 ?line = ?p @ ?q" by (simp add: subrange_def)
  have f3: "std_find (CHR ''?'') (?p @ ?q) = length ?p"
  proof (cases ?q)
    case Nil
    then show ?thesis using std_find_not_in [OF v(2)] by simp
  next
    case (Cons c cs)
    then show ?thesis using std_find_append [OF v(2)] v(5) by simp
  qed
  have tail: "length ?line - (?s2 + 1) = 8" "subrange (?s2 + 1) (length ?line - 1) ?line = ''HTTP/1.''"
      "last ?line = (if req_version r = kHttp11 then CHR ''1'' else CHR ''0'')"
    using v(6) by (auto simp: version_string_def subrange_def)
  have q: "subrange (?s1 + length ?p) ?s2 ?line = ?q" "subrange ?s1 (?s1 + length ?p) ?line = ?p"
    by (simp_all add: subrange_def)
  have m: "setMethod (take (length ?m) ?line) HttpRequest_new =
      Inr (True, HttpRequest_new\<lparr>req_method := req_method r\<rparr>)"
    using setMethod_string [OF v(4)] by simp
  have ne: "length ?m \<noteq> length ?line" "?s2 \<noteq> length ?line" by simp_all
  show ?thesis
    unfolding processRequestLine_def Let_def f1 m if_not_P [OF ne(1)] bindE_Inr prod.case f2
      if_not_P [OF ne(2)] t f3 q tail
    using v(6) by (cases r; cases ?q) (auto simp: setPath_def setQuery_def setVersion_def HttpRequest_new_def)
qed

lemma strip_back_id: "v = [] \<or> \<not> isspace (last v) \<Longrightarrow> strip_back v = v"
  by (subst strip_back.simps) auto

lemma req_addHeader_render:
  assumes "header_ok (k, v)"
  shows "std_find (CHR '':'') (k @ '': '' @ v) = length k"
    and "req_addHeader (k @ '': '' @ v) (length k) r = r\<lparr>req_headers := smap_set k v (req_headers r)\<rparr>"
proof -
  show "std_find (CHR '':'') (k @ '': '' @ v) = length k"
    using assms std_find_append [of "CHR '':''" k "'' '' @ v"] by (simp add: header_ok_def)
  have "dropWhile isspace ('' '' @ v) = v"
    using assms by (cases v) (auto simp: header_ok_def isspace_def)
  moreover have "strip_back v = v" using assms by (intro strip_back_id) (auto simp: header_ok_def)
  ultimately show "req_addHeader (k @ '': '' @ v) (length k) r = r\<lparr>req_headers := smap_set k v (req_headers r)\<rparr>"
    by (simp add: req_addHeader_def Let_def)
qed

lemma smap_set_last:
  assumes "\<forall>l \<in> set (map fst m). str_less l k"
  shows "smap_set k v m = m @ [(k, v)]"
  using assms
proof (induction m)
  case (Cons a m)
  obtain l w where a: "a = (l, w)" by fastforce
  have "str_less l k" using Cons a by simp
  then have "\<not> str_less k l" "k \<noteq> l" using str_less_trans [of l k l] by auto
  then show ?case using Cons a by simp
qed simp

lemma smap_fold:
  assumes "smap_ok (m @ hs)"
  shows "fold (\<lambda>(k, v). smap_set k v) hs m = m @ hs"
  using assms
proof (induction hs arbitrary: m)
  case (Cons a hs)
  obtain k v where a: "a = (k, v)" by fastforce
  have "smap_set k v m = m @ [(k, v)]"
    using Cons.prems a by (intro smap_set_last) (auto simp: smap_ok_def sorted_wrt_append)
  then show ?case using Cons.IH [of "m @ [(k, v)]"] Cons.prems a by simp
qed simp

lemma header_line_chars: "header_ok (k, v) \<Longrightarrow> CHR 0x0D \<notin> set (k @ '': '' @ v)"
  by (simp add: header_ok_def)

lemma http_parse_headers:
  assumes "ctx_state ctx = kExpectHeaders" "list_all header_ok hs"
  shows "http_parse now ctx (concat (map (\<lambda>(k, v). k @ '': '' @ v @ kCRLF) hs) @ kCRLF @ rest) =
    Inr (True, ctx\<lparr>ctx_state := kGotAll,
      request := (request ctx)\<lparr>req_headers := fold (\<lambda>(k, v). smap_set k v) hs (req_headers (request ctx))\<rparr>\<rparr>, rest)"
  using assms
proof (induction hs arbitrary: ctx)
  case Nil
  have "line_split (kCRLF @ rest) = Some ([], rest)" using line_split_line [of "[]" rest] by simp
  then show ?case using Nil by (subst http_parse.simps) simp
next
  case (Cons a hs)
  obtain k v where a: "a = (k, v)" by fastforce
  then have ok: "header_ok (k, v)" using Cons.prems by simp
  let ?rest = "concat (map (\<lambda>(k, v). k @ '': '' @ v @ kCRLF) hs) @ kCRLF @ rest"
  let ?c = "ctx\<lparr>request := (request ctx)\<lparr>req_headers := smap_set k v (req_headers (request ctx))\<rparr>\<rparr>"
  have whole: "concat (map (\<lambda>(k, v). k @ '': '' @ v @ kCRLF) (a # hs)) @ kCRLF @ rest =
      (k @ '': '' @ v) @ kCRLF @ ?rest"
    using a by simp
  have split: "line_split ((k @ '': '' @ v) @ kCRLF @ ?rest) = Some (k @ '': '' @ v, ?rest)"
    using header_line_chars [OF ok] by (rule line_split_line)
  have len: "length k \<noteq> length (k @ '': '' @ v)" by simp
  have "http_parse now ctx ((k @ '': '' @ v) @ kCRLF @ ?rest) = http_parse now ?c ?rest"
    unfolding http_parse.simps [of now ctx] split option.case prod.case req_addHeader_render(1) [OF ok]
      req_addHeader_render(2) [OF ok]
    using len Cons.prems(1) by simp
  then show ?case
    unfolding whole using Cons.IH [of ?c] Cons.prems a by simp
qed

lemma http_parse_render:
  assumes "valid_request r"
  shows "http_parse now HttpContext_new (render_request r @ rest) =
    Inr (True, \<lparr>ctx_state = kGotAll, request = r\<lparr>receiveTime := now\<rparr>\<rparr>, rest)"
proof -
  let ?line = "methodString (req_method r) @ '' '' @ req_path r @ req_query r @ '' '' @
      version_string (req_version r)"
  let ?rest = "concat (map (\<lambda>(k, v). k @ '': '' @ v @ kCRLF) (req_headers r)) @ kCRLF @ rest"
  have h: "list_all header_ok (req_headers r)" "smap_ok (req_headers r)"
    using assms by (simp_all add: valid_request_def)
  have headers: "fold (\<lambda>(k, v). smap_set k v) (req_headers r) [] = req_headers r"
    using smap_fold [of "[]" "req_headers r"] h(2) by simp
  have whole: "render_request r @ rest = ?line @ kCRLF @ ?rest" by (simp add: render_request_def)
  have "CHR 0x0D \<notin> set ?line"
    using assms methodString_chars(2) by (auto simp: valid_request_def version_string_def)
  then have split: "line_split (?line @ kCRLF @ ?rest) = Some (?line, ?rest)" by (rule line_split_line)
  let ?c = "\<lparr>ctx_state = kExpectHeaders, request = r\<lparr>req_headers := [], receiveTime := now\<rparr>\<rparr>"
  have "http_parse now HttpContext_new (?line @ kCRLF @ ?rest) = http_parse now ?c ?rest"
    unfolding http_parse.simps [of now HttpContext_new] split option.case prod.case
    using processRequestLine_render [OF assms]
    by (simp add: HttpContext_new_def setReceiveTime_def)
  then show ?thesis
    unfolding whole using http_parse_headers [OF _ h(1), of ?c now rest] headers by simp
qed

section \<open>The server on a stream of pieces\<close>

text \<open>
  Pieces of a byte stream as they arrive, each with its time: they are appended to the input buffer
  and \<^verbatim>\<open>onMessage\<close> is called, as the connection does.
\<close>

fun http_serve :: "(HttpRequest \<Rightarrow> HttpResponse \<Rightarrow> HttpResponse) \<Rightarrow> (int \<times> string) list \<Rightarrow>
    Buffer \<Rightarrow> HttpContext \<Rightarrow> (conn_call list \<times> Buffer \<times> HttpContext) res option" where
  "http_serve cb [] b c = Some (Inr ([], b, c))"
| "http_serve cb ((now, ds) # ps) b c =
     (case Buffer_append ds b of
        Inl e \<Rightarrow> Some (Inl e)
      | Inr b1 \<Rightarrow>
          (case http_onMessage cb now b1 c of
             None \<Rightarrow> None
           | Some (Inl e) \<Rightarrow> Some (Inl e)
           | Some (Inr (calls, b2, c2)) \<Rightarrow>
               (case http_serve cb ps b2 c2 of
                  None \<Rightarrow> None
                | Some (Inl e) \<Rightarrow> Some (Inl e)
                | Some (Inr (calls2, b3, c3)) \<Rightarrow> Some (Inr (calls @ calls2, b3, c3)))))"

lemma http_onMessage_parse:
  assumes "buf_inv b" "expects c" "http_parse now c (content b) = Inr (True, c', ys)"
  shows "\<exists>b'. buf_inv b' \<and> content b' = ys \<and> (\<forall>k. buf_room b k \<longrightarrow> buf_room b' k) \<and>
    http_onMessage cb now b c = Some (if gotAll c'
      then bindE (onRequest cb (request c')) (\<lambda>cs. Inr (cs, b', HttpContext_new)) else Inr ([], b', c'))"
proof -
  obtain b' where b': "parseRequest now b c = Some (Inr (True, b', c'))" "buf_inv b'" "content b' = ys"
      "\<forall>k. buf_room b k \<longrightarrow> buf_room b' k"
    using parseRequest_loop_refines [OF assms(1,2), of now] assms(3) by (auto simp: parseRequest_def)
  have "ctx_reset c' = HttpContext_new"
    by (cases c') (simp add: ctx_reset_def req_swap_def HttpContext_new_def)
  then show ?thesis using b' by (intro exI [of _ b']) (simp add: http_onMessage_def)
qed

lemma http_serve_nothing:
  assumes "buf_inv b" "content b = []" "concat (map snd ps) = []" "buf_room b 0"
  shows "\<exists>b'. http_serve cb ps b HttpContext_new = Some (Inr ([], b', HttpContext_new)) \<and> content b' = []"
  using assms
proof (induction ps arbitrary: b)
  case (Cons p ps)
  obtain now where p: "p = (now, [])" using Cons.prems(3) by (cases p) simp
  obtain b1 where b1: "Buffer_append [] b = Inr b1" "buf_inv b1" "content b1 = []" "buf_room b1 0"
    using bufq.put_law [of b "[]" 0] Cons.prems by auto
  have "http_parse now HttpContext_new (content b1) = Inr (True, HttpContext_new, [])"
    using b1(3) by (subst http_parse.simps) (simp add: line_split_def)
  then obtain b2 where b2: "buf_inv b2" "content b2 = []" "buf_room b2 0"
      "http_onMessage cb now b1 HttpContext_new = Some (Inr ([], b2, HttpContext_new))"
    using http_onMessage_parse [OF b1(2), of HttpContext_new now HttpContext_new "[]" cb] b1(4)
    by (auto simp: expects_def gotAll_def HttpContext_new_def)
  then show ?case using Cons.IH [OF b2(1,2) _ b2(3)] Cons.prems(3) b1(1) p by auto
qed simp

lemma http_serve_pieces:
  assumes "buf_inv b" "expects c" "buf_room b (length (concat (map snd ps)))" "ps \<noteq> []"
    and "\<And>now. \<exists>t. http_parse now c (content b @ concat (map snd ps)) =
      Inr (True, \<lparr>ctx_state = kGotAll, request = r\<lparr>receiveTime := t\<rparr>\<rparr>, [])"
    and "\<And>t. \<exists>cs. onRequest cb (r\<lparr>receiveTime := t\<rparr>) = Inr cs"
  shows "\<exists>t cs b'. onRequest cb (r\<lparr>receiveTime := t\<rparr>) = Inr cs \<and>
    http_serve cb ps b c = Some (Inr (cs, b', HttpContext_new)) \<and> content b' = []"
  using assms(1-5)
proof (induction ps arbitrary: b c)
  case (Cons p ps)
  obtain now ds where p: "p = (now, ds)" by fastforce
  let ?zs = "concat (map snd ps)"
  obtain b1 where b1: "Buffer_append ds b = Inr b1" "buf_inv b1" "content b1 = content b @ ds"
      "buf_room b1 (length ?zs)"
    using bufq.put_law [of b ds "length ?zs"] Cons.prems(1,3) p by auto
  obtain t where t: "http_parse now c (content b1 @ ?zs) =
      Inr (True, \<lparr>ctx_state = kGotAll, request = r\<lparr>receiveTime := t\<rparr>\<rparr>, [])"
    using Cons.prems(5) [of now] b1(3) p by auto
  obtain ok c1 ys where h: "http_parse now c (content b1) = Inr (ok, c1, ys)"
    using http_parse_resume [OF Cons.prems(2), of now "content b1" ?zs] t
    by (cases "http_parse now c (content b1)") auto
  note res = http_parse_resume [OF Cons.prems(2), of now "content b1" ?zs, unfolded h]
  have ok: ok using res t by (cases ok) auto
  show ?case
  proof (cases "gotAll c1")
    case True
    then have c1: "c1 = \<lparr>ctx_state = kGotAll, request = r\<lparr>receiveTime := t\<rparr>\<rparr>" "ys = []" "?zs = []"
      using res t by auto
    obtain cs where cs: "onRequest cb (r\<lparr>receiveTime := t\<rparr>) = Inr cs" using assms(6) by blast
    have room: "buf_room b1 0" using b1(4) unfolding c1(3) by simp
    obtain b2 where b2: "buf_inv b2" "content b2 = []" "buf_room b2 0"
        "http_onMessage cb now b1 c = Some (Inr (cs, b2, HttpContext_new))"
      using http_onMessage_parse [OF b1(2) Cons.prems(2), of now c1 ys cb] h ok True c1(1,2) cs room by auto
    obtain b3 where "http_serve cb ps b2 HttpContext_new = Some (Inr ([], b3, HttpContext_new))" "content b3 = []"
      using http_serve_nothing [OF b2(1,2) c1(3) b2(3)] by blast
    then have "http_serve cb (p # ps) b c = Some (Inr (cs, b3, HttpContext_new))"
      using p b1(1) b2(4) by simp
    with cs \<open>content b3 = []\<close> show ?thesis by blast
  next
    case False
    then have c1: "expects c1" "http_parse now c1 (ys @ ?zs) = http_parse now c (content b1 @ ?zs)"
        "c1 = c \<and> ys = content b1 \<or> ctx_state c1 = kExpectHeaders"
      using res ok by auto
    have ps: "ps \<noteq> []"
      using h t False by (auto simp: gotAll_def)
    obtain b2 where b2: "buf_inv b2" "content b2 = ys" "buf_room b2 (length ?zs)"
        "http_onMessage cb now b1 c = Some (Inr ([], b2, c1))"
      using http_onMessage_parse [OF b1(2) Cons.prems(2), of now c1 ys cb] h ok False b1(4) by auto
    have "\<exists>t. http_parse now' c1 (content b2 @ ?zs) =
        Inr (True, \<lparr>ctx_state = kGotAll, request = r\<lparr>receiveTime := t\<rparr>\<rparr>, [])" for now'
      using c1(3)
    proof
      assume "c1 = c \<and> ys = content b1"
      then show ?thesis using Cons.prems(5) [of now'] b1(3) b2(2) p by auto
    next
      assume "ctx_state c1 = kExpectHeaders"
      from http_parse_headers_time [OF this, of now' _ now] show ?thesis using t c1(2) b2(2) by auto
    qed
    from Cons.IH [OF b2(1) c1(1) b2(3) ps this] obtain t' cs b'
      where "onRequest cb (r\<lparr>receiveTime := t'\<rparr>) = Inr cs" "content b' = []"
        "http_serve cb ps b2 c1 = Some (Inr (cs, b', HttpContext_new))"
      by blast
    moreover from this have "http_serve cb (p # ps) b c = Some (Inr (cs, b', HttpContext_new))"
      using p b1(1) b2(4) by simp
    ultimately show ?thesis by blast
  qed
qed simp

section \<open>Responses\<close>

lemma append_string_ok:
  assumes "buf_inv b" "buf_room b (length s + k)" "length s < 2 ^ 31"
  shows "\<exists>b'. append_string s b = Inr b' \<and> buf_inv b' \<and> content b' = content b @ s \<and> buf_room b' k"
proof -
  have "to_int32 (int (length s)) = int (length s)"
    using assms(3) by (intro to_int32_exact) (simp add: in_int32_def)
  then have "append_string s b = Buffer_append s b"
    by (simp add: append_string_def Buffer_append_piece_def)
  then show ?thesis using bufq.put_law [OF assms(1,2)] by simp
qed

lemma append_strings_ok:
  assumes "buf_inv b" "buf_room b (length (concat ss))" "length (concat ss) < 2 ^ 31"
  shows "\<exists>b'. foldE append_string ss b = Inr b' \<and> buf_inv b' \<and> content b' = content b @ concat ss"
  using assms
proof (induction ss arbitrary: b)
  case (Cons s ss)
  obtain b1 where b1: "append_string s b = Inr b1" "buf_inv b1" "content b1 = content b @ s"
      "buf_room b1 (length (concat ss))"
    using append_string_ok [of b s "length (concat ss)"] Cons.prems by auto
  then show ?case using Cons.IH [OF b1(2,4)] Cons.prems(3) by auto
qed simp

definition wants_close :: "HttpRequest \<Rightarrow> bool" where
  "wants_close req \<longleftrightarrow> getHeader ''Connection'' req = ''close'' \<or>
     (req_version req = kHttp10 \<and> getHeader ''Connection'' req \<noteq> ''Keep-Alive'')"

definition server_response ::
    "(HttpRequest \<Rightarrow> HttpResponse \<Rightarrow> HttpResponse) \<Rightarrow> HttpRequest \<Rightarrow> HttpResponse" where
  "server_response cb req = cb req (HttpResponse_new (wants_close req))"

definition response_text :: "HttpResponse \<Rightarrow> string" where
  "response_text resp = concat (response_pieces resp)"

definition response_calls :: "HttpResponse \<Rightarrow> conn_call list" where
  "response_calls resp =
     ConnSend (response_text resp) # (if closeConnection resp then [ConnShutdown] else [])"

lemma onRequest_ok:
  assumes "length (response_text (server_response cb req)) < 2 ^ 31"
  shows "onRequest cb req = Inr (response_calls (server_response cb req))"
proof -
  let ?ss = "response_pieces (server_response cb req)"
  obtain b where b: "Buffer_new kInitialSize = Inr b" "buf_inv b" "content b = []"
      "writerIndex b = kCheapPrepend"
    using buf_inv_new [of kInitialSize] by (auto simp: kInitialSize_def kCheapPrepend_def vector_max_def)
  have "buf_room b (length (concat ?ss))"
    using b(4) assms by (simp add: buf_room_def kCheapPrepend_def vector_max_def response_text_def)
  then obtain b1 where "foldE append_string ?ss b = Inr b1" "content b1 = concat ?ss"
    using append_strings_ok [OF b(2)] b(3) assms by (auto simp: response_text_def)
  then show ?thesis
    using b(1) by (simp add: onRequest_def Let_def appendToBuffer_def server_response_def wants_close_def
        response_calls_def response_text_def)
qed

section \<open>Rejected requests\<close>

lemma http_parse_headers_ok:
  assumes "http_parse now ctx xs = Inr (ok, c, ys)" "ctx_state ctx = kExpectHeaders"
  shows ok
  using assms
proof (induction "length xs" arbitrary: xs ctx rule: less_induct)
  case less
  show ?case
  proof (cases "line_split xs")
    case None
    then show ?thesis using less(2) by (simp add: http_parse.simps [of now ctx xs])
  next
    case (Some lr)
    obtain l r where lr: "lr = (l, r)" by fastforce
    have "length r < length xs" using line_split_length Some lr by blast
    from less(1) [OF this, of "ctx\<lparr>request := req_addHeader l (std_find (CHR '':'') l) (request ctx)\<rparr>"]
    show ?thesis using less(2,3) Some lr by (auto simp: http_parse.simps [of now ctx xs] split: if_splits)
  qed
qed

lemma HttpContext_new_simps [simp]:
  "ctx_state HttpContext_new = kExpectRequestLine" "request HttpContext_new = HttpRequest_new"
  by (simp_all add: HttpContext_new_def)

lemma http_parse_rejects:
  assumes "http_parse now HttpContext_new xs = Inr (False, c, ys)"
  shows "ys = xs \<and> ctx_state c = kExpectRequestLine \<and> (\<exists>l r. line_split xs = Some (l, r) \<and>
    processRequestLine l HttpRequest_new = Inr (False, request c))"
proof -
  obtain l r where l: "line_split xs = Some (l, r)"
    using assms by (cases "line_split xs") (auto simp: http_parse.simps [of now HttpContext_new])
  then obtain ok q where q: "processRequestLine l HttpRequest_new = Inr (ok, q)"
    using assms by (cases "processRequestLine l HttpRequest_new")
      (auto simp: http_parse.simps [of now HttpContext_new])
  show ?thesis
  proof (cases ok)
    case True
    then have "http_parse now (HttpContext_new\<lparr>ctx_state := kExpectHeaders, request := setReceiveTime now q\<rparr>) r =
        Inr (False, c, ys)"
      using assms l q by (simp add: http_parse.simps [of now HttpContext_new])
    then show ?thesis using http_parse_headers_ok by fastforce
  next
    case False
    then show ?thesis
      using assms l q by (auto simp: http_parse.simps [of now HttpContext_new])
  qed
qed

lemma processRequestLine_asserts:
  assumes "processRequestLine l HttpRequest_new = Inr (ok, r)" "req_method r \<noteq> kInvalid"
    "req_method r' \<noteq> kInvalid"
  shows "processRequestLine l r' = Inl AssertFail"
proof -
  have "std_find (CHR '' '') l \<noteq> length l"
    using assms(1,2) by (auto simp: processRequestLine_def HttpRequest_new_def)
  then show ?thesis using assms(3) by (simp add: processRequestLine_def setMethod_def)
qed

text \<open>
  A request line with a known method that is rejected for another reason leaves the method set and
  the line in the buffer. Data that arrives afterwards makes the parser read the line again, and
  \<^verbatim>\<open>setMethod\<close> fails its assertion.
\<close>

lemma rejected_line_read_again:
  assumes "http_parse now HttpContext_new xs = Inr (False, c, ys)" "req_method (request c) \<noteq> kInvalid"
  shows "http_parse now' c (ys @ zs) = Inl AssertFail"
proof -
  obtain l r where l: "ys = xs" "ctx_state c = kExpectRequestLine" "line_split xs = Some (l, r)"
      "processRequestLine l HttpRequest_new = Inr (False, request c)"
    using http_parse_rejects [OF assms(1)] by blast
  have "processRequestLine l (request c) = Inl AssertFail"
    using processRequestLine_asserts [OF l(4) assms(2) assms(2)] .
  then show ?thesis using l line_split_append [OF l(3), of zs] by (subst http_parse.simps) simp
qed

lemma bad_version_asserts_later:
  "\<exists>c. http_parse now HttpContext_new (''GET / HTTP/2.0'' @ kCRLF) = Inr (False, c, ''GET / HTTP/2.0'' @ kCRLF) \<and>
     http_parse now' c ((''GET / HTTP/2.0'' @ kCRLF) @ zs) = Inl AssertFail"
proof -
  let ?l = "''GET / HTTP/2.0''"
  have s: "line_split (?l @ kCRLF) = Some (?l, [])" using line_split_line [of ?l "[]"] by simp
  have p: "processRequestLine ?l HttpRequest_new = Inr (False, HttpRequest_new\<lparr>req_method := kGet, req_path := ''/''\<rparr>)"
    by (simp add: processRequestLine_def setMethod_def method_of_def HttpRequest_new_def Let_def subrange_def
        setPath_def)
  let ?c = "HttpContext_new\<lparr>request := HttpRequest_new\<lparr>req_method := kGet, req_path := ''/''\<rparr>\<rparr>"
  have "http_parse now HttpContext_new (?l @ kCRLF) = Inr (False, ?c, ?l @ kCRLF)"
    using s p by (subst http_parse.simps) (simp add: HttpContext_new_def)
  then show ?thesis using rejected_line_read_again [of now "?l @ kCRLF" ?c "?l @ kCRLF" now' zs] by auto
qed

text \<open>In the state that has got everything the loop of \<^verbatim>\<open>parseRequest\<close> does not end.\<close>

lemma parseRequest_gotAll_diverges:
  assumes "gotAll ctx"
  shows "parseRequest now buf ctx = None"
proof -
  have step: "parseRequest_step now (ok, b, c) = Inr (True, ok, b, c)" if "gotAll c" for now ok b c
    using that by (simp add: parseRequest_step_def gotAll_def)
  have "\<not> gotAll (snd (snd s))" if "parseRequest_loop now s = Some y" for now s y
  proof (rule parseRequest_loop.raw_induct [OF _ that])
    fix loop :: "int \<Rightarrow> bool \<times> Buffer \<times> HttpContext \<Rightarrow> (bool \<times> Buffer \<times> HttpContext) res option"
      and now s and y :: "(bool \<times> Buffer \<times> HttpContext) res"
    assume "\<And>now s y. loop now s = Some y \<Longrightarrow> \<not> gotAll (snd (snd s))"
      and "(case parseRequest_step now s of Inl e \<Rightarrow> Some (Inl e)
        | Inr (hasMore, s') \<Rightarrow> if hasMore then loop now s' else Some (Inr s')) = Some y"
    then show "\<not> gotAll (snd (snd s))" using step by (cases s) fastforce
  qed
  then have "parseRequest_loop now (True, buf, ctx) \<noteq> Some y" for y using assms by fastforce
  then show ?thesis by (cases "parseRequest_loop now (True, buf, ctx)") (auto simp: parseRequest_def)
qed

section \<open>Properties\<close>

text \<open>
  C3. A rendered request is answered once and correctly however the network cuts it into pieces:
  the server makes exactly the calls for the request it denotes, no piece provokes an error answer,
  the input buffer is empty afterwards and the parser is ready for the next request.
\<close>

theorem http_request_in_pieces:
  assumes "valid_request r" and "concat (map snd ps) = render_request r" and "buf_inv b" and "content b = []"
    and "buf_room b (length (render_request r))"
    and "\<And>t. length (response_text (server_response cb (r\<lparr>receiveTime := t\<rparr>))) < 2 ^ 31"
  shows "\<exists>t b'. content b' = [] \<and> http_serve cb ps b HttpContext_new =
    Some (Inr (response_calls (server_response cb (r\<lparr>receiveTime := t\<rparr>)), b', HttpContext_new))"
proof -
  have "render_request r \<noteq> []" by (cases "req_method r") (simp_all add: render_request_def)
  then have ps: "ps \<noteq> []" using assms(2) by auto
  have "\<exists>t. http_parse now HttpContext_new (content b @ concat (map snd ps)) =
      Inr (True, \<lparr>ctx_state = kGotAll, request = r\<lparr>receiveTime := t\<rparr>\<rparr>, [])" for now
    using http_parse_render [OF assms(1), of now "[]"] assms(2,4) by auto
  moreover have "expects HttpContext_new" by (simp add: expects_def)
  ultimately show ?thesis
    using http_serve_pieces [OF assms(3) _ _ ps, of HttpContext_new r cb] onRequest_ok [OF assms(6)] assms(2,5)
    by fastforce
qed

definition sample_request :: HttpRequest where
  "sample_request = \<lparr>req_method = kGet, req_version = kHttp11, req_path = ''/index'', req_query = ''?x=1'',
     receiveTime = 0, req_headers = [(''Connection'', ''close''), (''Host'', ''a'')]\<rparr>"

lemma sample_request_valid: "valid_request sample_request"
  by (simp add: valid_request_def sample_request_def header_ok_def isspace_def smap_ok_def)

lemma default_response_short: "length (response_text (server_response defaultHttpCallback req)) < 2 ^ 31"
  by (simp add: response_text_def server_response_def defaultHttpCallback_def setCloseConnection_def
      setStatusMessage_def setStatusCode_def HttpResponse_new_def response_pieces_def crlf_string_def snprintf_buf_def)

theorem http_request_in_pieces_witness:
  "\<exists>b. Buffer_new 64 = Inr b \<and> (\<exists>t b'. content b' = [] \<and>
     http_serve defaultHttpCallback [(1, take 7 (render_request sample_request)), (2, drop 7 (render_request sample_request))]
       b HttpContext_new =
     Some (Inr (response_calls (server_response defaultHttpCallback (sample_request\<lparr>receiveTime := t\<rparr>)), b', HttpContext_new)))"
proof -
  let ?ps = "[(1, take 7 (render_request sample_request)), (2, drop 7 (render_request sample_request))] :: (int \<times> string) list"
  obtain b where b: "Buffer_new 64 = Inr b" "buf_inv b" "content b = []" "writerIndex b = kCheapPrepend"
    using buf_inv_new [of 64] by (auto simp: vector_max_def kCheapPrepend_def)
  have c: "concat (map snd ?ps) = render_request sample_request" by simp
  have room: "buf_room b (length (render_request sample_request))"
    using b(4) by (simp add: buf_room_def render_request_def sample_request_def version_string_def vector_max_def kCheapPrepend_def)
  show ?thesis
    using b(1) http_request_in_pieces [OF sample_request_valid c b(2,3) room default_response_short] by blast
qed

text \<open>
  One message event serves one request and leaves the bytes after it in the buffer: a request
  that was sent ahead stays there, complete, until the next message event.
\<close>

theorem http_onMessage_one_request:
  assumes "valid_request r" and "buf_inv b" and "content b = render_request r @ rest"
    and "length (response_text (server_response cb (r\<lparr>receiveTime := now\<rparr>))) < 2 ^ 31"
  shows "\<exists>b'. content b' = rest \<and> http_onMessage cb now b HttpContext_new =
    Some (Inr (response_calls (server_response cb (r\<lparr>receiveTime := now\<rparr>)), b', HttpContext_new))"
proof -
  let ?c = "\<lparr>ctx_state = kGotAll, request = r\<lparr>receiveTime := now\<rparr>\<rparr>"
  have "http_parse now HttpContext_new (content b) = Inr (True, ?c, rest)"
    using http_parse_render [OF assms(1)] assms(3) by simp
  from http_onMessage_parse [OF assms(2) _ this, of cb] show ?thesis
    using onRequest_ok [OF assms(4)] by (auto simp: expects_def gotAll_def)
qed

theorem http_onMessage_one_request_witness:
  "\<exists>b b'. content b = render_request sample_request @ render_request sample_request \<and>
     content b' = render_request sample_request \<and>
     http_onMessage defaultHttpCallback 5 b HttpContext_new =
     Some (Inr (response_calls (server_response defaultHttpCallback (sample_request\<lparr>receiveTime := 5\<rparr>)), b', HttpContext_new))"
proof -
  let ?t = "render_request sample_request @ render_request sample_request"
  obtain b0 where b0: "Buffer_new 0 = Inr b0" "buf_inv b0" "content b0 = []" "writerIndex b0 = kCheapPrepend"
    using buf_inv_new [of 0] by auto
  have "buf_room b0 (length ?t + 0)"
    using b0(4) by (simp add: buf_room_def render_request_def sample_request_def version_string_def vector_max_def kCheapPrepend_def)
  from bufq.put_law [OF b0(2) this] b0(3) obtain b where b: "buf_inv b" "content b = ?t" by auto
  show ?thesis
    using b(2) http_onMessage_one_request [OF sample_request_valid b default_response_short] by blast
qed

text \<open>
  C31. The parser returns on every input: in the states in which the server calls it the loop ends,
  and as long as no method has been read it ends without a failing assertion, whatever the bytes.
\<close>

theorem parseRequest_returns:
  assumes "buf_inv buf" and "expects ctx"
  shows "(\<exists>res. parseRequest now buf ctx = Some res) \<and>
    (ctx_state ctx = kExpectHeaders \<or> req_method (request ctx) = kInvalid \<longrightarrow>
      (\<exists>res. parseRequest now buf ctx = Some (Inr res)))"
proof -
  have h: "\<exists>res. http_parse now c xs = Inr res" if "ctx_state c = kExpectHeaders" for c xs
    using that
  proof (induction "length xs" arbitrary: xs c rule: less_induct)
    case less
    then show ?case using line_split_length
      by (cases "line_split xs") (auto simp: http_parse.simps [of now c xs])
  qed
  have p: "\<exists>res. processRequestLine l r = Inr res" if "req_method r = kInvalid" for l r
    using that by (auto simp: processRequestLine_def setMethod_def Let_def)
  have "\<exists>res. http_parse now ctx (content buf) = Inr res"
    if "ctx_state ctx = kExpectHeaders \<or> req_method (request ctx) = kInvalid"
  proof (cases "ctx_state ctx = kExpectHeaders")
    case False
    then have st: "ctx_state ctx = kExpectRequestLine" "req_method (request ctx) = kInvalid"
      using that assms(2) by (auto simp: expects_def)
    show ?thesis
    proof (cases "line_split (content buf)")
      case (Some lr)
      obtain ok r where "processRequestLine (fst lr) (request ctx) = Inr (ok, r)"
        using p [OF st(2)] by fastforce
      then show ?thesis
        using Some st(1) h [of "ctx\<lparr>ctx_state := kExpectHeaders, request := setReceiveTime now r\<rparr>" "snd lr"]
        by (cases lr; cases ok) (auto simp: http_parse.simps [of now ctx])
    qed (auto simp: http_parse.simps [of now ctx])
  qed (use h in blast)
  then show ?thesis
    using parseRequest_loop_refines [OF assms, of now] unfolding parseRequest_def
    by (cases "http_parse now ctx (content buf)") auto
qed

theorem parseRequest_returns_witness:
  "\<exists>b res. Buffer_new 8 = Inr b \<and> parseRequest 0 b HttpContext_new = Some (Inr res)"
proof -
  obtain b where b: "Buffer_new 8 = Inr b" "buf_inv b"
    using buf_inv_new [of 8] by (auto simp: vector_max_def kCheapPrepend_def)
  have "expects HttpContext_new" "req_method (request HttpContext_new) = kInvalid"
    by (simp_all add: expects_def HttpRequest_new_def)
  with parseRequest_returns [OF b(2)] b(1) show ?thesis by blast
qed

end
