(* ===== verification/Double.thy ===== *)
theory Double
  imports Complex_Main Prelude "HOL-Library.Log_Nat"
begin

text \<open>
  Binary64 arithmetic on rationals: the finite values of \<^verbatim>\<open>double\<close> are rationals, and an operation
  rounds its exact result to the nearest of them, ties to even. Overflow to infinity is outside the
  model: the values the sources compute with stay far below \<open>2 ^ 1024\<close>.
\<close>

section \<open>Rounding\<close>

text \<open>The exponent of the power of two at or below a positive number.\<close>

definition fexp :: "rat \<Rightarrow> int" where
  "fexp x = (if 1 \<le> x then bitlen \<lfloor>x\<rfloor> - 1 else - bitlen (\<lceil>1 / x\<rceil> - 1))"

definition round_even :: "rat \<Rightarrow> int" where
  "round_even x =
     (let f = \<lfloor>x\<rfloor>; r = x - of_int f
      in if r < 1 / 2 then f else if r > 1 / 2 then f + 1 else if even f then f else f + 1)"

definition dbl_pos :: "rat \<Rightarrow> rat" where
  "dbl_pos x = (let u = 2 powi (max (fexp x - 52) (- 1074)) in of_int (round_even (x / u)) * u)"

definition dbl :: "rat \<Rightarrow> rat" where
  "dbl x = (if x = 0 then 0 else if 0 < x then dbl_pos x else - dbl_pos (- x))"

text \<open>\<^verbatim>\<open>static_cast<int64_t>\<close> truncates, and is undefined when the result is out of range.\<close>

definition trunc_rat :: "rat \<Rightarrow> int" where
  "trunc_rat x = (if 0 \<le> x then \<lfloor>x\<rfloor> else \<lceil>x\<rceil>)"

definition double_to_int64 :: "rat \<Rightarrow> int res" where
  "double_to_int64 x = ints64 [trunc_rat x] (Inr (trunc_rat x))"

section \<open>Lemmas\<close>

lemma bitlen_powi:
  assumes "0 < n"
  shows "(2::rat) powi (bitlen n - 1) \<le> of_int n" and "of_int n < (2::rat) powi bitlen n"
proof -
  have b: "2 ^ nat (bitlen n - 1) \<le> n" "n < 2 ^ nat (bitlen n)" "1 \<le> bitlen n"
    using bitlen_bounds [OF assms] assms by (auto simp: compute_bitlen [of n] bitlen_nonneg)
  have "(2::rat) powi (bitlen n - 1) = of_int (2 ^ nat (bitlen n - 1))"
    using b(3) by (simp add: power_int_def)
  then show "(2::rat) powi (bitlen n - 1) \<le> of_int n" using b(1) by (metis of_int_le_iff)
  have "(2::rat) powi bitlen n = of_int (2 ^ nat (bitlen n))"
    using b(3) by (simp add: power_int_def)
  then show "of_int n < (2::rat) powi bitlen n" using b(2) by (metis of_int_less_iff)
qed

lemma fexp_bounds:
  assumes "0 < x"
  shows "2 powi fexp x \<le> x" and "x < 2 powi (fexp x + 1)"
proof -
  have "2 powi fexp x \<le> x \<and> x < 2 powi (fexp x + 1)"
  proof (cases "1 \<le> x")
    case True
    then have f: "0 < \<lfloor>x\<rfloor>" by simp
    have "x < of_int (\<lfloor>x\<rfloor> + 1)" by linarith
    moreover have "(of_int (\<lfloor>x\<rfloor> + 1) :: rat) \<le> 2 powi bitlen \<lfloor>x\<rfloor>"
    proof -
      have p: "(2::rat) powi bitlen \<lfloor>x\<rfloor> = of_int (2 ^ nat (bitlen \<lfloor>x\<rfloor>))"
        using f by (simp add: power_int_def bitlen_nonneg)
      then have "\<lfloor>x\<rfloor> < 2 ^ nat (bitlen \<lfloor>x\<rfloor>)" using bitlen_powi(2) [OF f] by (metis of_int_less_iff)
      then have "\<lfloor>x\<rfloor> + 1 \<le> 2 ^ nat (bitlen \<lfloor>x\<rfloor>)" by simp
      then show ?thesis unfolding p by (metis of_int_le_iff)
    qed
    moreover have "2 powi (bitlen \<lfloor>x\<rfloor> - 1) \<le> x"
      using bitlen_powi(1) [OF f] of_int_floor_le [of x] by linarith
    ultimately show ?thesis using True by (simp add: fexp_def)
  next
    case False
    let ?y = "1 / x" and ?n = "\<lceil>1 / x\<rceil> - 1"
    have y: "1 < ?y" using False assms by simp
    then have n: "0 < ?n" by (simp add: less_ceiling_iff)
    have lo: "of_int ?n < ?y" by linarith
    have hi: "?y \<le> of_int (?n + 1)" by simp
    have b: "(2::rat) powi (bitlen ?n - 1) < ?y" using bitlen_powi(1) [OF n] lo by linarith
    have "?y \<le> 2 powi bitlen ?n"
    proof -
      have p: "(2::rat) powi bitlen ?n = of_int (2 ^ nat (bitlen ?n))"
        by (simp add: power_int_def bitlen_nonneg)
      then have "?n < 2 ^ nat (bitlen ?n)" using bitlen_powi(2) [OF n] by (metis of_int_less_iff)
      then have "?n + 1 \<le> 2 ^ nat (bitlen ?n)" by simp
      then have "(of_int (?n + 1) :: rat) \<le> 2 powi bitlen ?n" unfolding p by (metis of_int_le_iff)
      then show ?thesis using hi by linarith
    qed
    then have "2 powi (- bitlen ?n) \<le> x"
      using assms by (simp add: power_int_minus field_simps)
    moreover have "x < 2 powi (- bitlen ?n + 1)"
    proof -
      have "(2::rat) powi (- bitlen ?n + 1) = 1 / 2 powi (bitlen ?n - 1)"
        by (simp add: power_int_minus [symmetric] divide_inverse)
      moreover have "x * 2 powi (bitlen ?n - 1) < 1" using b assms by (simp add: field_simps)
      ultimately show ?thesis by (simp add: pos_less_divide_eq)
    qed
    ultimately show ?thesis using False by (simp add: fexp_def)
  qed
  then show "2 powi fexp x \<le> x" "x < 2 powi (fexp x + 1)" by blast+
qed

lemma round_even_error: "\<bar>of_int (round_even x) - x\<bar> \<le> 1 / 2"
proof -
  have f: "of_int \<lfloor>x\<rfloor> \<le> x" "x < of_int \<lfloor>x\<rfloor> + 1" by linarith+
  consider "x - of_int \<lfloor>x\<rfloor> < 1 / 2" | "x - of_int \<lfloor>x\<rfloor> > 1 / 2" | "x - of_int \<lfloor>x\<rfloor> = 1 / 2"
    by linarith
  then show ?thesis
    by cases (use f in \<open>simp_all add: round_even_def Let_def abs_le_iff\<close>)
qed

lemma round_even_int [simp]: "round_even (of_int n) = n"
  by (simp add: round_even_def)

lemma dbl_pos_error:
  assumes "0 < x" "- 1022 \<le> fexp x"
  shows "\<bar>dbl_pos x - x\<bar> \<le> x * 2 powi (- 53)"
proof -
  let ?u = "(2::rat) powi (fexp x - 52)"
  have u: "0 < ?u" by simp
  have d: "dbl_pos x = of_int (round_even (x / ?u)) * ?u"
  proof -
    have "max (fexp x - 52) (- 1074) = fexp x - 52" using assms(2) by simp
    then show ?thesis by (simp only: dbl_pos_def Let_def)
  qed
  have "\<bar>of_int (round_even (x / ?u)) - x / ?u\<bar> * ?u \<le> 1 / 2 * ?u"
    using round_even_error u by (intro mult_right_mono) simp_all
  moreover have "\<bar>of_int (round_even (x / ?u)) - x / ?u\<bar> * ?u = \<bar>dbl_pos x - x\<bar>"
  proof -
    have "\<bar>of_int (round_even (x / ?u)) - x / ?u\<bar> * ?u = \<bar>(of_int (round_even (x / ?u)) - x / ?u) * ?u\<bar>"
      using u by (simp only: abs_mult abs_of_pos)
    also have "(of_int (round_even (x / ?u)) - x / ?u) * ?u = dbl_pos x - x"
      unfolding d by (simp add: left_diff_distrib)
    finally show ?thesis .
  qed
  moreover have "1 / 2 * ?u = 2 powi fexp x * 2 powi (- 53)"
    by (simp add: power_int_add [symmetric] power_int_diff power_int_minus field_simps)
  moreover have "2 powi fexp x * (2::rat) powi (- 53) \<le> x * 2 powi (- 53)"
    using fexp_bounds(1) [OF assms(1)] by (intro mult_right_mono) simp_all
  ultimately show ?thesis by linarith
qed

lemma fexp_ge: "0 < x \<Longrightarrow> 2 powi k \<le> x \<Longrightarrow> k \<le> fexp x"
proof (rule ccontr)
  assume x: "0 < x" "2 powi k \<le> x" "\<not> k \<le> fexp x"
  then have "(2::rat) powi (fexp x + 1) \<le> 2 powi k" by (intro power_int_increasing) simp_all
  then show False using fexp_bounds(2) [OF x(1)] x(2) by linarith
qed

lemma fexp_less: "0 < x \<Longrightarrow> x < 2 powi k \<Longrightarrow> fexp x < k"
proof (rule ccontr)
  assume x: "0 < x" "x < 2 powi k" "\<not> fexp x < k"
  then have "(2::rat) powi k \<le> 2 powi fexp x" by (intro power_int_increasing) simp_all
  then show False using fexp_bounds(1) [OF x(1)] x(2) by linarith
qed

text \<open>Integers up to \<open>2 ^ 53\<close> are doubles, and a normal result is off by at most one part in \<open>2 ^ 53\<close>.\<close>

lemma dbl_pos_int:
  assumes "0 < n" "n < 2 ^ 53"
  shows "dbl_pos (of_int n) = of_int n"
proof -
  let ?x = "of_int n :: rat"
  have x: "0 < ?x" using assms by simp
  have "?x < of_int (2 ^ 53)" using assms(2) by (simp only: of_int_less_iff)
  then have "?x < 2 powi 53" by (simp add: power_int_def)
  then have hi: "fexp ?x \<le> 52" using fexp_less [OF x] by fastforce
  have "1 \<le> ?x" using assms(1) by simp
  then have lo: "0 \<le> fexp ?x" using fexp_ge [OF x, of 0] by simp
  define k where "k = nat (52 - fexp ?x)"
  have e: "max (fexp ?x - 52) (- 1074) = - int k" using hi lo by (simp add: k_def)
  have "?x / 2 powi (- int k) = of_int (n * 2 ^ k)" by (simp add: power_int_minus divide_inverse)
  then have "dbl_pos ?x = of_int (n * 2 ^ k) * 2 powi (- int k)"
    unfolding dbl_pos_def Let_def e by (simp only: round_even_int)
  then show ?thesis by (simp add: power_int_minus)
qed

lemma dbl_int: "\<bar>n\<bar> < 2 ^ 53 \<Longrightarrow> dbl (of_int n) = of_int n"
  using dbl_pos_int [of n] dbl_pos_int [of "- n"] by (auto simp: dbl_def)

lemma dbl_error:
  assumes "x = 0 \<or> 2 powi (- 1022) \<le> \<bar>x\<bar>"
  shows "\<bar>dbl x - x\<bar> \<le> \<bar>x\<bar> * 2 powi (- 53)"
proof -
  have *: "\<bar>dbl_pos y - y\<bar> \<le> y * 2 powi (- 53)" if "0 < y" "2 powi (- 1022) \<le> y" for y :: rat
    using dbl_pos_error [OF that(1)] fexp_ge [OF that] by blast
  consider "x = 0" | "0 < x" | "x < 0" by linarith
  then show ?thesis
  proof cases
    case 3
    then have "\<bar>dbl_pos (- x) - (- x)\<bar> \<le> (- x) * 2 powi (- 53)" using * [of "- x"] assms by simp
    then show ?thesis using 3 by (simp add: dbl_def)
  qed (use * [of x] assms in \<open>simp_all add: dbl_def\<close>)
qed

lemma dbl_pos_nonneg: "0 < x \<Longrightarrow> 0 \<le> dbl_pos x"
proof -
  assume "0 < x"
  then have "0 \<le> round_even (x / 2 powi k)" for k
    by (auto simp: round_even_def Let_def)
  then show ?thesis by (simp add: dbl_pos_def Let_def)
qed

lemma dbl_nonneg: "0 \<le> x \<Longrightarrow> 0 \<le> dbl x"
  using dbl_pos_nonneg by (simp add: dbl_def)

lemma trunc_rat_error: "\<bar>of_int (trunc_rat x) - x\<bar> < 1"
proof -
  have "\<bar>of_int \<lfloor>x\<rfloor> - x\<bar> < 1" "\<bar>of_int \<lceil>x\<rceil> - x\<bar> < 1" by linarith+
  then show ?thesis by (simp add: trunc_rat_def)
qed

lemma trunc_rat_int [simp]: "trunc_rat (of_int n) = n"
  by (simp add: trunc_rat_def)

end
