(* ===== verification/Timestamp.thy ===== *)
theory Timestamp
  imports Double Format Date
begin

text \<open>
  \<^verbatim>\<open>muduo/base/Timestamp\<close>: microseconds since the epoch, an \<^verbatim>\<open>int64_t\<close>. Seconds as a
  \<^verbatim>\<open>double\<close> are added and subtracted in binary64 arithmetic. \<^verbatim>\<open>gettimeofday\<close> and \<^verbatim>\<open>gmtime_r\<close>
  are arguments.
\<close>

type_synonym Timestamp = int

definition kMicroSecondsPerSecond :: int where
  "kMicroSecondsPerSecond = 1000 * 1000"

definition Timestamp_invalid :: Timestamp where
  "Timestamp_invalid = 0"

definition Timestamp_valid :: "Timestamp \<Rightarrow> bool" where
  "Timestamp_valid t \<longleftrightarrow> t > 0"

definition Timestamp_swap :: "Timestamp \<Rightarrow> Timestamp \<Rightarrow> Timestamp \<times> Timestamp" where
  "Timestamp_swap this that = (that, this)"

definition secondsSinceEpoch :: "Timestamp \<Rightarrow> int" where
  "secondsSinceEpoch t = t sdiv kMicroSecondsPerSecond"

definition fromUnixTime :: "int \<Rightarrow> int \<Rightarrow> Timestamp res" where
  "fromUnixTime t microseconds =
     ints64 [t * kMicroSecondsPerSecond, t * kMicroSecondsPerSecond + microseconds]
       (Inr (t * kMicroSecondsPerSecond + microseconds))"

definition Timestamp_now :: "int \<times> int \<Rightarrow> Timestamp res" where
  "Timestamp_now tv = fromUnixTime (fst tv) (snd tv)"

definition Timestamp_toString :: "Timestamp \<Rightarrow> string" where
  "Timestamp_toString t =
     (let seconds = t sdiv kMicroSecondsPerSecond; microseconds = t smod kMicroSecondsPerSecond
      in snprintf_buf 32 (fmt_d seconds @ ''.'' @ fmt_0wd 6 microseconds))"

definition toFormattedString :: "(int \<Rightarrow> tm) \<Rightarrow> bool \<Rightarrow> Timestamp \<Rightarrow> string" where
  "toFormattedString gmtime showMicroseconds t =
     (let seconds = t sdiv kMicroSecondsPerSecond;
          tm_time = gmtime seconds;
          date = fmt_wd 4 (tm_year tm_time + 1900) @ fmt_0wd 2 (tm_mon tm_time + 1) @
                 fmt_0wd 2 (tm_mday tm_time) @ '' '' @ fmt_0wd 2 (tm_hour tm_time) @ '':'' @
                 fmt_0wd 2 (tm_min tm_time) @ '':'' @ fmt_0wd 2 (tm_sec tm_time)
      in snprintf_buf 64 (if showMicroseconds
           then date @ ''.'' @ fmt_0wd 6 (to_int32 (t smod kMicroSecondsPerSecond))
           else date))"

definition Timestamp_less :: "Timestamp \<Rightarrow> Timestamp \<Rightarrow> bool" where
  "Timestamp_less lhs rhs \<longleftrightarrow> lhs < rhs"

definition Timestamp_equal :: "Timestamp \<Rightarrow> Timestamp \<Rightarrow> bool" where
  "Timestamp_equal lhs rhs \<longleftrightarrow> lhs = rhs"

definition timeDifference :: "Timestamp \<Rightarrow> Timestamp \<Rightarrow> rat res" where
  "timeDifference high low =
     ints64 [high - low] (Inr (dbl (dbl (of_int (high - low)) / of_int kMicroSecondsPerSecond)))"

definition addTime :: "Timestamp \<Rightarrow> rat \<Rightarrow> Timestamp res" where
  "addTime timestamp seconds =
     bindE (double_to_int64 (dbl (seconds * of_int kMicroSecondsPerSecond))) (\<lambda>delta.
       ints64 [timestamp + delta] (Inr (timestamp + delta)))"

section \<open>Lemmas\<close>

lemma kMicro [simp]: "kMicroSecondsPerSecond = 1000000"
  by (simp add: kMicroSecondsPerSecond_def)

lemma addTime_exact:
  assumes "\<bar>n\<bar> < 2 ^ 33" "in_int64 (t + n * 1000000)"
  shows "addTime t (of_int n) = Inr (t + n * 1000000)"
proof -
  have "\<bar>n * 1000000\<bar> < 2 ^ 53" using assms(1) by (simp add: abs_mult)
  then have "dbl (of_int (n * 1000000)) = of_int (n * 1000000)" by (rule dbl_int)
  moreover have "in_int64 (n * 1000000)" using assms(1) unfolding in_int64_def abs_less_iff by simp
  ultimately show ?thesis
    using assms(2) trunc_rat_int [of "n * 1000000"]
    by (simp add: addTime_def double_to_int64_def ints64_def del: trunc_rat_int)
qed

lemma addTime_monotone:
  assumes "addTime t s = Inr u" "0 \<le> s"
  shows "t \<le> u"
proof -
  have "0 \<le> dbl (s * 1000000)" using assms(2) by (intro dbl_nonneg) simp
  then have "0 \<le> trunc_rat (dbl (s * 1000000))" by (simp add: trunc_rat_def)
  then show ?thesis using assms(1)
    by (auto simp: addTime_def double_to_int64_def ints64_def split: if_splits)
qed

lemma addTime_near:
  assumes "\<bar>s\<bar> < 9000000000" and "s = 0 \<or> 1 / 1000000000 \<le> \<bar>s\<bar>" and "\<bar>t\<bar> < 2 ^ 62"
  shows "\<exists>u. addTime t s = Inr u \<and> \<bar>of_int u - (of_int t + s * 1000000)\<bar> < 2 \<and>
    (\<forall>n. s = of_int n \<and> \<bar>n\<bar> < 2 ^ 33 \<longrightarrow> u = t + n * 1000000)"
proof -
  let ?x = "s * 1000000" and ?d = "dbl (s * 1000000)"
  have x: "\<bar>?x\<bar> < 9000000000000000" using assms(1) by (simp add: abs_mult)
  have small: "(2::rat) powi (- 1022) \<le> 1 / 1000"
  proof -
    have "(2::rat) powi (- 1022) \<le> 2 powi (- 10)" by (intro power_int_increasing) simp_all
    also have "\<dots> \<le> 1 / 1000" by (simp add: power_int_minus)
    finally show ?thesis .
  qed
  have "?x = 0 \<or> 2 powi (- 1022) \<le> \<bar>?x\<bar>" using assms(2) small by (auto simp: abs_mult)
  then have "\<bar>?d - ?x\<bar> \<le> \<bar>?x\<bar> * 2 powi (- 53)" by (rule dbl_error)
  also have "\<dots> < 1" using x by (simp add: power_int_minus field_simps)
  finally have d: "\<bar>?d - ?x\<bar> < 1" .
  have tr: "\<bar>of_int (trunc_rat ?d) - ?d\<bar> < 1" by (rule trunc_rat_error)
  have e: "\<bar>of_int (trunc_rat ?d) - ?x\<bar> < 2" using d tr by linarith
  then have "\<bar>of_int (trunc_rat ?d) :: rat\<bar> < of_int 9000000000000002" using x by simp
  then have i: "\<bar>trunc_rat ?d\<bar> < 9000000000000002" by (metis of_int_abs of_int_less_iff)
  have "in_int64 (trunc_rat ?d)" "in_int64 (t + trunc_rat ?d)"
    using i assms(3) unfolding in_int64_def abs_less_iff by simp_all
  then have u: "addTime t s = Inr (t + trunc_rat ?d)"
    by (simp add: addTime_def double_to_int64_def ints64_def)
  have "t + trunc_rat ?d = t + n * 1000000" if "s = of_int n" "\<bar>n\<bar> < 2 ^ 33" for n
  proof -
    have "in_int64 (t + n * 1000000)" using that(2) assms(3) unfolding in_int64_def abs_less_iff by simp
    from addTime_exact [OF that(2) this] u that(1) show ?thesis by simp
  qed
  with u e show ?thesis by (intro exI [of _ "t + trunc_rat ?d"]) simp
qed

section \<open>Properties\<close>

text \<open>
  C40. Adding a time in seconds is off by less than two microseconds for any duration up to about
  285 years, whatever the binary representation of the seconds, and exact for whole seconds.
\<close>

theorem addTime_accurate:
  assumes "\<bar>s\<bar> < 9000000000" and "s = 0 \<or> 1 / 1000000000 \<le> \<bar>s\<bar>" and "\<bar>t\<bar> < 2 ^ 62"
  shows "\<exists>u. addTime t s = Inr u \<and> \<bar>of_int u - (of_int t + s * 1000000)\<bar> < 2 \<and>
    (\<forall>n. s = of_int n \<and> \<bar>n\<bar> < 2 ^ 33 \<longrightarrow> u = t + n * 1000000)"
  by (rule addTime_near [OF assms])

theorem addTime_accurate_witness:
  "\<exists>u. addTime 1000 (1 / 10) = Inr u \<and> \<bar>of_int u - (101000 :: rat)\<bar> < 2"
  using addTime_accurate [of "1 / 10" 1000] by auto

end
