(* ===== verification/LogStream.thy ===== *)
theory LogStream
  imports Format
begin

text \<open>
  \<^verbatim>\<open>muduo/base/LogStream\<close>: the conversions of integers and pointers to text, the fixed buffer
  and the stream operators. A buffer is its array and the offset of \<^verbatim>\<open>cur_\<close>; a write past the
  array is undefined. The text \<^verbatim>\<open>printf\<close> gives for a \<^verbatim>\<open>double\<close> is an argument.
\<close>

section \<open>Conversions\<close>

definition digits :: string where
  "digits = ''9876543210123456789''"

definition zero :: "int \<Rightarrow> char" where
  "zero lsd = digits ! nat (9 + lsd)"

definition digitsHex :: string where
  "digitsHex = ''0123456789ABCDEF''"

lemma sdiv_10_smaller: "(i :: int) sdiv 10 \<noteq> 0 \<Longrightarrow> nat \<bar>i sdiv 10\<bar> < nat \<bar>i\<bar>"
  by (simp add: signed_divide_int_def sgn_if split: if_splits)

text \<open>The \<^verbatim>\<open>do\<close> loops: the digits in the order they are written.\<close>

function convert_loop :: "int \<Rightarrow> string" where
  "convert_loop i =
     (let lsd = i smod 10; i' = i sdiv 10
      in zero lsd # (if i' \<noteq> 0 then convert_loop i' else []))"
  by auto

termination
  by (relation "measure (\<lambda>i. nat \<bar>i\<bar>)") (use sdiv_10_smaller in auto)

declare convert_loop.simps [simp del]

definition convert :: "int \<Rightarrow> string" where
  "convert value = rev (convert_loop value @ (if value < 0 then ''-'' else []))"

fun convertHex_loop :: "nat \<Rightarrow> string" where
  "convertHex_loop i =
     (let lsd = i mod 16; i' = i div 16
      in digitsHex ! lsd # (if i' \<noteq> 0 then convertHex_loop i' else []))"

declare convertHex_loop.simps [simp del]

definition convertHex :: "nat \<Rightarrow> string" where
  "convertHex value = rev (convertHex_loop value)"

section \<open>The fixed buffer\<close>

definition kSmallBuffer :: nat where
  "kSmallBuffer = 4000"

definition kLargeBuffer :: nat where
  "kLargeBuffer = 4000 * 1000"

record FixedBuffer =
  fdata :: "char list"
  cur :: nat

definition FixedBuffer_new :: "char list \<Rightarrow> FixedBuffer" where
  "FixedBuffer_new memory = \<lparr>fdata = memory, cur = 0\<rparr>"

definition avail :: "FixedBuffer \<Rightarrow> int" where
  "avail b = to_int32 (int (length (fdata b)) - int (cur b))"

text \<open>The comparison is made in \<^verbatim>\<open>size_t\<close>.\<close>

definition fixed_append :: "char list \<Rightarrow> FixedBuffer \<Rightarrow> FixedBuffer res" where
  "fixed_append buf b =
     (if avail b mod 2 ^ 64 > int (length buf)
      then bindE (mem_write (cur b) buf (fdata b)) (\<lambda>d. Inr (b\<lparr>fdata := d, cur := cur b + length buf\<rparr>))
      else Inr b)"

definition fixed_length :: "FixedBuffer \<Rightarrow> int" where
  "fixed_length b = to_int32 (int (cur b))"

definition fixed_add :: "nat \<Rightarrow> FixedBuffer \<Rightarrow> FixedBuffer" where
  "fixed_add len b = b\<lparr>cur := cur b + len\<rparr>"

definition fixed_reset :: "FixedBuffer \<Rightarrow> FixedBuffer" where
  "fixed_reset b = b\<lparr>cur := 0\<rparr>"

definition fixed_bzero :: "FixedBuffer \<Rightarrow> FixedBuffer" where
  "fixed_bzero b = b\<lparr>fdata := replicate (length (fdata b)) (CHR 0x00)\<rparr>"

definition debugString :: "FixedBuffer \<Rightarrow> FixedBuffer res" where
  "debugString b = bindE (mem_write (cur b) [CHR 0x00] (fdata b)) (\<lambda>d. Inr (b\<lparr>fdata := d\<rparr>))"

definition fixed_toString :: "FixedBuffer \<Rightarrow> string" where
  "fixed_toString b = take (nat (fixed_length b)) (fdata b)"

section \<open>The stream\<close>

definition kMaxNumericSize :: int where
  "kMaxNumericSize = 48"

text \<open>Text written at \<^verbatim>\<open>current()\<close> with its terminating zero, then added.\<close>

definition write_current :: "string \<Rightarrow> FixedBuffer \<Rightarrow> FixedBuffer res" where
  "write_current s b =
     bindE (mem_write (cur b) (s @ [CHR 0x00]) (fdata b)) (\<lambda>d. Inr (fixed_add (length s) (b\<lparr>fdata := d\<rparr>)))"

definition formatInteger :: "int \<Rightarrow> FixedBuffer \<Rightarrow> FixedBuffer res" where
  "formatInteger v b = (if avail b \<ge> kMaxNumericSize then write_current (convert v) b else Inr b)"

definition stream_pointer :: "nat \<Rightarrow> FixedBuffer \<Rightarrow> FixedBuffer res" where
  "stream_pointer v b =
     (if avail b \<ge> kMaxNumericSize then write_current (''0x'' @ convertHex v) b else Inr b)"

definition stream_double :: "string \<Rightarrow> FixedBuffer \<Rightarrow> FixedBuffer res" where
  "stream_double printed b =
     (if avail b \<ge> kMaxNumericSize
      then bindE (mem_write (cur b) (snprintf_buf (nat kMaxNumericSize) printed @ [CHR 0x00]) (fdata b)) (\<lambda>d.
             Inr (fixed_add (length printed) (b\<lparr>fdata := d\<rparr>)))
      else Inr b)"

definition stream_bool :: "bool \<Rightarrow> FixedBuffer \<Rightarrow> FixedBuffer res" where
  "stream_bool v = fixed_append (if v then ''1'' else ''0'')"

definition stream_char :: "char \<Rightarrow> FixedBuffer \<Rightarrow> FixedBuffer res" where
  "stream_char v = fixed_append [v]"

text \<open>A C string is the text before its terminating zero, or a null pointer.\<close>

definition stream_cstring :: "string option \<Rightarrow> FixedBuffer \<Rightarrow> FixedBuffer res" where
  "stream_cstring str = (case str of Some s \<Rightarrow> fixed_append s | None \<Rightarrow> fixed_append ''(null)'')"

definition stream_string :: "string \<Rightarrow> FixedBuffer \<Rightarrow> FixedBuffer res" where
  "stream_string v = fixed_append v"

definition stream_buffer :: "FixedBuffer \<Rightarrow> FixedBuffer \<Rightarrow> FixedBuffer res" where
  "stream_buffer v = fixed_append (fixed_toString v)"

text \<open>\<^verbatim>\<open>Fmt\<close>: the text of a value, which has to fit 32 bytes with its zero.\<close>

definition Fmt_new :: "string \<Rightarrow> string res" where
  "Fmt_new printed = assert_that (length printed < 32) (Inr printed)"

definition stream_fmt :: "string \<Rightarrow> FixedBuffer \<Rightarrow> FixedBuffer res" where
  "stream_fmt fmt = fixed_append fmt"

section \<open>The conversions give decimal and hexadecimal text\<close>

lemma zero_digit: "0 \<le> d \<Longrightarrow> d < 10 \<Longrightarrow> zero d = digit_char (nat d) \<and> zero (- d) = digit_char (nat d)"
proof -
  assume "0 \<le> d" "d < 10"
  then have "d = 0 \<or> d = 1 \<or> d = 2 \<or> d = 3 \<or> d = 4 \<or> d = 5 \<or> d = 6 \<or> d = 7 \<or> d = 8 \<or> d = 9"
    by presburger
  then show ?thesis by (elim disjE; hypsubst; simp add: zero_def digits_def digit_char_def eq_char_of)
qed

lemma convert_loop_nat: "convert_loop (int n) = rev (dec_digits n)"
proof (induction n rule: dec_digits.induct)
  case (1 n)
  have lsd: "int n smod 10 = int (n mod 10)" "int n sdiv 10 = int (n div 10)"
    by (simp_all add: smod_nonneg sdiv_nonneg zmod_int zdiv_int)
  have z: "zero (int (n mod 10)) = digit_char (n mod 10)"
    using zero_digit [of "int (n mod 10)"] by simp
  show ?case
  proof (cases "n < 10")
    case True
    then show ?thesis using lsd z by (subst convert_loop.simps) (simp add: dec_digits_small)
  next
    case False
    then have "int (n div 10) \<noteq> 0" "dec_digits n = dec_digits (n div 10) @ [digit_char (n mod 10)]"
      using dec_digits_large [of n] by simp_all
    then show ?thesis
      unfolding convert_loop.simps [of "int n"] Let_def lsd z using 1 [OF False] by (simp only: if_True) simp
  qed
qed

lemma convert_loop_neg: "convert_loop (- int n) = convert_loop (int n)"
proof (induction n rule: dec_digits.induct)
  case (1 n)
  have neg: "(- int n) smod 10 = - int (n mod 10)" "(- int n) sdiv 10 = - int (n div 10)"
    by (simp_all add: signed_modulo_int_def signed_divide_int_def sgn_if zmod_int zdiv_int)
  have pos: "int n smod 10 = int (n mod 10)" "int n sdiv 10 = int (n div 10)"
    by (simp_all add: smod_nonneg sdiv_nonneg zmod_int zdiv_int)
  have z: "zero (- int (n mod 10)) = zero (int (n mod 10))"
    using zero_digit [of "int (n mod 10)"] by simp
  show ?case
    unfolding convert_loop.simps [of "- int n"] convert_loop.simps [of "int n"] Let_def neg pos z
    using 1 by (cases "n < 10") simp_all
qed

lemma convert_decimal: "convert v = fmt_d v"
proof (cases "v < 0")
  case True
  then have "convert_loop v = rev (dec_digits (nat (- v)))"
    using convert_loop_neg [of "nat (- v)"] convert_loop_nat [of "nat (- v)"] by simp
  then show ?thesis using True by (simp add: convert_def fmt_d_def)
next
  case False
  then show ?thesis using convert_loop_nat [of "nat v"] by (simp add: convert_def fmt_d_def)
qed

lemma convert_length: "\<bar>v\<bar> < 10 ^ 20 \<Longrightarrow> length (convert v) \<le> 21"
proof -
  assume v: "\<bar>v\<bar> < 10 ^ 20"
  then have "nat \<bar>v\<bar> < 10 ^ 20" by (simp add: nat_less_iff)
  then have "length (dec_digits (nat \<bar>v\<bar>)) \<le> 20" using dec_digits_length [of 20 "nat \<bar>v\<bar>"] by simp
  then show ?thesis by (cases "v < 0") (simp_all add: convert_decimal fmt_d_def)
qed

definition hex_digit :: "char \<Rightarrow> nat" where
  "hex_digit c = std_find c digitsHex"

definition hex_value :: "string \<Rightarrow> nat" where
  "hex_value s = foldl (\<lambda>v c. 16 * v + hex_digit c) 0 s"

lemma hex_digit_nth: "d < 16 \<Longrightarrow> hex_digit (digitsHex ! d) = d"
proof -
  assume "d < 16"
  then have "d = 0 \<or> d = 1 \<or> d = 2 \<or> d = 3 \<or> d = 4 \<or> d = 5 \<or> d = 6 \<or> d = 7 \<or> d = 8 \<or> d = 9 \<or>
      d = 10 \<or> d = 11 \<or> d = 12 \<or> d = 13 \<or> d = 14 \<or> d = 15"
    by presburger
  then show ?thesis by (elim disjE; hypsubst; simp add: hex_digit_def digitsHex_def)
qed

lemma hex_value_convert: "hex_value (convertHex n) = n"
proof (induction n rule: convertHex_loop.induct)
  case (1 n)
  show ?case
  proof (cases "n div 16 = 0")
    case True
    then show ?thesis using hex_digit_nth [of "n mod 16"]
      by (simp add: convertHex_def convertHex_loop.simps [of n] hex_value_def Let_def)
  next
    case False
    have "hex_value (convertHex (n div 16)) = n div 16" using 1 [OF refl refl False] .
    then show ?thesis using False hex_digit_nth [of "n mod 16"]
      by (simp add: convertHex_def convertHex_loop.simps [of n] hex_value_def Let_def)
  qed
qed

lemma convertHex_length: "n < 16 ^ Suc k \<Longrightarrow> length (convertHex n) \<le> Suc k"
proof (induction k arbitrary: n)
  case 0
  then show ?case by (simp add: convertHex_def convertHex_loop.simps [of n] Let_def)
next
  case (Suc k)
  have "n div 16 < 16 ^ Suc k" using Suc.prems by (simp add: div_less_iff_less_mult mult.commute)
  from Suc.IH [OF this] show ?case by (simp add: convertHex_def convertHex_loop.simps [of n] Let_def)
qed

section \<open>The stream keeps what fits\<close>

text \<open>What the operators of the stream are called with.\<close>

datatype stream_op =
    SBool bool | SChar char | SCString "string option" | SString string
  | SInteger int | SPointer nat | SDouble string

fun stream_step :: "stream_op \<Rightarrow> FixedBuffer \<Rightarrow> FixedBuffer res" where
  "stream_step (SBool v) = stream_bool v"
| "stream_step (SChar c) = stream_char c"
| "stream_step (SCString s) = stream_cstring s"
| "stream_step (SString s) = stream_string s"
| "stream_step (SInteger i) = formatInteger i"
| "stream_step (SPointer p) = stream_pointer p"
| "stream_step (SDouble s) = stream_double s"

fun op_text :: "stream_op \<Rightarrow> string" where
  "op_text (SBool v) = (if v then ''1'' else ''0'')"
| "op_text (SChar c) = [c]"
| "op_text (SCString s) = (case s of Some t \<Rightarrow> t | None \<Rightarrow> ''(null)'')"
| "op_text (SString s) = s"
| "op_text (SInteger i) = fmt_d i"
| "op_text (SPointer p) = ''0x'' @ convertHex p"
| "op_text (SDouble s) = s"

text \<open>
  The values the operators can get: integers of at most 64 bits, signed or unsigned, 64-bit
  pointers, strings shorter than \<open>2 ^ 64\<close>, and the at most 47 characters of a \<^verbatim>\<open>%.12g\<close>.
\<close>

fun op_ok :: "stream_op \<Rightarrow> bool" where
  "op_ok (SInteger i) \<longleftrightarrow> - (2 ^ 63) \<le> i \<and> i < 2 ^ 64"
| "op_ok (SPointer p) \<longleftrightarrow> p < 2 ^ 64"
| "op_ok (SDouble s) \<longleftrightarrow> length s \<le> 47"
| "op_ok _ \<longleftrightarrow> True"

fun op_numeric :: "stream_op \<Rightarrow> bool" where
  "op_numeric (SInteger i) = True"
| "op_numeric (SPointer p) = True"
| "op_numeric (SDouble s) = True"
| "op_numeric _ = False"

definition op_fits :: "nat \<Rightarrow> string \<Rightarrow> stream_op \<Rightarrow> bool" where
  "op_fits n s p = (if op_numeric p then length s + 48 \<le> n else length s + length (op_text p) < n)"

fun text_run :: "nat \<Rightarrow> stream_op list \<Rightarrow> string \<Rightarrow> string" where
  "text_run n [] s = s"
| "text_run n (p # ps) s = text_run n ps (if op_fits n s p then s @ op_text p else s)"

definition fixed_inv :: "FixedBuffer \<Rightarrow> bool" where
  "fixed_inv b \<longleftrightarrow> cur b < length (fdata b) \<and> length (fdata b) < 2 ^ 31"

lemma fixed_inv_text:
  assumes "fixed_inv b"
  shows "fixed_toString b = take (cur b) (fdata b)" and "length (fixed_toString b) = cur b"
    and "avail b = int (length (fdata b)) - int (cur b)"
proof -
  have "to_int32 (int (cur b)) = int (cur b)"
    using assms by (intro to_int32_exact) (simp add: fixed_inv_def in_int32_def)
  then show "fixed_toString b = take (cur b) (fdata b)" by (simp add: fixed_toString_def fixed_length_def)
  then show "length (fixed_toString b) = cur b" using assms by (simp add: fixed_inv_def)
  show "avail b = int (length (fdata b)) - int (cur b)"
    unfolding avail_def using assms by (intro to_int32_exact) (simp add: fixed_inv_def in_int32_def)
qed

lemma fixed_write:
  assumes "fixed_inv b" "cur b + length s < length (fdata b)" "length s \<le> length ws"
    "take (length s) ws = s" "cur b + length ws \<le> length (fdata b)"
  shows "\<exists>d. mem_write (cur b) ws (fdata b) = Inr d \<and>
    fixed_inv (b\<lparr>fdata := d, cur := cur b + length s\<rparr>) \<and> length d = length (fdata b) \<and>
    fixed_toString (b\<lparr>fdata := d, cur := cur b + length s\<rparr>) = fixed_toString b @ s"
proof -
  let ?d = "take (cur b) (fdata b) @ ws @ drop (cur b + length ws) (fdata b)"
  have w: "mem_write (cur b) ws (fdata b) = Inr ?d" using assms(5) by (simp add: mem_write_def)
  have l: "length ?d = length (fdata b)" using assms(5) by simp
  have inv: "fixed_inv (b\<lparr>fdata := ?d, cur := cur b + length s\<rparr>)"
    using assms(1,2) l by (simp add: fixed_inv_def)
  have "take (cur b + length s) ?d = take (cur b) (fdata b) @ s"
    using assms(2,3,4) by (simp add: min_def)
  then show ?thesis
    using w inv l fixed_inv_text(1) [OF inv] fixed_inv_text(1) [OF assms(1)] by auto
qed

lemma fixed_append_ok:
  assumes "fixed_inv b"
  shows "\<exists>b'. fixed_append s b = Inr b' \<and> fixed_inv b' \<and> length (fdata b') = length (fdata b) \<and>
    fixed_toString b' = (if cur b + length s < length (fdata b) then fixed_toString b @ s else fixed_toString b)"
proof -
  have "avail b mod 2 ^ 64 = avail b" and a: "avail b = int (length (fdata b)) - int (cur b)"
    using fixed_inv_text(3) [OF assms] assms by (auto simp: fixed_inv_def mod_pos_pos_trivial)
  then have "(avail b mod 2 ^ 64 > int (length s)) = (cur b + length s < length (fdata b))"
    using assms by linarith
  then show ?thesis
    using assms fixed_write [OF assms, of s s] by (auto simp: fixed_append_def)
qed

lemma write_current_ok:
  assumes "fixed_inv b" "length s \<le> 47"
  shows "\<exists>b'. (if avail b \<ge> kMaxNumericSize then write_current s b else Inr b) = Inr b' \<and> fixed_inv b' \<and>
    length (fdata b') = length (fdata b) \<and>
    fixed_toString b' = (if cur b + 48 \<le> length (fdata b) then fixed_toString b @ s else fixed_toString b)"
proof -
  have "(avail b \<ge> kMaxNumericSize) = (cur b + 48 \<le> length (fdata b))"
    using fixed_inv_text(3) [OF assms(1)] assms(1) by (auto simp: kMaxNumericSize_def fixed_inv_def)
  then show ?thesis
    using assms fixed_write [OF assms(1), of s "s @ [CHR 0x00]"]
    by (auto simp: write_current_def fixed_add_def)
qed

lemma stream_step_append:
  assumes "\<not> op_numeric p" "fixed_inv b"
  shows "\<exists>b'. stream_step p b = Inr b' \<and> fixed_inv b' \<and> length (fdata b') = length (fdata b) \<and>
    fixed_toString b' = (if op_fits (length (fdata b)) (fixed_toString b) p
      then fixed_toString b @ op_text p else fixed_toString b)"
proof -
  have "stream_step p = fixed_append (op_text p)"
    using assms(1) by (cases p)
      (auto simp: stream_bool_def stream_char_def stream_cstring_def stream_string_def split: option.splits)
  then show ?thesis
    using fixed_append_ok [OF assms(2), of "op_text p"] assms(1)
    unfolding op_fits_def fixed_inv_text(2) [OF assms(2)] by simp
qed

lemma stream_step_ok:
  assumes "fixed_inv b" "op_ok p"
  shows "\<exists>b'. stream_step p b = Inr b' \<and> fixed_inv b' \<and> length (fdata b') = length (fdata b) \<and>
    fixed_toString b' = (if op_fits (length (fdata b)) (fixed_toString b) p
      then fixed_toString b @ op_text p else fixed_toString b)"
proof (cases p)
  case (SInteger i)
  have "\<bar>i\<bar> < 10 ^ 20" using assms(2) SInteger by (simp add: abs_less_iff)
  then have "length (convert i) \<le> 47" using convert_length [of i] by simp
  from write_current_ok [OF assms(1) this] show ?thesis
    unfolding SInteger stream_step.simps formatInteger_def op_fits_def op_numeric.simps if_True
      op_text.simps convert_decimal [symmetric] fixed_inv_text(2) [OF assms(1)] .
next
  case (SPointer v)
  have "length (convertHex v) \<le> 16" using assms(2) SPointer convertHex_length [of v 15] by simp
  then have "length (''0x'' @ convertHex v) \<le> 47" by simp
  from write_current_ok [OF assms(1) this] show ?thesis
    unfolding SPointer stream_step.simps stream_pointer_def op_fits_def op_numeric.simps if_True
      op_text.simps fixed_inv_text(2) [OF assms(1)] .
next
  case (SDouble s)
  have "length s \<le> 47" using assms(2) SDouble by simp
  then have "stream_double s b = (if avail b \<ge> kMaxNumericSize then write_current s b else Inr b)"
    by (simp add: stream_double_def write_current_def snprintf_buf_def kMaxNumericSize_def)
  with write_current_ok [OF assms(1) \<open>length s \<le> 47\<close>] show ?thesis
    unfolding SDouble stream_step.simps op_fits_def op_numeric.simps if_True op_text.simps
      fixed_inv_text(2) [OF assms(1)] by simp
qed (use stream_step_append [OF _ assms(1), of p] in simp_all)

section \<open>Properties\<close>



text \<open>
  C32. No sequence of stream operations writes outside the buffer: each operation appends its whole
  text or nothing, and it appends it whenever the text fits, or, for a number, whenever 48 bytes are
  free.
\<close>

theorem stream_run_refines:
  assumes "fixed_inv b" and "list_all op_ok ps"
  shows "\<exists>b'. foldE stream_step ps b = Inr b' \<and> fixed_inv b' \<and>
    fixed_toString b' = text_run (length (fdata b)) ps (fixed_toString b)"
  using assms
proof (induction ps arbitrary: b)
  case (Cons p ps)
  obtain b1 where b1: "stream_step p b = Inr b1" "fixed_inv b1" "length (fdata b1) = length (fdata b)"
      "fixed_toString b1 = (if op_fits (length (fdata b)) (fixed_toString b) p
        then fixed_toString b @ op_text p else fixed_toString b)"
    using stream_step_ok [OF Cons.prems(1)] Cons.prems(2) by auto
  then show ?case using Cons.IH [OF b1(2)] Cons.prems(2) by auto
qed simp

theorem stream_run_refines_witness:
  "\<exists>b'. foldE stream_step [SString ''x='', SInteger (- 42)] (FixedBuffer_new (replicate 4000 (CHR 0x00))) = Inr b' \<and>
     fixed_toString b' = text_run 4000 [SString ''x='', SInteger (- 42)] []"
proof -
  let ?b = "FixedBuffer_new (replicate 4000 (CHR 0x00))"
  have i: "fixed_inv ?b" by (simp add: fixed_inv_def FixedBuffer_new_def)
  have t: "fixed_toString ?b = []" "length (fdata ?b) = 4000"
    using fixed_inv_text(1) [OF i] by (simp_all add: FixedBuffer_new_def)
  show ?thesis
    using stream_run_refines [OF i, of "[SString ''x='', SInteger (- 42)]"] unfolding t by auto
qed

end
