(* ===== verification/FormatSI.thy ===== *)
theory FormatSI
  imports Double Format
begin

text \<open>
  \<^verbatim>\<open>formatSI\<close> and \<^verbatim>\<open>formatIEC\<close> of \<^verbatim>\<open>muduo/base/LogStream.cc\<close>: quantities written with a unit in a few characters. The
  arithmetic is that of \<^verbatim>\<open>double\<close>; \<^verbatim>\<open>printf\<close> rounds the value it is given to the nearest decimal, ties to even.
\<close>

section \<open>Definitions\<close>

text \<open>The conversion \<^verbatim>\<open>%.pf\<close>.\<close>

definition fmt_f :: "nat \<Rightarrow> rat \<Rightarrow> string" where
  "fmt_f p x =
     (if x < 0 then ''-'' else '''') @
     (let k = nat (round_even (\<bar>x\<bar> * 10 ^ p))
      in dec_digits (k div 10 ^ p) @ (if p = 0 then '''' else ''.'' @ pad_left (CHR ''0'') p (dec_digits (k mod 10 ^ p))))"

definition formatSI :: "int \<Rightarrow> string" where
  "formatSI s =
     (let n = dbl (of_int s)
      in snprintf_buf 64
        (if s < 1000 then fmt_d s
         else if s < 9995 then fmt_f 2 (dbl (n / 10 ^ 3)) @ ''k''
         else if s < 99950 then fmt_f 1 (dbl (n / 10 ^ 3)) @ ''k''
         else if s < 999500 then fmt_f 0 (dbl (n / 10 ^ 3)) @ ''k''
         else if s < 9995000 then fmt_f 2 (dbl (n / 10 ^ 6)) @ ''M''
         else if s < 99950000 then fmt_f 1 (dbl (n / 10 ^ 6)) @ ''M''
         else if s < 999500000 then fmt_f 0 (dbl (n / 10 ^ 6)) @ ''M''
         else if s < 9995000000 then fmt_f 2 (dbl (n / 10 ^ 9)) @ ''G''
         else if s < 99950000000 then fmt_f 1 (dbl (n / 10 ^ 9)) @ ''G''
         else if s < 999500000000 then fmt_f 0 (dbl (n / 10 ^ 9)) @ ''G''
         else if s < 9995000000000 then fmt_f 2 (dbl (n / 10 ^ 12)) @ ''T''
         else if s < 99950000000000 then fmt_f 1 (dbl (n / 10 ^ 12)) @ ''T''
         else if s < 999500000000000 then fmt_f 0 (dbl (n / 10 ^ 12)) @ ''T''
         else if s < 9995000000000000 then fmt_f 2 (dbl (n / 10 ^ 15)) @ ''P''
         else if s < 99950000000000000 then fmt_f 1 (dbl (n / 10 ^ 15)) @ ''P''
         else if s < 999500000000000000 then fmt_f 0 (dbl (n / 10 ^ 15)) @ ''P''
         else fmt_f 2 (dbl (n / 10 ^ 18)) @ ''E''))"

text \<open>The three ways to write a number with the unit \<open>u\<close>, or \<open>other\<close> if it is too large.\<close>

definition iec_unit :: "rat \<Rightarrow> rat \<Rightarrow> string \<Rightarrow> string \<Rightarrow> string" where
  "iec_unit n u name other =
     (if n < dbl (u * dbl (9995 / 1000)) then fmt_f 2 (dbl (n / u)) @ name
      else if n < dbl (u * dbl (9995 / 100)) then fmt_f 1 (dbl (n / u)) @ name
      else if n < dbl (u * dbl (10235 / 10)) then fmt_f 0 (dbl (n / u)) @ name
      else other)"

definition formatIEC :: "int \<Rightarrow> string" where
  "formatIEC s =
     (let n = dbl (of_int s); Ki = 1024; Mi = dbl (Ki * 1024); Gi = dbl (Mi * 1024); Ti = dbl (Gi * 1024);
          Pi = dbl (Ti * 1024); Ei = dbl (Pi * 1024)
      in snprintf_buf 64
        (if n < Ki then fmt_d s
         else iec_unit n Ki ''Ki'' (iec_unit n Mi ''Mi'' (iec_unit n Gi ''Gi'' (iec_unit n Ti ''Ti'' (iec_unit n Pi ''Pi''
           (if n < dbl (Ei * dbl (9995 / 1000)) then fmt_f 2 (dbl (n / Ei)) @ ''Ei'' else fmt_f 1 (dbl (n / Ei)) @ ''Ei'')))))))"

lemma dbl_literals:
  "dbl (9995 / 1000) = of_int 5626684784446013 * 2 powi (- 49)"
  "dbl (9995 / 100) = of_int 7033355980557517 * 2 powi (- 46)"
  "dbl (10235 / 10) = of_int 2047 * 2 powi (- 1)"
  by code_simp+

section \<open>Scaling by powers of two\<close>

lemma fexp_scale:
  assumes "0 < x"
  shows "fexp (x * 2 powi e) = fexp x + e"
proof -
  have p: "0 < x * 2 powi e" using assms by simp
  have "2 powi (fexp x + e) \<le> x * 2 powi e" using fexp_bounds(1) [OF assms] by (simp add: power_int_add)
  then have "fexp x + e \<le> fexp (x * 2 powi e)" by (rule fexp_ge [OF p])
  moreover have "x * 2 powi e < 2 powi (fexp x + e + 1)"
  proof -
    have "(2::rat) powi (fexp x + e + 1) = 2 powi (fexp x + 1) * 2 powi e" by (simp add: power_int_add)
    then show ?thesis using fexp_bounds(2) [OF assms] by simp
  qed
  then have "fexp (x * 2 powi e) < fexp x + e + 1" by (rule fexp_less [OF p])
  ultimately show ?thesis by simp
qed

lemma dbl_pos_scale:
  assumes "0 < x" "- 1022 \<le> fexp x" "- 1022 \<le> fexp x + e"
  shows "dbl_pos (x * 2 powi e) = dbl_pos x * 2 powi e"
proof -
  have m: "max (fexp x - 52) (- 1074) = fexp x - 52" "max (fexp x + e - 52) (- 1074) = fexp x - 52 + e" using assms(2,3) by simp_all
  have "x * 2 powi e / 2 powi (fexp x - 52 + e) = x / 2 powi (fexp x - 52)" by (simp add: power_int_add)
  moreover have "(2::rat) powi (fexp x - 52 + e) = 2 powi (fexp x - 52) * 2 powi e" by (rule power_int_add) simp
  ultimately show ?thesis
    unfolding dbl_pos_def Let_def fexp_scale [OF assms(1)] m by (simp only: mult.assoc)
qed

lemma dbl_exact:
  assumes "0 < m" "m \<le> 2 ^ 53" "- 900 \<le> e"
  shows "dbl (of_int m * 2 powi e) = of_int m * 2 powi e"
proof -
  have *: "dbl (of_int k * 2 powi f) = of_int k * 2 powi f" if "0 < k" "k < 2 ^ 53" "- 900 \<le> f" for k f
  proof -
    have "0 \<le> fexp (of_int k)" using that(1) by (intro fexp_ge) simp_all
    then have "dbl_pos (of_int k * 2 powi f) = dbl_pos (of_int k) * 2 powi f" using that by (intro dbl_pos_scale) simp_all
    then show ?thesis using dbl_pos_int [OF that(1,2)] that(1) by (simp add: dbl_def)
  qed
  show ?thesis
  proof (cases "m = 2 ^ 53")
    case True
    have "of_int m * (2::rat) powi e = of_int 1 * 2 powi (e + 53)" unfolding True by (simp add: power_int_add)
    then show ?thesis using * [of 1 "e + 53"] assms(3) by simp
  qed (use * assms in simp)
qed

lemma dbl_form:
  assumes "1 \<le> x"
  shows "\<exists>m e. 0 < m \<and> m \<le> 2 ^ 53 \<and> - 52 \<le> e \<and> dbl x = of_int m * 2 powi e"
proof -
  have e: "0 \<le> fexp x" using assms by (intro fexp_ge) simp_all
  define u :: rat where "u = 2 powi (fexp x - 52)"
  have d: "dbl x = of_int (round_even (x / u)) * u"
    using assms e by (simp add: dbl_def dbl_pos_def u_def max_def Let_def)
  have b: "2 powi fexp x \<le> x" "x < 2 powi (fexp x + 1)" using fexp_bounds assms by (auto simp: order.strict_trans2)
  have u: "0 < u" "2 powi fexp x = 2 ^ 52 * u" "2 powi (fexp x + 1) = 2 ^ 53 * u"
    by (simp_all add: u_def power_int_diff power_int_add)
  have hi: "x / u < 2 ^ 53" using b(2) u by (simp add: pos_divide_less_eq)
  have "2 ^ 52 \<le> x / u" using b(1) u by (simp add: pos_le_divide_eq)
  then have lo: "1 + 1 / 2 \<le> x / u" by (rule order_trans [rotated]) simp
  let ?r = "round_even (x / u)"
  have "of_int ?r < (of_int (2 ^ 53 + 1) :: rat)" "(of_int 1 :: rat) \<le> of_int ?r"
    using round_even_error [of "x / u"] hi lo unfolding abs_le_iff of_int_add of_int_power of_int_numeral of_int_1 by linarith+
  then have "?r < 2 ^ 53 + 1" "1 \<le> ?r" by (simp_all only: of_int_less_iff of_int_le_iff)
  then show ?thesis using d e u_def by (intro exI [of _ "round_even (x / u)"] exI [of _ "fexp x - 52"]) simp
qed

section \<open>The length of the text\<close>

lemma fmt_f_length:
  assumes "0 \<le> x" "x * 10 ^ p < 10 ^ m - 1 / 2" "p < m"
  shows "length (fmt_f p x) \<le> m + (if p = 0 then 0 else 1)"
proof -
  define k where "k = nat (round_even (x * 10 ^ p))"
  have "of_int (round_even (x * 10 ^ p)) < (10 ^ m :: rat)"
    using round_even_error [of "x * 10 ^ p"] assms(2) unfolding abs_le_iff by linarith
  then have "round_even (x * 10 ^ p) < 10 ^ m" by (metis of_int_less_iff of_int_numeral of_int_power)
  then have "k < 10 ^ m" unfolding k_def by (metis nat_less_numeral_power_cancel_iff)
  then have "k div 10 ^ p < 10 ^ (m - p)" using assms(3) by (simp add: less_mult_imp_div_less flip: power_add)
  then have "length (dec_digits (k div 10 ^ p)) \<le> m - p" using dec_digits_length [of "m - p"] assms(3) by simp
  moreover have "length (dec_digits (k mod 10 ^ p)) \<le> p" if "p \<noteq> 0" using dec_digits_length [of p] that by simp
  ultimately show ?thesis using assms(1,3) by (cases "p = 0") (auto simp: fmt_f_def k_def Let_def)
qed

lemma snprintf_short: "length s < n \<Longrightarrow> snprintf_buf n s = s"
  by (simp add: snprintf_buf_def)

lemma si_length:
  assumes "0 < s" "s < 2 ^ 53" "e \<le> 12" "2 * s * 10 ^ p < 1999 * 10 ^ e" "p < 3"
  shows "length (fmt_f p (dbl (dbl (of_int s) / 10 ^ e)) @ [u]) \<le> 5"
proof -
  define x :: rat where "x = of_int s / 10 ^ e"
  have n: "dbl (of_int s) = of_int s" using assms(1,2) by (intro dbl_int) simp
  have x: "0 < x" "\<bar>x\<bar> = x" using assms(1) by (simp_all add: x_def)
  have le: "(10::rat) ^ e \<le> 10 ^ 12" using assms(3) by (intro power_increasing) simp_all
  have "2 * s * 10 ^ p + 1 \<le> 1999 * 10 ^ e" using assms(4) by simp
  then have "(of_int (2 * s * 10 ^ p + 1) :: rat) \<le> of_int (1999 * 10 ^ e)" by (simp only: of_int_le_iff)
  then have "of_int (2 * s * 10 ^ p + 1) / 10 ^ e \<le> (1999::rat)" by (simp add: pos_divide_le_eq)
  moreover have "of_int (2 * s * 10 ^ p + 1) / 10 ^ e = 2 * (x * 10 ^ p) + 1 / 10 ^ e" by (simp add: x_def add_divide_distrib)
  ultimately have "2 * (x * 10 ^ p) + 1 / 10 ^ e \<le> 1999" by simp
  moreover have "1 / 10 ^ 12 \<le> 1 / (10::rat) ^ e" using le by (intro divide_left_mono) simp_all
  ultimately have y: "x * 10 ^ p \<le> (1999 - 1 / 10 ^ 12) / 2" unfolding le_divide_eq_numeral1 by (simp only: mult.commute le_diff_eq)
  have "1 \<le> (of_int s :: rat)" using assms(1) by simp
  then have "1 / 10 ^ 12 \<le> x" unfolding x_def using le by (intro frac_le) simp_all
  moreover have "(2::rat) powi (- 40) \<le> 1 / 10 ^ 12" by code_simp
  moreover have "(2::rat) powi (- 1022) \<le> 2 powi (- 40)" by (intro power_int_increasing) simp_all
  ultimately have "2 powi (- 1022) \<le> x" by (meson order_trans)
  then have d: "\<bar>dbl x - x\<bar> \<le> x * 2 powi (- 53)" using dbl_error [of x] unfolding x(2) by blast
  define eps :: rat where "eps = 2 powi (- 53)"
  have "0 \<le> eps" by (simp add: eps_def)
  have "dbl x \<le> x * (1 + eps)" using d unfolding eps_def [symmetric] by (simp add: abs_le_iff algebra_simps)
  then have "dbl x * 10 ^ p \<le> x * (1 + eps) * 10 ^ p" by (intro mult_right_mono) simp_all
  also have "\<dots> = x * 10 ^ p * (1 + eps)" by (simp only: mult_ac)
  also have "\<dots> \<le> (1999 - 1 / 10 ^ 12) / 2 * (1 + eps)" using y \<open>0 \<le> eps\<close> by (intro mult_right_mono) simp_all
  also have "\<dots> < 10 ^ 3 - 1 / 2" unfolding eps_def by code_simp
  finally have "length (fmt_f p (dbl x)) \<le> 3 + (if p = 0 then 0 else 1)"
    using assms(5) x(1) by (intro fmt_f_length dbl_nonneg) simp_all
  then show ?thesis unfolding n x_def [symmetric] by (simp split: if_splits)
qed

lemma fmt_d_small: "0 \<le> s \<Longrightarrow> s < 10 ^ k \<Longrightarrow> 0 < k \<Longrightarrow> length (fmt_d s) \<le> k"
  using dec_digits_length [of k "nat s"] by (simp add: fmt_d_def)

lemma length_if: "(c \<Longrightarrow> length a \<le> n) \<Longrightarrow> (\<not> c \<Longrightarrow> length b \<le> n) \<Longrightarrow> length (if c then a else b) \<le> n"
  by simp

lemma formatSI_length:
  assumes "0 \<le> s" "s < 999500000000000"
  shows "length (formatSI s) \<le> 5"
proof -
  have len: "length (snprintf_buf 64 t) \<le> 5" if "length t \<le> 5" for t using that by (simp add: snprintf_short)
  have k: "length (fmt_f p (dbl (dbl (of_int s) / 10 ^ e)) @ [u]) \<le> 5" if "\<not> s < 1000" "2 * s * 10 ^ p < 1999 * 10 ^ e" "e \<le> 12" "p < 3" for p e u
    using assms(2) that by (intro si_length) simp_all
  have d: "length (fmt_d s) \<le> 5" if "s < 1000" using fmt_d_small [of s 3] assms(1) that by simp
  show ?thesis
    unfolding formatSI_def Let_def
    by (intro len length_if; (rule d, assumption | rule k; use assms(2) in simp))
qed

lemma formatSI_too_long: "formatSI 99949999999999999 = ''100.0P''"
  by code_simp

text \<open>A power of two divides a \<^verbatim>\<open>double\<close> exactly.\<close>

lemma dbl_div:
  assumes "dbl x = of_int m * 2 powi e" "0 < m" "m \<le> 2 ^ 53" "- 52 \<le> e" "k \<le> 60"
  shows "dbl (dbl x / 2 ^ k) = of_int m * 2 powi (e - int k)" "dbl x / 2 ^ k = of_int m * 2 powi (e - int k)"
proof -
  show q: "dbl x / 2 ^ k = of_int m * 2 powi (e - int k)" unfolding assms(1) by (simp add: power_int_diff)
  show "dbl (dbl x / 2 ^ k) = of_int m * 2 powi (e - int k)" unfolding q using assms by (intro dbl_exact) simp_all
qed

lemma dbl_scaled:
  assumes "c = of_int m * 2 powi f" "0 < m" "m \<le> 2 ^ 53" "- 52 \<le> f"
  shows "dbl (2 ^ k * c) = 2 ^ k * c"
proof -
  have "2 ^ k * c = of_int m * 2 powi (f + int k)" unfolding assms(1) by (simp add: power_int_add)
  moreover have "dbl (of_int m * 2 powi (f + int k)) = of_int m * 2 powi (f + int k)" using assms by (intro dbl_exact) simp_all
  ultimately show ?thesis by (simp only:)
qed

lemma dbl_powers: "dbl (2 ^ k) = 2 ^ k"
  using dbl_exact [of 1 "int k"] by simp

text \<open>Below the \<^verbatim>\<open>double\<close> nearest to 99.95 there is none above 99.95.\<close>

lemma below_9995:
  fixes q :: rat
  assumes "q = of_int m * 2 powi e" "0 < m" "m \<le> 2 ^ 53" "q < of_int 7033355980557517 * 2 powi (- 46)"
  shows "q < 9995 / 100"
proof (cases "q \<le> 2 powi 6")
  case True
  moreover have "(2::rat) powi 6 < 9995 / 100" by code_simp
  ultimately show ?thesis by (rule le_less_trans)
next
  case False
  have "q \<le> 2 powi (e + 53)"
  proof -
    have "(of_int m :: rat) \<le> of_int (2 ^ 53)" using assms(3) by (simp only: of_int_le_iff)
    then have "of_int m * (2::rat) powi e \<le> of_int (2 ^ 53) * 2 powi e" by (intro mult_right_mono) simp_all
    then show ?thesis unfolding assms(1) by (simp add: power_int_add)
  qed
  then have lt: "(2::rat) powi 6 < 2 powi (e + 53)" using False by (meson not_le less_le_trans)
  have e: "- 46 \<le> e"
  proof (rule ccontr)
    assume "\<not> - 46 \<le> e"
    then have "(2::rat) powi (e + 53) \<le> 2 powi 6" by (intro power_int_increasing) simp_all
    then show False using lt by (meson leD)
  qed
  define u :: rat where "u = 2 powi (- 46)"
  define j where "j = m * 2 ^ nat (e + 46)"
  have "e = int (nat (e + 46)) + (- 46)" using e by simp
  then have "(2::rat) powi e = 2 powi (int (nat (e + 46)) + (- 46))" by simp
  also have "\<dots> = 2 powi int (nat (e + 46)) * u" unfolding u_def by (rule power_int_add) simp
  also have "\<dots> = 2 ^ nat (e + 46) * u" by (simp only: power_int_of_nat)
  finally have q: "q = of_int j * u" unfolding assms(1) j_def by simp
  have u: "0 < u" by (simp add: u_def)
  have "(of_int j :: rat) < of_int 7033355980557517" using assms(4) u unfolding q u_def [symmetric] by (simp only: mult_less_cancel_right_pos)
  then have "j \<le> 7033355980557516" unfolding of_int_less_iff by simp
  then have "(of_int j :: rat) \<le> of_int 7033355980557516" by (simp only: of_int_le_iff)
  then have "q \<le> of_int 7033355980557516 * u" unfolding q u_def [symmetric] using u by (intro mult_right_mono) simp_all
  also have "\<dots> < 9995 / 100" unfolding u_def by code_simp
  finally show ?thesis .
qed

lemma iec_unit_length:
  assumes "1 \<le> x" "k \<le> 60" "length name = 2" "length other \<le> 6"
  shows "length (iec_unit (dbl x) (2 ^ k) name other) \<le> 6"
proof -
  obtain m e where m: "0 < m" "m \<le> 2 ^ 53" "- 52 \<le> e" "dbl x = of_int m * 2 powi e" using dbl_form [OF assms(1)] by blast
  let ?q = "dbl (dbl x / 2 ^ k)"
  have q: "?q = of_int m * 2 powi (e - int k)" "?q = dbl x / 2 ^ k" "0 \<le> ?q"
    using dbl_div [OF m(4,1-3) assms(2)] m(1) by simp_all
  have less: "?q < c" if "dbl x < dbl (2 ^ k * c)" "c = of_int i * 2 powi f" "0 < i" "i \<le> 2 ^ 53" "- 52 \<le> f" for c i f
    using that(1) unfolding dbl_scaled [OF that(2-5)] q(2) by (simp add: pos_divide_less_eq mult.commute)
  have f: "length (fmt_f p ?q @ name) \<le> 6" if "?q * 10 ^ p < 10 ^ j - 1 / 2" "p < j" "j + (if p = 0 then 0 else 1) \<le> 4" for p j
    using fmt_f_length [OF q(3) that(1,2)] that(3) assms(3) by simp
  have b2: "length (fmt_f 2 ?q @ name) \<le> 6" if "dbl x < dbl (2 ^ k * dbl (9995 / 1000))"
  proof (rule f [of 2 3])
    have "?q < dbl (9995 / 1000)" using less [OF that dbl_literals(1)] by simp
    also have "\<dots> \<le> 9995 / 1000" by code_simp
    finally show "?q * 10 ^ 2 < 10 ^ 3 - 1 / 2" by simp
  qed simp_all
  have b1: "length (fmt_f 1 ?q @ name) \<le> 6" if "dbl x < dbl (2 ^ k * dbl (9995 / 100))"
  proof (rule f [of 1 3])
    have "?q < dbl (9995 / 100)" using less [OF that dbl_literals(2)] by simp
    then have "?q < 9995 / 100" unfolding dbl_literals(2) by (rule below_9995 [OF q(1) m(1,2)])
    then show "?q * 10 ^ 1 < 10 ^ 3 - 1 / 2" by simp
  qed simp_all
  have b0: "length (fmt_f 0 ?q @ name) \<le> 6" if "dbl x < dbl (2 ^ k * dbl (10235 / 10))"
  proof (rule f [of 0 4])
    have "?q < dbl (10235 / 10)" using less [OF that dbl_literals(3)] by simp
    also have "\<dots> \<le> 10235 / 10" by code_simp
    finally show "?q * 10 ^ 0 < 10 ^ 4 - 1 / 2" by simp
  qed simp_all
  show ?thesis unfolding iec_unit_def by (intro length_if b2 b1 b0 assms(4))
qed

lemma dbl_near:
  assumes "1 \<le> x"
  shows "x / 2 \<le> dbl x" "dbl x \<le> x * (9 / 8)"
proof -
  have "(2::rat) powi (- 1022) \<le> 2 powi 0" by (intro power_int_increasing) simp_all
  moreover have "2 powi 0 \<le> \<bar>x\<bar>" using assms by simp
  ultimately have "2 powi (- 1022) \<le> \<bar>x\<bar>" by (rule order_trans)
  then have "\<bar>dbl x - x\<bar> \<le> \<bar>x\<bar> * 2 powi (- 53)" by (intro dbl_error disjI2)
  also have "\<dots> \<le> \<bar>x\<bar> * (1 / 8)" by (rule mult_left_mono [OF _ abs_ge_zero]) code_simp
  finally have "\<bar>dbl x - x\<bar> \<le> x * (1 / 8)" using assms by simp
  then show "x / 2 \<le> dbl x" "dbl x \<le> x * (9 / 8)" using assms unfolding abs_le_iff by linarith+
qed

lemma formatIEC_length:
  assumes "0 \<le> s" "s < 2 ^ 63"
  shows "length (formatIEC s) \<le> 6"
proof (cases "s = 0")
  case True
  have "formatIEC 0 = snprintf_buf 64 (fmt_d 0)" by (simp add: formatIEC_def dbl_def [of 0])
  then show ?thesis using True fmt_d_small [of 0 1] by (simp add: snprintf_short)
next
  case False
  let ?n = "dbl (of_int s)"
  have s: "1 \<le> (of_int s :: rat)" using False assms(1) by simp
  have len: "length (snprintf_buf 64 t) \<le> 6" if "length t \<le> 6" for t using that by (simp add: snprintf_short)
  have u: "dbl (1024 * 1024) = 2 ^ 20" "dbl (2 ^ 20 * 1024) = 2 ^ 30" "dbl (2 ^ 30 * 1024) = 2 ^ 40" "dbl (2 ^ 40 * 1024) = 2 ^ 50"
    "dbl (2 ^ 50 * 1024) = 2 ^ 60"
    using dbl_powers [of 20] dbl_powers [of 30] dbl_powers [of 40] dbl_powers [of 50] dbl_powers [of 60] by simp_all
  have k: "iec_unit ?n 1024 name other = iec_unit ?n (2 ^ 10) name other" for name other by simp
  have d: "length (fmt_d s) \<le> 6" if "?n < 1024"
  proof -
    have "(of_int s :: rat) < of_int 2048" using dbl_near(1) [OF s] that by simp
    then have "s < 2048" by (simp only: of_int_less_iff)
    then show ?thesis using fmt_d_small [of s 6] assms(1) by simp
  qed
  have "(of_int s :: rat) < of_int (2 ^ 63)" using assms(2) by (simp only: of_int_less_iff)
  then have "?n < 2 ^ 60 * 9" using dbl_near(2) [OF s] by simp
  also have "\<dots> < 2 ^ 60 * dbl (9995 / 1000)" by code_simp
  also have "\<dots> = dbl (2 ^ 60 * dbl (9995 / 1000))" by (rule dbl_scaled [OF dbl_literals(1), symmetric]) simp_all
  finally have e: "length (if ?n < dbl (2 ^ 60 * dbl (9995 / 1000)) then fmt_f 2 (dbl (?n / 2 ^ 60)) @ ''Ei''
      else fmt_f 1 (dbl (?n / 2 ^ 60)) @ ''Ei'') \<le> 6"
    using iec_unit_length [OF s, of 60 "''Ei''" "[]"] unfolding iec_unit_def by (simp only: if_True) simp
  show ?thesis
    unfolding formatIEC_def Let_def u k by (intro len length_if d iec_unit_length [OF s] e) simp_all
qed

text \<open>
  C34. \<^verbatim>\<open>formatIEC\<close> of any \<^verbatim>\<open>int64_t\<close> that is not negative has at most 6 characters, as its declaration says, although
  the thresholds and quotients are rounded; \<^verbatim>\<open>formatSI\<close> has at most 5 below 999.5 T.
\<close>

theorem formatted_quantities_short:
  assumes "0 \<le> s" "s < 2 ^ 63"
  shows "length (formatIEC s) \<le> 6 \<and> (s < 999500000000000 \<longrightarrow> length (formatSI s) \<le> 5)"
  using formatIEC_length [OF assms] formatSI_length [OF assms(1)] by blast

theorem formatted_quantities_short_witness: "length (formatIEC 1048064) \<le> 6 \<and> length (formatSI 999499) \<le> 5"
  using formatted_quantities_short [of 1048064] formatted_quantities_short [of 999499] by simp

end
