(* ===== verification/Codec.thy ===== *)
theory Codec
  imports Http
begin

text \<open>
  \<^verbatim>\<open>muduo/net/protobuf\<close>: length-prefixed, checksummed messages on a byte stream. The message
  library and the checksum are arguments: \<^verbatim>\<open>serialize\<close> and \<^verbatim>\<open>byteSize\<close> of a message, the parser
  of its text, and \<^verbatim>\<open>adler32\<close> from zlib. The calls on the connection are those of \<open>conn_call\<close>.
\<close>

section \<open>Constants and codes\<close>

definition kHeaderLen :: int where
  "kHeaderLen = 4"

definition kChecksumLen :: int where
  "kChecksumLen = 4"

definition kMaxMessageLen :: int where
  "kMaxMessageLen = 64 * 1024 * 1024"

datatype ErrorCode = kNoError | kInvalidLength | kCheckSumError | kInvalidNameLen | kUnknownMessageType | kParseError

fun errorCodeToString :: "ErrorCode \<Rightarrow> string" where
  "errorCodeToString kNoError = ''NoError''"
| "errorCodeToString kInvalidLength = ''InvalidLength''"
| "errorCodeToString kCheckSumError = ''CheckSumError''"
| "errorCodeToString kInvalidNameLen = ''InvalidNameLen''"
| "errorCodeToString kUnknownMessageType = ''UnknownMessageType''"
| "errorCodeToString kParseError = ''ParseError''"

text \<open>What a codec is built from; \<open>rawCb\<close> is empty unless one was given.\<close>

record 'm ProtobufCodecLite =
  tag :: string
  serialize :: "'m \<Rightarrow> string"
  byteSize :: "'m \<Rightarrow> int"
  parseText :: "string \<Rightarrow> 'm option"
  adler32 :: "string \<Rightarrow> 32 word"
  rawCb :: "(string \<Rightarrow> bool) option"

definition kMinMessageLen :: "'m ProtobufCodecLite \<Rightarrow> int" where
  "kMinMessageLen c = int (length (tag c)) + kChecksumLen"

section \<open>Encoding\<close>

definition checksum :: "'m ProtobufCodecLite \<Rightarrow> string \<Rightarrow> 32 word" where
  "checksum c bytes = adler32 c bytes"

text \<open>
  \<^verbatim>\<open>SerializeWithCachedSizesToArray\<close> writes the text of the message at \<^verbatim>\<open>beginWrite()\<close>; a text
  of another size than announced aborts in \<^verbatim>\<open>ByteSizeConsistencyError\<close>.
\<close>

definition serializeToBuffer :: "'m ProtobufCodecLite \<Rightarrow> 'm \<Rightarrow> Buffer \<Rightarrow> (int \<times> Buffer) res" where
  "serializeToBuffer c message buf =
     (let byte_size = byteSize c message
      in bindE (ensureWritableBytes (nat (byte_size + kChecksumLen)) buf) (\<lambda>buf.
         bindE (mem_write (beginWrite buf) (serialize c message) (buffer buf)) (\<lambda>xs.
         if int (length (serialize c message)) \<noteq> byte_size then Inl Fatal
         else bindE (hasWritten (nat byte_size) (buf\<lparr>buffer := xs\<rparr>)) (\<lambda>buf. Inr (byte_size, buf)))))"

definition fillEmptyBuffer :: "'m ProtobufCodecLite \<Rightarrow> 'm \<Rightarrow> Buffer \<Rightarrow> Buffer res" where
  "fillEmptyBuffer c message buf =
     assert_that (readableBytes buf = 0)
       (bindE (append_string (tag c) buf) (\<lambda>buf.
        bindE (serializeToBuffer c message buf) (\<lambda>(byte_size, buf).
        let checkSum = checksum c (bytes_at buf (peek buf) (peek buf + readableBytes buf))
        in bindE (appendInt32 checkSum buf) (\<lambda>buf.
           assert_that (int (readableBytes buf) = int (length (tag c)) + byte_size + kChecksumLen)
             (let len = hostToNetwork32 (word_of_int (int (readableBytes buf)))
              in prepend (word_bytes len) buf)))))"

definition codec_send :: "'m ProtobufCodecLite \<Rightarrow> 'm \<Rightarrow> conn_call list res" where
  "codec_send c message =
     bindE (Buffer_new kInitialSize) (\<lambda>buf.
     bindE (fillEmptyBuffer c message buf) (\<lambda>buf. Inr [ConnSend (content buf)]))"

section \<open>Decoding\<close>

definition asInt32 :: "string \<Rightarrow> 32 word" where
  "asInt32 bytes = networkToHost32 (bytes_word (take 4 bytes))"

definition validateChecksum :: "'m ProtobufCodecLite \<Rightarrow> string \<Rightarrow> bool" where
  "validateChecksum c bytes =
     (let n = length bytes - nat kChecksumLen;
          expectedCheckSum = asInt32 (drop n bytes);
          checkSum = checksum c (take n bytes)
      in checkSum = expectedCheckSum)"

definition codec_parse :: "'m ProtobufCodecLite \<Rightarrow> string \<Rightarrow> ErrorCode \<times> 'm option" where
  "codec_parse c bytes =
     (if validateChecksum c bytes
      then if take (length (tag c)) bytes = tag c
           then let dataLen = length bytes - nat kChecksumLen - length (tag c)
                in case parseText c (take dataLen (drop (length (tag c)) bytes)) of
                     Some m \<Rightarrow> (kNoError, Some m)
                   | None \<Rightarrow> (kParseError, None)
           else (kUnknownMessageType, None)
      else (kCheckSumError, None))"

text \<open>What the codec hands to its callbacks.\<close>

datatype 'm codec_event = CodecRaw string | CodecMessage 'm | CodecError ErrorCode

text \<open>One pass of the loop of \<^verbatim>\<open>onMessage\<close>: whether it goes on, the callbacks made, the buffer.\<close>

definition codec_step ::
    "'m ProtobufCodecLite \<Rightarrow> Buffer \<Rightarrow> (bool \<times> 'm codec_event list \<times> Buffer) res" where
  "codec_step c buf =
     (if readableBytes buf \<ge> nat (kMinMessageLen c + kHeaderLen)
      then bindE (peekInt32 buf) (\<lambda>w.
        let len = sint w
        in if len > kMaxMessageLen \<or> len < kMinMessageLen c
           then Inr (False, [CodecError kInvalidLength], buf)
           else if readableBytes buf \<ge> nat (kHeaderLen + len)
           then let whole = bytes_at buf (peek buf) (peek buf + nat (kHeaderLen + len));
                    raw = (case rawCb c of None \<Rightarrow> [] | Some _ \<Rightarrow> [CodecRaw whole])
                in if (case rawCb c of None \<Rightarrow> False | Some cb \<Rightarrow> \<not> cb whole)
                   then bindE (retrieve (nat (kHeaderLen + len)) buf) (\<lambda>buf. Inr (True, raw, buf))
                   else (case codec_parse c (drop (nat kHeaderLen) whole) of
                           (kNoError, Some m) \<Rightarrow>
                             bindE (retrieve (nat (kHeaderLen + len)) buf) (\<lambda>buf.
                               Inr (True, raw @ [CodecMessage m], buf))
                         | (errorCode, _) \<Rightarrow> Inr (False, raw @ [CodecError errorCode], buf))
           else Inr (False, [], buf))
      else Inr (False, [], buf))"

partial_function (option) codec_loop ::
    "'m ProtobufCodecLite \<Rightarrow> 'm codec_event list \<Rightarrow> Buffer \<Rightarrow> ('m codec_event list \<times> Buffer) res option" where
  "codec_loop c evs buf =
     (case codec_step c buf of
        Inl e \<Rightarrow> Some (Inl e)
      | Inr (goOn, evs', buf') \<Rightarrow>
          if goOn then codec_loop c (evs @ evs') buf' else Some (Inr (evs @ evs', buf')))"

definition codec_onMessage ::
    "'m ProtobufCodecLite \<Rightarrow> Buffer \<Rightarrow> ('m codec_event list \<times> Buffer) res option" where
  "codec_onMessage c buf = codec_loop c [] buf"

definition defaultErrorCallback :: "bool \<Rightarrow> ErrorCode \<Rightarrow> conn_call list" where
  "defaultErrorCallback connected errorCode = (if connected then [ConnShutdown] else [])"

section \<open>The output stream over a buffer\<close>

record BufferOutputStream =
  bos_buffer :: Buffer
  originalSize :: nat

definition BufferOutputStream_new :: "Buffer \<Rightarrow> BufferOutputStream" where
  "BufferOutputStream_new buf = \<lparr>bos_buffer = buf, originalSize = readableBytes buf\<rparr>"

text \<open>\<^verbatim>\<open>Next\<close> hands out the writable space, as offset and size.\<close>

definition bos_Next :: "BufferOutputStream \<Rightarrow> ((nat \<times> int) \<times> BufferOutputStream) res" where
  "bos_Next s =
     bindE (ensureWritableBytes 4096 (bos_buffer s)) (\<lambda>b.
       let size = to_int32 (int (writableBytes b))
       in bindE (if size < 0 then Inl AssertFail else hasWritten (nat size) b) (\<lambda>b'.
            Inr ((beginWrite b, size), s\<lparr>bos_buffer := b'\<rparr>)))"

definition bos_BackUp :: "nat \<Rightarrow> BufferOutputStream \<Rightarrow> BufferOutputStream res" where
  "bos_BackUp count s = bindE (unwrite count (bos_buffer s)) (\<lambda>b. Inr (s\<lparr>bos_buffer := b\<rparr>))"

definition bos_ByteCount :: "BufferOutputStream \<Rightarrow> int" where
  "bos_ByteCount s = to_int64 (int (sub64 (readableBytes (bos_buffer s)) (originalSize s)))"

section \<open>Decoders of a byte stream\<close>

text \<open>
  A decoder looks at the bytes received so far: it waits, or stops at an error, or takes a number of
  bytes and makes some callbacks. Running it to the end is the relation \<open>decodes\<close>, whose last
  argument tells whether it is still in step with the stream.
\<close>

inductive decodes :: "(string \<Rightarrow> ('e list \<times> nat option) option) \<Rightarrow> string \<Rightarrow> 'e list \<Rightarrow> string \<Rightarrow> bool \<Rightarrow> bool"
  for step where
  decodes_wait: "step xs = None \<Longrightarrow> decodes step xs [] xs True"
| decodes_stop: "step xs = Some (evs, None) \<Longrightarrow> decodes step xs evs xs False"
| decodes_take: "step xs = Some (evs, Some n) \<Longrightarrow> decodes step (drop n xs) evs' rest ok \<Longrightarrow>
    decodes step xs (evs @ evs') rest ok"

inductive_cases decodesE: "decodes step xs evs rest ok"

locale stream_decoder =
  fixes step :: "string \<Rightarrow> ('e list \<times> nat option) option"
  assumes consumes: "step xs = Some (evs, Some n) \<Longrightarrow> 0 < n \<and> n \<le> length xs"
    and stable: "step xs = Some r \<Longrightarrow> step (xs @ ys) = Some r"
begin

lemma decodes_total: "\<exists>evs rest ok. decodes step xs evs rest ok"
proof (induction "length xs" arbitrary: xs rule: less_induct)
  case less
  show ?case
  proof (cases "step xs")
    case None
    then show ?thesis by (blast intro: decodes_wait)
  next
    case (Some r)
    obtain evs on where r: "r = (evs, on)" by fastforce
    show ?thesis
    proof (cases on)
      case None
      then show ?thesis using Some r by (blast intro: decodes_stop)
    next
      case (Some n)
      then have s: "step xs = Some (evs, Some n)" using \<open>step xs = Some r\<close> r by simp
      then have "length (drop n xs) < length xs" using consumes [OF s] by (auto simp: length_drop)
      from less [OF this] s show ?thesis by (blast intro: decodes_take)
    qed
  qed
qed

lemma decodes_unique:
  "decodes step xs evs rest ok \<Longrightarrow> decodes step xs evs' rest' ok' \<Longrightarrow> evs = evs' \<and> rest = rest' \<and> ok = ok'"
proof (induction arbitrary: evs' rest' ok' rule: decodes.induct)
  case (decodes_take xs evs n evs1 rest ok)
  from decodes_take.prems decodes_take.hyps(1) obtain evs3 where
      "evs' = evs @ evs3" "decodes step (drop n xs) evs3 rest' ok'"
    by (cases rule: decodes.cases) auto
  then show ?case using decodes_take.IH by blast
qed (erule decodesE; simp)+

text \<open>Bytes that arrive later continue the decoding where it waited.\<close>

lemma decodes_append:
  "decodes step xs evs rest ok \<Longrightarrow> ok \<Longrightarrow> decodes step (rest @ ys) evs' rest' ok' \<Longrightarrow>
     decodes step (xs @ ys) (evs @ evs') rest' ok'"
proof (induction rule: decodes.induct)
  case (decodes_take xs evs n evs1 rest ok)
  have n: "n \<le> length xs" using consumes decodes_take.hyps(1) by blast
  have "decodes step (drop n (xs @ ys)) (evs1 @ evs') rest' ok'"
    using decodes_take.IH [OF decodes_take.prems] n by simp
  then have "decodes step (xs @ ys) (evs @ evs1 @ evs') rest' ok'"
    using stable [OF decodes_take.hyps(1), of ys] by (rule decodes.decodes_take [rotated])
  then show ?case by simp
qed simp_all

lemma decodes_frames:
  assumes "\<And>x. x \<in> set xs \<Longrightarrow> step (enc x) = Some (ev x, Some (length (enc x)))"
    and "step [] = None"
  shows "decodes step (concat (map enc xs)) (concat (map ev xs)) [] True"
  using assms(1)
proof (induction xs)
  case Nil
  then show ?case using assms(2) by (simp add: decodes_wait)
next
  case (Cons x xs)
  have "step (enc x @ concat (map enc xs)) = Some (ev x, Some (length (enc x)))"
    using Cons.prems by (intro stable) simp
  from decodes_take [where step = step, OF this] Cons show ?case by simp
qed

end

section \<open>The codec as a decoder\<close>

definition frame_at :: "'m ProtobufCodecLite \<Rightarrow> string \<Rightarrow> ('m codec_event list \<times> nat option) option" where
  "frame_at c xs =
     (if length xs < nat (kMinMessageLen c + kHeaderLen) then None
      else let len = sint (asInt32 xs)
           in if len > kMaxMessageLen \<or> len < kMinMessageLen c then Some ([CodecError kInvalidLength], None)
              else if length xs < nat (kHeaderLen + len) then None
              else let whole = take (nat (kHeaderLen + len)) xs;
                       raw = (case rawCb c of None \<Rightarrow> [] | Some _ \<Rightarrow> [CodecRaw whole])
                   in if (case rawCb c of None \<Rightarrow> False | Some cb \<Rightarrow> \<not> cb whole)
                      then Some (raw, Some (nat (kHeaderLen + len)))
                      else (case codec_parse c (drop (nat kHeaderLen) whole) of
                              (kNoError, Some m) \<Rightarrow> Some (raw @ [CodecMessage m], Some (nat (kHeaderLen + len)))
                            | (errorCode, _) \<Rightarrow> Some (raw @ [CodecError errorCode], None)))"

lemma kMin_pos: "4 \<le> kMinMessageLen c"
  by (simp add: kMinMessageLen_def kChecksumLen_def)

lemma frame_at_consumes:
  assumes "frame_at c xs = Some (evs, Some n)"
  shows "0 < n \<and> n \<le> length xs"
proof -
  let ?len = "sint (asInt32 xs)"
  have "\<not> ?len < kMinMessageLen c" "\<not> length xs < nat (kHeaderLen + ?len)" "n = nat (kHeaderLen + ?len)"
    using assms unfolding frame_at_def Let_def
    by (auto split: if_split_asm prod.splits ErrorCode.splits option.splits)
  then show ?thesis using kMin_pos [of c] by (simp add: kHeaderLen_def)
qed

lemma asInt32_append: "4 \<le> length xs \<Longrightarrow> asInt32 (xs @ ys) = asInt32 xs"
  by (simp add: asInt32_def)

lemma frame_at_stable:
  assumes "frame_at c xs = Some r"
  shows "frame_at c (xs @ ys) = Some r"
proof -
  let ?len = "sint (asInt32 xs)"
  have l: "nat (kMinMessageLen c + kHeaderLen) \<le> length xs"
    using assms by (auto simp: frame_at_def split: if_splits)
  then have i: "asInt32 (xs @ ys) = asInt32 xs"
    using kMin_pos [of c] by (intro asInt32_append) (simp add: kHeaderLen_def)
  show ?thesis
  proof (cases "?len > kMaxMessageLen \<or> ?len < kMinMessageLen c")
    case True
    then show ?thesis using assms l unfolding frame_at_def i Let_def by simp
  next
    case False
    then have n: "nat (kHeaderLen + ?len) \<le> length xs"
      using assms l by (auto simp: frame_at_def Let_def split: if_splits)
    then have w: "take (nat (kHeaderLen + ?len)) (xs @ ys) = take (nat (kHeaderLen + ?len)) xs" by simp
    show ?thesis using assms l n False unfolding frame_at_def i w Let_def by simp
  qed
qed

interpretation pbdec: stream_decoder "frame_at c" for c :: "'m ProtobufCodecLite"
  by unfold_locales (use frame_at_consumes frame_at_stable in blast)+

text \<open>One pass of the loop does on the buffer what the decoder does on its text.\<close>

lemma codec_step_frame:
  assumes "buf_inv b"
  shows "case frame_at c (content b) of
      None \<Rightarrow> codec_step c b = Inr (False, [], b)
    | Some (evs, None) \<Rightarrow> codec_step c b = Inr (False, evs, b)
    | Some (evs, Some n) \<Rightarrow> \<exists>b'. codec_step c b = Inr (True, evs, b') \<and> buf_inv b' \<and>
        content b' = drop n (content b) \<and> (\<forall>k. buf_room b k \<longrightarrow> buf_room b' k)"
proof -
  let ?xs = "content b" and ?len = "sint (asInt32 (content b))"
  have r: "readableBytes b = length ?xs" using readable_content [OF assms] .
  show ?thesis
  proof (cases "length ?xs < nat (kMinMessageLen c + kHeaderLen)")
    case True
    then show ?thesis by (simp add: frame_at_def codec_step_def r)
  next
    case False
    have four: "4 \<le> length ?xs" using False kMin_pos [of c] by (simp add: kHeaderLen_def)
    have pk: "peekInt32 b = Inr (asInt32 ?xs)"
      using four bytes_at_peek [OF assms, of 4] r by (simp add: peekInt32_def asInt32_def)
    show ?thesis
    proof (cases "(?len > kMaxMessageLen \<or> ?len < kMinMessageLen c) \<or> length ?xs < nat (kHeaderLen + ?len)")
      case True
      then show ?thesis using False pk by (auto simp: frame_at_def codec_step_def r Let_def)
    next
      case ok: False
      then have n: "nat (kHeaderLen + ?len) \<le> length ?xs" by simp
      have w: "bytes_at b (peek b) (peek b + nat (kHeaderLen + ?len)) = take (nat (kHeaderLen + ?len)) ?xs"
        using bytes_at_peek [OF assms n] .
      obtain b' where b': "retrieve (nat (kHeaderLen + ?len)) b = Inr b'" "buf_inv b'"
          "content b' = drop (nat (kHeaderLen + ?len)) ?xs" "\<forall>k. buf_room b k \<longrightarrow> buf_room b' k"
        using bufq.get_law [OF assms n] by blast
      show ?thesis
        using False ok pk n w b' unfolding frame_at_def codec_step_def r Let_def
        by (auto split: option.splits prod.splits ErrorCode.splits)
    qed
  qed
qed

lemma codec_loop_decodes:
  assumes "buf_inv b" "decodes (frame_at c) (content b) evs rest ok"
  shows "\<exists>b'. codec_loop c evs0 b = Some (Inr (evs0 @ evs, b')) \<and> buf_inv b' \<and> content b' = rest \<and>
    (\<forall>k. buf_room b k \<longrightarrow> buf_room b' k)"
  using assms(2,1)
proof (induction "content b" evs rest ok arbitrary: b evs0 rule: decodes.induct)
  case decodes_wait
  then show ?case using codec_step_frame [OF decodes_wait(2), of c]
    by (subst codec_loop.simps) auto
next
  case (decodes_stop evs)
  then show ?case using codec_step_frame [OF decodes_stop(2), of c]
    by (subst codec_loop.simps) auto
next
  case (decodes_take evs n evs' rest ok)
  obtain b1 where b1: "codec_step c b = Inr (True, evs, b1)" "buf_inv b1" "content b1 = drop n (content b)"
      "\<forall>k. buf_room b k \<longrightarrow> buf_room b1 k"
    using codec_step_frame [OF decodes_take.prems, of c] decodes_take.hyps(1) by auto
  then show ?case
    using decodes_take.hyps(3) [OF b1(3) [symmetric] b1(2), of "evs0 @ evs"]
    by (subst codec_loop.simps) auto
qed

section \<open>What the encoder puts on the wire\<close>

abbreviation be32 :: "32 word \<Rightarrow> string" where
  "be32 w \<equiv> word_bytes (hostToNetwork32 w)"

definition payload_of :: "'m ProtobufCodecLite \<Rightarrow> 'm \<Rightarrow> string" where
  "payload_of c m = tag c @ serialize c m @ be32 (adler32 c (tag c @ serialize c m))"

definition frame_of :: "'m ProtobufCodecLite \<Rightarrow> 'm \<Rightarrow> string" where
  "frame_of c m = be32 (word_of_int (int (length (payload_of c m)))) @ payload_of c m"

text \<open>
  What the codec relies on: \<^verbatim>\<open>ByteSizeLong\<close> is the length of the text, the text parses back to the
  message, and the message is not too long for the receiver.
\<close>

definition encodable :: "'m ProtobufCodecLite \<Rightarrow> 'm \<Rightarrow> bool" where
  "encodable c m \<longleftrightarrow> byteSize c m = int (length (serialize c m)) \<and> parseText c (serialize c m) = Some m \<and>
     int (length (payload_of c m)) \<le> kMaxMessageLen"

lemma length_be32 [simp]: "length (be32 w) = 4"
  by simp

lemma length_payload: "length (payload_of c m) = length (tag c) + length (serialize c m) + 4"
  by (simp add: payload_of_def)

text \<open>Bytes written behind a reservation are appended.\<close>

lemma write_reserved:
  assumes "buf_inv b" and n: "length ds \<le> length (buffer b) - writerIndex b"
  shows "\<exists>xs b'. mem_write (beginWrite b) ds (buffer b) = Inr xs \<and>
    hasWritten (length ds) (b\<lparr>buffer := xs\<rparr>) = Inr b' \<and> buf_inv b' \<and> content b' = content b @ ds \<and>
    writerIndex b' \<le> writerIndex b + length ds \<and>
    (kCheapPrepend \<le> readerIndex b \<longrightarrow> kCheapPrepend \<le> readerIndex b')"
proof -
  have "writerIndex b + length ds \<le> vector_max" using assms unfolding buf_inv_def by linarith
  from Buffer_append_ok [OF assms(1) this]
  obtain b' where b': "Buffer_append ds b = Inr b'" "buf_inv b'" "content b' = content b @ ds"
      "writerIndex b' \<le> writerIndex b + length ds" "kCheapPrepend \<le> readerIndex b \<longrightarrow> kCheapPrepend \<le> readerIndex b'"
    by blast
  moreover have "ensureWritableBytes (length ds) b = Inr b"
    using n buf_sizes(2) [OF assms(1)] by (simp add: ensureWritableBytes_def)
  ultimately show ?thesis
    by (auto simp: Buffer_append_def bindE_eq_Inr)
qed

lemma serializeToBuffer_ok:
  assumes "buf_inv b" "writerIndex b + length (serialize c m) + 4 \<le> vector_max"
    and "byteSize c m = int (length (serialize c m))"
  shows "\<exists>b'. serializeToBuffer c m b = Inr (byteSize c m, b') \<and> buf_inv b' \<and>
    content b' = content b @ serialize c m \<and> writerIndex b' \<le> writerIndex b + length (serialize c m) \<and>
    (kCheapPrepend \<le> readerIndex b \<longrightarrow> kCheapPrepend \<le> readerIndex b')"
proof -
  let ?n = "length (serialize c m)"
  have n: "nat (byteSize c m + kChecksumLen) = ?n + 4"
    using assms(3) by (simp add: kChecksumLen_def)
  have "writerIndex b + (?n + 4) \<le> vector_max" using assms(2) by simp
  from ensureWritableBytes_ok [OF assms(1) this]
  obtain b1 where b1: "ensureWritableBytes (?n + 4) b = Inr b1" "buf_inv b1" "content b1 = content b"
      "?n + 4 \<le> length (buffer b1) - writerIndex b1" "writerIndex b1 \<le> writerIndex b"
      "kCheapPrepend \<le> readerIndex b \<longrightarrow> kCheapPrepend \<le> readerIndex b1"
    by blast
  have "length (serialize c m) \<le> length (buffer b1) - writerIndex b1" using b1(4) by simp
  from write_reserved [OF b1(2) this]
  obtain xs b2 where b2: "mem_write (beginWrite b1) (serialize c m) (buffer b1) = Inr xs"
      "hasWritten ?n (b1\<lparr>buffer := xs\<rparr>) = Inr b2" "buf_inv b2" "content b2 = content b1 @ serialize c m"
      "writerIndex b2 \<le> writerIndex b1 + ?n" "kCheapPrepend \<le> readerIndex b1 \<longrightarrow> kCheapPrepend \<le> readerIndex b2"
    by blast
  have "nat (byteSize c m) = ?n" using assms(3) by simp
  then have "serializeToBuffer c m b = Inr (byteSize c m, b2)"
    using b1(1) b2(1,2) assms(3) by (simp add: serializeToBuffer_def kChecksumLen_def Let_def nat_add_distrib)
  then show ?thesis using b1 b2 by auto
qed

lemma append_kept:
  assumes "buf_inv b" "writerIndex b + length ds \<le> vector_max" "kCheapPrepend \<le> readerIndex b"
  shows "\<exists>b'. Buffer_append ds b = Inr b' \<and> buf_inv b' \<and> content b' = content b @ ds \<and>
    writerIndex b' \<le> writerIndex b + length ds \<and> kCheapPrepend \<le> readerIndex b'"
  using Buffer_append_ok [OF assms(1,2)] assms(3) by auto

lemma append_string_short: "length s < 2 ^ 31 \<Longrightarrow> append_string s b = Buffer_append s b"
  by (simp add: append_string_def Buffer_append_piece_def to_int32_exact in_int32_def)

lemma fillEmptyBuffer_ok:
  assumes "buf_inv b" "content b = []" "kCheapPrepend \<le> readerIndex b"
    and "writerIndex b + length (payload_of c m) \<le> vector_max" "encodable c m"
  shows "\<exists>b'. fillEmptyBuffer c m b = Inr b' \<and> buf_inv b' \<and> content b' = frame_of c m"
proof -
  let ?t = "tag c @ serialize c m"
  have w: "writerIndex b + (length (tag c) + length (serialize c m) + 4) \<le> vector_max"
    using assms(4) by (simp add: length_payload)
  obtain b1 where b1: "Buffer_append (tag c) b = Inr b1" "buf_inv b1" "content b1 = tag c"
      "writerIndex b1 \<le> writerIndex b + length (tag c)" "kCheapPrepend \<le> readerIndex b1"
    using append_kept [OF assms(1) _ assms(3), of "tag c"] w assms(2) by auto
  have "byteSize c m = int (length (serialize c m))" using assms(5) by (simp add: encodable_def)
  then obtain b2 where b2: "serializeToBuffer c m b1 = Inr (byteSize c m, b2)" "buf_inv b2"
      "content b2 = ?t" "writerIndex b2 \<le> writerIndex b1 + length (serialize c m)" "kCheapPrepend \<le> readerIndex b2"
    using serializeToBuffer_ok [OF b1(2), of c m] w b1(3,4,5) by auto
  have s: "bytes_at b2 (peek b2) (peek b2 + readableBytes b2) = ?t"
    using bytes_at_peek [OF b2(2), of "length ?t"] b2(3) readable_content [OF b2(2)] by simp
  obtain b3 where b3: "Buffer_append (be32 (adler32 c ?t)) b2 = Inr b3" "buf_inv b3"
      "content b3 = payload_of c m" "kCheapPrepend \<le> readerIndex b3"
    using append_kept [OF b2(2) _ b2(5), of "be32 (adler32 c ?t)"] w b1(4) b2(3,4)
    by (auto simp: payload_of_def)
  have l: "readableBytes b3 = length (payload_of c m)" using readable_content [OF b3(2)] b3(3) by simp
  have "length (be32 (word_of_int (int (length (payload_of c m))))) \<le> readerIndex b3"
    using b3(4) by (simp add: kCheapPrepend_def)
  from prepend_ok [OF b3(2) this] obtain b4 where b4:
      "prepend (be32 (word_of_int (int (length (payload_of c m))))) b3 = Inr b4" "buf_inv b4"
      "content b4 = frame_of c m"
    using b3(3) by (auto simp: frame_of_def)
  have "int (length (tag c)) + byteSize c m + kChecksumLen = int (readableBytes b3)"
    using assms(5) l by (simp add: encodable_def length_payload kChecksumLen_def)
  moreover have "readableBytes b = 0" using readable_content [OF assms(1)] assms(2) by simp
  moreover have "append_string (tag c) b = Inr b1"
    using assms(5) b1(1) append_string_short [of "tag c" b]
    by (simp add: encodable_def length_payload kMaxMessageLen_def)
  ultimately have "fillEmptyBuffer c m b = Inr b4"
    unfolding fillEmptyBuffer_def using b2(1) b3(1) b4(1) s l
    by (simp add: appendInt32_def checksum_def assert_that_def)
  then show ?thesis using b4 by blast
qed

lemma codec_send_ok:
  assumes "encodable c m"
  shows "codec_send c m = Inr [ConnSend (frame_of c m)]"
proof -
  obtain b where b: "Buffer_new kInitialSize = Inr b" "buf_inv b" "content b = []" "writerIndex b = kCheapPrepend"
      "readerIndex b = kCheapPrepend"
    using buf_inv_new [of kInitialSize] by (auto simp: vector_max_def kCheapPrepend_def kInitialSize_def)
  have "writerIndex b + length (payload_of c m) \<le> vector_max"
    using assms b(4) by (simp add: encodable_def kMaxMessageLen_def vector_max_def kCheapPrepend_def)
  from fillEmptyBuffer_ok [OF b(2,3) _ this assms] b(5) obtain b' where
      "fillEmptyBuffer c m b = Inr b'" "content b' = frame_of c m" by auto
  then show ?thesis using b(1) by (simp add: codec_send_def)
qed

section \<open>What the decoder makes of it\<close>

lemma asInt32_be32 [simp]: "asInt32 (be32 w @ xs) = w"
  by (simp add: asInt32_def bytes_word_bytes)

lemma sint_length: "n < 2 ^ 31 \<Longrightarrow> sint (word_of_int (int n) :: 32 word) = int n"
  using signed_take_bit_int_eq_self [of 31 "int n"] by (simp add: sint_sbintrunc' del: of_int_of_nat_eq)

lemma codec_parse_payload:
  assumes "parseText c (serialize c m) = Some m"
  shows "codec_parse c (payload_of c m) = (kNoError, Some m)"
proof -
  let ?t = "tag c @ serialize c m"
  have p: "payload_of c m = ?t @ be32 (adler32 c ?t)" by (simp add: payload_of_def)
  have l: "length (payload_of c m) - nat kChecksumLen = length ?t"
    by (simp add: length_payload kChecksumLen_def)
  have d: "drop (length ?t) (payload_of c m) = be32 (adler32 c ?t)" "take (length ?t) (payload_of c m) = ?t"
    unfolding p by simp_all
  have "validateChecksum c (payload_of c m)"
    using asInt32_be32 [of "adler32 c ?t" "[]"] by (simp only: validateChecksum_def Let_def l d checksum_def append_Nil2)
  then show ?thesis
    using assms by (simp add: codec_parse_def payload_of_def kChecksumLen_def)
qed

definition delivered :: "'m ProtobufCodecLite \<Rightarrow> 'm \<Rightarrow> 'm codec_event list" where
  "delivered c m = (case rawCb c of None \<Rightarrow> [] | Some _ \<Rightarrow> [CodecRaw (frame_of c m)]) @ [CodecMessage m]"

lemma frame_at_frame_of:
  assumes "encodable c m" and "case rawCb c of None \<Rightarrow> True | Some cb \<Rightarrow> cb (frame_of c m)"
  shows "frame_at c (frame_of c m) = Some (delivered c m, Some (length (frame_of c m)))"
proof -
  let ?n = "length (payload_of c m)"
  have n: "int ?n \<le> kMaxMessageLen" "kMinMessageLen c \<le> int ?n"
    using assms(1) by (simp_all add: encodable_def kMinMessageLen_def length_payload kChecksumLen_def)
  have s: "sint (asInt32 (frame_of c m)) = int ?n"
    using n(1) by (simp only: frame_of_def asInt32_be32) (intro sint_length, simp add: kMaxMessageLen_def)
  have l: "length (frame_of c m) = 4 + ?n" by (simp add: frame_of_def)
  have d: "drop 4 (frame_of c m) = payload_of c m" by (simp add: frame_of_def)
  have "codec_parse c (payload_of c m) = (kNoError, Some m)"
    using assms(1) by (intro codec_parse_payload) (simp add: encodable_def)
  then show ?thesis
    using n assms(2) unfolding frame_at_def s l Let_def
    by (auto simp: l d kHeaderLen_def nat_add_distrib delivered_def split: option.splits)
qed

section \<open>Bytes that arrive in pieces\<close>

text \<open>Each piece is appended to the input buffer and \<^verbatim>\<open>onMessage\<close> is called.\<close>

fun codec_feed ::
    "'m ProtobufCodecLite \<Rightarrow> string list \<Rightarrow> Buffer \<Rightarrow> ('m codec_event list \<times> Buffer) res option" where
  "codec_feed c [] b = Some (Inr ([], b))"
| "codec_feed c (p # ps) b =
     (case Buffer_append p b of
        Inl e \<Rightarrow> Some (Inl e)
      | Inr b1 \<Rightarrow>
          (case codec_onMessage c b1 of
             None \<Rightarrow> None
           | Some (Inl e) \<Rightarrow> Some (Inl e)
           | Some (Inr (evs, b2)) \<Rightarrow>
               map_option (\<lambda>r. bindE r (\<lambda>(evs', b3). Inr (evs @ evs', b3))) (codec_feed c ps b2)))"

context stream_decoder
begin

lemma decodes_waits: "decodes step xs evs rest True \<Longrightarrow> step rest = None"
  by (induction xs evs rest True rule: decodes.induct) auto

lemma decodes_stop_append:
  "decodes step xs evs rest ok \<Longrightarrow> \<not> ok \<Longrightarrow> decodes step (xs @ ys) evs (rest @ ys) False"
proof (induction rule: decodes.induct)
  case (decodes_stop xs evs)
  then show ?case using stable by (blast intro: decodes.decodes_stop)
next
  case (decodes_take xs evs n evs' rest ok)
  have "n \<le> length xs" using consumes decodes_take.hyps(1) by blast
  then have "decodes step (drop n (xs @ ys)) evs' (rest @ ys) False"
    using decodes_take.IH [OF decodes_take.prems] by simp
  then show ?case
    using stable [OF decodes_take.hyps(1), of ys] by (rule decodes.decodes_take [rotated])
qed simp

text \<open>A stream that decodes completely can be cut anywhere.\<close>

lemma decodes_cut:
  assumes "decodes step (xs @ ys) evs rest True"
  shows "\<exists>evs1 evs2 mid. decodes step xs evs1 mid True \<and> decodes step (mid @ ys) evs2 rest True \<and>
    evs = evs1 @ evs2"
proof -
  obtain evs1 mid ok where d1: "decodes step xs evs1 mid ok" using decodes_total by blast
  have ok using decodes_stop_append [OF d1, of ys] decodes_unique [OF assms] by blast
  moreover obtain evs2 rest2 ok2 where d2: "decodes step (mid @ ys) evs2 rest2 ok2"
    using decodes_total by blast
  ultimately show ?thesis
    using decodes_unique [OF assms decodes_append [OF d1 _ d2]] d1 d2 by auto
qed

end

lemma codec_onMessage_decodes:
  assumes "buf_inv b" "decodes (frame_at c) (content b) evs rest ok"
  shows "\<exists>b'. codec_onMessage c b = Some (Inr (evs, b')) \<and> buf_inv b' \<and> content b' = rest \<and>
    (\<forall>k. buf_room b k \<longrightarrow> buf_room b' k)"
  using codec_loop_decodes [OF assms, of "[]"] by (simp add: codec_onMessage_def)

lemma codec_feed_decodes:
  assumes "buf_inv b" "buf_room b (length (concat ps))" "frame_at c (content b) = None"
    and "decodes (frame_at c) (content b @ concat ps) evs rest True"
  shows "\<exists>b'. codec_feed c ps b = Some (Inr (evs, b')) \<and> buf_inv b' \<and> content b' = rest"
  using assms
proof (induction ps arbitrary: b evs)
  case Nil
  then have "decodes (frame_at c) (content b) [] (content b) True" by (blast intro: decodes_wait)
  then show ?case using Nil pbdec.decodes_unique [of c "content b"] by fastforce
next
  case (Cons p ps)
  obtain b1 where b1: "Buffer_append p b = Inr b1" "buf_inv b1" "content b1 = content b @ p"
      "buf_room b1 (length (concat ps))"
    using bufq.put_law [OF Cons.prems(1), of p] Cons.prems(2) by auto
  obtain evs1 evs2 mid where d: "decodes (frame_at c) (content b1) evs1 mid True"
      "decodes (frame_at c) (mid @ concat ps) evs2 rest True" "evs = evs1 @ evs2"
    using pbdec.decodes_cut [of c "content b1" "concat ps" evs rest] Cons.prems(4) b1(3) by auto
  obtain b2 where b2: "codec_onMessage c b1 = Some (Inr (evs1, b2))" "buf_inv b2" "content b2 = mid"
      "buf_room b2 (length (concat ps))"
    using codec_onMessage_decodes [OF b1(2) d(1)] b1(4) by blast
  have "frame_at c (content b2) = None" using pbdec.decodes_waits [OF d(1)] b2(3) by simp
  from Cons.IH [OF b2(2,4) this, of evs2] d(2) b2(3) show ?case using b1(1) b2(1) d(3) by auto
qed

lemma frame_at_Nil: "frame_at c [] = None"
  using kMin_pos [of c] by (simp add: frame_at_def kHeaderLen_def)

text \<open>
  C6. Messages sent through the codec arrive exactly once and in order: whatever sequence of
  messages is encoded by \<^verbatim>\<open>send\<close>, and however the network cuts the bytes into pieces, feeding the
  pieces to \<^verbatim>\<open>onMessage\<close> makes the callbacks for those messages in that order, no error callback,
  and leaves the input buffer empty.
\<close>

theorem codec_stream_roundtrip:
  assumes "\<forall>m\<in>set ms. encodable c m \<and> (case rawCb c of None \<Rightarrow> True | Some cb \<Rightarrow> cb (frame_of c m))"
    and "buf_inv b" "content b = []" "buf_room b (length (concat ps))"
    and "concat ps = concat (map (frame_of c) ms)"
  shows "(\<forall>m\<in>set ms. codec_send c m = Inr [ConnSend (frame_of c m)]) \<and>
    (\<exists>b'. codec_feed c ps b = Some (Inr (concat (map (delivered c) ms), b')) \<and> buf_inv b' \<and> content b' = [])"
proof -
  have "decodes (frame_at c) (concat (map (frame_of c) ms)) (concat (map (delivered c) ms)) [] True"
    using assms(1) by (intro pbdec.decodes_frames) (simp_all add: frame_at_frame_of frame_at_Nil)
  then have "\<exists>b'. codec_feed c ps b = Some (Inr (concat (map (delivered c) ms), b')) \<and> buf_inv b' \<and> content b' = []"
    using assms(2-5) by (intro codec_feed_decodes) (simp_all add: frame_at_Nil)
  then show ?thesis using assms(1) by (simp add: codec_send_ok)
qed

text \<open>A codec for plain strings, with a sum in place of the checksum of zlib.\<close>

definition string_codec :: "string ProtobufCodecLite" where
  "string_codec = \<lparr>tag = ''RPC0'', serialize = id, byteSize = (\<lambda>m. int (length m)), parseText = Some,
     adler32 = (\<lambda>s. word_of_nat (sum_list (map of_char s))), rawCb = None\<rparr>"

theorem codec_stream_roundtrip_witness:
  "\<exists>b b' x y. Buffer_new kInitialSize = Inr b \<and> frame_of string_codec ''ping'' @ frame_of string_codec ''!'' = x @ y \<and>
     length x = 5 \<and> codec_feed string_codec [x, y] b = Some (Inr ([CodecMessage ''ping'', CodecMessage ''!''], b'))"
proof -
  let ?c = string_codec and ?ms = "[''ping'', ''!'']"
  let ?s = "concat (map (frame_of ?c) ?ms)"
  have l: "length ?s = 29" by (simp add: frame_of_def length_payload string_codec_def)
  obtain b where b: "Buffer_new kInitialSize = Inr b" "buf_inv b" "content b = []" "writerIndex b = kCheapPrepend"
    using buf_inv_new [of kInitialSize] by (auto simp: vector_max_def kCheapPrepend_def kInitialSize_def)
  have c: "concat [take 5 ?s, drop 5 ?s] = ?s"
    using append_take_drop_id [of 5 ?s] by (simp only: concat.simps append_Nil2)
  have r: "buf_room b (length (concat [take 5 ?s, drop 5 ?s]))"
    unfolding c l using b(4) by (simp add: buf_room_def vector_max_def kCheapPrepend_def)
  have e: "\<forall>m\<in>set ?ms. encodable ?c m \<and> (case rawCb ?c of None \<Rightarrow> True | Some cb \<Rightarrow> cb (frame_of ?c m))"
    by (simp add: encodable_def length_payload) (simp add: string_codec_def kMaxMessageLen_def)
  have "delivered ?c m = [CodecMessage m]" for m by (simp add: delivered_def string_codec_def)
  then obtain b' where "codec_feed ?c [take 5 ?s, drop 5 ?s] b =
      Some (Inr ([CodecMessage ''ping'', CodecMessage ''!''], b'))"
    using codec_stream_roundtrip [OF e b(2,3) r c] by auto
  moreover have "frame_of ?c ''ping'' @ frame_of ?c ''!'' = take 5 ?s @ drop 5 ?s"
    unfolding append_take_drop_id by simp
  moreover have "length (take 5 ?s) = 5" using l by simp
  ultimately show ?thesis using b(1) by blast
qed

text \<open>A frame from which a message is delivered: its length, checksum, tag and text are all right.\<close>

definition good_frame :: "'m ProtobufCodecLite \<Rightarrow> string \<Rightarrow> 'm \<Rightarrow> bool" where
  "good_frame c f m \<longleftrightarrow> kMinMessageLen c \<le> sint (asInt32 f) \<and> sint (asInt32 f) \<le> kMaxMessageLen \<and>
     int (length f) = kHeaderLen + sint (asInt32 f) \<and> validateChecksum c (drop 4 f) \<and>
     take (length (tag c)) (drop 4 f) = tag c \<and>
     parseText c (take (length f - 8 - length (tag c)) (drop (4 + length (tag c)) f)) = Some m"

lemma codec_parse_good:
  assumes "codec_parse c bytes = (kNoError, Some m)"
  shows "validateChecksum c bytes \<and> take (length (tag c)) bytes = tag c \<and>
    parseText c (take (length bytes - 4 - length (tag c)) (drop (length (tag c)) bytes)) = Some m"
  using assms by (auto simp: codec_parse_def kChecksumLen_def Let_def split: if_splits option.splits)

lemma frame_at_good:
  assumes "frame_at c xs = Some (evs, Some n)" "rawCb c = None"
  shows "\<exists>m. evs = [CodecMessage m] \<and> good_frame c (take n xs) m"
proof -
  let ?len = "sint (asInt32 xs)"
  have l: "kMinMessageLen c \<le> ?len" "?len \<le> kMaxMessageLen" "nat (kHeaderLen + ?len) \<le> length xs"
      "n = nat (kHeaderLen + ?len)"
    using assms unfolding frame_at_def Let_def
    by (auto split: if_split_asm prod.splits ErrorCode.splits option.splits)
  then obtain m where m: "evs = [CodecMessage m]" "codec_parse c (drop 4 (take n xs)) = (kNoError, Some m)"
    using assms unfolding frame_at_def Let_def
    by (auto simp: kHeaderLen_def split: if_split_asm prod.splits ErrorCode.splits option.splits)
  have n: "4 \<le> n" using l kMin_pos [of c] by (simp add: kHeaderLen_def)
  then have "asInt32 (take n xs) = asInt32 xs" by (simp add: asInt32_def min_def)
  then show ?thesis
    using m(1) codec_parse_good [OF m(2)] l n kMin_pos [of c]
    by (auto simp: good_frame_def kHeaderLen_def add.commute [of 4])
qed

lemma frame_at_error:
  assumes "frame_at c xs = Some (evs, None)" "rawCb c = None"
  shows "\<exists>e. e \<noteq> kNoError \<and> evs = [CodecError e]"
  using assms unfolding frame_at_def Let_def codec_parse_def
  by (auto split: if_split_asm prod.splits ErrorCode.splits option.splits)

lemma decodes_good:
  assumes "decodes (frame_at c) xs evs rest ok" "rawCb c = None"
  shows "\<exists>fs ms errs. evs = map CodecMessage ms @ map CodecError errs \<and> xs = concat fs @ rest \<and>
    list_all2 (good_frame c) fs ms \<and> length errs \<le> 1 \<and> kNoError \<notin> set errs \<and> (errs = [] \<longleftrightarrow> ok)"
  using assms
proof (induction rule: decodes.induct)
  case (decodes_wait xs)
  have "[] = map CodecMessage [] @ map CodecError [] \<and> xs = concat [] @ xs \<and> list_all2 (good_frame c) [] []"
    by simp
  then show ?case by force
next
  case (decodes_stop xs evs)
  then obtain e where "e \<noteq> kNoError" "evs = map CodecMessage [] @ map CodecError [e]"
    using frame_at_error by fastforce
  then show ?case by (intro exI [of _ "[]"] exI [of _ "[e]"]) simp
next
  case (decodes_take xs evs n evs' rest ok)
  then obtain fs ms errs where i: "evs' = map CodecMessage ms @ map CodecError errs" "drop n xs = concat fs @ rest"
      "list_all2 (good_frame c) fs ms" "length errs \<le> 1" "kNoError \<notin> set errs" "errs = [] \<longleftrightarrow> ok"
    by blast
  obtain m where m: "evs = [CodecMessage m]" "good_frame c (take n xs) m"
    using frame_at_good decodes_take by blast
  have "xs = concat (take n xs # fs) @ rest" using i(2) append_take_drop_id [of n xs] by simp
  moreover have "evs @ evs' = map CodecMessage (m # ms) @ map CodecError errs" using i(1) m(1) by simp
  moreover have "list_all2 (good_frame c) (take n xs # fs) (m # ms)" using i(3) m(2) by simp
  ultimately show ?case using i(4-6) by blast
qed



end
