(* ===== verification/Channel.thy ===== *)
theory Channel
  imports Format
begin

unbundle bit_operations_syntax

text \<open>
  \<^verbatim>\<open>muduo/net/Channel\<close>: a file descriptor with the events its owner wants, the events the kernel
  reported, and the callbacks for them. A callback that was set is recorded as \<open>True\<close>; running it is
  an argument of the dispatch. The poller that \<^verbatim>\<open>update\<close> and \<^verbatim>\<open>remove\<close> call is an argument too,
  so that the same channel works on both pollers; channels live in a store indexed by address.
\<close>

section \<open>Event masks\<close>

abbreviation POLLIN :: "32 word" where "POLLIN \<equiv> 0x1"
abbreviation POLLPRI :: "32 word" where "POLLPRI \<equiv> 0x2"
abbreviation POLLOUT :: "32 word" where "POLLOUT \<equiv> 0x4"
abbreviation POLLERR :: "32 word" where "POLLERR \<equiv> 0x8"
abbreviation POLLHUP :: "32 word" where "POLLHUP \<equiv> 0x10"
abbreviation POLLNVAL :: "32 word" where "POLLNVAL \<equiv> 0x20"
abbreviation POLLRDHUP :: "32 word" where "POLLRDHUP \<equiv> 0x2000"

definition has :: "32 word \<Rightarrow> 32 word \<Rightarrow> bool" where
  "has ev flags \<longleftrightarrow> ev AND flags \<noteq> 0"

definition kNoneEvent :: "32 word" where
  "kNoneEvent = 0"

definition kReadEvent :: "32 word" where
  "kReadEvent = POLLIN OR POLLPRI"

definition kWriteEvent :: "32 word" where
  "kWriteEvent = POLLOUT"

section \<open>The channel\<close>

record Channel =
  fd :: int
  events :: "32 word"
  revents :: "32 word"
  index :: int
  logHup :: bool
  tied :: bool
  eventHandling :: bool
  addedToLoop :: bool
  readCallback :: bool
  writeCallback :: bool
  closeCallback :: bool
  errorCallback :: bool

definition Channel_new :: "int \<Rightarrow> Channel" where
  "Channel_new n = \<lparr>fd = n, events = 0, revents = 0, index = -1, logHup = True, tied = False,
     eventHandling = False, addedToLoop = False,
     readCallback = False, writeCallback = False, closeCallback = False, errorCallback = False\<rparr>"

definition Channel_destroy :: "bool \<Rightarrow> bool \<Rightarrow> Channel \<Rightarrow> unit res" where
  "Channel_destroy inLoopThread hasChannel ch =
     assert_that (\<not> eventHandling ch) (assert_that (\<not> addedToLoop ch)
       (if inLoopThread then assert_that (\<not> hasChannel) (Inr ()) else Inr ()))"

definition tie :: "Channel \<Rightarrow> Channel" where
  "tie ch = ch\<lparr>tied := True\<rparr>"

definition setReadCallback :: "Channel \<Rightarrow> Channel" where
  "setReadCallback ch = ch\<lparr>readCallback := True\<rparr>"

definition setWriteCallback :: "Channel \<Rightarrow> Channel" where
  "setWriteCallback ch = ch\<lparr>writeCallback := True\<rparr>"

definition setCloseCallback :: "Channel \<Rightarrow> Channel" where
  "setCloseCallback ch = ch\<lparr>closeCallback := True\<rparr>"

definition setErrorCallback :: "Channel \<Rightarrow> Channel" where
  "setErrorCallback ch = ch\<lparr>errorCallback := True\<rparr>"

definition set_revents :: "32 word \<Rightarrow> Channel \<Rightarrow> Channel" where
  "set_revents revt ch = ch\<lparr>revents := revt\<rparr>"

definition set_index :: "int \<Rightarrow> Channel \<Rightarrow> Channel" where
  "set_index idx ch = ch\<lparr>index := idx\<rparr>"

definition doNotLogHup :: "Channel \<Rightarrow> Channel" where
  "doNotLogHup ch = ch\<lparr>logHup := False\<rparr>"

definition isNoneEvent :: "Channel \<Rightarrow> bool" where
  "isNoneEvent ch \<longleftrightarrow> events ch = kNoneEvent"

definition isWriting :: "Channel \<Rightarrow> bool" where
  "isWriting ch \<longleftrightarrow> has (events ch) kWriteEvent"

definition isReading :: "Channel \<Rightarrow> bool" where
  "isReading ch \<longleftrightarrow> has (events ch) kReadEvent"

section \<open>Registration with the loop\<close>

text \<open>
  The state of a loop as its channels see it: the channels by address and the poller. \<open>upd\<close> and
  \<open>rem\<close> are \<^verbatim>\<open>loop_->updateChannel\<close> and \<^verbatim>\<open>loop_->removeChannel\<close>.
\<close>

record 'p reactor =
  chans :: "nat \<Rightarrow> Channel"
  poller :: 'p

definition on_channel :: "nat \<Rightarrow> (Channel \<Rightarrow> Channel) \<Rightarrow> 'p reactor \<Rightarrow> 'p reactor" where
  "on_channel a f s = s\<lparr>chans := (chans s)(a := f (chans s a))\<rparr>"

type_synonym 'p chan_call = "nat \<Rightarrow> 'p reactor \<Rightarrow> 'p reactor res"

definition Channel_update :: "'p chan_call \<Rightarrow> 'p chan_call" where
  "Channel_update upd a s = upd a (on_channel a (\<lambda>ch. ch\<lparr>addedToLoop := True\<rparr>) s)"

definition Channel_remove :: "'p chan_call \<Rightarrow> 'p chan_call" where
  "Channel_remove rem a s =
     assert_that (isNoneEvent (chans s a)) (rem a (on_channel a (\<lambda>ch. ch\<lparr>addedToLoop := False\<rparr>) s))"

definition enableReading :: "'p chan_call \<Rightarrow> 'p chan_call" where
  "enableReading upd a s =
     Channel_update upd a (on_channel a (\<lambda>ch. ch\<lparr>events := events ch OR kReadEvent\<rparr>) s)"

definition disableReading :: "'p chan_call \<Rightarrow> 'p chan_call" where
  "disableReading upd a s =
     Channel_update upd a (on_channel a (\<lambda>ch. ch\<lparr>events := events ch AND NOT kReadEvent\<rparr>) s)"

definition enableWriting :: "'p chan_call \<Rightarrow> 'p chan_call" where
  "enableWriting upd a s =
     Channel_update upd a (on_channel a (\<lambda>ch. ch\<lparr>events := events ch OR kWriteEvent\<rparr>) s)"

definition disableWriting :: "'p chan_call \<Rightarrow> 'p chan_call" where
  "disableWriting upd a s =
     Channel_update upd a (on_channel a (\<lambda>ch. ch\<lparr>events := events ch AND NOT kWriteEvent\<rparr>) s)"

definition disableAll :: "'p chan_call \<Rightarrow> 'p chan_call" where
  "disableAll upd a s =
     Channel_update upd a (on_channel a (\<lambda>ch. ch\<lparr>events := kNoneEvent\<rparr>) s)"

section \<open>Dispatch\<close>

datatype channel_cb = ReadCb | WriteCb | CloseCb | ErrorCb

fun callback_set :: "channel_cb \<Rightarrow> Channel \<Rightarrow> bool" where
  "callback_set ReadCb = readCallback"
| "callback_set WriteCb = writeCallback"
| "callback_set CloseCb = closeCallback"
| "callback_set ErrorCb = errorCallback"

text \<open>
  The state a callback works on is a parameter: \<open>get\<close> finds the channel in it, \<open>upd\<close> changes the
  channel in it, \<open>run\<close> runs a callback.
\<close>

definition when_events ::
    "('s \<Rightarrow> Channel) \<Rightarrow> (channel_cb \<Rightarrow> 's \<Rightarrow> 's res) \<Rightarrow> (32 word \<Rightarrow> bool) \<Rightarrow> channel_cb \<Rightarrow> 's \<Rightarrow> 's res" where
  "when_events get run cond cb s =
     (if cond (revents (get s)) \<and> callback_set cb (get s) then run cb s else Inr s)"

definition handleEventWithGuard ::
    "('s \<Rightarrow> Channel) \<Rightarrow> ((Channel \<Rightarrow> Channel) \<Rightarrow> 's \<Rightarrow> 's) \<Rightarrow> (channel_cb \<Rightarrow> 's \<Rightarrow> 's res) \<Rightarrow> 's \<Rightarrow> 's res" where
  "handleEventWithGuard get upd run s =
     bindE (when_events get run (\<lambda>r. has r POLLHUP \<and> \<not> has r POLLIN) CloseCb
              (upd (\<lambda>ch. ch\<lparr>eventHandling := True\<rparr>) s)) (\<lambda>s.
     bindE (when_events get run (\<lambda>r. has r (POLLERR OR POLLNVAL)) ErrorCb s) (\<lambda>s.
     bindE (when_events get run (\<lambda>r. has r (POLLIN OR POLLPRI OR POLLRDHUP)) ReadCb s) (\<lambda>s.
     bindE (when_events get run (\<lambda>r. has r POLLOUT) WriteCb s) (\<lambda>s.
     Inr (upd (\<lambda>ch. ch\<lparr>eventHandling := False\<rparr>) s)))))"

text \<open>\<open>alive\<close> is whether \<^verbatim>\<open>tie_.lock()\<close> still finds the owner.\<close>

definition handleEvent ::
    "('s \<Rightarrow> Channel) \<Rightarrow> ((Channel \<Rightarrow> Channel) \<Rightarrow> 's \<Rightarrow> 's) \<Rightarrow> (channel_cb \<Rightarrow> 's \<Rightarrow> 's res) \<Rightarrow> bool \<Rightarrow> 's \<Rightarrow> 's res" where
  "handleEvent get upd run alive s =
     (if tied (get s)
      then if alive then handleEventWithGuard get upd run s else Inr s
      else handleEventWithGuard get upd run s)"

section \<open>Debug text\<close>

definition eventsToString :: "int \<Rightarrow> 32 word \<Rightarrow> string" where
  "eventsToString n ev =
     fmt_d n @ '': '' @
     (if has ev POLLIN then ''IN '' else []) @
     (if has ev POLLPRI then ''PRI '' else []) @
     (if has ev POLLOUT then ''OUT '' else []) @
     (if has ev POLLHUP then ''HUP '' else []) @
     (if has ev POLLRDHUP then ''RDHUP '' else []) @
     (if has ev POLLERR then ''ERR '' else []) @
     (if has ev POLLNVAL then ''NVAL '' else [])"

definition reventsToString :: "Channel \<Rightarrow> string" where
  "reventsToString ch = eventsToString (fd ch) (revents ch)"

end
