(* ===== verification/Poller.thy ===== *)
theory Poller
  imports Channel
begin

unbundle bit_operations_syntax

text \<open>
  \<^verbatim>\<open>muduo/net/Poller\<close> with its two implementations, \<^verbatim>\<open>PollPoller\<close> over \<^verbatim>\<open>poll(2)\<close> and
  \<^verbatim>\<open>EPollPoller\<close> over \<^verbatim>\<open>epoll(7)\<close>. What the kernel does is an argument: \<open>ctl\<close> stands for
  \<^verbatim>\<open>epoll_ctl\<close> on a kernel state, and the results of \<^verbatim>\<open>poll\<close> and \<^verbatim>\<open>epoll_wait\<close> are passed in.
  The operations are those of the build with assertions, called in the loop thread. A locale states
  what both pollers promise to the channels; each of them interprets it.
\<close>

section \<open>The common part\<close>

record Poller =
  channels :: "int \<Rightarrow> nat option"

definition hasChannel :: "nat \<Rightarrow> 'x Poller_scheme reactor \<Rightarrow> bool" where
  "hasChannel a s \<longleftrightarrow> channels (poller s) (fd (chans s a)) = Some a"

section \<open>PollPoller\<close>

record pollfd =
  pfd_fd :: int
  pfd_events :: "16 word"
  pfd_revents :: "16 word"

record PollPoller = Poller +
  pollfds :: "pollfd list"

definition PollPoller_new :: PollPoller where
  "PollPoller_new = \<lparr>channels = (\<lambda>_. None), pollfds = []\<rparr>"

definition poll_updateChannel :: "PollPoller chan_call" where
  "poll_updateChannel a s =
     (let ch = chans s a; p = poller s
      in if index ch < 0
         then assert_that (channels p (fd ch) = None)
           (let pfd = \<lparr>pfd_fd = fd ch, pfd_events = ucast (events ch), pfd_revents = 0\<rparr>;
                pfds = pollfds p @ [pfd];
                idx = to_int32 (int (length pfds)) - 1
            in ints32 [idx]
                 (Inr (on_channel a (set_index idx)
                    (s\<lparr>poller := p\<lparr>pollfds := pfds, channels := (channels p)(fd ch \<mapsto> a)\<rparr>\<rparr>))))
         else assert_that (channels p (fd ch) \<noteq> None)
           (assert_that (channels p (fd ch) = Some a)
             (let idx = index ch
              in assert_that (0 \<le> idx \<and> idx < to_int32 (int (length (pollfds p))))
                   (bindE (vec_nth (pollfds p) idx) (\<lambda>pfd.
                      assert_that (pfd_fd pfd = fd ch \<or> pfd_fd pfd = - fd ch - 1)
                        (let pfd' = \<lparr>pfd_fd = (if isNoneEvent ch then - fd ch - 1 else fd ch),
                                     pfd_events = ucast (events ch), pfd_revents = 0\<rparr>
                         in Inr (s\<lparr>poller := p\<lparr>pollfds := (pollfds p)[nat idx := pfd']\<rparr>\<rparr>)))))))"

text \<open>The entry at the end takes the place of the removed one, and its channel learns the new index.\<close>

definition poll_removeChannel :: "PollPoller chan_call" where
  "poll_removeChannel a s =
     (let ch = chans s a; p = poller s
      in assert_that (channels p (fd ch) \<noteq> None) (assert_that (channels p (fd ch) = Some a)
        (assert_that (isNoneEvent ch)
          (let idx = index ch
           in assert_that (0 \<le> idx \<and> idx < to_int32 (int (length (pollfds p))))
             (bindE (vec_nth (pollfds p) idx) (\<lambda>pfd.
                assert_that (pfd_fd pfd = - fd ch - 1 \<and> pfd_events pfd = ucast (events ch))
                  (let chs = (channels p)(fd ch := None)
                   in if nat idx = length (pollfds p) - 1
                      then Inr (s\<lparr>poller := p\<lparr>channels := chs, pollfds := butlast (pollfds p)\<rparr>\<rparr>)
                      else let channelAtEnd = pfd_fd (last (pollfds p));
                               pfds = (pollfds p)[nat idx := last (pollfds p)];
                               channelAtEnd = (if channelAtEnd < 0 then - channelAtEnd - 1 else channelAtEnd)
                           in case chs channelAtEnd of
                                None \<Rightarrow> Inl UndefinedBehaviour
                              | Some a' \<Rightarrow>
                                  Inr (on_channel a' (set_index idx)
                                    (s\<lparr>poller := p\<lparr>channels := chs, pollfds := butlast pfds\<rparr>\<rparr>)))))))))"

text \<open>The loop over \<open>pollfds\<close> stops once \<open>numEvents\<close> entries with events were seen.\<close>

fun poll_fillActiveChannels ::
    "int \<Rightarrow> pollfd list \<Rightarrow> (int \<Rightarrow> nat option) \<Rightarrow> (nat \<Rightarrow> Channel) \<Rightarrow> nat list \<Rightarrow> (nat list \<times> (nat \<Rightarrow> Channel)) res" where
  "poll_fillActiveChannels numEvents [] chs store act = Inr (act, store)"
| "poll_fillActiveChannels numEvents (pfd # pfds) chs store act =
     (if numEvents > 0
      then if sint (pfd_revents pfd) > 0
           then (case chs (pfd_fd pfd) of
                   None \<Rightarrow> Inl AssertFail
                 | Some a \<Rightarrow>
                     assert_that (fd (store a) = pfd_fd pfd)
                       (poll_fillActiveChannels (numEvents - 1) pfds chs
                          (store(a := set_revents (scast (pfd_revents pfd)) (store a))) (act @ [a])))
           else poll_fillActiveChannels numEvents pfds chs store act
      else Inr (act, store))"

text \<open>\<open>numEvents\<close> and the \<open>revents\<close> of the entries are what \<^verbatim>\<open>::poll\<close> returned.\<close>

definition poll_poll ::
    "int \<Rightarrow> 16 word list \<Rightarrow> PollPoller reactor \<Rightarrow> (nat list \<times> PollPoller reactor) res" where
  "poll_poll numEvents revs s =
     (let pfds = map2 (\<lambda>pfd r. pfd\<lparr>pfd_revents := r\<rparr>) (pollfds (poller s)) revs;
          s = s\<lparr>poller := (poller s)\<lparr>pollfds := pfds\<rparr>\<rparr>
      in if numEvents > 0
         then bindE (poll_fillActiveChannels numEvents pfds (channels (poller s)) (chans s) [])
                (\<lambda>(act, store). Inr (act, s\<lparr>chans := store\<rparr>))
         else Inr ([], s))"

section \<open>EPollPoller\<close>

definition kNew :: int where "kNew = -1"

definition kAdded :: int where "kAdded = 1"

definition kDeleted :: int where "kDeleted = 2"

definition kInitEventListSize :: nat where "kInitEventListSize = 16"

datatype epoll_op = EPOLL_CTL_ADD | EPOLL_CTL_DEL | EPOLL_CTL_MOD

fun operationToString :: "epoll_op \<Rightarrow> string" where
  "operationToString EPOLL_CTL_ADD = ''ADD''"
| "operationToString EPOLL_CTL_DEL = ''DEL''"
| "operationToString EPOLL_CTL_MOD = ''MOD''"

text \<open>An \<^verbatim>\<open>epoll_event\<close> is its event mask and the address of the channel.\<close>

type_synonym epoll_event = "32 word \<times> nat"
type_synonym 'k epoll_ctl = "epoll_op \<Rightarrow> int \<Rightarrow> epoll_event \<Rightarrow> 'k \<Rightarrow> int \<times> 'k"

record 'k EPollPoller = Poller +
  kernel :: 'k
  eventList :: nat

text \<open>\<open>epollfd\<close> is what \<^verbatim>\<open>epoll_create1\<close> returned.\<close>

definition EPollPoller_new :: "int \<Rightarrow> 'k \<Rightarrow> 'k EPollPoller res" where
  "EPollPoller_new epollfd k =
     (if epollfd < 0 then Inl Fatal
      else Inr \<lparr>channels = (\<lambda>_. None), kernel = k, eventList = kInitEventListSize\<rparr>)"

text \<open>A failing \<^verbatim>\<open>EPOLL_CTL_DEL\<close> is only logged.\<close>

definition epoll_update :: "'k epoll_ctl \<Rightarrow> epoll_op \<Rightarrow> 'k EPollPoller chan_call" where
  "epoll_update ctl operation a s =
     (let ch = chans s a;
          (r, k) = ctl operation (fd ch) (events ch, a) (kernel (poller s));
          s' = s\<lparr>poller := (poller s)\<lparr>kernel := k\<rparr>\<rparr>
      in if r < 0 \<and> operation \<noteq> EPOLL_CTL_DEL then Inl Fatal else Inr s')"

definition epoll_updateChannel :: "'k epoll_ctl \<Rightarrow> 'k EPollPoller chan_call" where
  "epoll_updateChannel ctl a s =
     (let ch = chans s a; p = poller s
      in if index ch = kNew \<or> index ch = kDeleted
         then bindE (if index ch = kNew
                     then assert_that (channels p (fd ch) = None)
                            (Inr (s\<lparr>poller := p\<lparr>channels := (channels p)(fd ch \<mapsto> a)\<rparr>\<rparr>))
                     else assert_that (channels p (fd ch) \<noteq> None)
                            (assert_that (channels p (fd ch) = Some a) (Inr s)))
                (\<lambda>s. epoll_update ctl EPOLL_CTL_ADD a (on_channel a (set_index kAdded) s))
         else assert_that (channels p (fd ch) \<noteq> None) (assert_that (channels p (fd ch) = Some a)
           (assert_that (index ch = kAdded)
             (if isNoneEvent ch
              then bindE (epoll_update ctl EPOLL_CTL_DEL a s) (\<lambda>s. Inr (on_channel a (set_index kDeleted) s))
              else epoll_update ctl EPOLL_CTL_MOD a s))))"

definition epoll_removeChannel :: "'k epoll_ctl \<Rightarrow> 'k EPollPoller chan_call" where
  "epoll_removeChannel ctl a s =
     (let ch = chans s a; p = poller s
      in assert_that (channels p (fd ch) \<noteq> None) (assert_that (channels p (fd ch) = Some a)
        (assert_that (isNoneEvent ch)
          (let idx = index ch
           in assert_that (idx = kAdded \<or> idx = kDeleted)
             (let s = s\<lparr>poller := p\<lparr>channels := (channels p)(fd ch := None)\<rparr>\<rparr>
              in bindE (if idx = kAdded then epoll_update ctl EPOLL_CTL_DEL a s else Inr s)
                   (\<lambda>s. Inr (on_channel a (set_index kNew) s)))))))"

fun epoll_fillActiveChannels ::
    "epoll_event list \<Rightarrow> (int \<Rightarrow> nat option) \<Rightarrow> (nat \<Rightarrow> Channel) \<Rightarrow> nat list \<Rightarrow> (nat list \<times> (nat \<Rightarrow> Channel)) res" where
  "epoll_fillActiveChannels [] chs store act = Inr (act, store)"
| "epoll_fillActiveChannels ((ev, a) # evs) chs store act =
     assert_that (chs (fd (store a)) \<noteq> None) (assert_that (chs (fd (store a)) = Some a)
       (epoll_fillActiveChannels evs chs (store(a := set_revents ev (store a))) (act @ [a])))"

text \<open>\<open>numEvents\<close> and the filled part of \<^verbatim>\<open>events_\<close> are what \<^verbatim>\<open>epoll_wait\<close> returned.\<close>

definition epoll_poll ::
    "int \<Rightarrow> epoll_event list \<Rightarrow> 'k EPollPoller reactor \<Rightarrow> (nat list \<times> 'k EPollPoller reactor) res" where
  "epoll_poll numEvents evs s =
     (if numEvents > 0
      then assert_that (nat numEvents \<le> eventList (poller s))
        (bindE (epoll_fillActiveChannels (take (nat numEvents) evs) (channels (poller s)) (chans s) [])
          (\<lambda>(act, store).
             let p = poller s;
                 p = (if nat numEvents = eventList p then p\<lparr>eventList := eventList p * 2 mod size_mod\<rparr> else p)
             in Inr (act, s\<lparr>chans := store, poller := p\<rparr>)))
      else Inr ([], s))"

datatype default_poller = UsePoll | UseEPoll

definition newDefaultPoller :: "bool \<Rightarrow> default_poller" where
  "newDefaultPoller muduoUsePollSet = (if muduoUsePollSet then UsePoll else UseEPoll)"

section \<open>What a poller promises\<close>

text \<open>
  A channel is constructed (\<open>Fresh\<close>), registered with the events it wants (\<open>Live\<close>) and removed
  (\<open>Gone\<close>). The calls of its owner are \<open>chan_op\<close>s; \<open>life_step\<close> says which of them the owner may make
  and what becomes of the channel: the first update of a channel enables something, no two registered
  channels have the same file descriptor, and a channel is disabled before it is removed.
\<close>

datatype life = Gone | Fresh int | Live int "32 word"

type_synonym lives = "nat \<Rightarrow> life"

datatype chan_op =
    ChNew nat int
  | ChEnableReading nat
  | ChDisableReading nat
  | ChEnableWriting nat
  | ChDisableWriting nat
  | ChDisableAll nat
  | ChRemove nat

fun chan_apply :: "'p chan_call \<Rightarrow> 'p chan_call \<Rightarrow> chan_op \<Rightarrow> 'p reactor \<Rightarrow> 'p reactor res" where
  "chan_apply upd rem (ChNew a n) s = Inr (on_channel a (\<lambda>_. Channel_new n) s)"
| "chan_apply upd rem (ChEnableReading a) s = enableReading upd a s"
| "chan_apply upd rem (ChDisableReading a) s = disableReading upd a s"
| "chan_apply upd rem (ChEnableWriting a) s = enableWriting upd a s"
| "chan_apply upd rem (ChDisableWriting a) s = disableWriting upd a s"
| "chan_apply upd rem (ChDisableAll a) s = disableAll upd a s"
| "chan_apply upd rem (ChRemove a) s = Channel_remove rem a s"

text \<open>Linux keeps file descriptors well below \<open>fd_max\<close> (\<^verbatim>\<open>sysctl_nr_open_max\<close>).\<close>

definition fd_max :: int where
  "fd_max = 2 ^ 30"

definition life_set :: "(32 word \<Rightarrow> 32 word) \<Rightarrow> nat \<Rightarrow> lives \<Rightarrow> lives option" where
  "life_set f a L =
     (case L a of
        Gone \<Rightarrow> None
      | Fresh n \<Rightarrow> if f 0 \<noteq> 0 \<and> (\<forall>b m e. L b = Live m e \<longrightarrow> m \<noteq> n) then Some (L(a := Live n (f 0))) else None
      | Live n e \<Rightarrow> Some (L(a := Live n (f e))))"

fun life_step :: "chan_op \<Rightarrow> lives \<Rightarrow> lives option" where
  "life_step (ChNew a n) L =
     (if 0 \<le> n \<and> n < fd_max \<and> (\<forall>m e. L a \<noteq> Live m e) then Some (L(a := Fresh n)) else None)"
| "life_step (ChEnableReading a) L = life_set (\<lambda>e. e OR kReadEvent) a L"
| "life_step (ChDisableReading a) L = life_set (\<lambda>e. e AND NOT kReadEvent) a L"
| "life_step (ChEnableWriting a) L = life_set (\<lambda>e. e OR kWriteEvent) a L"
| "life_step (ChDisableWriting a) L = life_set (\<lambda>e. e AND NOT kWriteEvent) a L"
| "life_step (ChDisableAll a) L = life_set (\<lambda>e. kNoneEvent) a L"
| "life_step (ChRemove a) L =
     (case L a of Live n e \<Rightarrow> if e = 0 then Some (L(a := Gone)) else None | _ \<Rightarrow> None)"

fun life_run :: "chan_op list \<Rightarrow> lives \<Rightarrow> lives option" where
  "life_run [] L = Some L"
| "life_run (op # ops) L = (case life_step op L of None \<Rightarrow> None | Some L' \<Rightarrow> life_run ops L')"

text \<open>The events a channel can ask for, and the descriptors with what they wait for.\<close>

definition event_masks :: "(32 word) set" where
  "event_masks = {0, kReadEvent, kWriteEvent, kReadEvent OR kWriteEvent}"

definition wanted :: "lives \<Rightarrow> (int \<times> 32 word) set" where
  "wanted L = {(n, e). e \<noteq> 0 \<and> (\<exists>a. L a = Live n e)}"

lemmas event_consts = kReadEvent_def kWriteEvent_def kNoneEvent_def

lemma event_masks_closed [simp]:
  assumes "e \<in> event_masks"
  shows "e OR kReadEvent \<in> event_masks" "e AND NOT kReadEvent \<in> event_masks"
    "e OR kWriteEvent \<in> event_masks" "e AND NOT kWriteEvent \<in> event_masks"
  using assms unfolding event_masks_def event_consts by auto

lemma event_masks_0 [simp]: "0 \<in> event_masks" "kNoneEvent \<in> event_masks"
  by (simp_all add: event_masks_def kNoneEvent_def)

definition with_events :: "32 word \<Rightarrow> Channel \<Rightarrow> Channel" where
  "with_events e ch = ch\<lparr>events := e, addedToLoop := True\<rparr>"

locale poller_contract =
  fixes rel :: "lives \<Rightarrow> 'p reactor \<Rightarrow> bool" and upd rem :: "'p chan_call"
    and watch :: "'p reactor \<Rightarrow> (int \<times> 32 word) set"
  assumes new_law: "rel L s \<Longrightarrow> (\<And>m e. L a \<noteq> Live m e) \<Longrightarrow> 0 \<le> n \<Longrightarrow> n < fd_max \<Longrightarrow>
      rel (L(a := Fresh n)) (on_channel a (\<lambda>_. Channel_new n) s)"
    and add_law: "rel L s \<Longrightarrow> L a = Fresh n \<Longrightarrow> (\<And>b m e. L b = Live m e \<Longrightarrow> m \<noteq> n) \<Longrightarrow>
      e \<in> event_masks \<Longrightarrow> e \<noteq> 0 \<Longrightarrow>
      \<exists>s'. upd a (on_channel a (with_events e) s) = Inr s' \<and> rel (L(a := Live n e)) s'"
    and change_law: "rel L s \<Longrightarrow> L a = Live n e0 \<Longrightarrow> e \<in> event_masks \<Longrightarrow>
      \<exists>s'. upd a (on_channel a (with_events e) s) = Inr s' \<and> rel (L(a := Live n e)) s'"
    and remove_law: "rel L s \<Longrightarrow> L a = Live n 0 \<Longrightarrow>
      \<exists>s'. rem a (on_channel a (\<lambda>ch. ch\<lparr>addedToLoop := False\<rparr>) s) = Inr s' \<and> rel (L(a := Gone)) s'"
    and events_law: "rel L s \<Longrightarrow>
      (L a = Fresh n \<longrightarrow> events (chans s a) = 0) \<and>
      (L a = Live n e \<longrightarrow> events (chans s a) = e \<and> e \<in> event_masks)"
    and watch_law: "rel L s \<Longrightarrow> watch s = wanted L"
begin

lemma set_events_law:
  assumes "rel L s" "life_set f a L = Some L'" "\<And>e. e \<in> event_masks \<Longrightarrow> f e \<in> event_masks"
  shows "\<exists>s'. Channel_update upd a (on_channel a (\<lambda>ch. ch\<lparr>events := f (events ch)\<rparr>) s) = Inr s' \<and> rel L' s'"
proof (cases "L a")
  case (Fresh n)
  then have e: "events (chans s a) = 0" using events_law [OF assms(1)] by blast
  from Fresh assms(2) have "f 0 \<noteq> 0" "\<And>b m e. L b = Live m e \<Longrightarrow> m \<noteq> n" "L' = L(a := Live n (f 0))"
    by (auto simp: life_set_def split: if_splits)
  with add_law [OF assms(1) Fresh, of "f 0"] assms(3) [of 0] e show ?thesis
    by (auto simp: Channel_update_def on_channel_def with_events_def)
next
  case (Live n e)
  then have e: "events (chans s a) = e" "e \<in> event_masks" using events_law [OF assms(1)] by blast+
  from Live assms(2) have "L' = L(a := Live n (f e))" by (simp add: life_set_def)
  with change_law [OF assms(1) Live, of "f e"] assms(3) e show ?thesis
    by (auto simp: Channel_update_def on_channel_def with_events_def)
qed (use assms(2) in \<open>simp add: life_set_def\<close>)

lemma step_law:
  assumes "rel L s" "life_step op L = Some L'"
  shows "\<exists>s'. chan_apply upd rem op s = Inr s' \<and> rel L' s'"
proof (cases op)
  case (ChNew a n)
  then show ?thesis using assms new_law [of L s a n] by (auto split: if_splits)
next
  case (ChRemove a)
  then obtain n where n: "L a = Live n 0" "L' = L(a := Gone)"
    using assms(2) by (auto split: life.splits if_splits)
  then have "isNoneEvent (chans s a)" using events_law [OF assms(1)] by (simp add: isNoneEvent_def kNoneEvent_def)
  then show ?thesis using remove_law [OF assms(1) n(1)] n(2) ChRemove by (simp add: Channel_remove_def)
next
  case (ChEnableReading a)
  with assms set_events_law [OF assms(1), of "\<lambda>e. e OR kReadEvent"] show ?thesis by (simp add: enableReading_def)
next
  case (ChDisableReading a)
  with assms set_events_law [OF assms(1), of "\<lambda>e. e AND NOT kReadEvent"] show ?thesis by (simp add: disableReading_def)
next
  case (ChEnableWriting a)
  with assms set_events_law [OF assms(1), of "\<lambda>e. e OR kWriteEvent"] show ?thesis by (simp add: enableWriting_def)
next
  case (ChDisableWriting a)
  with assms set_events_law [OF assms(1), of "\<lambda>e. e AND NOT kWriteEvent"] show ?thesis by (simp add: disableWriting_def)
next
  case (ChDisableAll a)
  with assms set_events_law [OF assms(1), of "\<lambda>e. kNoneEvent"] show ?thesis by (simp add: disableAll_def)
qed

lemma run_law:
  "rel L s \<Longrightarrow> life_run ops L = Some L' \<Longrightarrow>
     \<exists>s'. foldE (chan_apply upd rem) ops s = Inr s' \<and> rel L' s' \<and> watch s' = wanted L'"
proof (induction ops arbitrary: L s)
  case Nil
  then show ?case using watch_law by simp
next
  case (Cons op ops)
  then obtain L1 where L1: "life_step op L = Some L1" "life_run ops L1 = Some L'"
    by (auto split: option.splits)
  then obtain s1 where "chan_apply upd rem op s = Inr s1" "rel L1 s1"
    using step_law [OF Cons.prems(1)] by blast
  then show ?case using Cons.IH [of L1 s1] L1(2) by auto
qed

end

section \<open>PollPoller keeps the promise\<close>

definition entry_ok :: "pollfd \<Rightarrow> int \<Rightarrow> 32 word \<Rightarrow> bool" where
  "entry_ok p n e \<longleftrightarrow> pfd_fd p = (if e = 0 then - n - 1 else n) \<and> pfd_events p = ucast e"

definition fresh_ok :: "Channel \<Rightarrow> int \<Rightarrow> bool" where
  "fresh_ok ch n \<longleftrightarrow> fd ch = n \<and> events ch = 0 \<and> index ch = -1 \<and> 0 \<le> n \<and> n < fd_max"

definition slot_ok :: "PollPoller \<Rightarrow> nat \<Rightarrow> Channel \<Rightarrow> int \<Rightarrow> 32 word \<Rightarrow> bool" where
  "slot_ok p a ch n e \<longleftrightarrow> fd ch = n \<and> events ch = e \<and> e \<in> event_masks \<and> 0 \<le> n \<and> n < fd_max \<and>
     channels p n = Some a \<and> 0 \<le> index ch \<and> nat (index ch) < length (pollfds p) \<and>
     entry_ok (pollfds p ! nat (index ch)) n e"

definition poll_rel :: "lives \<Rightarrow> PollPoller reactor \<Rightarrow> bool" where
  "poll_rel L s \<longleftrightarrow>
     (\<forall>a n. L a = Fresh n \<longrightarrow> fresh_ok (chans s a) n) \<and>
     (\<forall>a n e. L a = Live n e \<longrightarrow> slot_ok (poller s) a (chans s a) n e) \<and>
     (\<forall>n a. channels (poller s) n = Some a \<longrightarrow> (\<exists>e. L a = Live n e)) \<and>
     (\<forall>i < length (pollfds (poller s)). \<exists>a n e. L a = Live n e \<and> index (chans s a) = int i)"

definition poll_watch :: "PollPoller reactor \<Rightarrow> (int \<times> 32 word) set" where
  "poll_watch s = (\<lambda>p. (pfd_fd p, ucast (pfd_events p))) ` {p \<in> set (pollfds (poller s)). 0 \<le> pfd_fd p}"

lemma poll_relD:
  assumes "poll_rel L s"
  shows "L a = Fresh n \<Longrightarrow> fresh_ok (chans s a) n"
    and "L a = Live n e \<Longrightarrow> slot_ok (poller s) a (chans s a) n e"
    and "channels (poller s) n = Some a \<Longrightarrow> \<exists>e. L a = Live n e"
    and "i < length (pollfds (poller s)) \<Longrightarrow> \<exists>a n e. L a = Live n e \<and> index (chans s a) = int i"
  using assms unfolding poll_rel_def by blast+

lemma entry_ok_inj: "entry_ok p n e \<Longrightarrow> entry_ok p m f \<Longrightarrow> 0 \<le> n \<Longrightarrow> 0 \<le> m \<Longrightarrow> n = m"
  by (auto simp: entry_ok_def split: if_splits)

lemma poll_slot_inj:
  assumes "poll_rel L s" "L a = Live n e" "L b = Live m f" "index (chans s a) = index (chans s b)"
  shows "a = b"
proof -
  note A = poll_relD(2) [OF assms(1,2)] and B = poll_relD(2) [OF assms(1,3)]
  then have "n = m" using assms(4) entry_ok_inj [of _ n e m f] by (auto simp: slot_ok_def)
  then show ?thesis using A B by (auto simp: slot_ok_def)
qed

lemma event_mask_16: "e \<in> event_masks \<Longrightarrow> ucast (ucast e :: 16 word) = (e :: 32 word)"
  unfolding event_masks_def event_consts by auto

text \<open>There are at most as many entries as file descriptors, so an index fits an \<^verbatim>\<open>int\<close>.\<close>

lemma poll_entries_bound:
  assumes "poll_rel L s"
  shows "int (length (pollfds (poller s))) \<le> fd_max"
proof -
  let ?k = "length (pollfds (poller s))"
  define g where "g i = (SOME n. \<exists>a e. L a = Live n e \<and> index (chans s a) = int i)" for i
  have g: "\<exists>a e. L a = Live (g i) e \<and> index (chans s a) = int i" if "i < ?k" for i
    unfolding g_def by (rule someI_ex) (use poll_relD(4) [OF assms that] in blast)
  have "inj_on g {..<?k}"
  proof (rule inj_onI)
    fix i j assume "i \<in> {..<?k}" "j \<in> {..<?k}" and eq: "g i = g j"
    then obtain a e b f where ab: "L a = Live (g i) e" "index (chans s a) = int i"
        "L b = Live (g j) f" "index (chans s b) = int j"
      using g [of i] g [of j] by auto
    have "channels (poller s) (g i) = Some a" "channels (poller s) (g j) = Some b"
      using poll_relD(2) [OF assms ab(1)] poll_relD(2) [OF assms ab(3)] by (simp_all add: slot_ok_def)
    then show "i = j" using eq ab by simp
  qed
  moreover have "g ` {..<?k} \<subseteq> {0..<fd_max}"
  proof (intro image_subsetI)
    fix i assume "i \<in> {..<?k}"
    then obtain a e where "L a = Live (g i) e" using g [of i] by auto
    from poll_relD(2) [OF assms this] show "g i \<in> {0..<fd_max}" by (simp add: slot_ok_def)
  qed
  ultimately have "card {..<?k} \<le> card {0..<fd_max}" by (rule card_inj_on_le) simp
  then have "?k \<le> nat fd_max" by simp
  then show ?thesis by (simp add: fd_max_def)
qed

lemma poll_new_law:
  assumes "poll_rel L s" "\<And>m e. L a \<noteq> Live m e" "0 \<le> n" "n < fd_max"
  shows "poll_rel (L(a := Fresh n)) (on_channel a (\<lambda>_. Channel_new n) s)"
  unfolding poll_rel_def
proof (intro conjI allI impI)
  fix m b
  assume "channels (poller (on_channel a (\<lambda>_. Channel_new n) s)) m = Some b"
  then obtain e where "L b = Live m e" using poll_relD(3) [OF assms(1)] by (auto simp: on_channel_def)
  then show "\<exists>e. (L(a := Fresh n)) b = Live m e" using assms(2) by auto
next
  fix i
  assume "i < length (pollfds (poller (on_channel a (\<lambda>_. Channel_new n) s)))"
  then obtain b m e where "L b = Live m e" "index (chans s b) = int i"
    using poll_relD(4) [OF assms(1), of i] by (auto simp: on_channel_def)
  moreover from this have "b \<noteq> a" using assms(2) by auto
  ultimately show "\<exists>b m e. (L(a := Fresh n)) b = Live m e \<and>
      index (chans (on_channel a (\<lambda>_. Channel_new n) s) b) = int i"
    by (intro exI [of _ b]) (simp add: on_channel_def)
qed (use assms poll_relD(1,2) [OF assms(1)] in
    \<open>auto simp: on_channel_def fresh_ok_def Channel_new_def split: if_splits\<close>)

lemma poll_add_law:
  assumes "poll_rel L s" "L a = Fresh n" "\<And>b m e. L b = Live m e \<Longrightarrow> m \<noteq> n" "e \<in> event_masks" "e \<noteq> 0"
  shows "\<exists>s'. poll_updateChannel a (on_channel a (with_events e) s) = Inr s' \<and> poll_rel (L(a := Live n e)) s'"
proof -
  let ?p = "poller s" and ?ch = "chans s a"
  have ch: "fd ?ch = n" "index ?ch = -1" "0 \<le> n" "n < fd_max"
    using poll_relD(1) [OF assms(1,2)] by (simp_all add: fresh_ok_def)
  have free: "channels ?p n = None"
    using poll_relD(3) [OF assms(1)] assms(3) by (cases "channels ?p n") blast+
  let ?k = "length (pollfds ?p)" and ?pfd = "\<lparr>pfd_fd = n, pfd_events = ucast e, pfd_revents = 0\<rparr>"
  have k: "to_int32 (int (?k + 1)) - 1 = int ?k" "in_int32 (int ?k)"
    using poll_entries_bound [OF assms(1)] by (simp_all add: to_int32_exact in_int32_def fd_max_def)
  let ?s' = "s\<lparr>chans := (chans s)(a := set_index (int ?k) (with_events e ?ch)),
      poller := ?p\<lparr>pollfds := pollfds ?p @ [?pfd], channels := (channels ?p)(n \<mapsto> a)\<rparr>\<rparr>"
  have "poll_updateChannel a (on_channel a (with_events e) s) = Inr ?s'"
    using ch free k
    by (simp add: poll_updateChannel_def on_channel_def with_events_def Let_def ints32_def add.commute)
  moreover have "poll_rel (L(a := Live n e)) ?s'"
    unfolding poll_rel_def
  proof (intro conjI allI impI)
    fix b m f assume "(L(a := Live n e)) b = Live m f"
    then show "slot_ok (poller ?s') b (chans ?s' b) m f"
      using ch assms(4,5) poll_relD(2) [OF assms(1), of b m f] assms(3) [of b m f]
      by (cases "b = a") (auto simp: slot_ok_def entry_ok_def with_events_def set_index_def nth_append)
  next
    fix m b assume "channels (poller ?s') m = Some b"
    then show "\<exists>f. (L(a := Live n e)) b = Live m f"
      using poll_relD(3) [OF assms(1), of m b] assms(2) by (auto split: if_splits)
  next
    fix i assume i: "i < length (pollfds (poller ?s'))"
    show "\<exists>b m f. (L(a := Live n e)) b = Live m f \<and> index (chans ?s' b) = int i"
    proof (cases "i < ?k")
      case True
      then obtain b m f where b: "L b = Live m f" "index (chans s b) = int i"
        using poll_relD(4) [OF assms(1)] by blast
      then have "b \<noteq> a" using assms(2) by auto
      then show ?thesis using b by (intro exI [of _ b]) simp
    next
      case False
      then show ?thesis using i by (intro exI [of _ a]) (simp add: set_index_def)
    qed
  qed (use assms(1,2) poll_relD(1) [OF assms(1)] in \<open>auto split: if_splits\<close>)
  ultimately show ?thesis by blast
qed

lemma poll_change_law:
  assumes "poll_rel L s" "L a = Live n e0" "e \<in> event_masks"
  shows "\<exists>s'. poll_updateChannel a (on_channel a (with_events e) s) = Inr s' \<and> poll_rel (L(a := Live n e)) s'"
proof -
  let ?p = "poller s" and ?ch = "chans s a"
  let ?i = "nat (index ?ch)" and ?pfd = "\<lparr>pfd_fd = (if e = 0 then - n - 1 else n), pfd_events = ucast e, pfd_revents = 0\<rparr>"
  have ch: "fd ?ch = n" "0 \<le> n" "n < fd_max" "channels ?p n = Some a" "0 \<le> index ?ch" "?i < length (pollfds ?p)"
      "entry_ok (pollfds ?p ! ?i) n e0"
    using poll_relD(2) [OF assms(1,2)] by (simp_all add: slot_ok_def)
  have k: "index ?ch < to_int32 (int (length (pollfds ?p)))"
    using poll_entries_bound [OF assms(1)] ch(5,6) by (simp add: to_int32_exact in_int32_def fd_max_def)
  have at: "vec_nth (pollfds ?p) (index ?ch) = Inr (pollfds ?p ! ?i)"
    using vec_nth_ok [OF ch(6)] ch(5) by simp
  have "pfd_fd (pollfds ?p ! ?i) = n \<or> pfd_fd (pollfds ?p ! ?i) = - n - 1"
    using ch(7) by (auto simp: entry_ok_def split: if_splits)
  let ?s' = "s\<lparr>chans := (chans s)(a := with_events e ?ch), poller := ?p\<lparr>pollfds := (pollfds ?p)[?i := ?pfd]\<rparr>\<rparr>"
  have "poll_updateChannel a (on_channel a (with_events e) s) = Inr ?s'"
    using ch k at \<open>pfd_fd _ = n \<or> _\<close>
    by (simp add: poll_updateChannel_def on_channel_def with_events_def Let_def isNoneEvent_def kNoneEvent_def)
  moreover have "poll_rel (L(a := Live n e)) ?s'"
    unfolding poll_rel_def
  proof (intro conjI allI impI)
    fix b m f assume b: "(L(a := Live n e)) b = Live m f"
    show "slot_ok (poller ?s') b (chans ?s' b) m f"
    proof (cases "b = a")
      case True
      then show ?thesis using b ch assms(3) by (auto simp: slot_ok_def entry_ok_def with_events_def)
    next
      case False
      then have l: "L b = Live m f" using b by simp
      then have "index (chans s b) \<noteq> index ?ch" using poll_slot_inj [OF assms(1) l assms(2)] False by auto
      then show ?thesis using poll_relD(2) [OF assms(1) l] False ch(5)
        by (auto simp: slot_ok_def nth_list_update)
    qed
  next
    fix m b assume "channels (poller ?s') m = Some b"
    then show "\<exists>f. (L(a := Live n e)) b = Live m f"
      using poll_relD(3) [OF assms(1), of m b] assms(2) by (auto split: if_splits)
  next
    fix i assume "i < length (pollfds (poller ?s'))"
    then obtain b m f where b: "L b = Live m f" "index (chans s b) = int i"
      using poll_relD(4) [OF assms(1), of i] by auto
    then show "\<exists>b m f. (L(a := Live n e)) b = Live m f \<and> index (chans ?s' b) = int i"
      by (intro exI [of _ b]) (auto simp: with_events_def)
  qed (use assms(1,2) poll_relD(1) [OF assms(1)] in \<open>auto split: if_splits\<close>)
  ultimately show ?thesis by blast
qed

lemma poll_events_law:
  "poll_rel L s \<Longrightarrow> (L a = Fresh n \<longrightarrow> events (chans s a) = 0) \<and>
    (L a = Live n e \<longrightarrow> events (chans s a) = e \<and> e \<in> event_masks)"
  using poll_relD(1) [of L s a n] poll_relD(2) [of L s a n e] by (simp add: slot_ok_def fresh_ok_def)

lemma poll_watch_law:
  assumes "poll_rel L s"
  shows "poll_watch s = wanted L"
proof (intro set_eqI iffI)
  fix x assume "x \<in> poll_watch s"
  then obtain i where i: "i < length (pollfds (poller s))" "0 \<le> pfd_fd (pollfds (poller s) ! i)"
      "x = (pfd_fd (pollfds (poller s) ! i), ucast (pfd_events (pollfds (poller s) ! i)))"
    by (auto simp: poll_watch_def in_set_conv_nth)
  then obtain a n e where a: "L a = Live n e" "index (chans s a) = int i" using poll_relD(4) [OF assms] by blast
  have o: "entry_ok (pollfds (poller s) ! i) n e" "e \<in> event_masks" "0 \<le> n"
    using poll_relD(2) [OF assms a(1)] a(2) by (simp_all add: slot_ok_def)
  then have "x = (n, e)" "e \<noteq> 0" using i(2,3) event_mask_16 by (auto simp: entry_ok_def split: if_splits)
  then show "x \<in> wanted L" using a(1) by (auto simp: wanted_def)
next
  fix x assume "x \<in> wanted L"
  then obtain a n e where a: "x = (n, e)" "e \<noteq> 0" "L a = Live n e" by (auto simp: wanted_def)
  let ?q = "pollfds (poller s) ! nat (index (chans s a))"
  have o: "entry_ok ?q n e" "e \<in> event_masks" "0 \<le> n" "nat (index (chans s a)) < length (pollfds (poller s))"
    using poll_relD(2) [OF assms a(3)] by (simp_all add: slot_ok_def)
  then have "?q \<in> set (pollfds (poller s))" "0 \<le> pfd_fd ?q" "x = (pfd_fd ?q, ucast (pfd_events ?q))"
    using a(1,2) event_mask_16 by (simp_all add: entry_ok_def)
  then show "x \<in> poll_watch s" by (auto simp: poll_watch_def)
qed

text \<open>Removal: what is left of the others once the last entry has moved to the free place.\<close>

lemma poll_remove_step:
  assumes "poll_rel L s" "L a = Live n 0"
    and i: "nat (index (chans s a)) = i" and m: "Suc m = length (pollfds (poller s))"
    and b: "L b = Live nb eb" "index (chans s b) = int m"
  shows "poll_removeChannel a (on_channel a (\<lambda>ch. ch\<lparr>addedToLoop := False\<rparr>) s) =
    Inr (s\<lparr>chans := (if b = a then (chans s)(a := (chans s a)\<lparr>addedToLoop := False\<rparr>)
                     else (chans s)(a := (chans s a)\<lparr>addedToLoop := False\<rparr>, b := set_index (int i) (chans s b))),
           poller := (poller s)\<lparr>channels := (channels (poller s))(n := None),
             pollfds := butlast ((pollfds (poller s))[i := pollfds (poller s) ! m])\<rparr>\<rparr>)"
proof -
  let ?p = "poller s" and ?ch = "chans s a"
  have ch: "fd ?ch = n" "events ?ch = 0" "0 \<le> n" "channels ?p n = Some a" "index ?ch = int i" "i < length (pollfds ?p)"
      "entry_ok (pollfds ?p ! i) n 0"
    using poll_relD(2) [OF assms(1,2)] i by (auto simp: slot_ok_def)
  have k: "index ?ch < to_int32 (int (length (pollfds ?p)))"
    using poll_entries_bound [OF assms(1)] ch(5,6) by (simp add: to_int32_exact in_int32_def fd_max_def)
  have at: "vec_nth (pollfds ?p) (index ?ch) = Inr (pollfds ?p ! i)"
    using vec_nth_ok [OF ch(6)] ch(5) by simp
  have e: "pfd_fd (pollfds ?p ! i) = - n - 1" "pfd_events (pollfds ?p ! i) = 0"
    using ch(7) by (simp_all add: entry_ok_def)
  have ne: "pollfds ?p \<noteq> []" and lm: "length (pollfds ?p) - 1 = m" using m by auto
  then have last: "last (pollfds ?p) = pollfds ?p ! m" by (simp add: last_conv_nth)
  have bo: "channels ?p nb = Some b" "0 \<le> nb" "entry_ok (pollfds ?p ! m) nb eb" "fd (chans s b) = nb"
    using poll_relD(2) [OF assms(1) b(1)] b(2) by (simp_all add: slot_ok_def)
  show ?thesis
  proof (cases "b = a")
    case True
    then have "i = m" using b(2) ch(5) by simp
    moreover have "butlast ((pollfds ?p)[m := pollfds ?p ! m]) = butlast (pollfds ?p)" by simp
    ultimately show ?thesis using True ch k at e last lm ne
      by (simp add: poll_removeChannel_def on_channel_def Let_def isNoneEvent_def kNoneEvent_def)
  next
    case False
    then have "i \<noteq> m" using poll_slot_inj [OF assms(1,2) b(1)] b(2) ch(5) by auto
    moreover have "nb \<noteq> n" using bo(1) ch(4) False by auto
    moreover have "(if pfd_fd (pollfds ?p ! m) < 0 then - pfd_fd (pollfds ?p ! m) - 1 else pfd_fd (pollfds ?p ! m)) = nb"
      using bo(2,3) by (auto simp: entry_ok_def)
    ultimately show ?thesis using False ch k at e last lm ne bo(1)
      by (simp add: poll_removeChannel_def on_channel_def Let_def isNoneEvent_def kNoneEvent_def)
  qed
qed

lemma poll_remove_law:
  assumes "poll_rel L s" "L a = Live n 0"
  shows "\<exists>s'. poll_removeChannel a (on_channel a (\<lambda>ch. ch\<lparr>addedToLoop := False\<rparr>) s) = Inr s' \<and>
    poll_rel (L(a := Gone)) s'"
proof -
  let ?p = "poller s"
  define i where "i = nat (index (chans s a))"
  have a: "index (chans s a) = int i" "i < length (pollfds ?p)" "channels ?p n = Some a"
    using poll_relD(2) [OF assms] by (simp_all add: slot_ok_def i_def)
  define m where "m = length (pollfds ?p) - 1"
  have m: "Suc m = length (pollfds ?p)" using a(2) by (simp add: m_def)
  then obtain b nb eb where b: "L b = Live nb eb" "index (chans s b) = int m"
    using poll_relD(4) [OF assms(1), of m] by auto
  let ?s' = "s\<lparr>chans := (if b = a then (chans s)(a := (chans s a)\<lparr>addedToLoop := False\<rparr>)
                 else (chans s)(a := (chans s a)\<lparr>addedToLoop := False\<rparr>, b := set_index (int i) (chans s b))),
       poller := ?p\<lparr>channels := (channels ?p)(n := None), pollfds := butlast ((pollfds ?p)[i := pollfds ?p ! m])\<rparr>\<rparr>"
  have len: "length (pollfds (poller ?s')) = m" using m by simp
  have idx: "index (chans ?s' c) = (if c = b \<and> c \<noteq> a then int i else index (chans s c))" for c
    by (simp add: set_index_def)
  have "slot_ok (poller ?s') c (chans ?s' c) nc ec" if "(L(a := Gone)) c = Live nc ec" for c nc ec
  proof -
    have c: "L c = Live nc ec" "c \<noteq> a" using that by (auto split: if_splits)
    have so: "slot_ok ?p c (chans s c) nc ec" using poll_relD(2) [OF assms(1) c(1)] .
    have ci: "index (chans s c) \<noteq> int i" using poll_slot_inj [OF assms(1) c(1) assms(2)] c(2) a(1) by auto
    have nn: "nc \<noteq> n" using so a(3) c(2) by (auto simp: slot_ok_def)
    show ?thesis
    proof (cases "c = b")
      case True
      have "index (chans s a) = int i" "i \<noteq> m" using a(1) ci b(2) True by auto
      then have "i < m" using a(2) m by simp
      then show ?thesis using True so c(2) b nn m
        by (auto simp: slot_ok_def set_index_def nth_butlast)
    next
      case False
      then have "index (chans s c) \<noteq> int m" using poll_slot_inj [OF assms(1) c(1) b(1)] b(2) by auto
      then have "nat (index (chans s c)) < m" "nat (index (chans s c)) \<noteq> i"
        using so m ci by (auto simp: slot_ok_def)
      then show ?thesis using False so c(2) nn m
        by (auto simp: slot_ok_def nth_butlast)
    qed
  qed
  moreover have "\<exists>f. (L(a := Gone)) c = Live k f" if "channels (poller ?s') k = Some c" for k c
    using that poll_relD(3) [OF assms(1), of k c] assms(2) by (auto split: if_splits)
  moreover have "\<exists>c nc ec. (L(a := Gone)) c = Live nc ec \<and> index (chans ?s' c) = int j" if jm: "j < m" for j
  proof (cases "j = i")
    case True
    then have "b \<noteq> a" using jm a(1) b(2) by auto
    then show ?thesis using b(1) True by (intro exI [of _ b]) (simp add: set_index_def)
  next
    case False
    have "j < length (pollfds ?p)" using jm m by linarith
    then obtain c nc ec where c: "L c = Live nc ec" "index (chans s c) = int j"
      using poll_relD(4) [OF assms(1)] by blast
    then have "c \<noteq> a" "c \<noteq> b" using a(1) b(2) False jm by auto
    then show ?thesis using c by (intro exI [of _ c]) simp
  qed
  moreover have "fresh_ok (chans ?s' c) k" if "(L(a := Gone)) c = Fresh k" for c k
    using that b(1) poll_relD(1) [OF assms(1), of c k] by (cases "c = a"; cases "c = b") auto
  ultimately have "poll_rel (L(a := Gone)) ?s'"
    unfolding poll_rel_def len by blast
  then show ?thesis using poll_remove_step [OF assms i_def [symmetric] m b] by blast
qed

interpretation pollp: poller_contract poll_rel poll_updateChannel poll_removeChannel poll_watch
proof (unfold_locales, goal_cases)
  case 1
  then show ?case by (rule poll_new_law)
next
  case 2
  then show ?case by (rule poll_add_law)
next
  case 3
  then show ?case by (rule poll_change_law)
next
  case 4
  then show ?case by (rule poll_remove_law)
next
  case 5
  then show ?case by (rule poll_events_law)
next
  case 6
  then show ?case by (rule poll_watch_law)
qed

section \<open>EPollPoller keeps the promise\<close>

text \<open>
  What \<^verbatim>\<open>epoll_ctl\<close> documents: adding a descriptor that is not in the interest list, and changing
  or deleting one that is, succeed and do just that. \<open>interest\<close> reads the interest list off a kernel
  state.
\<close>

definition epoll_ctl_works :: "'k epoll_ctl \<Rightarrow> ('k \<Rightarrow> int \<Rightarrow> epoll_event option) \<Rightarrow> bool" where
  "epoll_ctl_works ctl interest \<longleftrightarrow>
     (\<forall>k n ev. interest k n = None \<longrightarrow>
        fst (ctl EPOLL_CTL_ADD n ev k) = 0 \<and> interest (snd (ctl EPOLL_CTL_ADD n ev k)) = (interest k)(n \<mapsto> ev)) \<and>
     (\<forall>k n ev. interest k n \<noteq> None \<longrightarrow>
        fst (ctl EPOLL_CTL_MOD n ev k) = 0 \<and> interest (snd (ctl EPOLL_CTL_MOD n ev k)) = (interest k)(n \<mapsto> ev)) \<and>
     (\<forall>k n ev. interest k n \<noteq> None \<longrightarrow>
        fst (ctl EPOLL_CTL_DEL n ev k) = 0 \<and> interest (snd (ctl EPOLL_CTL_DEL n ev k)) = (interest k)(n := None))"

definition reg_ok :: "(int \<Rightarrow> epoll_event option) \<Rightarrow> 'k EPollPoller \<Rightarrow> nat \<Rightarrow> Channel \<Rightarrow> int \<Rightarrow> 32 word \<Rightarrow> bool" where
  "reg_ok ints p a ch n e \<longleftrightarrow> fd ch = n \<and> events ch = e \<and> e \<in> event_masks \<and> 0 \<le> n \<and> n < fd_max \<and>
     channels p n = Some a \<and>
     (index ch = kAdded \<and> ints n = Some (e, a) \<or> index ch = kDeleted \<and> e = 0 \<and> ints n = None)"

definition epoll_rel ::
    "'k epoll_ctl \<Rightarrow> ('k \<Rightarrow> int \<Rightarrow> epoll_event option) \<Rightarrow> lives \<Rightarrow> 'k EPollPoller reactor \<Rightarrow> bool" where
  "epoll_rel ctl interest L s \<longleftrightarrow> epoll_ctl_works ctl interest \<and>
     (\<forall>a n. L a = Fresh n \<longrightarrow> fresh_ok (chans s a) n) \<and>
     (\<forall>a n e. L a = Live n e \<longrightarrow> reg_ok (interest (kernel (poller s))) (poller s) a (chans s a) n e) \<and>
     (\<forall>n a. channels (poller s) n = Some a \<longrightarrow> (\<exists>e. L a = Live n e)) \<and>
     (\<forall>n e a. interest (kernel (poller s)) n = Some (e, a) \<longrightarrow> L a = Live n e)"

definition epoll_watch :: "('k \<Rightarrow> int \<Rightarrow> epoll_event option) \<Rightarrow> 'k EPollPoller reactor \<Rightarrow> (int \<times> 32 word) set" where
  "epoll_watch interest s = {(n, e). e \<noteq> 0 \<and> (\<exists>a. interest (kernel (poller s)) n = Some (e, a))}"

lemma reactor_swap: "s\<lparr>poller := p, chans := c\<rparr> = s\<lparr>chans := c, poller := p\<rparr>"
  by simp

lemma epoll_relD:
  assumes "epoll_rel ctl interest L s"
  shows "epoll_ctl_works ctl interest"
    and "L a = Fresh n \<Longrightarrow> fresh_ok (chans s a) n"
    and "L a = Live n e \<Longrightarrow> reg_ok (interest (kernel (poller s))) (poller s) a (chans s a) n e"
    and "channels (poller s) n = Some a \<Longrightarrow> \<exists>e. L a = Live n e"
    and "interest (kernel (poller s)) n = Some (e, a) \<Longrightarrow> L a = Live n e"
  using assms unfolding epoll_rel_def by blast+

lemma epoll_add:
  assumes "epoll_ctl_works ctl interest" "interest (kernel (poller s)) (fd (chans s a)) = None"
  shows "\<exists>k. epoll_update ctl EPOLL_CTL_ADD a s = Inr (s\<lparr>poller := (poller s)\<lparr>kernel := k\<rparr>\<rparr>) \<and>
    interest k = (interest (kernel (poller s)))(fd (chans s a) \<mapsto> (events (chans s a), a))"
  using assms by (auto simp: epoll_ctl_works_def epoll_update_def split_beta Let_def)

lemma epoll_mod:
  assumes "epoll_ctl_works ctl interest" "interest (kernel (poller s)) (fd (chans s a)) \<noteq> None"
  shows "\<exists>k. epoll_update ctl EPOLL_CTL_MOD a s = Inr (s\<lparr>poller := (poller s)\<lparr>kernel := k\<rparr>\<rparr>) \<and>
    interest k = (interest (kernel (poller s)))(fd (chans s a) \<mapsto> (events (chans s a), a))"
  using assms by (auto simp: epoll_ctl_works_def epoll_update_def split_beta Let_def)

lemma epoll_del:
  assumes "epoll_ctl_works ctl interest" "interest (kernel (poller s)) (fd (chans s a)) \<noteq> None"
  shows "\<exists>k. epoll_update ctl EPOLL_CTL_DEL a s = Inr (s\<lparr>poller := (poller s)\<lparr>kernel := k\<rparr>\<rparr>) \<and>
    interest k = (interest (kernel (poller s)))(fd (chans s a) := None)"
  using assms by (auto simp: epoll_ctl_works_def epoll_update_def split_beta Let_def)

text \<open>The relation after a change to one registered channel and its entry in the interest list.\<close>

lemma epoll_rel_upd:
  assumes "epoll_rel ctl interest L s" "\<And>b m e. L b = Live m e \<Longrightarrow> b \<noteq> a \<Longrightarrow> m \<noteq> n"
    and "L a = Fresh n \<or> (\<exists>e0. L a = Live n e0)"
    and "reg_ok (interest k) ((poller s)\<lparr>channels := (channels (poller s))(n \<mapsto> a), kernel := k\<rparr>) a ch n e"
    and "\<And>m. m \<noteq> n \<Longrightarrow> interest k m = interest (kernel (poller s)) m"
  shows "epoll_rel ctl interest (L(a := Live n e))
    (s\<lparr>chans := (chans s)(a := ch), poller := (poller s)\<lparr>channels := (channels (poller s))(n \<mapsto> a), kernel := k\<rparr>\<rparr>)"
    (is "epoll_rel ctl interest ?L ?s")
  unfolding epoll_rel_def
proof (intro conjI allI impI)
  show "epoll_ctl_works ctl interest" using epoll_relD(1) [OF assms(1)] .
next
  fix b m assume "?L b = Fresh m"
  then show "fresh_ok (chans ?s b) m" using epoll_relD(2) [OF assms(1), of b m] by (auto split: if_splits)
next
  fix b m f assume b: "?L b = Live m f"
  show "reg_ok (interest (kernel (poller ?s))) (poller ?s) b (chans ?s b) m f"
  proof (cases "b = a")
    case True
    then show ?thesis using b assms(4) by simp
  next
    case False
    then have l: "L b = Live m f" using b by simp
    then show ?thesis
      using epoll_relD(3) [OF assms(1) l] assms(2) [OF l False] assms(5) [of m] False by (auto simp: reg_ok_def)
  qed
next
  fix m b assume "channels (poller ?s) m = Some b"
  then show "\<exists>f. ?L b = Live m f"
    using epoll_relD(4) [OF assms(1), of m b] assms(3) by (auto split: if_splits)
next
  fix m f b assume i: "interest (kernel (poller ?s)) m = Some (f, b)"
  show "?L b = Live m f"
  proof (cases "m = n")
    case True
    then show ?thesis using i assms(4) by (auto simp: reg_ok_def)
  next
    case False
    then have "L b = Live m f" using i assms(5) epoll_relD(5) [OF assms(1)] by simp
    then show ?thesis using assms(3) False by auto
  qed
qed

lemma epoll_add_law:
  assumes "epoll_rel ctl interest L s" "L a = Fresh n" "\<And>b m e. L b = Live m e \<Longrightarrow> m \<noteq> n" "e \<in> event_masks"
  shows "\<exists>s'. epoll_updateChannel ctl a (on_channel a (with_events e) s) = Inr s' \<and>
    epoll_rel ctl interest (L(a := Live n e)) s'"
proof -
  let ?p = "poller s" and ?ch = "with_events e (chans s a)"
  have ch: "fd (chans s a) = n" "index (chans s a) = -1" "0 \<le> n" "n < fd_max"
    using epoll_relD(2) [OF assms(1,2)] by (simp_all add: fresh_ok_def)
  have free: "channels ?p n = None"
    using epoll_relD(4) [OF assms(1)] assms(3) by (cases "channels ?p n") blast+
  have none: "interest (kernel ?p) n = None"
    using epoll_relD(5) [OF assms(1)] assms(3) by (cases "interest (kernel ?p) n") fastforce+
  let ?s1 = "s\<lparr>chans := (chans s)(a := set_index kAdded ?ch), poller := ?p\<lparr>channels := (channels ?p)(n \<mapsto> a)\<rparr>\<rparr>"
  have "interest (kernel (poller ?s1)) (fd (chans ?s1 a)) = None"
    using none ch by (simp add: set_index_def with_events_def)
  from epoll_add [OF epoll_relD(1) [OF assms(1)] this]
  obtain k where k: "epoll_update ctl EPOLL_CTL_ADD a ?s1 = Inr (?s1\<lparr>poller := (poller ?s1)\<lparr>kernel := k\<rparr>\<rparr>)"
      "interest k = (interest (kernel ?p))(n \<mapsto> (e, a))"
    using ch by (auto simp: set_index_def with_events_def)
  have "epoll_updateChannel ctl a (on_channel a (with_events e) s) = Inr (?s1\<lparr>poller := (poller ?s1)\<lparr>kernel := k\<rparr>\<rparr>)"
    using ch free k(1) by (simp add: epoll_updateChannel_def on_channel_def kNew_def with_events_def Let_def reactor_swap)
  moreover have "epoll_rel ctl interest (L(a := Live n e)) (?s1\<lparr>poller := (poller ?s1)\<lparr>kernel := k\<rparr>\<rparr>)"
    using epoll_rel_upd [OF assms(1), of a n k "set_index kAdded ?ch" e] assms ch k(2)
    by (auto simp: reg_ok_def set_index_def with_events_def)
  ultimately show ?thesis by blast
qed

lemma epoll_live:
  assumes "epoll_rel ctl interest L s" "L a = Live n e"
  shows "fd (chans s a) = n" "events (chans s a) = e" "e \<in> event_masks" "0 \<le> n" "n < fd_max"
    "channels (poller s) n = Some a"
    "index (chans s a) = kAdded \<and> interest (kernel (poller s)) n = Some (e, a) \<or>
       index (chans s a) = kDeleted \<and> e = 0 \<and> interest (kernel (poller s)) n = None"
    "\<And>b m f. L b = Live m f \<Longrightarrow> b \<noteq> a \<Longrightarrow> m \<noteq> n"
proof -
  have r: "reg_ok (interest (kernel (poller s))) (poller s) b (chans s b) m f" if "L b = Live m f" for b m f
    using epoll_relD(3) [OF assms(1) that] .
  show "\<And>b m f. L b = Live m f \<Longrightarrow> b \<noteq> a \<Longrightarrow> m \<noteq> n"
    using r r [OF assms(2)] by (fastforce simp: reg_ok_def)
qed (use epoll_relD(3) [OF assms] in \<open>simp_all add: reg_ok_def\<close>)

lemma epoll_change_law:
  assumes "epoll_rel ctl interest L s" "L a = Live n e0" "e \<in> event_masks"
  shows "\<exists>s'. epoll_updateChannel ctl a (on_channel a (with_events e) s) = Inr s' \<and>
    epoll_rel ctl interest (L(a := Live n e)) s'"
proof -
  let ?p = "poller s" and ?ch = "with_events e (chans s a)"
  note l = epoll_live [OF assms(1,2)] and w = epoll_relD(1) [OF assms(1)]
  have chs: "(channels ?p)(n \<mapsto> a) = channels ?p" using l(6) by (simp add: fun_upd_idem)
  have k: "\<exists>k idx. epoll_updateChannel ctl a (on_channel a (with_events e) s) =
      Inr (s\<lparr>chans := (chans s)(a := set_index idx ?ch), poller := ?p\<lparr>kernel := k\<rparr>\<rparr>) \<and>
      (idx = kAdded \<and> interest k = (interest (kernel ?p))(n \<mapsto> (e, a)) \<or>
       idx = kDeleted \<and> e = 0 \<and> interest k = (interest (kernel ?p))(n := None))"
  proof (cases "index (chans s a) = kAdded")
    case True
    then have i: "interest (kernel ?p) n \<noteq> None" using l(7) by (auto simp: kAdded_def kDeleted_def)
    let ?s1 = "s\<lparr>chans := (chans s)(a := ?ch)\<rparr>"
    have m: "set_index kAdded ?ch = ?ch" using True by (simp add: set_index_def with_events_def)
    show ?thesis
    proof (cases "e = 0")
      case True
      obtain k where "epoll_update ctl EPOLL_CTL_DEL a ?s1 = Inr (?s1\<lparr>poller := ?p\<lparr>kernel := k\<rparr>\<rparr>)"
          "interest k = (interest (kernel ?p))(n := None)"
        using epoll_del [OF w, of ?s1 a] i l(1) by (auto simp: with_events_def)
      then show ?thesis using True \<open>index _ = kAdded\<close> l(1,6)
        by (intro exI [of _ k] exI [of _ kDeleted])
          (simp add: epoll_updateChannel_def on_channel_def Let_def with_events_def kAdded_def kNew_def kDeleted_def
            isNoneEvent_def kNoneEvent_def)
    next
      case False
      obtain k where "epoll_update ctl EPOLL_CTL_MOD a ?s1 = Inr (?s1\<lparr>poller := ?p\<lparr>kernel := k\<rparr>\<rparr>)"
          "interest k = (interest (kernel ?p))(n \<mapsto> (e, a))"
        using epoll_mod [OF w, of ?s1 a] i l(1) by (auto simp: with_events_def)
      then show ?thesis using False True l(1,6) m
        by (intro exI [of _ k] exI [of _ kAdded])
          (simp add: epoll_updateChannel_def on_channel_def Let_def with_events_def kAdded_def kNew_def kDeleted_def
            isNoneEvent_def kNoneEvent_def)
    qed
  next
    case False
    then have d: "index (chans s a) = kDeleted" "interest (kernel ?p) n = None" using l(7) by auto
    let ?s1 = "s\<lparr>chans := (chans s)(a := set_index kAdded ?ch)\<rparr>"
    obtain k where "epoll_update ctl EPOLL_CTL_ADD a ?s1 = Inr (?s1\<lparr>poller := ?p\<lparr>kernel := k\<rparr>\<rparr>)"
        "interest k = (interest (kernel ?p))(n \<mapsto> (e, a))"
      using epoll_add [OF w, of ?s1 a] d(2) l(1) by (auto simp: with_events_def set_index_def)
    then show ?thesis using d(1) l(1,6)
      by (intro exI [of _ k] exI [of _ kAdded])
        (simp add: epoll_updateChannel_def on_channel_def Let_def with_events_def kNew_def kDeleted_def)
  qed
  then obtain k idx where ki: "epoll_updateChannel ctl a (on_channel a (with_events e) s) =
      Inr (s\<lparr>chans := (chans s)(a := set_index idx ?ch), poller := ?p\<lparr>kernel := k\<rparr>\<rparr>)"
      "idx = kAdded \<and> interest k = (interest (kernel ?p))(n \<mapsto> (e, a)) \<or>
       idx = kDeleted \<and> e = 0 \<and> interest k = (interest (kernel ?p))(n := None)" by blast
  have p: "?p\<lparr>kernel := k\<rparr> = ?p\<lparr>channels := (channels ?p)(n \<mapsto> a), kernel := k\<rparr>" by (simp add: chs)
  have "epoll_rel ctl interest (L(a := Live n e))
      (s\<lparr>chans := (chans s)(a := set_index idx ?ch), poller := ?p\<lparr>kernel := k\<rparr>\<rparr>)"
    unfolding p
  proof (rule epoll_rel_upd [OF assms(1)])
    show "reg_ok (interest k) (?p\<lparr>channels := (channels ?p)(n \<mapsto> a), kernel := k\<rparr>) a (set_index idx ?ch) n e"
      using ki(2) l assms(3) by (auto simp: reg_ok_def set_index_def with_events_def)
    show "\<And>m. m \<noteq> n \<Longrightarrow> interest k m = interest (kernel ?p) m" using ki(2) by auto
  qed (use l(8) assms(2) in auto)
  then show ?thesis using ki(1) by blast
qed

lemma epoll_remove_law:
  assumes "epoll_rel ctl interest L s" "L a = Live n 0"
  shows "\<exists>s'. epoll_removeChannel ctl a (on_channel a (\<lambda>ch. ch\<lparr>addedToLoop := False\<rparr>) s) = Inr s' \<and>
    epoll_rel ctl interest (L(a := Gone)) s'"
proof -
  let ?p = "poller s" and ?ch = "(chans s a)\<lparr>addedToLoop := False\<rparr>"
  note l = epoll_live [OF assms] and w = epoll_relD(1) [OF assms(1)]
  let ?s1 = "s\<lparr>chans := (chans s)(a := ?ch), poller := ?p\<lparr>channels := (channels ?p)(n := None)\<rparr>\<rparr>"
  obtain k where k: "epoll_removeChannel ctl a (on_channel a (\<lambda>ch. ch\<lparr>addedToLoop := False\<rparr>) s) =
      Inr (s\<lparr>chans := (chans s)(a := set_index kNew ?ch),
             poller := ?p\<lparr>channels := (channels ?p)(n := None), kernel := k\<rparr>\<rparr>)"
      "interest k = (interest (kernel ?p))(n := None)"
  proof (cases "index (chans s a) = kAdded")
    case True
    then have i: "interest (kernel ?p) n \<noteq> None" using l(7) by (auto simp: kAdded_def kDeleted_def)
    obtain k where "epoll_update ctl EPOLL_CTL_DEL a ?s1 = Inr (?s1\<lparr>poller := (poller ?s1)\<lparr>kernel := k\<rparr>\<rparr>)"
        "interest k = (interest (kernel ?p))(n := None)"
      using epoll_del [OF w, of ?s1 a] i l(1) by auto
    then show ?thesis using True l(1,2,6)
      by (intro that [of k])
        (simp_all add: epoll_removeChannel_def on_channel_def Let_def isNoneEvent_def kNoneEvent_def kAdded_def reactor_swap)
  next
    case False
    then have d: "index (chans s a) = kDeleted" "interest (kernel ?p) n = None" using l(7) by auto
    then have u: "(interest (kernel ?p))(n := None) = interest (kernel ?p)" by (simp add: fun_upd_idem)
    have "?p\<lparr>channels := c, kernel := kernel ?p\<rparr> = ?p\<lparr>channels := c\<rparr>" for c by simp
    then show ?thesis using d(1) l(1,2,6) u
      by (intro that [of "kernel ?p"])
        (simp_all add: epoll_removeChannel_def on_channel_def Let_def isNoneEvent_def kNoneEvent_def kAdded_def
          kDeleted_def reactor_swap)
  qed
  let ?s' = "s\<lparr>chans := (chans s)(a := set_index kNew ?ch), poller := ?p\<lparr>channels := (channels ?p)(n := None), kernel := k\<rparr>\<rparr>"
  have "reg_ok (interest (kernel (poller ?s'))) (poller ?s') b (chans ?s' b) m f" if "(L(a := Gone)) b = Live m f" for b m f
  proof -
    have b: "L b = Live m f" "b \<noteq> a" using that by (auto split: if_splits)
    then show ?thesis using epoll_relD(3) [OF assms(1) b(1)] l(8) [OF b] k(2) by (simp add: reg_ok_def)
  qed
  moreover have "\<exists>f. (L(a := Gone)) b = Live m f" if "channels (poller ?s') m = Some b" for m b
    using that epoll_relD(4) [OF assms(1), of m b] assms(2) by (auto split: if_splits)
  moreover have "(L(a := Gone)) b = Live m f" if "interest (kernel (poller ?s')) m = Some (f, b)" for m f b
    using that k(2) epoll_relD(5) [OF assms(1), of m f b] assms(2) by (auto split: if_splits)
  moreover have "fresh_ok (chans ?s' b) m" if "(L(a := Gone)) b = Fresh m" for b m
    using that epoll_relD(2) [OF assms(1), of b m] by (auto split: if_splits)
  ultimately have "epoll_rel ctl interest (L(a := Gone)) ?s'"
    unfolding epoll_rel_def using w by blast
  then show ?thesis using k(1) by blast
qed

lemma epoll_new_law:
  assumes "epoll_rel ctl interest L s" "\<And>m e. L a \<noteq> Live m e" "0 \<le> n" "n < fd_max"
  shows "epoll_rel ctl interest (L(a := Fresh n)) (on_channel a (\<lambda>_. Channel_new n) s)"
  unfolding epoll_rel_def
proof (intro conjI allI impI)
  show "epoll_ctl_works ctl interest" using epoll_relD(1) [OF assms(1)] .
next
  fix b m assume "(L(a := Fresh n)) b = Fresh m"
  then show "fresh_ok (chans (on_channel a (\<lambda>_. Channel_new n) s) b) m"
    using epoll_relD(2) [OF assms(1), of b m] assms(3,4)
    by (cases "b = a") (simp_all add: on_channel_def fresh_ok_def Channel_new_def)
next
  fix b m e assume "(L(a := Fresh n)) b = Live m e"
  then show "reg_ok (interest (kernel (poller (on_channel a (\<lambda>_. Channel_new n) s))))
      (poller (on_channel a (\<lambda>_. Channel_new n) s)) b (chans (on_channel a (\<lambda>_. Channel_new n) s) b) m e"
    using epoll_relD(3) [OF assms(1), of b m e] by (cases "b = a") (simp_all add: on_channel_def)
next
  fix m b assume "channels (poller (on_channel a (\<lambda>_. Channel_new n) s)) m = Some b"
  then obtain e where "L b = Live m e" using epoll_relD(4) [OF assms(1), of m b] by (auto simp: on_channel_def)
  then show "\<exists>e. (L(a := Fresh n)) b = Live m e" using assms(2) by auto
next
  fix m e b assume "interest (kernel (poller (on_channel a (\<lambda>_. Channel_new n) s))) m = Some (e, b)"
  then have "L b = Live m e" using epoll_relD(5) [OF assms(1), of m e b] by (simp add: on_channel_def)
  then show "(L(a := Fresh n)) b = Live m e" using assms(2) by auto
qed

lemma epoll_events_law:
  "epoll_rel ctl interest L s \<Longrightarrow> (L a = Fresh n \<longrightarrow> events (chans s a) = 0) \<and>
    (L a = Live n e \<longrightarrow> events (chans s a) = e \<and> e \<in> event_masks)"
  using epoll_relD(2) [of ctl interest L s a n] epoll_relD(3) [of ctl interest L s a n e]
  by (simp add: reg_ok_def fresh_ok_def)

lemma epoll_watch_law:
  assumes "epoll_rel ctl interest L s"
  shows "epoll_watch interest s = wanted L"
proof -
  have "(\<exists>a. interest (kernel (poller s)) n = Some (e, a)) \<longleftrightarrow> (\<exists>a. L a = Live n e)" if "e \<noteq> 0" for n e
    using epoll_relD(5) [OF assms] epoll_live(7) [OF assms] that by blast
  then show ?thesis by (auto simp: epoll_watch_def wanted_def)
qed

interpretation epollp: poller_contract "epoll_rel ctl interest" "epoll_updateChannel ctl" "epoll_removeChannel ctl"
    "epoll_watch interest" for ctl :: "'k epoll_ctl" and interest
proof (unfold_locales, goal_cases)
  case 1
  then show ?case by (rule epoll_new_law)
next
  case 2
  then show ?case by (intro epoll_add_law)
next
  case 3
  then show ?case by (rule epoll_change_law)
next
  case 4
  then show ?case by (rule epoll_remove_law)
next
  case 5
  then show ?case by (rule epoll_events_law)
next
  case 6
  then show ?case by (rule epoll_watch_law)
qed

section \<open>Both pollers from the start\<close>

definition reactor_new :: "(nat \<Rightarrow> Channel) \<Rightarrow> 'p \<Rightarrow> 'p reactor" where
  "reactor_new st p = \<lparr>chans = st, poller = p\<rparr>"

lemma poll_rel_new: "poll_rel (\<lambda>_. Gone) (reactor_new st PollPoller_new)"
  by (simp add: poll_rel_def reactor_new_def PollPoller_new_def)

lemma epoll_rel_new:
  assumes "epoll_ctl_works ctl interest" "interest k = (\<lambda>_. None)" "EPollPoller_new epollfd k = Inr p"
  shows "epoll_rel ctl interest (\<lambda>_. Gone) (reactor_new st p)"
  using assms by (auto simp: epoll_rel_def reactor_new_def EPollPoller_new_def split: if_splits)

text \<open>
  C7. Whatever sequence of calls the owners of the channels make within the protocol, both pollers
  carry it out without a failed assertion or a fatal error, and afterwards both wait for exactly the
  events the registered channels have enabled: the entries \<^verbatim>\<open>PollPoller\<close> passes to \<^verbatim>\<open>poll\<close> and the
  interest list \<^verbatim>\<open>EPollPoller\<close> keeps in the kernel are the same set.
\<close>

theorem pollers_watch_wanted:
  assumes "life_run ops (\<lambda>_. Gone) = Some L"
    and "epoll_ctl_works ctl interest" "interest k = (\<lambda>_. None)" "0 \<le> epollfd"
  shows "\<exists>s p s'. foldE (chan_apply poll_updateChannel poll_removeChannel) ops (reactor_new st PollPoller_new) = Inr s \<and>
    EPollPoller_new epollfd k = Inr p \<and>
    foldE (chan_apply (epoll_updateChannel ctl) (epoll_removeChannel ctl)) ops (reactor_new st p) = Inr s' \<and>
    poll_watch s = wanted L \<and> epoll_watch interest s' = wanted L"
proof -
  obtain p where p: "EPollPoller_new epollfd k = Inr p" using assms(4) by (simp add: EPollPoller_new_def)
  show ?thesis
    using p pollp.run_law [OF poll_rel_new assms(1)] epollp.run_law [OF epoll_rel_new [OF assms(2,3) p] assms(1)]
    by blast
qed

text \<open>A kernel that does what \<^verbatim>\<open>epoll_ctl\<close> documents.\<close>

fun model_ctl :: "(int \<Rightarrow> epoll_event option) epoll_ctl" where
  "model_ctl EPOLL_CTL_ADD n ev k = (if k n = None then (0, k(n \<mapsto> ev)) else (-1, k))"
| "model_ctl EPOLL_CTL_MOD n ev k = (if k n = None then (-1, k) else (0, k(n \<mapsto> ev)))"
| "model_ctl EPOLL_CTL_DEL n ev k = (if k n = None then (-1, k) else (0, k(n := None)))"

lemma model_ctl_works: "epoll_ctl_works model_ctl (\<lambda>k. k)"
  by (simp add: epoll_ctl_works_def)

theorem pollers_watch_wanted_witness:
  "\<exists>s s'. foldE (chan_apply poll_updateChannel poll_removeChannel)
      [ChNew 0 5, ChEnableReading 0, ChNew 1 6, ChEnableWriting 1, ChDisableAll 0, ChRemove 0]
      (reactor_new (\<lambda>_. Channel_new 0) PollPoller_new) = Inr s \<and>
    foldE (chan_apply (epoll_updateChannel model_ctl) (epoll_removeChannel model_ctl))
      [ChNew 0 5, ChEnableReading 0, ChNew 1 6, ChEnableWriting 1, ChDisableAll 0, ChRemove 0]
      (reactor_new (\<lambda>_. Channel_new 0) \<lparr>channels = (\<lambda>_. None), kernel = (\<lambda>_. None), eventList = 16\<rparr>) = Inr s' \<and>
    poll_watch s = {(6, 4)} \<and> epoll_watch (\<lambda>k. k) s' = {(6, 4)}"
proof -
  let ?ops = "[ChNew 0 5, ChEnableReading 0, ChNew 1 6, ChEnableWriting 1, ChDisableAll 0, ChRemove 0]"
  let ?L = "(\<lambda>_. Gone)(1 := Live 6 4)"
  have run: "life_run ?ops (\<lambda>_. Gone) = Some ?L"
    by (simp add: life_set_def event_consts fd_max_def) (simp add: fun_eq_iff)
  have w: "wanted ?L = {(6, 4)}" by (auto simp: wanted_def)
  from pollers_watch_wanted [OF run model_ctl_works, of "\<lambda>_. None" 3 "\<lambda>_. Channel_new 0"]
  show ?thesis unfolding w by (simp add: EPollPoller_new_def kInitEventListSize_def)
qed

section \<open>What poll reports\<close>

text \<open>The channels that were reported get their \<^verbatim>\<open>revents_\<close>, in order.\<close>

definition report :: "(32 word \<times> nat) list \<Rightarrow> (nat \<Rightarrow> Channel) \<Rightarrow> nat \<Rightarrow> Channel" where
  "report rs st = fold (\<lambda>(r, a) st. st(a := set_revents r (st a))) rs st"

lemma report_simps [simp]:
  "report [] st = st"
  "report ((r, a) # rs) st = report rs (st(a := set_revents r (st a)))"
  by (simp_all add: report_def)

lemma report_other: "a \<notin> snd ` set rs \<Longrightarrow> report rs st a = st a"
  by (induction rs arbitrary: st) auto

lemma report_fields:
  "fd (report rs st a) = fd (st a) \<and> events (report rs st a) = events (st a) \<and> index (report rs st a) = index (st a)"
  by (induction rs arbitrary: st) (auto simp: set_revents_def)

lemma report_revents:
  "(r, a) \<in> set rs \<Longrightarrow> distinct (map snd rs) \<Longrightarrow> revents (report rs st a) = r"
proof (induction rs arbitrary: st)
  case (Cons x rs)
  obtain r' a' where x: "x = (r', a')" by fastforce
  show ?case
  proof (cases "a' = a")
    case True
    then have "a \<notin> snd ` set rs" using Cons.prems(2) x by simp
    then have "(r, a) \<notin> set rs" by (force simp: image_iff)
    then show ?thesis using True Cons.prems(1) x report_other [OF \<open>a \<notin> _\<close>] by (simp add: set_revents_def)
  next
    case False
    then show ?thesis using Cons x by simp
  qed
qed simp

lemma epoll_fill_report:
  "(\<And>ev a. (ev, a) \<in> set evs \<Longrightarrow> chs (fd (st a)) = Some a) \<Longrightarrow>
     epoll_fillActiveChannels evs chs st act = Inr (act @ map snd evs, report evs st)"
proof (induction evs arbitrary: st act)
  case (Cons x evs)
  obtain ev a where x: "x = (ev, a)" by fastforce
  have "epoll_fillActiveChannels evs chs (st(a := set_revents ev (st a))) (act @ [a]) =
      Inr ((act @ [a]) @ map snd evs, report evs (st(a := set_revents ev (st a))))"
  proof (rule Cons.IH)
    fix ev' b assume "(ev', b) \<in> set evs"
    then show "chs (fd ((st(a := set_revents ev (st a))) b)) = Some b"
      using Cons.prems [of ev' b] by (auto simp: set_revents_def)
  qed
  then show ?case using Cons.prems [of ev a] x by simp
qed simp

lemma poll_fill_report:
  assumes "\<And>p. p \<in> set pfds \<Longrightarrow> 0 < sint (pfd_revents p) \<Longrightarrow> \<exists>a. chs (pfd_fd p) = Some a \<and> fd (st a) = pfd_fd p"
    and "n = int (length (filter (\<lambda>p. 0 < sint (pfd_revents p)) pfds))"
    and "rs = map (\<lambda>p. (scast (pfd_revents p), the (chs (pfd_fd p)))) (filter (\<lambda>p. 0 < sint (pfd_revents p)) pfds)"
  shows "poll_fillActiveChannels n pfds chs st act = Inr (act @ map snd rs, report rs st)"
  using assms
proof (induction pfds arbitrary: n rs st act)
  case (Cons p pfds)
  show ?case
  proof (cases "0 < sint (pfd_revents p)")
    case True
    then obtain a where a: "chs (pfd_fd p) = Some a" "fd (st a) = pfd_fd p" using Cons.prems(1) by auto
    let ?st = "st(a := set_revents (scast (pfd_revents p)) (st a))"
    let ?n = "int (length (filter (\<lambda>p. 0 < sint (pfd_revents p)) pfds))"
    let ?rs = "map (\<lambda>p. (scast (pfd_revents p) :: 32 word, the (chs (pfd_fd p)))) (filter (\<lambda>p. 0 < sint (pfd_revents p)) pfds)"
    have "poll_fillActiveChannels ?n pfds chs ?st (act @ [a]) = Inr ((act @ [a]) @ map snd ?rs, report ?rs ?st)"
    proof (rule Cons.IH)
      fix q assume "q \<in> set pfds" "0 < sint (pfd_revents q)"
      then obtain b where "chs (pfd_fd q) = Some b" "fd (st b) = pfd_fd q" using Cons.prems(1) by auto
      then show "\<exists>b. chs (pfd_fd q) = Some b \<and> fd (?st b) = pfd_fd q" by (auto simp: set_revents_def)
    qed simp_all
    then show ?thesis using True a Cons.prems(2,3) by simp
  next
    case False
    then show ?thesis
    proof (cases "0 < n")
      case True
      then show ?thesis using False Cons by simp
    next
      case n: False
      then show ?thesis using False Cons.prems(2,3) by (simp add: filter_empty_conv)
    qed
  qed
qed (simp_all add: report_def)

text \<open>
  What \<^verbatim>\<open>epoll_wait\<close> documents: at most as many events as there is room for, one per descriptor of
  the interest list, with the data registered for it.
\<close>

definition epoll_result_ok :: "(int \<Rightarrow> epoll_event option) \<Rightarrow> nat \<Rightarrow> epoll_event list \<Rightarrow> bool" where
  "epoll_result_ok ints room evs \<longleftrightarrow> length evs \<le> room \<and> distinct (map snd evs) \<and>
     (\<forall>(ev, a)\<in>set evs. \<exists>n e. ints n = Some (e, a))"

text \<open>
  What \<^verbatim>\<open>poll\<close> documents: entries with a negative descriptor are ignored, and the number returned
  counts the entries with events; no bit above the fifteenth is ever set.
\<close>

definition poll_result_ok :: "pollfd list \<Rightarrow> int \<Rightarrow> 16 word list \<Rightarrow> bool" where
  "poll_result_ok pfds n revs \<longleftrightarrow> length revs = length pfds \<and> n = int (length (filter (\<lambda>r. r \<noteq> 0) revs)) \<and>
     (\<forall>i < length pfds. 0 \<le> sint (revs ! i) \<and> (pfd_fd (pfds ! i) < 0 \<longrightarrow> revs ! i = 0))"

lemma epoll_rel_report:
  assumes "epoll_rel ctl interest L s"
  shows "epoll_rel ctl interest L (s\<lparr>chans := report rs (chans s), poller := (poller s)\<lparr>eventList := n\<rparr>\<rparr>)"
proof -
  have "fresh_ok (report rs (chans s) a) m" if "L a = Fresh m" for a m
    using epoll_relD(2) [OF assms that] report_fields [of rs "chans s" a] by (simp add: fresh_ok_def)
  moreover have "reg_ok (interest (kernel (poller s))) ((poller s)\<lparr>eventList := n\<rparr>) a (report rs (chans s) a) m e"
    if "L a = Live m e" for a m e
    using epoll_relD(3) [OF assms that] report_fields [of rs "chans s" a] by (simp add: reg_ok_def)
  ultimately show ?thesis using assms by (simp add: epoll_rel_def)
qed

lemma epoll_poll_ok:
  assumes "epoll_rel ctl interest L s" "epoll_result_ok (interest (kernel (poller s))) (eventList (poller s)) evs"
  shows "\<exists>n. epoll_poll (int (length evs)) evs s =
    Inr (map snd evs, s\<lparr>chans := report evs (chans s), poller := (poller s)\<lparr>eventList := n\<rparr>\<rparr>)"
proof (cases "evs = []")
  case True
  have "s = s\<lparr>poller := (poller s)\<lparr>eventList := eventList (poller s)\<rparr>\<rparr>" by simp
  with True show ?thesis by (intro exI [of _ "eventList (poller s)"]) (simp add: epoll_poll_def)
next
  case False
  have "channels (poller s) (fd (chans s a)) = Some a" if "(ev, a) \<in> set evs" for ev a
  proof -
    obtain n e where "interest (kernel (poller s)) n = Some (e, a)"
      using assms(2) \<open>(ev, a) \<in> set evs\<close> by (auto simp: epoll_result_ok_def)
    then show ?thesis using epoll_relD(5) [OF assms(1)] epoll_live(1,6) [OF assms(1)] by blast
  qed
  then have "epoll_fillActiveChannels evs (channels (poller s)) (chans s) [] = Inr ([] @ map snd evs, report evs (chans s))"
    by (rule epoll_fill_report)
  then have "epoll_fillActiveChannels evs (channels (poller s)) (chans s) [] = Inr (map snd evs, report evs (chans s))"
    by simp
  moreover have "length evs \<le> eventList (poller s)" using assms(2) by (simp add: epoll_result_ok_def)
  ultimately show ?thesis using False
    by (intro exI [of _ "if length evs = eventList (poller s) then eventList (poller s) * 2 mod size_mod
        else eventList (poller s)"]) (simp add: epoll_poll_def Let_def)
qed

lemma poll_rel_report:
  assumes "poll_rel L s" "length pfds = length (pollfds (poller s))"
    and "\<And>i. i < length pfds \<Longrightarrow> pfd_fd (pfds ! i) = pfd_fd (pollfds (poller s) ! i) \<and>
      pfd_events (pfds ! i) = pfd_events (pollfds (poller s) ! i)"
  shows "poll_rel L (s\<lparr>chans := report rs (chans s), poller := (poller s)\<lparr>pollfds := pfds\<rparr>\<rparr>)"
proof -
  have "fresh_ok (report rs (chans s) a) m" if "L a = Fresh m" for a m
    using poll_relD(1) [OF assms(1) that] report_fields [of rs "chans s" a] by (simp add: fresh_ok_def)
  moreover have "slot_ok ((poller s)\<lparr>pollfds := pfds\<rparr>) a (report rs (chans s) a) m e" if "L a = Live m e" for a m e
    using poll_relD(2) [OF assms(1) that] report_fields [of rs "chans s" a] assms(2,3)
    by (simp add: slot_ok_def entry_ok_def)
  moreover have "\<exists>a n e. L a = Live n e \<and> index (report rs (chans s) a) = int i" if "i < length pfds" for i
    using poll_relD(4) [OF assms(1), of i] that assms(2) report_fields [of rs "chans s"] by simp
  ultimately show ?thesis
    using poll_relD(3) [OF assms(1)] unfolding poll_rel_def by simp
qed

text \<open>
  C37. After any calls within the protocol, \<^verbatim>\<open>EPollPoller::poll\<close> turns whatever \<^verbatim>\<open>epoll_wait\<close> returns
  into the list of active channels without a failed assertion: every reported channel is still
  registered, gets exactly the reported events, no other channel changes, and the interest list is
  as before.
\<close>

theorem epoll_reports_ready:
  assumes "epoll_ctl_works ctl interest" "interest k = (\<lambda>_. None)" "EPollPoller_new epollfd k = Inr p"
    and "life_run ops (\<lambda>_. Gone) = Some L"
    and "foldE (chan_apply (epoll_updateChannel ctl) (epoll_removeChannel ctl)) ops (reactor_new st p) = Inr s"
    and "epoll_result_ok (interest (kernel (poller s))) (eventList (poller s)) evs"
  shows "\<exists>s'. epoll_poll (int (length evs)) evs s = Inr (map snd evs, s') \<and>
    (\<forall>ev a. (ev, a) \<in> set evs \<longrightarrow> revents (chans s' a) = ev \<and> (\<exists>n e. L a = Live n e)) \<and>
    (\<forall>a. a \<notin> snd ` set evs \<longrightarrow> chans s' a = chans s a) \<and> epoll_watch interest s' = wanted L"
proof -
  have r: "epoll_rel ctl interest L s"
    using epollp.run_law [OF epoll_rel_new [OF assms(1-3)] assms(4), of st] assms(5) by auto
  obtain n where n: "epoll_poll (int (length evs)) evs s =
      Inr (map snd evs, s\<lparr>chans := report evs (chans s), poller := (poller s)\<lparr>eventList := n\<rparr>\<rparr>)"
    using epoll_poll_ok [OF r assms(6)] by blast
  have "\<exists>n e. L a = Live n e" if "(ev, a) \<in> set evs" for ev a
    using that assms(6) epoll_relD(5) [OF r] by (fastforce simp: epoll_result_ok_def)
  then show ?thesis
    using n epollp.watch_law [OF epoll_rel_report [OF r, where rs = evs and n = n]] report_revents [where rs = evs and st = "chans s"]
      report_other [where rs = evs and st = "chans s"] assms(6) by (auto simp: epoll_result_ok_def)
qed

lemma poll_result_count:
  assumes "length revs = length pfds" "\<And>r. r \<in> set revs \<Longrightarrow> 0 \<le> sint r"
  shows "length (filter (\<lambda>p. 0 < sint (pfd_revents p)) (map2 (\<lambda>p r. p\<lparr>pfd_revents := r\<rparr>) pfds revs)) =
    length (filter (\<lambda>r. r \<noteq> 0) revs)"
proof -
  have "0 < sint r \<longleftrightarrow> r \<noteq> 0" if "r \<in> set revs" for r
    using assms(2) [OF that] signed_eq_0_iff [of r] by (auto simp: less_le)
  then have "filter (\<lambda>r. r \<noteq> 0) revs = filter (\<lambda>r. 0 < sint r) revs" by (auto intro: filter_cong)
  moreover have "length (filter (\<lambda>p. 0 < sint (pfd_revents p)) (map2 (\<lambda>p r. p\<lparr>pfd_revents := r\<rparr>) pfds revs)) =
      length (filter (\<lambda>r. 0 < sint r) revs)"
    using assms(1) by (induction revs pfds rule: list_induct2) auto
  ultimately show ?thesis by simp
qed

text \<open>The owner of an entry that poll looks at.\<close>

lemma poll_entry_owner:
  assumes "poll_rel L s" "i < length (pollfds (poller s))" "0 \<le> pfd_fd (pollfds (poller s) ! i)"
  shows "\<exists>a e. L a = Live (pfd_fd (pollfds (poller s) ! i)) e \<and> index (chans s a) = int i \<and>
    channels (poller s) (pfd_fd (pollfds (poller s) ! i)) = Some a \<and> fd (chans s a) = pfd_fd (pollfds (poller s) ! i)"
proof -
  obtain a n e where a: "L a = Live n e" "index (chans s a) = int i" using poll_relD(4) [OF assms(1,2)] by blast
  have "slot_ok (poller s) a (chans s a) n e" using poll_relD(2) [OF assms(1) a(1)] .
  moreover from this have "pfd_fd (pollfds (poller s) ! i) = n"
    using a(2) assms(3) by (auto simp: slot_ok_def entry_ok_def split: if_splits)
  ultimately show ?thesis using a by (auto simp: slot_ok_def)
qed

lemma poll_entries_distinct:
  assumes "poll_rel L s"
  shows "distinct (map pfd_fd (pollfds (poller s)))"
  unfolding distinct_conv_nth
proof (intro allI impI)
  fix i j
  let ?P = "pollfds (poller s)"
  assume ij: "i < length (map pfd_fd ?P)" "j < length (map pfd_fd ?P)" "i \<noteq> j"
  then obtain a n e b m f where ab: "L a = Live n e" "index (chans s a) = int i" "L b = Live m f" "index (chans s b) = int j"
    using poll_relD(4) [OF assms, of i] poll_relD(4) [OF assms, of j] by auto
  have e: "entry_ok (?P ! i) n e" "0 \<le> n" "channels (poller s) n = Some a"
      "entry_ok (?P ! j) m f" "0 \<le> m" "channels (poller s) m = Some b"
    using poll_relD(2) [OF assms ab(1)] poll_relD(2) [OF assms ab(3)] ab(2,4) by (simp_all add: slot_ok_def)
  have "n \<noteq> m" using e(3,6) ab(2,4) ij(3) by auto
  then show "map pfd_fd ?P ! i \<noteq> map pfd_fd ?P ! j"
    using e ij by (auto simp: entry_ok_def split: if_splits)
qed

lemma poll_poll_ok:
  assumes "poll_rel L s" "poll_result_ok (pollfds (poller s)) n revs"
  defines "pfds \<equiv> map2 (\<lambda>p r. p\<lparr>pfd_revents := r\<rparr>) (pollfds (poller s)) revs"
  defines "rs \<equiv> map (\<lambda>p. (scast (pfd_revents p) :: 32 word, the (channels (poller s) (pfd_fd p))))
    (filter (\<lambda>p. 0 < sint (pfd_revents p)) pfds)"
  shows "poll_poll n revs s = Inr (map snd rs, s\<lparr>chans := report rs (chans s), poller := (poller s)\<lparr>pollfds := pfds\<rparr>\<rparr>)"
    and "length rs = nat n" "distinct (map snd rs)"
proof -
  let ?P = "pollfds (poller s)" and ?act = "filter (\<lambda>p. 0 < sint (pfd_revents p)) pfds"
  have l: "length revs = length ?P" "\<And>i. i < length ?P \<Longrightarrow> pfds ! i = (?P ! i)\<lparr>pfd_revents := revs ! i\<rparr>" "length pfds = length ?P"
    using assms(2) by (simp_all add: poll_result_ok_def pfds_def)
  have z: "0 \<le> sint r" if "r \<in> set revs" for r
    using that assms(2) l(1) by (auto simp: poll_result_ok_def in_set_conv_nth)
  have n: "n = int (length ?act)"
    using assms(2) poll_result_count [OF l(1)] z by (simp add: pfds_def poll_result_ok_def)
  then show "length rs = nat n" by (simp add: rs_def)
  have own: "\<exists>a. channels (poller s) (pfd_fd p) = Some a \<and> fd (chans s a) = pfd_fd p"
    if "p \<in> set pfds" "0 < sint (pfd_revents p)" for p
  proof -
    obtain i where i: "i < length ?P" "p = (?P ! i)\<lparr>pfd_revents := revs ! i\<rparr>"
      using \<open>p \<in> set pfds\<close> l(2,3) by (auto simp: in_set_conv_nth)
    then have "0 \<le> pfd_fd (?P ! i)" using assms(2) \<open>0 < sint _\<close> by (auto simp: poll_result_ok_def not_less [symmetric])
    then show ?thesis using poll_entry_owner [OF assms(1) i(1)] i(2) by auto
  qed
  have fill: "poll_fillActiveChannels n pfds (channels (poller s)) (chans s) [] = Inr ([] @ map snd rs, report rs (chans s))"
    by (rule poll_fill_report [OF own n rs_def [THEN meta_eq_to_obj_eq]])
  show "poll_poll n revs s = Inr (map snd rs, s\<lparr>chans := report rs (chans s), poller := (poller s)\<lparr>pollfds := pfds\<rparr>\<rparr>)"
  proof (cases "0 < n")
    case True
    then show ?thesis using fill by (simp add: poll_poll_def Let_def pfds_def [symmetric] reactor_swap)
  next
    case False
    then have "?act = []" using n by simp
    then have "rs = []" by (simp add: rs_def)
    then show ?thesis using False by (simp add: poll_poll_def Let_def pfds_def [symmetric])
  qed
  have "map pfd_fd pfds = map pfd_fd ?P" using l(2,3) by (intro nth_equalityI) simp_all
  then have "distinct (map pfd_fd ?act)"
    using poll_entries_distinct [OF assms(1)] distinct_map_filter [of pfd_fd pfds] by simp
  moreover have "inj_on (\<lambda>n. the (channels (poller s) n)) (pfd_fd ` set ?act)"
  proof (intro inj_onI, elim imageE)
    fix x y p q
    assume "the (channels (poller s) x) = the (channels (poller s) y)" "x = pfd_fd p" "y = pfd_fd q"
      and "p \<in> set ?act" "q \<in> set ?act"
    then show "x = y" using own [of p] own [of q] by auto
  qed
  ultimately have "distinct (map (\<lambda>n. the (channels (poller s) n)) (map pfd_fd ?act))"
    by (simp only: distinct_map set_map)
  then show "distinct (map snd rs)" by (simp add: rs_def comp_def)
qed

text \<open>
  The same for \<^verbatim>\<open>PollPoller::poll\<close>: the active channels are those of the entries for which
  \<^verbatim>\<open>poll\<close> reported events, in the order of the entries; the loop that stops after \<^verbatim>\<open>numEvents\<close>
  entries misses none of them.
\<close>

theorem poll_reports_ready:
  assumes "life_run ops (\<lambda>_. Gone) = Some L"
    and "foldE (chan_apply poll_updateChannel poll_removeChannel) ops (reactor_new st PollPoller_new) = Inr s"
    and "poll_result_ok (pollfds (poller s)) n revs"
  shows "\<exists>act s'. poll_poll n revs s = Inr (act, s') \<and> length act = nat n \<and> distinct act \<and>
    (\<forall>i < length revs. revs ! i \<noteq> 0 \<longrightarrow>
       (\<exists>a e. a \<in> set act \<and> L a = Live (pfd_fd (pollfds (poller s) ! i)) e \<and> revents (chans s' a) = scast (revs ! i))) \<and>
    (\<forall>a. a \<notin> set act \<longrightarrow> chans s' a = chans s a) \<and> poll_watch s' = wanted L"
proof -
  let ?P = "pollfds (poller s)"
  let ?pfds = "map2 (\<lambda>p r. p\<lparr>pfd_revents := r\<rparr>) ?P revs"
  define rs where "rs = map (\<lambda>p. (scast (pfd_revents p) :: 32 word, the (channels (poller s) (pfd_fd p))))
    (filter (\<lambda>p. 0 < sint (pfd_revents p)) ?pfds)"
  have r: "poll_rel L s" using pollp.run_law [OF poll_rel_new assms(1), of st] assms(2) by auto
  note ok = poll_poll_ok [OF r assms(3), folded rs_def]
  have len: "length revs = length ?P" using assms(3) by (simp add: poll_result_ok_def)
  let ?s' = "s\<lparr>chans := report rs (chans s), poller := (poller s)\<lparr>pollfds := ?pfds\<rparr>\<rparr>"
  have "poll_rel L ?s'" using len by (intro poll_rel_report [OF r]) simp_all
  then have w: "poll_watch ?s' = wanted L" by (rule pollp.watch_law)
  have "\<exists>a e. a \<in> set (map snd rs) \<and> L a = Live (pfd_fd (?P ! i)) e \<and> revents (chans ?s' a) = scast (revs ! i)"
    if i: "i < length revs" "revs ! i \<noteq> 0" for i
  proof -
    have "sint (revs ! i) \<noteq> 0" using i(2) signed_eq_0_iff [of "revs ! i"] by blast
    moreover have "0 \<le> sint (revs ! i)" "\<not> pfd_fd (?P ! i) < 0" using assms(3) i len by (auto simp: poll_result_ok_def)
    ultimately have nn: "0 \<le> pfd_fd (?P ! i)" "0 < sint (revs ! i)" by linarith+
    then obtain a e where a: "L a = Live (pfd_fd (?P ! i)) e" "channels (poller s) (pfd_fd (?P ! i)) = Some a"
      using poll_entry_owner [OF r, of i] i len by auto
    have "?pfds ! i \<in> set ?pfds" using i len by (intro nth_mem) simp
    moreover have "?pfds ! i = (?P ! i)\<lparr>pfd_revents := revs ! i\<rparr>" using i len by simp
    ultimately have "(?P ! i)\<lparr>pfd_revents := revs ! i\<rparr> \<in> set (filter (\<lambda>p. 0 < sint (pfd_revents p)) ?pfds)"
      using nn(2) by (simp del: set_map set_zip)
    from imageI [OF this, of "\<lambda>p. (scast (pfd_revents p) :: 32 word, the (channels (poller s) (pfd_fd p)))"]
    have "(scast (revs ! i), a) \<in> set rs" using a(2) by (simp add: rs_def)
    then show ?thesis using a(1) report_revents ok(3) by force
  qed
  moreover have "chans ?s' a = chans s a" if "a \<notin> set (map snd rs)" for a
    using that report_other [of a rs "chans s"] by simp
  moreover have "length (map snd rs) = nat n" using ok(2) by simp
  ultimately show ?thesis using ok(1,3) w by blast
qed

lemmas chan_defs = chan_apply.simps enableReading_def Channel_update_def on_channel_def Channel_new_def
  set_index_def reactor_new_def event_consts

theorem epoll_reports_ready_witness:
  "\<exists>s s'. foldE (chan_apply (epoll_updateChannel model_ctl) (epoll_removeChannel model_ctl))
      [ChNew 0 5, ChEnableReading 0]
      (reactor_new (\<lambda>_. Channel_new 0) \<lparr>channels = (\<lambda>_. None), kernel = (\<lambda>_. None), eventList = 16\<rparr>) = Inr s \<and>
    epoll_poll 1 [(POLLIN, 0)] s = Inr ([0], s') \<and> revents (chans s' 0) = POLLIN"
proof -
  let ?ops = "[ChNew 0 5, ChEnableReading 0]" and ?L = "(\<lambda>_. Gone)(0 := Live 5 3)"
  have run: "life_run ?ops (\<lambda>_. Gone) = Some ?L" by (simp add: life_set_def event_consts fd_max_def)
  have p: "EPollPoller_new 3 (\<lambda>_. None) = Inr \<lparr>channels = (\<lambda>_. None), kernel = (\<lambda>_. None), eventList = 16\<rparr>"
    by (simp add: EPollPoller_new_def kInitEventListSize_def)
  let ?p = "\<lparr>channels = (\<lambda>_. None), kernel = (\<lambda>_. None), eventList = 16\<rparr> :: (int \<Rightarrow> epoll_event option) EPollPoller"
  obtain s where s: "foldE (chan_apply (epoll_updateChannel model_ctl) (epoll_removeChannel model_ctl)) ?ops
      (reactor_new (\<lambda>_. Channel_new 0) ?p) = Inr s" "eventList (poller s) = 16" "kernel (poller s) 5 = Some (3, 0)"
    by (simp add: chan_defs epoll_updateChannel_def epoll_update_def kNew_def kDeleted_def Let_def)
  have "epoll_result_ok (kernel (poller s)) (eventList (poller s)) [(POLLIN, 0)]"
    using s(2,3) by (auto simp: epoll_result_ok_def)
  from epoll_reports_ready [OF model_ctl_works refl p run s(1) this] show ?thesis using s(1) by auto
qed

theorem poll_reports_ready_witness:
  "\<exists>s act s'. foldE (chan_apply poll_updateChannel poll_removeChannel) [ChNew 0 5, ChEnableReading 0]
      (reactor_new (\<lambda>_. Channel_new 0) PollPoller_new) = Inr s \<and>
    poll_poll 1 [1] s = Inr (act, s') \<and> length act = 1"
proof -
  let ?ops = "[ChNew 0 5, ChEnableReading 0]" and ?L = "(\<lambda>_. Gone)(0 := Live 5 3)"
  have run: "life_run ?ops (\<lambda>_. Gone) = Some ?L" by (simp add: life_set_def event_consts fd_max_def)
  obtain s where s: "foldE (chan_apply poll_updateChannel poll_removeChannel) ?ops
      (reactor_new (\<lambda>_. Channel_new 0) PollPoller_new) = Inr s"
      "pollfds (poller s) = [\<lparr>pfd_fd = 5, pfd_events = 3, pfd_revents = 0\<rparr>]"
    by (simp add: chan_defs poll_updateChannel_def PollPoller_new_def Let_def ints32_def in_int32_def to_int32_def)
  have "poll_result_ok (pollfds (poller s)) 1 [1]" using s(2) by (simp add: poll_result_ok_def)
  from poll_reports_ready [OF run s(1) this] show ?thesis using s(1) by auto
qed

text \<open>
  A difference the protocol leaves out: \<^verbatim>\<open>EPollPoller::removeChannel\<close> resets the index of the channel,
  \<^verbatim>\<open>PollPoller::removeChannel\<close> does not, so a channel that is enabled again after it was removed is
  registered by the one and fails an assertion of the other.
\<close>

lemma poll_removed_channel_dead:
  assumes "poll_rel L s" "L a = Live n 0"
    and "poll_removeChannel a (on_channel a (\<lambda>ch. ch\<lparr>addedToLoop := False\<rparr>) s) = Inr s'"
  shows "enableReading poll_updateChannel a s' = Inl AssertFail"
proof -
  have sl: "slot_ok (poller s) a (chans s a) n 0" using poll_relD(2) [OF assms(1,2)] .
  define m where "m = length (pollfds (poller s)) - 1"
  have m: "Suc m = length (pollfds (poller s))" using sl unfolding slot_ok_def m_def by linarith
  then obtain b nb eb where b: "L b = Live nb eb" "index (chans s b) = int m"
    using poll_relD(4) [OF assms(1), of m] by auto
  have "fd (chans s' a) = n" "0 \<le> index (chans s' a)" "channels (poller s') n = None"
    using assms(3) sl poll_remove_step [OF assms(1,2) refl m b] by (auto simp: slot_ok_def split: if_splits)
  then show ?thesis
    by (simp add: enableReading_def Channel_update_def on_channel_def poll_updateChannel_def Let_def)
qed

section \<open>What else the owner of a channel relies on\<close>

text \<open>
  Neither poller touches more of a channel than its index, and neither depends on the parts of a
  channel that only the dispatch uses.
\<close>

definition dispatch_view :: "Channel \<Rightarrow> 32 word \<times> bool \<times> bool \<times> bool \<times> bool \<times> bool" where
  "dispatch_view ch = (revents ch, tied ch, readCallback ch, writeCallback ch, closeCallback ch, errorCallback ch)"

locale reactor_contract = poller_contract +
  assumes touch_law: "rel L s \<Longrightarrow> (\<And>ch. fd (f ch) = fd ch \<and> events (f ch) = events ch \<and> index (f ch) = index ch) \<Longrightarrow>
      rel L (on_channel a f s)"
    and upd_view: "upd a s = Inr s' \<Longrightarrow> dispatch_view (chans s' b) = dispatch_view (chans s b)"
    and rem_view: "rem a s = Inr s' \<Longrightarrow> dispatch_view (chans s' b) = dispatch_view (chans s b)"
begin

lemma set_events_view:
  assumes "rel (L(a := l)) s" "life_set f a (L(a := l)) = Some (L(a := l'))" "\<And>e. e \<in> event_masks \<Longrightarrow> f e \<in> event_masks"
  shows "\<exists>s'. Channel_update upd a (on_channel a (\<lambda>ch. ch\<lparr>events := f (events ch)\<rparr>) s) = Inr s' \<and>
    rel (L(a := l')) s' \<and> dispatch_view (chans s' a) = dispatch_view (chans s a)"
proof -
  obtain s' where s': "Channel_update upd a (on_channel a (\<lambda>ch. ch\<lparr>events := f (events ch)\<rparr>) s) = Inr s'"
      "rel (L(a := l')) s'"
    using set_events_law [OF assms] by blast
  from upd_view [OF s'(1) [unfolded Channel_update_def]] have "dispatch_view (chans s' a) = dispatch_view (chans s a)"
    by (simp add: on_channel_def dispatch_view_def)
  with s' show ?thesis by blast
qed

lemma channel_calls:
  assumes "rel (L(a := Live n e)) s"
  shows "\<exists>s'. enableReading upd a s = Inr s' \<and> rel (L(a := Live n (e OR kReadEvent))) s' \<and>
      dispatch_view (chans s' a) = dispatch_view (chans s a)"
    and "\<exists>s'. disableReading upd a s = Inr s' \<and> rel (L(a := Live n (e AND NOT kReadEvent))) s' \<and>
      dispatch_view (chans s' a) = dispatch_view (chans s a)"
    and "\<exists>s'. enableWriting upd a s = Inr s' \<and> rel (L(a := Live n (e OR kWriteEvent))) s' \<and>
      dispatch_view (chans s' a) = dispatch_view (chans s a)"
    and "\<exists>s'. disableWriting upd a s = Inr s' \<and> rel (L(a := Live n (e AND NOT kWriteEvent))) s' \<and>
      dispatch_view (chans s' a) = dispatch_view (chans s a)"
    and "\<exists>s'. disableAll upd a s = Inr s' \<and> rel (L(a := Live n 0)) s' \<and>
      dispatch_view (chans s' a) = dispatch_view (chans s a)"
  using set_events_view [OF assms, where f = "\<lambda>e. e OR kReadEvent"]
    set_events_view [OF assms, where f = "\<lambda>e. e AND NOT kReadEvent"]
    set_events_view [OF assms, where f = "\<lambda>e. e OR kWriteEvent"]
    set_events_view [OF assms, where f = "\<lambda>e. e AND NOT kWriteEvent"]
    set_events_view [OF assms, where f = "\<lambda>e. kNoneEvent"]
  by (simp_all add: life_set_def enableReading_def disableReading_def enableWriting_def disableWriting_def
      disableAll_def kNoneEvent_def)

lemma first_enableReading:
  assumes "rel (L(a := Fresh n)) s" "\<And>b m e. b \<noteq> a \<Longrightarrow> L b = Live m e \<Longrightarrow> m \<noteq> n"
  shows "\<exists>s'. enableReading upd a s = Inr s' \<and> rel (L(a := Live n kReadEvent)) s' \<and>
      dispatch_view (chans s' a) = dispatch_view (chans s a)"
proof -
  have "life_set (\<lambda>e. e OR kReadEvent) a (L(a := Fresh n)) = Some (L(a := Live n kReadEvent))"
    using assms(2) by (auto simp: life_set_def kReadEvent_def)
  from set_events_view [OF assms(1) this] show ?thesis by (simp add: enableReading_def)
qed

lemma channel_removed:
  assumes "rel (L(a := Live n 0)) s"
  shows "\<exists>s'. Channel_remove rem a s = Inr s' \<and> rel (L(a := Gone)) s' \<and>
      dispatch_view (chans s' a) = dispatch_view (chans s a)"
proof -
  obtain s' where s': "rem a (on_channel a (\<lambda>ch. ch\<lparr>addedToLoop := False\<rparr>) s) = Inr s'" "rel (L(a := Gone)) s'"
    using remove_law [OF assms, of a n] by auto
  have "isNoneEvent (chans s a)" using events_law [OF assms, of a n 0] by (simp add: isNoneEvent_def kNoneEvent_def)
  with s' rem_view [OF s'(1), of a] show ?thesis
    by (auto simp: Channel_remove_def on_channel_def dispatch_view_def)
qed

end

lemma poll_update_view:
  assumes "poll_updateChannel a s = Inr s'"
  shows "dispatch_view (chans s' b) = dispatch_view (chans s b)"
  using assms
  by (auto simp: poll_updateChannel_def Let_def assert_that_def ints32_def bindE_def on_channel_def set_index_def
      dispatch_view_def split: if_splits sum.splits)

lemma poll_remove_view:
  assumes "poll_removeChannel a s = Inr s'"
  shows "dispatch_view (chans s' b) = dispatch_view (chans s b)"
  using assms
  by (auto simp: poll_removeChannel_def Let_def assert_that_def bindE_def on_channel_def set_index_def
      dispatch_view_def split: if_splits sum.splits option.splits)

lemma epoll_update_chans: "epoll_update ctl oper a s = Inr s' \<Longrightarrow> chans s' = chans s"
  by (auto simp: epoll_update_def Let_def split: if_splits prod.splits)

lemma epoll_updateChannel_view:
  assumes "epoll_updateChannel ctl a s = Inr s'"
  shows "dispatch_view (chans s' b) = dispatch_view (chans s b)"
  using assms
  by (auto simp: epoll_updateChannel_def Let_def assert_that_def bindE_def on_channel_def set_index_def
      dispatch_view_def dest!: epoll_update_chans split: if_splits sum.splits)

lemma epoll_remove_view:
  assumes "epoll_removeChannel ctl a s = Inr s'"
  shows "dispatch_view (chans s' b) = dispatch_view (chans s b)"
  using assms
  by (auto simp: epoll_removeChannel_def Let_def assert_that_def bindE_def on_channel_def set_index_def
      dispatch_view_def dest!: epoll_update_chans split: if_splits sum.splits)

lemma poll_touch:
  assumes "poll_rel L s" "\<And>ch. fd (f ch) = fd ch \<and> events (f ch) = events ch \<and> index (f ch) = index ch"
  shows "poll_rel L (on_channel a f s)"
proof -
  have f: "fd (chans (on_channel a f s) b) = fd (chans s b) \<and> events (chans (on_channel a f s) b) = events (chans s b) \<and>
      index (chans (on_channel a f s) b) = index (chans s b)" for b
    using assms(2) by (simp add: on_channel_def)
  have p: "poller (on_channel a f s) = poller s" by (simp add: on_channel_def)
  show ?thesis using assms(1) f p unfolding poll_rel_def fresh_ok_def slot_ok_def by simp
qed

lemma epoll_touch:
  assumes "epoll_rel ctl interest L s" "\<And>ch. fd (f ch) = fd ch \<and> events (f ch) = events ch \<and> index (f ch) = index ch"
  shows "epoll_rel ctl interest L (on_channel a f s)"
proof -
  have f: "fd (chans (on_channel a f s) b) = fd (chans s b) \<and> events (chans (on_channel a f s) b) = events (chans s b) \<and>
      index (chans (on_channel a f s) b) = index (chans s b)" for b
    using assms(2) by (simp add: on_channel_def)
  have p: "poller (on_channel a f s) = poller s" by (simp add: on_channel_def)
  show ?thesis using assms(1) f p unfolding epoll_rel_def fresh_ok_def reg_ok_def by simp
qed

interpretation pollr: reactor_contract poll_rel poll_updateChannel poll_removeChannel poll_watch
  by unfold_locales (use poll_touch poll_update_view poll_remove_view in blast)+

interpretation epollr: reactor_contract "epoll_rel ctl interest" "epoll_updateChannel ctl" "epoll_removeChannel ctl"
    "epoll_watch interest" for ctl :: "'k epoll_ctl" and interest
  by unfold_locales (use epoll_touch epoll_updateChannel_view epoll_remove_view in blast)+

end
