(* ===== verification/TimerQueue.thy ===== *)
theory TimerQueue
  imports Timestamp "HOL-Library.Product_Lexorder"
begin

text \<open>
  \<^verbatim>\<open>muduo/net/Timer\<close>, \<^verbatim>\<open>TimerId\<close>, \<^verbatim>\<open>TimerQueue\<close> and the timer functions of
  \<^verbatim>\<open>muduo/net/EventLoop\<close>, as they run in the loop thread. Timers live on a heap indexed by address; a
  deleted timer is no longer there and touching it is undefined behaviour. What \<^verbatim>\<open>new\<close> returns is an
  argument \<open>alloc\<close>, the clock is an argument \<open>clk\<close> (its \<open>n\<close>-th reading), and what a callback does to
  the queue is an argument \<open>acts\<close>: a list of calls on the loop, which may add and cancel timers while
  the queue is running expired ones. The sets ordered by \<^verbatim>\<open>operator<\<close> are sorted lists; the sequence
  counter, an \<^verbatim>\<open>AtomicInt64\<close> incremented once per timer, is an \<open>int\<close>. \<open>ran\<close> records the
  timers whose callback was run and \<open>armed\<close> what the timerfd was last set to, with the clock reading.
\<close>

section \<open>Timers\<close>

record 'c Timer =
  callback :: 'c
  expiration :: Timestamp
  interval :: rat
  repeats :: bool
  sequence :: int

definition Timer_new :: "'c \<Rightarrow> Timestamp \<Rightarrow> rat \<Rightarrow> int \<Rightarrow> 'c Timer" where
  "Timer_new cb when_ivl ivl seq =
     \<lparr>callback = cb, expiration = when_ivl, interval = ivl, repeats = (ivl > 0), sequence = seq\<rparr>"

definition Timer_restart :: "Timestamp \<Rightarrow> 'c Timer \<Rightarrow> 'c Timer res" where
  "Timer_restart now t =
     (if repeats t then bindE (addTime now (interval t)) (\<lambda>e. Inr (t\<lparr>expiration := e\<rparr>))
      else Inr (t\<lparr>expiration := Timestamp_invalid\<rparr>))"

record TimerId =
  tid_timer :: nat
  tid_sequence :: int

section \<open>The queue\<close>

record 'c TimerQueue =
  timers :: "(Timestamp \<times> nat) list"
  activeTimers :: "(nat \<times> int) list"
  callingExpiredTimers :: bool
  cancelingTimers :: "(nat \<times> int) list"
  timer_heap :: "nat \<Rightarrow> 'c Timer option"
  numCreated :: int
  armed :: "(Timestamp \<times> (int \<times> int)) option"
  reads :: nat
  ran :: "(nat \<times> int) list"

definition TimerQueue_new :: "nat \<Rightarrow> int \<Rightarrow> 'c TimerQueue" where
  "TimerQueue_new rd created =
     \<lparr>timers = [], activeTimers = [], callingExpiredTimers = False, cancelingTimers = [],
      timer_heap = (\<lambda>_. None), numCreated = created, armed = None, reads = rd, ran = []\<rparr>"

text \<open>\<^verbatim>\<open>std::set\<close>: insertion tells whether the element was new.\<close>

definition sset_insert :: "'a::linorder \<Rightarrow> 'a list \<Rightarrow> 'a list \<times> bool" where
  "sset_insert x xs = (if x \<in> set xs then (xs, False) else (insort x xs, True))"

definition sset_erase :: "'a::linorder \<Rightarrow> 'a list \<Rightarrow> 'a list \<times> nat" where
  "sset_erase x xs = (if x \<in> set xs then (remove1 x xs, 1) else (xs, 0))"

definition timer_at :: "nat \<Rightarrow> 'c TimerQueue \<Rightarrow> 'c Timer res" where
  "timer_at a q = (case timer_heap q a of None \<Rightarrow> Inl UndefinedBehaviour | Some t \<Rightarrow> Inr t)"

definition sizes_equal :: "'c TimerQueue \<Rightarrow> bool" where
  "sizes_equal q \<longleftrightarrow> length (timers q) = length (activeTimers q)"

definition howMuchTimeFromNow :: "Timestamp \<Rightarrow> Timestamp \<Rightarrow> (int \<times> int) res" where
  "howMuchTimeFromNow now when_exp =
     ints64 [when_exp - now]
       (let microseconds = (if when_exp - now < 100 then 100 else when_exp - now)
        in Inr (microseconds sdiv kMicroSecondsPerSecond, microseconds smod kMicroSecondsPerSecond * 1000))"

definition resetTimerfd :: "(nat \<Rightarrow> Timestamp) \<Rightarrow> Timestamp \<Rightarrow> 'c TimerQueue \<Rightarrow> 'c TimerQueue res" where
  "resetTimerfd clk expir q =
     (let now = clk (reads q)
      in bindE (howMuchTimeFromNow now expir) (\<lambda>ts. Inr (q\<lparr>reads := reads q + 1, armed := Some (now, ts)\<rparr>)))"

definition tq_insert :: "nat \<Rightarrow> 'c TimerQueue \<Rightarrow> (bool \<times> 'c TimerQueue) res" where
  "tq_insert a q =
     assert_that (sizes_equal q)
       (bindE (timer_at a q) (\<lambda>timer.
          let when_exp = expiration timer;
              earliestChanged = (timers q = [] \<or> when_exp < fst (hd (timers q)));
              (ts, new1) = sset_insert (when_exp, a) (timers q)
          in assert_that new1
               (let (act, new2) = sset_insert (a, sequence timer) (activeTimers q);
                    q = q\<lparr>timers := ts, activeTimers := act\<rparr>
                in assert_that new2 (assert_that (sizes_equal q) (Inr (earliestChanged, q))))))"

definition addTimerInLoop :: "(nat \<Rightarrow> Timestamp) \<Rightarrow> nat \<Rightarrow> 'c TimerQueue \<Rightarrow> 'c TimerQueue res" where
  "addTimerInLoop clk a q =
     bindE (tq_insert a q) (\<lambda>(earliestChanged, q).
       if earliestChanged then bindE (timer_at a q) (\<lambda>timer. resetTimerfd clk (expiration timer) q) else Inr q)"

type_synonym 'c allocator = "(nat \<Rightarrow> 'c Timer option) \<Rightarrow> nat option"

text \<open>In the loop thread \<^verbatim>\<open>runInLoop\<close> calls its argument at once.\<close>

definition addTimer ::
    "'c allocator \<Rightarrow> (nat \<Rightarrow> Timestamp) \<Rightarrow> 'c \<Rightarrow> Timestamp \<Rightarrow> rat \<Rightarrow> 'c TimerQueue \<Rightarrow> (TimerId \<times> 'c TimerQueue) res" where
  "addTimer alloc clk cb when_exp ivl q =
     (case alloc (timer_heap q) of
        None \<Rightarrow> Inl BadAlloc
      | Some a \<Rightarrow>
          let seq = numCreated q + 1;
              q = q\<lparr>numCreated := seq, timer_heap := (timer_heap q)(a \<mapsto> Timer_new cb when_exp ivl seq)\<rparr>
          in bindE (addTimerInLoop clk a q) (\<lambda>q. Inr (\<lparr>tid_timer = a, tid_sequence = seq\<rparr>, q)))"

definition cancelInLoop :: "TimerId \<Rightarrow> 'c TimerQueue \<Rightarrow> 'c TimerQueue res" where
  "cancelInLoop timerId q =
     assert_that (sizes_equal q)
       (let timer = (tid_timer timerId, tid_sequence timerId)
        in bindE (if timer \<in> set (activeTimers q)
                  then bindE (timer_at (fst timer) q) (\<lambda>t.
                         let (ts, n) = sset_erase (expiration t, fst timer) (timers q)
                         in assert_that (n = 1)
                              (Inr (q\<lparr>timers := ts, timer_heap := (timer_heap q)(fst timer := None),
                                      activeTimers := remove1 timer (activeTimers q)\<rparr>)))
                  else if callingExpiredTimers q
                  then Inr (q\<lparr>cancelingTimers := fst (sset_insert timer (cancelingTimers q))\<rparr>)
                  else Inr q)
             (\<lambda>q. assert_that (sizes_equal q) (Inr q)))"

definition tq_cancel :: "TimerId \<Rightarrow> 'c TimerQueue \<Rightarrow> 'c TimerQueue res" where
  "tq_cancel timerId q = cancelInLoop timerId q"

section \<open>The calls of the loop\<close>

definition runAt ::
    "'c allocator \<Rightarrow> (nat \<Rightarrow> Timestamp) \<Rightarrow> Timestamp \<Rightarrow> 'c \<Rightarrow> 'c TimerQueue \<Rightarrow> (TimerId \<times> 'c TimerQueue) res" where
  "runAt alloc clk time cb q = addTimer alloc clk cb time 0 q"

definition runAfter ::
    "'c allocator \<Rightarrow> (nat \<Rightarrow> Timestamp) \<Rightarrow> rat \<Rightarrow> 'c \<Rightarrow> 'c TimerQueue \<Rightarrow> (TimerId \<times> 'c TimerQueue) res" where
  "runAfter alloc clk delay cb q =
     bindE (addTime (clk (reads q)) delay) (\<lambda>time. runAt alloc clk time cb (q\<lparr>reads := reads q + 1\<rparr>))"

definition runEvery ::
    "'c allocator \<Rightarrow> (nat \<Rightarrow> Timestamp) \<Rightarrow> rat \<Rightarrow> 'c \<Rightarrow> 'c TimerQueue \<Rightarrow> (TimerId \<times> 'c TimerQueue) res" where
  "runEvery alloc clk ivl cb q =
     bindE (addTime (clk (reads q)) ivl) (\<lambda>time. addTimer alloc clk cb time ivl (q\<lparr>reads := reads q + 1\<rparr>))"

datatype 'c timer_call =
    RunAt Timestamp 'c
  | RunAfter rat 'c
  | RunEvery rat 'c
  | CancelTimer TimerId

fun do_call :: "'c allocator \<Rightarrow> (nat \<Rightarrow> Timestamp) \<Rightarrow> 'c timer_call \<Rightarrow> 'c TimerQueue \<Rightarrow> 'c TimerQueue res" where
  "do_call alloc clk (RunAt time cb) q = bindE (runAt alloc clk time cb q) (\<lambda>(_, q). Inr q)"
| "do_call alloc clk (RunAfter delay cb) q = bindE (runAfter alloc clk delay cb q) (\<lambda>(_, q). Inr q)"
| "do_call alloc clk (RunEvery ivl cb) q = bindE (runEvery alloc clk ivl cb q) (\<lambda>(_, q). Inr q)"
| "do_call alloc clk (CancelTimer timerId) q = tq_cancel timerId q"

section \<open>Expiry\<close>

definition UINTPTR_MAX :: nat where
  "UINTPTR_MAX = 2 ^ 64 - 1"

definition erase_active :: "Timestamp \<times> nat \<Rightarrow> 'c TimerQueue \<Rightarrow> 'c TimerQueue res" where
  "erase_active it q =
     bindE (timer_at (snd it) q) (\<lambda>t.
       let (act, n) = sset_erase (snd it, sequence t) (activeTimers q)
       in assert_that (n = 1) (Inr (q\<lparr>activeTimers := act\<rparr>)))"

definition getExpired :: "Timestamp \<Rightarrow> 'c TimerQueue \<Rightarrow> ((Timestamp \<times> nat) list \<times> 'c TimerQueue) res" where
  "getExpired now q =
     assert_that (sizes_equal q)
       (let sentry = (now, UINTPTR_MAX);
            expired = takeWhile (\<lambda>e. e < sentry) (timers q);
            rest = dropWhile (\<lambda>e. e < sentry) (timers q)
        in assert_that (rest = [] \<or> now < fst (hd rest))
             (bindE (foldE erase_active expired (q\<lparr>timers := rest\<rparr>)) (\<lambda>q.
                assert_that (sizes_equal q) (Inr (expired, q)))))"

definition run_timer ::
    "'c allocator \<Rightarrow> (nat \<Rightarrow> Timestamp) \<Rightarrow> ('c \<Rightarrow> 'c timer_call list) \<Rightarrow> Timestamp \<times> nat \<Rightarrow>
     'c TimerQueue \<Rightarrow> 'c TimerQueue res" where
  "run_timer alloc clk acts it q =
     bindE (timer_at (snd it) q) (\<lambda>t.
       foldE (do_call alloc clk) (acts (callback t)) (q\<lparr>ran := ran q @ [(snd it, sequence t)]\<rparr>))"

definition reset_timer :: "Timestamp \<Rightarrow> Timestamp \<times> nat \<Rightarrow> 'c TimerQueue \<Rightarrow> 'c TimerQueue res" where
  "reset_timer now it q =
     bindE (timer_at (snd it) q) (\<lambda>t.
       if repeats t \<and> (snd it, sequence t) \<notin> set (cancelingTimers q)
       then bindE (Timer_restart now t) (\<lambda>t'.
              bindE (tq_insert (snd it) (q\<lparr>timer_heap := (timer_heap q)(snd it \<mapsto> t')\<rparr>)) (\<lambda>(_, q). Inr q))
       else Inr (q\<lparr>timer_heap := (timer_heap q)(snd it := None)\<rparr>))"

definition tq_reset ::
    "(nat \<Rightarrow> Timestamp) \<Rightarrow> (Timestamp \<times> nat) list \<Rightarrow> Timestamp \<Rightarrow> 'c TimerQueue \<Rightarrow> 'c TimerQueue res" where
  "tq_reset clk expired now q =
     bindE (foldE (reset_timer now) expired q) (\<lambda>q.
     bindE (if timers q \<noteq> [] then bindE (timer_at (snd (hd (timers q))) q) (\<lambda>t. Inr (expiration t))
            else Inr Timestamp_invalid) (\<lambda>nextExpire.
       if Timestamp_valid nextExpire then resetTimerfd clk nextExpire q else Inr q))"

text \<open>The timerfd has fired and is read, so it is no longer armed.\<close>

definition tq_handleRead ::
    "'c allocator \<Rightarrow> (nat \<Rightarrow> Timestamp) \<Rightarrow> ('c \<Rightarrow> 'c timer_call list) \<Rightarrow> 'c TimerQueue \<Rightarrow> 'c TimerQueue res" where
  "tq_handleRead alloc clk acts q =
     (let now = clk (reads q)
      in bindE (getExpired now (q\<lparr>reads := reads q + 1, armed := None\<rparr>)) (\<lambda>(expired, q).
         bindE (foldE (run_timer alloc clk acts) expired (q\<lparr>callingExpiredTimers := True, cancelingTimers := []\<rparr>)) (\<lambda>q.
         tq_reset clk expired now (q\<lparr>callingExpiredTimers := False\<rparr>))))"

text \<open>The destructor deletes the timers that are still queued.\<close>

definition TimerQueue_destroy :: "'c TimerQueue \<Rightarrow> nat \<Rightarrow> 'c Timer option" where
  "TimerQueue_destroy q = fold (\<lambda>it h. h(snd it := None)) (timers q) (timer_heap q)"

text \<open>What can happen to a queue: a call from the loop thread, or the timerfd firing.\<close>

datatype 'c timer_op = TimerCall "'c timer_call" | TimerFire

fun do_op ::
    "'c allocator \<Rightarrow> (nat \<Rightarrow> Timestamp) \<Rightarrow> ('c \<Rightarrow> 'c timer_call list) \<Rightarrow> 'c timer_op \<Rightarrow>
     'c TimerQueue \<Rightarrow> 'c TimerQueue res" where
  "do_op alloc clk acts (TimerCall c) q = do_call alloc clk c q"
| "do_op alloc clk acts TimerFire q = tq_handleRead alloc clk acts q"

section \<open>The environment\<close>

text \<open>
  A duration as the library accepts it: below 285 years, and not so short that a \<^verbatim>\<open>double\<close> of
  microseconds loses it.
\<close>

definition duration_ok :: "rat \<Rightarrow> bool" where
  "duration_ok d \<longleftrightarrow> \<bar>d\<bar> < 9000000000 \<and> (d = 0 \<or> 1 / 1000000000 \<le> \<bar>d\<bar>)"

fun call_ok :: "'c timer_call \<Rightarrow> bool" where
  "call_ok (RunAt time cb) \<longleftrightarrow> \<bar>time\<bar> < 2 ^ 62"
| "call_ok (RunAfter delay cb) \<longleftrightarrow> duration_ok delay"
| "call_ok (RunEvery ivl cb) \<longleftrightarrow> duration_ok ivl"
| "call_ok (CancelTimer timerId) \<longleftrightarrow> True"

text \<open>
  What the queue relies on: \<^verbatim>\<open>new\<close> returns an address that is not in use, neither null nor the
  largest one; the clock is after the epoch; callbacks ask for reasonable times.
\<close>

definition tq_env :: "'c allocator \<Rightarrow> (nat \<Rightarrow> Timestamp) \<Rightarrow> ('c \<Rightarrow> 'c timer_call list) \<Rightarrow> bool" where
  "tq_env alloc clk acts \<longleftrightarrow>
     (\<forall>h a. alloc h = Some a \<longrightarrow> h a = None \<and> 0 < a \<and> a < UINTPTR_MAX) \<and>
     (\<forall>n. 0 < clk n \<and> clk n < 2 ^ 61) \<and> (\<forall>c. list_all call_ok (acts c))"

definition timer_ok :: "int \<Rightarrow> nat \<Rightarrow> 'c Timer \<Rightarrow> bool" where
  "timer_ok created a t \<longleftrightarrow> a < UINTPTR_MAX \<and> sequence t \<le> created \<and> \<bar>expiration t\<bar> < 2 ^ 62 \<and>
     duration_ok (interval t) \<and> (repeats t \<longleftrightarrow> 0 < interval t)"

section \<open>The invariant\<close>

text \<open>
  \<open>X\<close> are the addresses of the timers that have expired and are neither queued nor deleted yet; it is
  empty except while \<^verbatim>\<open>handleRead\<close> runs. Every other timer on the heap is in both sets, under its
  expiration and its sequence number, and nothing else is.
\<close>

definition tq_inv :: "nat set \<Rightarrow> 'c TimerQueue \<Rightarrow> bool" where
  "tq_inv X q \<longleftrightarrow>
     sorted (timers q) \<and> distinct (map snd (timers q)) \<and> sorted (activeTimers q) \<and> distinct (activeTimers q) \<and>
     (\<forall>e a. (e, a) \<in> set (timers q) \<longrightarrow> (\<exists>t. timer_heap q a = Some t \<and> expiration t = e)) \<and>
     dom (timer_heap q) = snd ` set (timers q) \<union> X \<and> snd ` set (timers q) \<inter> X = {} \<and>
     set (activeTimers q) = (\<lambda>a. (a, sequence (the (timer_heap q a)))) ` snd ` set (timers q) \<and>
     (\<forall>a t. timer_heap q a = Some t \<longrightarrow> timer_ok (numCreated q) a t)"

lemma tq_invD:
  assumes "tq_inv X q"
  shows "sorted (timers q)" "distinct (map snd (timers q))" "sorted (activeTimers q)" "distinct (activeTimers q)"
    "(e, a) \<in> set (timers q) \<Longrightarrow> \<exists>t. timer_heap q a = Some t \<and> expiration t = e"
    "dom (timer_heap q) = snd ` set (timers q) \<union> X" "snd ` set (timers q) \<inter> X = {}"
    "set (activeTimers q) = (\<lambda>a. (a, sequence (the (timer_heap q a)))) ` snd ` set (timers q)"
    "timer_heap q a = Some t \<Longrightarrow> timer_ok (numCreated q) a t"
proof -
  note c = assms [unfolded tq_inv_def]
  show "(e, a) \<in> set (timers q) \<Longrightarrow> \<exists>t. timer_heap q a = Some t \<and> expiration t = e" using c by blast
  show "timer_heap q a = Some t \<Longrightarrow> timer_ok (numCreated q) a t" using c by blast
qed (use assms in \<open>simp_all only: tq_inv_def\<close>)

lemma tq_inv_frame:
  "tq_inv X (q\<lparr>armed := x\<rparr>) = tq_inv X q" "tq_inv X (q\<lparr>reads := n\<rparr>) = tq_inv X q"
  "tq_inv X (q\<lparr>ran := l\<rparr>) = tq_inv X q" "tq_inv X (q\<lparr>callingExpiredTimers := b\<rparr>) = tq_inv X q"
  "tq_inv X (q\<lparr>cancelingTimers := c\<rparr>) = tq_inv X q"
  by (simp_all add: tq_inv_def)

lemma tq_sizes:
  assumes "tq_inv X q"
  shows "sizes_equal q"
proof -
  let ?A = "snd ` set (timers q)"
  have "length (activeTimers q) = card (set (activeTimers q))"
    using tq_invD(4) [OF assms] by (simp add: distinct_card)
  also have "\<dots> = card ?A"
    unfolding tq_invD(8) [OF assms] by (intro card_image inj_onI) simp
  also have "\<dots> = length (timers q)"
    using distinct_card [OF tq_invD(2) [OF assms]] by simp
  finally show ?thesis by (simp add: sizes_equal_def)
qed

lemma tq_inv_new: "tq_inv {} (TimerQueue_new rd created)"
  by (simp add: tq_inv_def TimerQueue_new_def)

lemma tq_timer_at:
  assumes "tq_inv X q" "a \<in> snd ` set (timers q) \<union> X"
  obtains t where "timer_heap q a = Some t" "timer_at a q = Inr t" "timer_ok (numCreated q) a t"
proof -
  from assms(2) have "a \<in> dom (timer_heap q)" using tq_invD(6) [OF assms(1)] by blast
  then obtain t where "timer_heap q a = Some t" by blast
  then show ?thesis using that tq_invD(9) [OF assms(1)] by (simp add: timer_at_def)
qed

text \<open>Timers that are being run can be changed in place.\<close>

lemma tq_inv_detached:
  assumes "tq_inv X q" "a \<in> X" "timer_ok (numCreated q) a t"
  shows "tq_inv X (q\<lparr>timer_heap := (timer_heap q)(a \<mapsto> t)\<rparr>)"
proof -
  note d = tq_invD [OF assms(1)]
  have a: "a \<notin> snd ` set (timers q)" using d(7) assms(2) by blast
  then have "(\<lambda>b. (b, sequence (the (((timer_heap q)(a \<mapsto> t)) b)))) ` snd ` set (timers q) =
      (\<lambda>b. (b, sequence (the (timer_heap q b)))) ` snd ` set (timers q)"
    by (intro image_cong) auto
  moreover have "b \<noteq> a" if "(e, b) \<in> set (timers q)" for e b using that a by force
  ultimately show ?thesis
    using assms d unfolding tq_inv_def by (auto simp: dom_def)
qed

lemma tq_inv_delete:
  assumes "tq_inv (insert a X) q" "a \<notin> X"
  shows "tq_inv X (q\<lparr>timer_heap := (timer_heap q)(a := None)\<rparr>)"
proof -
  note d = tq_invD [OF assms(1)]
  have a: "a \<notin> snd ` set (timers q)" using d(7) by blast
  then have "(\<lambda>b. (b, sequence (the (((timer_heap q)(a := None)) b)))) ` snd ` set (timers q) =
      (\<lambda>b. (b, sequence (the (timer_heap q b)))) ` snd ` set (timers q)"
    by (intro image_cong) auto
  moreover have "b \<noteq> a" if "(e, b) \<in> set (timers q)" for e b using that a by force
  moreover have "dom ((timer_heap q)(a := None)) = snd ` set (timers q) \<union> X"
    using d(6) a assms(2) by auto
  ultimately show ?thesis
    using assms d unfolding tq_inv_def by (auto split: if_splits)
qed

section \<open>The operations keep it\<close>

lemma tq_insert_ok:
  assumes "tq_inv (insert a X) q" "a \<notin> X" "timer_heap q a = Some t"
  defines "q' \<equiv> q\<lparr>timers := insort (expiration t, a) (timers q), activeTimers := insort (a, sequence t) (activeTimers q)\<rparr>"
  shows "tq_insert a q = Inr (timers q = [] \<or> expiration t < fst (hd (timers q)), q') \<and> tq_inv X q'"
proof -
  note d = tq_invD [OF assms(1)]
  have a: "a \<notin> snd ` set (timers q)" using d(7) by blast
  then have n1: "(expiration t, a) \<notin> set (timers q)" by force
  have n2: "(a, sequence t) \<notin> set (activeTimers q)" using a d(8) by auto
  have "snd ` set (timers q') = insert a (snd ` set (timers q))"
    by (simp add: q'_def set_insort_key)
  moreover have "distinct (map snd (timers q'))"
    using d(2) a n1 by (auto simp: q'_def set_insort_key distinct_map distinct_insort inj_on_insert)
  moreover have "set (activeTimers q') = (\<lambda>b. (b, sequence (the (timer_heap q' b)))) ` snd ` set (timers q')"
    using d(8) assms(3) by (simp add: q'_def set_insort_key)
  ultimately have inv: "tq_inv X q'"
    using d a n2 assms(2,3) unfolding tq_inv_def
    by (auto simp: q'_def set_insort_key sorted_insort distinct_insort)
  have "tq_insert a q = Inr (timers q = [] \<or> expiration t < fst (hd (timers q)), q')"
    using tq_sizes [OF assms(1)] tq_sizes [OF inv] n1 n2 assms(3)
    by (simp add: tq_insert_def timer_at_def sset_insert_def Let_def q'_def)
  then show ?thesis using inv by blast
qed

lemma tq_remove:
  assumes "tq_inv X q" "(e, a) \<in> set (timers q)" "timer_heap q a = Some t"
  shows "tq_inv X (q\<lparr>timers := remove1 (e, a) (timers q), timer_heap := (timer_heap q)(a := None),
    activeTimers := remove1 (a, sequence t) (activeTimers q)\<rparr>)" (is "tq_inv X ?q")
proof -
  note d = tq_invD [OF assms(1)]
  have dt: "distinct (timers q)" using d(2) by (simp add: distinct_map)
  have st: "set (timers ?q) = set (timers q) - {(e, a)}" using dt by simp
  have uniq: "e' = e" if "(e', a) \<in> set (timers q)" for e'
    using inj_onD [of snd "set (timers q)" "(e', a)" "(e, a)"] that assms(2) d(2) by (simp add: distinct_map)
  have sn: "snd ` set (timers ?q) = snd ` set (timers q) - {a}"
    unfolding st using inj_on_image_set_diff [of snd "set (timers q)" "set (timers q)" "{(e, a)}"] d(2) assms(2)
    by (simp add: distinct_map)
  have "inj_on snd (set (timers ?q))"
    using d(2) unfolding st by (auto simp: distinct_map intro: inj_on_subset)
  then have "distinct (map snd (timers ?q))" using dt by (simp add: distinct_map)
  moreover have "set (activeTimers ?q) = (\<lambda>b. (b, sequence (the (timer_heap ?q b)))) ` snd ` set (timers ?q)"
  proof -
    have "set (activeTimers ?q) = set (activeTimers q) - {(a, sequence t)}" using d(4) by simp
    also have "\<dots> = (\<lambda>b. (b, sequence (the (timer_heap q b)))) ` (snd ` set (timers q) - {a})"
      unfolding d(8) using assms(3) by auto
    also have "\<dots> = (\<lambda>b. (b, sequence (the (timer_heap ?q b)))) ` (snd ` set (timers q) - {a})"
      by (intro image_cong) auto
    finally show ?thesis unfolding sn .
  qed
  moreover have "dom (timer_heap ?q) = snd ` set (timers ?q) \<union> X" "snd ` set (timers ?q) \<inter> X = {}"
  proof -
    have "a \<notin> X" using d(7) imageI [OF assms(2), of snd] by auto
    then show "dom (timer_heap ?q) = snd ` set (timers ?q) \<union> X" unfolding sn using d(6) by auto
    show "snd ` set (timers ?q) \<inter> X = {}" unfolding sn using d(7) by blast
  qed
  moreover have "\<exists>t. timer_heap ?q b = Some t \<and> expiration t = e'" if "(e', b) \<in> set (timers ?q)" for e' b
    using that d(5) uniq st by auto
  ultimately show ?thesis
    using d(1,3,4,9) unfolding tq_inv_def by (simp add: sorted_remove1)
qed

definition cancelled :: "TimerId \<Rightarrow> 'c TimerQueue \<Rightarrow> 'c TimerQueue" where
  "cancelled i q =
     (let a = tid_timer i; act = (a, tid_sequence i)
      in if act \<in> set (activeTimers q)
         then q\<lparr>timers := remove1 (expiration (the (timer_heap q a)), a) (timers q),
                timer_heap := (timer_heap q)(a := None), activeTimers := remove1 act (activeTimers q)\<rparr>
         else if callingExpiredTimers q then q\<lparr>cancelingTimers := fst (sset_insert act (cancelingTimers q))\<rparr>
         else q)"

lemma cancelInLoop_ok:
  assumes "tq_inv X q"
  shows "cancelInLoop i q = Inr (cancelled i q) \<and> tq_inv X (cancelled i q)"
proof (cases "(tid_timer i, tid_sequence i) \<in> set (activeTimers q)")
  case True
  let ?a = "tid_timer i"
  note d = tq_invD [OF assms]
  obtain e where e: "(e, ?a) \<in> set (timers q)" and seq: "tid_sequence i = sequence (the (timer_heap q ?a))"
    using True d(8) by auto
  then obtain t where t: "timer_heap q ?a = Some t" "expiration t = e" using d(5) by blast
  have inv: "tq_inv X (cancelled i q)"
    using tq_remove [OF assms e t(1)] True t seq by (simp add: cancelled_def Let_def)
  then show ?thesis
    using tq_sizes [OF assms] tq_sizes [OF inv] True t e seq
    by (simp add: cancelInLoop_def cancelled_def timer_at_def sset_erase_def Let_def)
next
  case False
  have "tq_inv X (cancelled i q)" using assms False by (simp add: cancelled_def Let_def tq_inv_frame)
  then show ?thesis
    using tq_sizes [OF assms] tq_sizes [of X "cancelled i q"] False
    by (cases "callingExpiredTimers q") (simp_all add: cancelInLoop_def cancelled_def Let_def)
qed

text \<open>The entries that \<^verbatim>\<open>getExpired\<close> takes out, and the key of each in the other set.\<close>

definition act_key :: "'c TimerQueue \<Rightarrow> Timestamp \<times> nat \<Rightarrow> nat \<times> int" where
  "act_key q it = (snd it, sequence (the (timer_heap q (snd it))))"

lemma erase_active_all:
  assumes "distinct (activeTimers q)" "distinct (map snd es)"
    and "\<And>it. it \<in> set es \<Longrightarrow> (\<exists>t. timer_heap q (snd it) = Some t) \<and> act_key q it \<in> set (activeTimers q)"
  shows "foldE erase_active es q = Inr (q\<lparr>activeTimers := filter (\<lambda>p. p \<notin> act_key q ` set es) (activeTimers q)\<rparr>)"
  using assms
proof (induction es arbitrary: q)
  case (Cons it es)
  obtain t where t: "timer_heap q (snd it) = Some t" "act_key q it \<in> set (activeTimers q)" using Cons.prems(3) [of it] by auto
  let ?q = "q\<lparr>activeTimers := filter (\<lambda>p. p \<noteq> act_key q it) (activeTimers q)\<rparr>"
  have r: "remove1 (act_key q it) (activeTimers q) = filter (\<lambda>p. p \<noteq> act_key q it) (activeTimers q)"
    using Cons.prems(1) by (simp add: distinct_remove1_removeAll removeAll_filter_not_eq eq_commute [of "act_key q it"])
  have "erase_active it q = Inr ?q"
    using t r by (simp add: erase_active_def timer_at_def sset_erase_def act_key_def)
  moreover have k: "act_key ?q = act_key q" by (simp add: act_key_def fun_eq_iff)
  moreover have "act_key q jt \<noteq> act_key q it" if "jt \<in> set es" for jt
  proof -
    have "snd jt \<noteq> snd it" using that Cons.prems(2) by (metis distinct.simps(2) image_eqI list.simps(9) set_map)
    then show ?thesis by (simp add: act_key_def)
  qed
  moreover have "foldE erase_active es ?q = Inr (?q\<lparr>activeTimers := filter (\<lambda>p. p \<notin> act_key ?q ` set es) (activeTimers ?q)\<rparr>)"
  proof (rule Cons.IH)
    fix jt assume j: "jt \<in> set es"
    then show "(\<exists>t. timer_heap ?q (snd jt) = Some t) \<and> act_key ?q jt \<in> set (activeTimers ?q)"
      using Cons.prems(3) [of jt] k \<open>\<And>jt. jt \<in> set es \<Longrightarrow> _\<close> [OF j] by simp
  qed (use Cons.prems(1,2) in simp_all)
  ultimately show ?case by (simp add: conj_commute)
qed simp

section \<open>The timerfd\<close>

text \<open>When a timerfd set at \<open>now\<close> to \<open>ts\<close> will fire.\<close>

definition wake :: "Timestamp \<Rightarrow> int \<times> int \<Rightarrow> Timestamp" where
  "wake now ts = now + fst ts * 1000000 + snd ts div 1000"

lemma howMuchTimeFromNow_ok:
  assumes "0 < now" "now < 2 ^ 61" "\<bar>e\<bar> < 2 ^ 62"
  shows "\<exists>ts. howMuchTimeFromNow now e = Inr ts \<and> wake now ts = max e (now + 100) \<and>
    0 \<le> fst ts \<and> 0 \<le> snd ts \<and> snd ts < 1000000000"
proof -
  define m where "m = (if e - now < 100 then 100 else e - now)"
  have m: "0 < m" "now + m = max e (now + 100)" by (auto simp: m_def)
  have "in_int64 (e - now)" using assms by (auto simp: in_int64_def abs_less_iff)
  then have h: "howMuchTimeFromNow now e = Inr (m div 1000000, m mod 1000000 * 1000)"
    using m(1) by (simp add: howMuchTimeFromNow_def ints64_def Let_def m_def sdiv_nonneg smod_nonneg)
  have "m mod 1000000 < 1000000" "0 \<le> m mod 1000000" by simp_all
  moreover have "m div 1000000 * 1000000 + m mod 1000000 = m" by simp
  ultimately show ?thesis using h m pos_imp_zdiv_nonneg_iff [of 1000000 m] by (auto simp: wake_def)
qed

definition armed_ok :: "'c TimerQueue \<Rightarrow> bool" where
  "armed_ok q \<longleftrightarrow> (\<exists>now ts. armed q = Some (now, ts) \<and> now + 100 \<le> wake now ts \<and>
     wake now ts \<le> max (fst (hd (timers q))) (now + 100))"

text \<open>
  While the expired timers are run the timerfd is known to be armed only if a timer before the epoch
  was added; in all other cases \<^verbatim>\<open>reset\<close> will arm it.
\<close>

definition armed_inv :: "bool \<Rightarrow> 'c TimerQueue \<Rightarrow> bool" where
  "armed_inv b q \<longleftrightarrow> (timers q \<noteq> [] \<and> (b \<longrightarrow> fst (hd (timers q)) \<le> 0) \<longrightarrow> armed_ok q)"

lemma resetTimerfd_ok:
  assumes "tq_env alloc clk acts" "\<bar>e\<bar> < 2 ^ 62"
  shows "\<exists>ts. resetTimerfd clk e q = Inr (q\<lparr>reads := reads q + 1, armed := Some (clk (reads q), ts)\<rparr>) \<and>
    wake (clk (reads q)) ts = max e (clk (reads q) + 100)"
proof -
  have "0 < clk (reads q)" "clk (reads q) < 2 ^ 61" using assms(1) by (simp_all add: tq_env_def)
  from howMuchTimeFromNow_ok [OF this assms(2)] obtain ts where "howMuchTimeFromNow (clk (reads q)) e = Inr ts"
      "wake (clk (reads q)) ts = max e (clk (reads q) + 100)" by blast
  then show ?thesis by (intro exI [of _ ts]) (simp add: resetTimerfd_def)
qed

lemma fst_hd_insort:
  "fst (hd (insort (e, a) ts)) = (if ts = [] then e else min e (fst (hd ts)))"
  for e :: int and a :: nat
  by (cases ts) (auto simp: less_eq_prod_def)

lemma fst_hd_le:
  fixes ts :: "(int \<times> nat) list"
  assumes "sorted ts" "x \<in> set ts"
  shows "fst (hd ts) \<le> fst x"
  using assms by (cases ts) (auto simp: less_eq_prod_def)

lemma armed_inv_later:
  assumes "armed_inv b q" "armed q' = armed q" "sorted (timers q)" "set (timers q') \<subseteq> set (timers q)"
  shows "armed_inv b q'"
  unfolding armed_inv_def
proof
  assume p: "timers q' \<noteq> [] \<and> (b \<longrightarrow> fst (hd (timers q')) \<le> 0)"
  then have "hd (timers q') \<in> set (timers q)" using assms(4) hd_in_set by blast
  then have le: "fst (hd (timers q)) \<le> fst (hd (timers q'))" using fst_hd_le assms(3) by blast
  have "timers q \<noteq> []" using \<open>hd (timers q') \<in> set (timers q)\<close> by auto
  then have "armed_ok q" using assms(1) p le by (auto simp: armed_inv_def)
  then show "armed_ok q'" using le assms(2) by (fastforce simp: armed_ok_def)
qed

section \<open>Cancelled timers\<close>

text \<open>A timer that was cancelled: it is off the heap, or expired and in the set of cancelled ones.\<close>

definition gone :: "nat set \<Rightarrow> 'c TimerQueue \<Rightarrow> TimerId \<Rightarrow> bool" where
  "gone X q i \<longleftrightarrow> tid_sequence i \<le> numCreated q \<and>
     (\<forall>t. timer_heap q (tid_timer i) = Some t \<and> sequence t = tid_sequence i \<longrightarrow>
        tid_timer i \<in> X \<and> (tid_timer i, tid_sequence i) \<in> set (cancelingTimers q))"

definition cinv :: "bool \<Rightarrow> nat set \<Rightarrow> TimerId set \<Rightarrow> 'c TimerQueue \<Rightarrow> bool" where
  "cinv b X S q \<longleftrightarrow> tq_inv X q \<and> armed_inv b q \<and> (\<forall>i\<in>S. gone X q i)"

text \<open>What a call leaves alone.\<close>

definition call_frame :: "nat set \<Rightarrow> 'c TimerQueue \<Rightarrow> 'c TimerQueue \<Rightarrow> bool" where
  "call_frame X q q' \<longleftrightarrow> ran q' = ran q \<and> callingExpiredTimers q' = callingExpiredTimers q \<and>
     (\<forall>a\<in>X. timer_heap q' a = timer_heap q a) \<and> set (cancelingTimers q) \<subseteq> set (cancelingTimers q') \<and>
     numCreated q \<le> numCreated q'"

lemma call_frame_refl [simp]: "call_frame X q q"
  by (simp add: call_frame_def)

lemma call_frame_trans: "call_frame X q q' \<Longrightarrow> call_frame X q' q'' \<Longrightarrow> call_frame X q q''"
  by (auto simp: call_frame_def)

lemma addTimer_ok:
  assumes env: "tq_env alloc clk acts" and c: "cinv b X S q" and e: "\<bar>e\<bar> < 2 ^ 62" "duration_ok ivl"
  shows "safeE {BadAlloc} (\<lambda>(i, q'). cinv b X S q' \<and> call_frame X q q') (addTimer alloc clk cb e ivl q)"
proof (cases "alloc (timer_heap q)")
  case None
  then show ?thesis by (simp add: addTimer_def)
next
  case (Some a)
  have a: "timer_heap q a = None" "a < UINTPTR_MAX" using env Some by (auto simp: tq_env_def)
  note d = tq_invD [OF c [unfolded cinv_def, THEN conjunct1]]
  have nX: "a \<notin> X" "a \<notin> snd ` set (timers q)" using d(6) a(1) by auto
  let ?t = "Timer_new cb e ivl (numCreated q + 1)"
  let ?q1 = "q\<lparr>numCreated := numCreated q + 1, timer_heap := (timer_heap q)(a \<mapsto> ?t)\<rparr>"
  have tok: "timer_ok (numCreated q + 1) a ?t" using a(2) e by (simp add: timer_ok_def Timer_new_def)
  have mono: "timer_ok (numCreated q + 1) b' t'" if "timer_heap q b' = Some t'" for b' t'
    using d(9) [OF that] by (simp add: timer_ok_def)
  have act: "(\<lambda>b. (b, sequence (the (timer_heap ?q1 b)))) ` snd ` set (timers q) =
      (\<lambda>b. (b, sequence (the (timer_heap q b)))) ` snd ` set (timers q)"
    using nX(2) by (intro image_cong) auto
  have ne: "b' \<noteq> a" if "(e', b') \<in> set (timers q)" for e' b' using that nX(2) by force
  have inv1: "tq_inv (insert a X) ?q1"
    unfolding tq_inv_def using d act nX(2) tok mono ne by (auto simp: dom_def)
  let ?q2 = "?q1\<lparr>timers := insort (e, a) (timers q), activeTimers := insort (a, numCreated q + 1) (activeTimers q)\<rparr>"
  have ins: "tq_insert a ?q1 = Inr (timers q = [] \<or> e < fst (hd (timers q)), ?q2)" and inv2: "tq_inv X ?q2"
    using tq_insert_ok [OF inv1 nX(1), of ?t] by (simp_all add: Timer_new_def)
  have g: "gone X q'' i" if "gone X q i" "timer_heap q'' = timer_heap ?q2" "cancelingTimers q'' = cancelingTimers q"
      "numCreated q'' = numCreated q + 1" for i and q''
    using that by (auto simp: gone_def Timer_new_def split: if_splits)
  have fr: "call_frame X q q''" if "timer_heap q'' = timer_heap ?q2" "cancelingTimers q'' = cancelingTimers q"
      "numCreated q'' = numCreated q + 1" "ran q'' = ran q" "callingExpiredTimers q'' = callingExpiredTimers q"
    for q'' using that nX(1) by (auto simp: call_frame_def)
  show ?thesis
  proof (cases "timers q = [] \<or> e < fst (hd (timers q))")
    case True
    obtain ts where ts: "resetTimerfd clk e ?q2 = Inr (?q2\<lparr>reads := reads q + 1, armed := Some (clk (reads q), ts)\<rparr>)"
        "wake (clk (reads q)) ts = max e (clk (reads q) + 100)"
      using resetTimerfd_ok [OF env e(1), of ?q2] by auto
    let ?q3 = "?q2\<lparr>reads := reads q + 1, armed := Some (clk (reads q), ts)\<rparr>"
    have "armed_ok ?q3" using True ts(2) by (auto simp: armed_ok_def fst_hd_insort)
    moreover have "tq_inv X ?q3" using inv2 by (simp only: tq_inv_frame)
    ultimately have "cinv b X S ?q3" using c g by (simp add: cinv_def armed_inv_def)
    moreover have "addTimerInLoop clk a ?q1 = Inr ?q3"
      using ins ts(1) True by (simp add: addTimerInLoop_def timer_at_def Timer_new_def)
    ultimately show ?thesis using Some fr [of ?q3] by (simp add: addTimer_def Let_def)
  next
    case False
    then have h: "fst (hd (timers ?q2)) = fst (hd (timers q))" by (simp add: fst_hd_insort min_def)
    have "armed_inv b q" using c by (simp add: cinv_def)
    then have "armed_inv b ?q2" using False unfolding armed_inv_def armed_ok_def h by simp
    then have "cinv b X S ?q2" using c g inv2 by (simp add: cinv_def)
    moreover have "addTimerInLoop clk a ?q1 = Inr ?q2" using ins False by (simp add: addTimerInLoop_def)
    ultimately show ?thesis using Some fr [of ?q2] by (simp add: addTimer_def Let_def)
  qed
qed

lemma cancelled_ok:
  assumes "cinv b X S q"
  shows "cinv b X S (cancelled i q)" "call_frame X q (cancelled i q)"
    "tid_sequence i \<le> numCreated q \<Longrightarrow> callingExpiredTimers q \<or> X = {} \<Longrightarrow> gone X (cancelled i q) i"
proof -
  have inv: "tq_inv X q" using assms by (simp add: cinv_def)
  note d = tq_invD [OF inv]
  have inv': "tq_inv X (cancelled i q)" using cancelInLoop_ok [OF inv] by blast
  have "set (timers (cancelled i q)) \<subseteq> set (timers q)" "armed (cancelled i q) = armed q"
    by (simp_all add: cancelled_def Let_def set_remove1_subset)
  then have arm: "armed_inv b (cancelled i q)"
    using assms d(1) armed_inv_later [of b q "cancelled i q"] by (simp add: cinv_def)
  have X: "tid_timer i \<notin> X" if "(tid_timer i, tid_sequence i) \<in> set (activeTimers q)"
    using that d(7,8) by auto
  have "gone X (cancelled i q) j" if "gone X q j" for j
    using that by (auto simp: gone_def cancelled_def Let_def sset_insert_def set_insort_key)
  then show "cinv b X S (cancelled i q)" using assms inv' arm by (simp add: cinv_def)
  show "call_frame X q (cancelled i q)"
    using X by (auto simp: call_frame_def cancelled_def Let_def sset_insert_def set_insort_key)
  assume s: "tid_sequence i \<le> numCreated q" and x: "callingExpiredTimers q \<or> X = {}"
  show "gone X (cancelled i q) i"
  proof (cases "(tid_timer i, tid_sequence i) \<in> set (activeTimers q)")
    case True
    then show ?thesis using s by (simp add: gone_def cancelled_def Let_def)
  next
    case False
    have "tid_timer i \<in> X" if "timer_heap q (tid_timer i) = Some t" "sequence t = tid_sequence i" for t
    proof (rule ccontr)
      assume "tid_timer i \<notin> X"
      then have "tid_timer i \<in> snd ` set (timers q)" using d(6) that(1) by blast
      from imageI [OF this, of "\<lambda>a. (a, sequence (the (timer_heap q a)))"] show False
        using False d(8) that by simp
    qed
    then show ?thesis using False s x
      by (auto simp: gone_def cancelled_def Let_def sset_insert_def set_insort_key)
  qed
qed

section \<open>Calls and callbacks\<close>

lemma cinv_reads: "cinv b X S (q\<lparr>reads := n\<rparr>) = cinv b X S q"
  by (simp add: cinv_def armed_inv_def armed_ok_def gone_def tq_inv_frame)

lemma call_frame_reads: "call_frame X (q\<lparr>reads := n\<rparr>) q' = call_frame X q q'"
  by (simp add: call_frame_def)

lemma addTime_bounded:
  assumes "duration_ok d" "0 < t" "t < 2 ^ 61"
  shows "\<exists>u. addTime t d = Inr u \<and> \<bar>u\<bar> < 2 ^ 62"
proof -
  obtain u where u: "addTime t d = Inr u" "\<bar>of_int u - (of_int t + d * 1000000)\<bar> < 2"
    using addTime_near [of d t] assms by (auto simp: duration_ok_def)
  have "\<bar>d * 1000000\<bar> < 9000000000000000" using assms(1) by (simp add: duration_ok_def abs_mult)
  then have "\<bar>of_int (u - t) :: rat\<bar> < of_int 9000000000000002" using u(2) by simp
  then have "\<bar>u - t\<bar> < 9000000000000002" by (metis of_int_abs of_int_less_iff)
  then have "\<bar>u\<bar> < 2 ^ 62" using assms(2,3) by (simp add: abs_less_iff)
  then show ?thesis using u(1) by blast
qed

lemma do_call_ok:
  assumes env: "tq_env alloc clk acts" and c: "cinv b X S q" and ok: "call_ok call"
  shows "safeE {BadAlloc} (\<lambda>q'. cinv b X S q' \<and> call_frame X q q') (do_call alloc clk call q)"
proof -
  have clk: "0 < clk n" "clk n < 2 ^ 61" for n using env by (simp_all add: tq_env_def)
  have add: "safeE {BadAlloc} (\<lambda>q'. cinv b X S q' \<and> call_frame X q q')
      (bindE (addTimer alloc clk cb e ivl (q\<lparr>reads := n\<rparr>)) (\<lambda>(_, q). Inr q))"
    if "\<bar>e\<bar> < 2 ^ 62" "duration_ok ivl" for e ivl cb n
    using addTimer_ok [OF env, of b X S "q\<lparr>reads := n\<rparr>" e ivl cb] c that
    by (intro safeE_bind [where P = "\<lambda>(i, q'). cinv b X S q' \<and> call_frame X q q'"])
      (auto simp: cinv_reads call_frame_reads)
  show ?thesis
  proof (cases call)
    case (RunAt time cb)
    then show ?thesis using add [of time 0 cb "reads q"] ok by (simp add: runAt_def duration_ok_def)
  next
    case (RunAfter delay cb)
    obtain u where "addTime (clk (reads q)) delay = Inr u" "\<bar>u\<bar> < 2 ^ 62"
      using addTime_bounded clk ok RunAfter by fastforce
    then show ?thesis using add [of u 0 cb "reads q + 1"] RunAfter by (simp add: runAfter_def runAt_def duration_ok_def)
  next
    case (RunEvery ivl cb)
    obtain u where "addTime (clk (reads q)) ivl = Inr u" "\<bar>u\<bar> < 2 ^ 62"
      using addTime_bounded clk ok RunEvery by fastforce
    then show ?thesis using add [of u ivl cb "reads q + 1"] ok RunEvery by (simp add: runEvery_def)
  next
    case (CancelTimer i)
    have "tq_inv X q" using c by (simp add: cinv_def)
    then show ?thesis using cancelInLoop_ok [of X q i] cancelled_ok [OF c, of i] CancelTimer
      by (simp add: tq_cancel_def)
  qed
qed

lemma do_calls_ok:
  assumes env: "tq_env alloc clk acts" and c: "cinv b X S q" and ok: "list_all call_ok calls"
  shows "safeE {BadAlloc} (\<lambda>q'. cinv b X S q' \<and> call_frame X q q') (foldE (do_call alloc clk) calls q)"
proof (rule safeE_foldE)
  fix call q' assume "call \<in> set calls" "cinv b X S q' \<and> call_frame X q q'"
  then show "safeE {BadAlloc} (\<lambda>q'. cinv b X S q' \<and> call_frame X q q') (do_call alloc clk call q')"
    using do_call_ok [OF env, of b X S q' call] ok call_frame_trans
    by (auto simp: list_all_iff elim!: safeE_mono)
qed (use c in simp)

text \<open>A call that cancels a timer inside a callback, wherever it stands among the calls.\<close>

lemma do_calls_cancel:
  assumes env: "tq_env alloc clk acts" and c: "cinv b X S q" and ok: "list_all call_ok calls"
    and i: "CancelTimer i \<in> set calls" "tid_sequence i \<le> numCreated q" "callingExpiredTimers q"
  shows "safeE {BadAlloc} (\<lambda>q'. cinv b X (insert i S) q' \<and> call_frame X q q') (foldE (do_call alloc clk) calls q)"
proof -
  obtain c1 c2 where calls: "calls = c1 @ CancelTimer i # c2" using i(1) by (meson split_list)
  have "safeE {BadAlloc} (\<lambda>q'. cinv b X S q' \<and> call_frame X q q') (foldE (do_call alloc clk) c1 q)"
    using do_calls_ok [OF env c, of c1] ok calls by simp
  moreover have "safeE {BadAlloc} (\<lambda>q'. cinv b X (insert i S) q' \<and> call_frame X q q')
      (foldE (do_call alloc clk) (CancelTimer i # c2) q1)" if q1: "cinv b X S q1" "call_frame X q q1" for q1
  proof -
    have "tid_sequence i \<le> numCreated q1" "callingExpiredTimers q1" using q1(2) i(2,3) by (auto simp: call_frame_def)
    then have "gone X (cancelled i q1) i" using cancelled_ok(3) [OF q1(1)] by blast
    then have ci: "cinv b X (insert i S) (cancelled i q1)" using cancelled_ok(1) [OF q1(1), of i] by (simp add: cinv_def)
    have fr: "call_frame X q (cancelled i q1)" using call_frame_trans [OF q1(2) cancelled_ok(2) [OF q1(1)]] .
    have "do_call alloc clk (CancelTimer i) q1 = Inr (cancelled i q1)"
      using cancelInLoop_ok [of X q1 i] q1(1) by (simp add: tq_cancel_def cinv_def)
    moreover have "safeE {BadAlloc} (\<lambda>q'. cinv b X (insert i S) q' \<and> call_frame X (cancelled i q1) q')
        (foldE (do_call alloc clk) c2 (cancelled i q1))"
      using do_calls_ok [OF env ci, of c2] ok calls by simp
    ultimately show ?thesis using call_frame_trans [OF fr] by (auto elim!: safeE_mono)
  qed
  ultimately show ?thesis
    unfolding calls foldE_append
    by (intro safeE_bind [where P = "\<lambda>q'. cinv b X S q' \<and> call_frame X q q'"]) blast+
qed

section \<open>Running the expired timers\<close>

lemma getExpired_ok:
  fixes q :: "'c TimerQueue" and now :: Timestamp
  assumes "tq_inv {} q"
  defines "es \<equiv> takeWhile (\<lambda>it. fst it \<le> now) (timers q)" and "rest \<equiv> dropWhile (\<lambda>it. fst it \<le> now) (timers q)"
  defines "q' \<equiv> q\<lparr>timers := rest, activeTimers := filter (\<lambda>p. p \<notin> act_key q ` set es) (activeTimers q)\<rparr>"
  shows "getExpired now q = Inr (es, q')" "tq_inv (snd ` set es) q'" "distinct (map snd es)"
    "\<And>it. it \<in> set rest \<Longrightarrow> now < fst it"
proof -
  note d = tq_invD [OF assms(1)]
  have sp: "timers q = es @ rest" by (simp add: es_def rest_def)
  have cmp: "it < (now, UINTPTR_MAX) \<longleftrightarrow> fst it \<le> now" if itin: "it \<in> set (timers q)" for it
  proof -
    obtain t where "timer_heap q (snd it) = Some t" using itin d(5) [of "fst it" "snd it"] by auto
    then have "snd it < UINTPTR_MAX" using d(9) by (auto simp: timer_ok_def)
    then show ?thesis by (cases it) (auto simp: less_prod_def)
  qed
  have tw: "takeWhile (\<lambda>e. e < (now, UINTPTR_MAX)) (timers q) = es" "dropWhile (\<lambda>e. e < (now, UINTPTR_MAX)) (timers q) = rest"
    unfolding es_def rest_def
    by (rule takeWhile_cong [OF refl], erule cmp) (rule dropWhile_cong [OF refl], erule cmp)
  have ds: "distinct (map snd es)" "distinct (map snd rest)" "snd ` set es \<inter> snd ` set rest = {}"
    using d(2) unfolding sp by auto
  then show "distinct (map snd es)" by blast
  have late: "now < fst it" if "it \<in> set rest" for it
  proof -
    have "rest \<noteq> []" using that by auto
    then have "now < fst (hd rest)" using hd_dropWhile [of "\<lambda>it. fst it \<le> now" "timers q"] by (simp add: rest_def)
    moreover have "sorted rest" using d(1) unfolding sp by (simp add: sorted_append)
    ultimately show ?thesis using fst_hd_le [OF _ that] by force
  qed
  then show "\<And>it. it \<in> set rest \<Longrightarrow> now < fst it" .
  have key: "act_key q it \<in> set (activeTimers q)" "\<exists>t. timer_heap q (snd it) = Some t" if "it \<in> set (timers q)" for it
    using that d(5) [of "fst it" "snd it"] unfolding d(8) by (auto simp: act_key_def)
  have "foldE erase_active es (q\<lparr>timers := rest\<rparr>) =
      Inr (q\<lparr>timers := rest, activeTimers := filter (\<lambda>p. p \<notin> act_key (q\<lparr>timers := rest\<rparr>) ` set es) (activeTimers q)\<rparr>)"
    using erase_active_all [of "q\<lparr>timers := rest\<rparr>" es] d(4) ds(1) key sp by (auto simp: act_key_def)
  moreover have "act_key (q\<lparr>timers := rest\<rparr>) = act_key q" by (simp add: act_key_def fun_eq_iff)
  ultimately have fold: "foldE erase_active es (q\<lparr>timers := rest\<rparr>) = Inr q'" by (simp add: q'_def)
  have sa: "set (activeTimers q') = (\<lambda>a. (a, sequence (the (timer_heap q' a)))) ` snd ` set (timers q')"
    using d(8) ds(3) unfolding sp by (auto simp: q'_def act_key_def)
  show inv: "tq_inv (snd ` set es) q'"
    using d(1,3,4,5,6,9) ds sa unfolding tq_inv_def sp
    by (auto simp: q'_def sorted_append sorted_wrt_filter image_Un)
  have "rest = [] \<or> now < fst (hd rest)" using late by (cases rest) auto
  then show "getExpired now q = Inr (es, q')"
    unfolding getExpired_def Let_def tw using tq_sizes [OF assms(1)] tq_sizes [OF inv] fold by simp
qed

text \<open>Running an expired timer leaves it detached, and logs it.\<close>

lemma run_timer_ok:
  assumes env: "tq_env alloc clk acts" and c: "cinv b X S q" and a: "snd it \<in> X"
  shows "safeE {BadAlloc} (\<lambda>q'. cinv b X S q' \<and> call_frame X (q\<lparr>ran := ran q @ [act_key q it]\<rparr>) q')
    (run_timer alloc clk acts it q)"
proof -
  obtain t where t: "timer_heap q (snd it) = Some t" "timer_at (snd it) q = Inr t"
    using tq_timer_at [of X q "snd it"] c a by (auto simp: cinv_def)
  let ?q = "q\<lparr>ran := ran q @ [act_key q it]\<rparr>"
  have "cinv b X S ?q" using c by (simp add: cinv_def armed_inv_def armed_ok_def gone_def tq_inv_frame)
  from do_calls_ok [OF env this, of "acts (callback t)"] env
  show ?thesis using t by (simp add: run_timer_def act_key_def tq_env_def)
qed

lemma run_timer_cancel:
  assumes env: "tq_env alloc clk acts" and c: "cinv b X S q" and a: "snd it \<in> X"
    and i: "CancelTimer i \<in> set (acts (callback (the (timer_heap q (snd it)))))"
      "tid_sequence i \<le> numCreated q" "callingExpiredTimers q"
  shows "safeE {BadAlloc} (\<lambda>q'. cinv b X (insert i S) q' \<and> call_frame X (q\<lparr>ran := ran q @ [act_key q it]\<rparr>) q')
    (run_timer alloc clk acts it q)"
proof -
  obtain t where t: "timer_heap q (snd it) = Some t" "timer_at (snd it) q = Inr t"
    using tq_timer_at [of X q "snd it"] c a by (auto simp: cinv_def)
  let ?q = "q\<lparr>ran := ran q @ [act_key q it]\<rparr>"
  have "cinv b X S ?q" using c by (simp add: cinv_def armed_inv_def armed_ok_def gone_def tq_inv_frame)
  from do_calls_cancel [OF env this, of "acts (callback t)" i] env i t
  show ?thesis by (simp add: run_timer_def act_key_def tq_env_def)
qed

lemma act_key_cong: "timer_heap q' (snd it) = timer_heap q (snd it) \<Longrightarrow> act_key q' it = act_key q it"
  by (simp add: act_key_def)

lemma run_all_ok:
  assumes env: "tq_env alloc clk acts" and "cinv b X S q" "snd ` set es \<subseteq> X"
  shows "safeE {BadAlloc} (\<lambda>q'. cinv b X S q' \<and> call_frame X (q\<lparr>ran := ran q @ map (act_key q) es\<rparr>) q')
    (foldE (run_timer alloc clk acts) es q)"
  using assms(2,3)
proof (induction es arbitrary: q)
  case (Cons it es)
  have "safeE {BadAlloc} (\<lambda>q'. cinv b X S q' \<and> call_frame X (q\<lparr>ran := ran q @ map (act_key q) (it # es)\<rparr>) q')
      (foldE (run_timer alloc clk acts) es q1)"
    if q1: "cinv b X S q1" "call_frame X (q\<lparr>ran := ran q @ [act_key q it]\<rparr>) q1" for q1
  proof -
    have "act_key q1 jt = act_key q jt" if "jt \<in> set es" for jt
      using that q1(2) Cons.prems(2) by (intro act_key_cong) (auto simp: call_frame_def)
    then have m: "map (act_key q1) es = map (act_key q) es" by simp
    have "call_frame X (q\<lparr>ran := ran q @ map (act_key q) (it # es)\<rparr>) q'"
      if "call_frame X (q1\<lparr>ran := ran q1 @ map (act_key q) es\<rparr>) q'" for q'
      using that q1(2) by (auto simp: call_frame_def)
    then show ?thesis using Cons.IH [OF q1(1)] Cons.prems(2) unfolding m by (auto elim: safeE_mono)
  qed
  moreover have "safeE {BadAlloc} (\<lambda>q'. cinv b X S q' \<and> call_frame X (q\<lparr>ran := ran q @ [act_key q it]\<rparr>) q')
      (run_timer alloc clk acts it q)"
    using run_timer_ok [OF env Cons.prems(1), of it] Cons.prems(2) by simp
  ultimately show ?case
    unfolding foldE.simps
    by (intro safeE_bind [where P = "\<lambda>q'. cinv b X S q' \<and> call_frame X (q\<lparr>ran := ran q @ [act_key q it]\<rparr>) q'"]) blast+
qed simp

text \<open>Restarting or deleting one of them attaches it again or removes it.\<close>

lemma reset_timer_ok:
  assumes env: "tq_env alloc clk acts" and c: "cinv True (insert a X) S q" and a: "a \<notin> X"
    and now: "0 < now" "now < 2 ^ 61"
  shows "\<exists>q'. reset_timer now (e, a) q = Inr q' \<and> cinv True X S q' \<and> call_frame X q q'"
proof -
  have inv: "tq_inv (insert a X) q" using c by (simp add: cinv_def)
  obtain t where t: "timer_heap q a = Some t" "timer_at a q = Inr t" "timer_ok (numCreated q) a t"
    using tq_timer_at [OF inv, of a] by blast
  have sorted: "sorted (timers q)" using tq_invD(1) [OF inv] .
  show ?thesis
  proof (cases "repeats t \<and> (a, sequence t) \<notin> set (cancelingTimers q)")
    case True
    obtain u where u: "addTime now (interval t) = Inr u" "\<bar>u\<bar> < 2 ^ 62"
      using addTime_bounded [OF _ now] t(3) by (auto simp: timer_ok_def)
    have "0 \<le> interval t" using True t(3) by (simp add: timer_ok_def)
    then have pos: "0 < u" using addTime_monotone [OF u(1)] now(1) by simp
    let ?t = "t\<lparr>expiration := u\<rparr>" and ?q1 = "q\<lparr>timer_heap := (timer_heap q)(a \<mapsto> t\<lparr>expiration := u\<rparr>)\<rparr>"
    have "timer_ok (numCreated q) a ?t" using t(3) u(2) by (simp add: timer_ok_def)
    then have inv1: "tq_inv (insert a X) ?q1" using tq_inv_detached [OF inv, of a ?t] by simp
    let ?q2 = "?q1\<lparr>timers := insort (u, a) (timers q), activeTimers := insort (a, sequence t) (activeTimers q)\<rparr>"
    have ins: "tq_insert a ?q1 = Inr (timers q = [] \<or> u < fst (hd (timers q)), ?q2)" "tq_inv X ?q2"
      using tq_insert_ok [OF inv1 a, of ?t] by simp_all
    have "armed_inv True ?q2"
      using c pos by (auto simp: cinv_def armed_inv_def armed_ok_def fst_hd_insort min_def split: if_splits)
    moreover have "gone X ?q2 i" if "gone (insert a X) q i" for i
      using that t(1) True by (auto simp: gone_def)
    ultimately have "cinv True X S ?q2" using c ins(2) by (simp add: cinv_def)
    moreover have "call_frame X q ?q2" using a by (auto simp: call_frame_def)
    moreover have "reset_timer now (e, a) q = Inr ?q2"
      using True t(2) u(1) ins(1) by (simp add: reset_timer_def Timer_restart_def)
    ultimately show ?thesis by blast
  next
    case False
    let ?q1 = "q\<lparr>timer_heap := (timer_heap q)(a := None)\<rparr>"
    have "tq_inv X ?q1" using tq_inv_delete [OF inv a] .
    moreover have "gone X ?q1 i" if "gone (insert a X) q i" for i
      using that by (auto simp: gone_def)
    ultimately have "cinv True X S ?q1" using c by (simp add: cinv_def armed_inv_def armed_ok_def)
    moreover have "call_frame X q ?q1" using a by (auto simp: call_frame_def)
    moreover have "reset_timer now (e, a) q = Inr ?q1"
      using False t(2) by (auto simp: reset_timer_def)
    ultimately show ?thesis by blast
  qed
qed

lemma reset_all_ok:
  assumes env: "tq_env alloc clk acts" and now: "0 < now" "now < 2 ^ 61"
    and "cinv True (snd ` set es) S q" "distinct (map snd es)"
  shows "\<exists>q'. foldE (reset_timer now) es q = Inr q' \<and> cinv True {} S q' \<and> call_frame {} q q'"
  using assms(4,5)
proof (induction es arbitrary: q)
  case (Cons it es)
  obtain q1 where q1: "reset_timer now it q = Inr q1" "cinv True (snd ` set es) S q1" "call_frame (snd ` set es) q q1"
    using reset_timer_ok [OF env, of "snd it" "snd ` set es" S q now "fst it"] Cons.prems now by auto
  then show ?case
    using Cons.IH [OF q1(2)] Cons.prems(2) by (auto simp: call_frame_def)
qed simp

lemma gone_empty: "gone {} q i \<longleftrightarrow> tid_sequence i \<le> numCreated q \<and>
    (\<forall>t. timer_heap q (tid_timer i) = Some t \<longrightarrow> sequence t \<noteq> tid_sequence i)"
  by (auto simp: gone_def)

text \<open>What \<^verbatim>\<open>handleRead\<close> has done when the callbacks start.\<close>

lemma handleRead_start:
  assumes env: "tq_env alloc clk acts" and c: "cinv False {} S q"
  defines "now \<equiv> clk (reads q)"
  defines "es \<equiv> takeWhile (\<lambda>it. fst it \<le> clk (reads q)) (timers q)"
  shows "\<exists>q1. getExpired now (q\<lparr>reads := reads q + 1, armed := None\<rparr>) = Inr (es, q1) \<and>
    cinv True (snd ` set es) S (q1\<lparr>callingExpiredTimers := True, cancelingTimers := []\<rparr>) \<and> distinct (map snd es) \<and>
    timer_heap q1 = timer_heap q \<and> ran q1 = ran q \<and> numCreated q1 = numCreated q"
proof -
  let ?q = "q\<lparr>reads := reads q + 1, armed := None\<rparr>"
  have "tq_inv {} ?q" using c by (simp add: cinv_def tq_inv_frame)
  note g = getExpired_ok [OF this, where now = now]
  have es: "takeWhile (\<lambda>it. fst it \<le> now) (timers ?q) = es" by (simp add: es_def now_def)
  define q1 where "q1 = ?q\<lparr>timers := dropWhile (\<lambda>it. fst it \<le> now) (timers ?q),
    activeTimers := filter (\<lambda>p. p \<notin> act_key ?q ` set es) (activeTimers ?q)\<rparr>"
  have g1: "getExpired now ?q = Inr (es, q1)" "tq_inv (snd ` set es) q1" "distinct (map snd es)"
      "\<And>it. it \<in> set (timers q1) \<Longrightarrow> now < fst it"
    using g unfolding es by (simp_all add: q1_def)
  have h: "timer_heap q1 = timer_heap q" "ran q1 = ran q" "numCreated q1 = numCreated q" by (simp_all add: q1_def)
  let ?q2 = "q1\<lparr>callingExpiredTimers := True, cancelingTimers := []\<rparr>"
  have "0 < now" using env by (simp add: tq_env_def now_def)
  then have "armed_inv True ?q2"
    using g1(4) [OF hd_in_set] by (auto simp: armed_inv_def)
  moreover have "gone (snd ` set es) ?q2 i" if "gone {} q i" for i
    using that h by (auto simp: gone_def)
  ultimately have "cinv True (snd ` set es) S ?q2"
    using c g1(2) by (simp add: cinv_def tq_inv_frame)
  then show ?thesis using g1(1,3) h by blast
qed

lemma tq_reset_ok:
  assumes env: "tq_env alloc clk acts" and now: "0 < now" "now < 2 ^ 61"
    and c: "cinv True (snd ` set es) S q" "distinct (map snd es)"
  shows "\<exists>q'. tq_reset clk es now q = Inr q' \<and> cinv False {} S q' \<and> call_frame {} q q'"
proof -
  obtain q1 where q1: "foldE (reset_timer now) es q = Inr q1" "cinv True {} S q1" "call_frame {} q q1"
    using reset_all_ok [OF env now c] by blast
  show ?thesis
  proof (cases "timers q1 = []")
    case True
    then have "tq_reset clk es now q = Inr q1"
      using q1(1) by (simp add: tq_reset_def Timestamp_valid_def Timestamp_invalid_def)
    moreover have "cinv False {} S q1" using q1(2) True by (simp add: cinv_def armed_inv_def)
    ultimately show ?thesis using q1(3) by blast
  next
    case False
    have inv: "tq_inv {} q1" using q1(2) by (simp add: cinv_def)
    have "(fst (hd (timers q1)), snd (hd (timers q1))) \<in> set (timers q1)" using False by simp
    then obtain t where t: "timer_heap q1 (snd (hd (timers q1))) = Some t" "expiration t = fst (hd (timers q1))"
      using tq_invD(5) [OF inv] by blast
    have b: "\<bar>expiration t\<bar> < 2 ^ 62" using tq_invD(9) [OF inv t(1)] by (simp add: timer_ok_def)
    have r: "tq_reset clk es now q = (if 0 < expiration t then resetTimerfd clk (expiration t) q1 else Inr q1)"
      using q1(1) False t(1) by (simp add: tq_reset_def timer_at_def Timestamp_valid_def)
    show ?thesis
    proof (cases "0 < expiration t")
      case True
      obtain ts where ts: "resetTimerfd clk (expiration t) q1 =
          Inr (q1\<lparr>reads := reads q1 + 1, armed := Some (clk (reads q1), ts)\<rparr>)"
          "wake (clk (reads q1)) ts = max (expiration t) (clk (reads q1) + 100)"
        using resetTimerfd_ok [OF env b] by blast
      let ?q2 = "q1\<lparr>reads := reads q1 + 1, armed := Some (clk (reads q1), ts)\<rparr>"
      have "armed_ok ?q2" using ts(2) t(2) by (simp add: armed_ok_def)
      then have "cinv False {} S ?q2"
        using q1(2) inv by (simp add: cinv_def armed_inv_def gone_def tq_inv_frame)
      moreover have "call_frame {} q ?q2" using q1(3) by (simp add: call_frame_def)
      ultimately show ?thesis using r True ts(1) by auto
    next
      case le: False
      then have "cinv False {} S q1" using q1(2) t(2) by (simp add: cinv_def armed_inv_def)
      then show ?thesis using r le q1(3) by auto
    qed
  qed
qed

lemma handleRead_run:
  assumes env: "tq_env alloc clk acts" and c: "cinv False {} S q"
    and run: "\<And>q2. cinv True (snd ` set es) S q2 \<Longrightarrow> timer_heap q2 = timer_heap q \<Longrightarrow> ran q2 = ran q \<Longrightarrow>
      numCreated q2 = numCreated q \<Longrightarrow> callingExpiredTimers q2 \<Longrightarrow>
      safeE {BadAlloc} (\<lambda>q'. cinv True (snd ` set es) S' q' \<and> ran q' = ran q @ map (act_key q) es \<and> numCreated q \<le> numCreated q')
        (foldE (run_timer alloc clk acts) es q2)"
    and es: "es = takeWhile (\<lambda>it. fst it \<le> clk (reads q)) (timers q)"
  shows "safeE {BadAlloc} (\<lambda>q'. cinv False {} S' q' \<and> ran q' = ran q @ map (act_key q) es \<and> numCreated q \<le> numCreated q')
    (tq_handleRead alloc clk acts q)"
proof -
  let ?now = "clk (reads q)"
  have now: "0 < ?now" "?now < 2 ^ 61" using env by (simp_all add: tq_env_def)
  obtain q1 where q1: "getExpired ?now (q\<lparr>reads := reads q + 1, armed := None\<rparr>) = Inr (es, q1)"
      "cinv True (snd ` set es) S (q1\<lparr>callingExpiredTimers := True, cancelingTimers := []\<rparr>)" "distinct (map snd es)"
      "timer_heap q1 = timer_heap q" "ran q1 = ran q" "numCreated q1 = numCreated q"
    using handleRead_start [OF env c] es by blast
  let ?q2 = "q1\<lparr>callingExpiredTimers := True, cancelingTimers := []\<rparr>"
  have "safeE {BadAlloc} (\<lambda>q'. cinv False {} S' q' \<and> ran q' = ran q @ map (act_key q) es \<and> numCreated q \<le> numCreated q')
      (tq_reset clk es ?now (q3\<lparr>callingExpiredTimers := False\<rparr>))"
    if q3: "cinv True (snd ` set es) S' q3" "ran q3 = ran q @ map (act_key q) es" "numCreated q \<le> numCreated q3" for q3
  proof -
    have "cinv True (snd ` set es) S' (q3\<lparr>callingExpiredTimers := False\<rparr>)"
      using q3(1) by (simp add: cinv_def armed_inv_def armed_ok_def gone_def tq_inv_frame)
    from tq_reset_ok [OF env now this q1(3)] show ?thesis using q3(2,3) by (auto simp: call_frame_def)
  qed
  moreover have "safeE {BadAlloc} (\<lambda>q'. cinv True (snd ` set es) S' q' \<and> ran q' = ran q @ map (act_key q) es \<and>
      numCreated q \<le> numCreated q') (foldE (run_timer alloc clk acts) es ?q2)"
    using run [of ?q2] q1(2,4,5,6) by simp
  ultimately have "safeE {BadAlloc} (\<lambda>q'. cinv False {} S' q' \<and> ran q' = ran q @ map (act_key q) es \<and> numCreated q \<le> numCreated q')
      (bindE (foldE (run_timer alloc clk acts) es ?q2) (\<lambda>q. tq_reset clk es ?now (q\<lparr>callingExpiredTimers := False\<rparr>)))"
    by (intro safeE_bind [where P = "\<lambda>q'. cinv True (snd ` set es) S' q' \<and> ran q' = ran q @ map (act_key q) es \<and>
      numCreated q \<le> numCreated q'"]) blast+
  then show ?thesis using q1(1) by (simp add: tq_handleRead_def Let_def)
qed

lemma handleRead_ok:
  assumes env: "tq_env alloc clk acts" and c: "cinv False {} S q"
    and es: "es = takeWhile (\<lambda>it. fst it \<le> clk (reads q)) (timers q)"
  shows "safeE {BadAlloc} (\<lambda>q'. cinv False {} S q' \<and> ran q' = ran q @ map (act_key q) es \<and> numCreated q \<le> numCreated q')
    (tq_handleRead alloc clk acts q)"
proof (rule handleRead_run [OF env c _ es])
  fix q2 assume q2: "cinv True (snd ` set es) S q2" "timer_heap q2 = timer_heap q" "ran q2 = ran q"
    "numCreated q2 = numCreated q"
  have "map (act_key q2) es = map (act_key q) es" using q2(2) by (simp add: act_key_def)
  then show "safeE {BadAlloc} (\<lambda>q'. cinv True (snd ` set es) S q' \<and> ran q' = ran q @ map (act_key q) es \<and>
      numCreated q \<le> numCreated q') (foldE (run_timer alloc clk acts) es q2)"
    using run_all_ok [OF env q2(1) order_refl] q2(3,4) by (auto simp: call_frame_def elim!: safeE_mono)
qed

lemma run_all_cancel:
  assumes env: "tq_env alloc clk acts" and c: "cinv b X S q" "snd ` set es \<subseteq> X"
    and it: "it \<in> set es" "CancelTimer i \<in> set (acts (callback (the (timer_heap q (snd it)))))"
    and i: "tid_sequence i \<le> numCreated q" "callingExpiredTimers q"
  shows "safeE {BadAlloc} (\<lambda>q'. cinv b X (insert i S) q' \<and> call_frame X (q\<lparr>ran := ran q @ map (act_key q) es\<rparr>) q')
    (foldE (run_timer alloc clk acts) es q)"
proof -
  obtain e1 e2 where es: "es = e1 @ it # e2" using it(1) by (meson split_list)
  let ?P = "\<lambda>S l q'. cinv b X S q' \<and> call_frame X (q\<lparr>ran := ran q @ map (act_key q) l\<rparr>) q'"
  have keys: "map (act_key q') l = map (act_key q) l" if "call_frame X (q\<lparr>ran := r\<rparr>) q'" "snd ` set l \<subseteq> X" for q' l r
  proof (rule map_cong [OF refl])
    fix jt assume "jt \<in> set l"
    then have "snd jt \<in> X" using that(2) by blast
    then show "act_key q' jt = act_key q jt" using that(1) by (intro act_key_cong) (simp add: call_frame_def)
  qed
  have X: "snd it \<in> X" "snd ` set e1 \<subseteq> X" "snd ` set e2 \<subseteq> X" using c(2) es by auto
  have s1: "safeE {BadAlloc} (?P S e1) (foldE (run_timer alloc clk acts) e1 q)"
    using run_all_ok [OF env c(1) X(2)] .
  have s2: "safeE {BadAlloc} (?P (insert i S) (e1 @ [it])) (run_timer alloc clk acts it q1)" if "?P S e1 q1" for q1
  proof -
    have h: "timer_heap q1 (snd it) = timer_heap q (snd it)" using that X(1) by (simp add: call_frame_def)
    have "safeE {BadAlloc} (\<lambda>q'. cinv b X (insert i S) q' \<and> call_frame X (q1\<lparr>ran := ran q1 @ [act_key q1 it]\<rparr>) q')
        (run_timer alloc clk acts it q1)"
      using that i it(2) h by (intro run_timer_cancel [OF env _ X(1)]) (auto simp: call_frame_def)
    then show ?thesis using that act_key_cong [OF h] by (auto simp: call_frame_def elim!: safeE_mono)
  qed
  have s3: "safeE {BadAlloc} (?P (insert i S) es) (foldE (run_timer alloc clk acts) e2 q1)"
    if "?P (insert i S) (e1 @ [it]) q1" for q1
  proof -
    have "map (act_key q1) e2 = map (act_key q) e2" using keys X(3) that by blast
    moreover have "safeE {BadAlloc} (\<lambda>q'. cinv b X (insert i S) q' \<and> call_frame X (q1\<lparr>ran := ran q1 @ map (act_key q1) e2\<rparr>) q')
        (foldE (run_timer alloc clk acts) e2 q1)"
      using that by (intro run_all_ok [OF env _ X(3)]) simp
    ultimately show ?thesis using that es by (auto simp: call_frame_def elim!: safeE_mono)
  qed
  show ?thesis
    unfolding es foldE_append foldE.simps(2) using s1 s2 s3
    by (intro safeE_bind [where P = "?P S e1"] safeE_bind [where P = "?P (insert i S) (e1 @ [it])"])
      (auto simp: es)
qed

lemma handleRead_cancel:
  assumes env: "tq_env alloc clk acts" and c: "cinv False {} S q"
    and it: "it \<in> set (timers q)" "fst it \<le> clk (reads q)"
      "CancelTimer i \<in> set (acts (callback (the (timer_heap q (snd it)))))" "tid_sequence i \<le> numCreated q"
  shows "safeE {BadAlloc} (\<lambda>q'. cinv False {} (insert i S) q') (tq_handleRead alloc clk acts q)"
proof -
  define es where "es = takeWhile (\<lambda>it. fst it \<le> clk (reads q)) (timers q)"
  have st: "sorted (timers q)" using c tq_invD(1) by (auto simp: cinv_def)
  have "it \<in> set es"
  proof (rule ccontr)
    assume "it \<notin> set es"
    moreover have sp: "timers q = es @ dropWhile (\<lambda>it. fst it \<le> clk (reads q)) (timers q)" (is "_ = _ @ ?d")
      by (simp add: es_def)
    ultimately have d: "it \<in> set ?d" using it(1) by (metis Un_iff set_append)
    then have "?d \<noteq> []" by (metis list.set(1) empty_iff)
    then have "\<not> fst (hd ?d) \<le> clk (reads q)" by (rule hd_dropWhile)
    moreover have "sorted ?d" using st by (simp add: sorted_wrt_dropWhile)
    ultimately show False using fst_hd_le [OF _ d] it(2) by simp
  qed
  have "safeE {BadAlloc} (\<lambda>q'. cinv False {} (insert i S) q' \<and> ran q' = ran q @ map (act_key q) es \<and> numCreated q \<le> numCreated q')
      (tq_handleRead alloc clk acts q)"
  proof (rule handleRead_run [OF env c _ es_def])
    fix q2 assume q2: "cinv True (snd ` set es) S q2" "timer_heap q2 = timer_heap q" "ran q2 = ran q"
      "numCreated q2 = numCreated q" "callingExpiredTimers q2"
    have "map (act_key q2) es = map (act_key q) es" using q2(2) by (simp add: act_key_def)
    then show "safeE {BadAlloc} (\<lambda>q'. cinv True (snd ` set es) (insert i S) q' \<and> ran q' = ran q @ map (act_key q) es \<and>
        numCreated q \<le> numCreated q') (foldE (run_timer alloc clk acts) es q2)"
      using run_all_cancel [OF env q2(1) order_refl \<open>it \<in> set es\<close>, of i] q2 it(3,4)
      by (auto simp: call_frame_def elim!: safeE_mono)
  qed
  then show ?thesis by (rule safeE_mono) blast
qed

section \<open>Runs\<close>

fun op_ok :: "'c timer_op \<Rightarrow> bool" where
  "op_ok (TimerCall c) \<longleftrightarrow> call_ok c"
| "op_ok TimerFire \<longleftrightarrow> True"

abbreviation id_key :: "TimerId \<Rightarrow> nat \<times> int" where
  "id_key i \<equiv> (tid_timer i, tid_sequence i)"

text \<open>What holds after any operation, for a set of cancelled timers.\<close>

definition op_post :: "TimerId set \<Rightarrow> 'c TimerQueue \<Rightarrow> 'c TimerQueue \<Rightarrow> bool" where
  "op_post S q q' \<longleftrightarrow> cinv False {} S q' \<and> numCreated q \<le> numCreated q' \<and>
     (\<exists>l. ran q' = ran q @ l \<and> (\<forall>i\<in>S. id_key i \<notin> set l))"

lemma op_post_trans: "op_post S q q' \<Longrightarrow> op_post S q' q'' \<Longrightarrow> op_post S q q''"
  unfolding op_post_def by fastforce

lemma do_op_ok:
  assumes env: "tq_env alloc clk acts" and c: "cinv False {} S q" and ok: "op_ok op"
  shows "safeE {BadAlloc} (op_post S q) (do_op alloc clk acts op q)"
proof (cases op)
  case (TimerCall call)
  then show ?thesis
    using do_call_ok [OF env c, of call] ok
    by (auto simp: op_post_def call_frame_def elim!: safeE_mono)
next
  case TimerFire
  let ?es = "takeWhile (\<lambda>it. fst it \<le> clk (reads q)) (timers q)"
  have inv: "tq_inv {} q" using c by (simp add: cinv_def)
  have "id_key i \<notin> set (map (act_key q) ?es)" if "i \<in> S" for i
  proof
    assume "id_key i \<in> set (map (act_key q) ?es)"
    then obtain e a where it: "(e, a) \<in> set (timers q)" "id_key i = act_key q (e, a)" by (auto dest: set_takeWhileD)
    then obtain t where "timer_heap q a = Some t" using tq_invD(5) [OF inv] by blast
    then show False using it(2) c that by (auto simp: cinv_def gone_empty act_key_def)
  qed
  then show ?thesis
    using handleRead_ok [OF env c refl] TimerFire by (auto simp: op_post_def elim!: safeE_mono)
qed

lemma do_ops_ok:
  assumes env: "tq_env alloc clk acts" and c: "cinv False {} S q" and ok: "list_all op_ok ops"
  shows "safeE {BadAlloc} (op_post S q) (foldE (do_op alloc clk acts) ops q)"
proof (rule safeE_foldE)
  show "op_post S q q" using c by (simp add: op_post_def)
next
  fix op q1 assume "op \<in> set ops" "op_post S q q1"
  then show "safeE {BadAlloc} (op_post S q) (do_op alloc clk acts op q1)"
    using do_op_ok [OF env, of S q1 op] ok op_post_trans
    by (auto simp: list_all_iff op_post_def elim!: safeE_mono)
qed

lemma cinv_new: "cinv False {} {} (TimerQueue_new rd created)"
  using tq_inv_new by (simp add: cinv_def armed_inv_def TimerQueue_new_def)

lemma tq_reach:
  assumes env: "tq_env alloc clk acts" and ok: "list_all op_ok ops"
    and r: "foldE (do_op alloc clk acts) ops (TimerQueue_new rd created) = Inr q"
  shows "cinv False {} {} q"
  using do_ops_ok [OF env cinv_new ok, of rd created] r by (simp add: op_post_def)

lemma TimerQueue_destroy_ok:
  assumes "tq_inv {} q"
  shows "TimerQueue_destroy q = (\<lambda>_. None)"
proof -
  have "fold (\<lambda>it h. h(snd it := None)) es h a = (if a \<in> snd ` set es then None else h a)"
    for es :: "(Timestamp \<times> nat) list" and h a
    by (induction es arbitrary: h) auto
  note f = this
  show ?thesis
  proof
    fix a show "TimerQueue_destroy q a = None"
      using tq_invD(6) [OF assms] unfolding TimerQueue_destroy_def f by (auto simp: dom_def)
  qed
qed

lemma filter_takeWhile_le:
  "sorted (map fst ts) \<Longrightarrow> filter (\<lambda>it. fst it \<le> (n :: int)) ts = takeWhile (\<lambda>it. fst it \<le> n) ts"
proof (induction ts)
  case (Cons it ts)
  show ?case
  proof (cases "fst it \<le> n")
    case True
    then show ?thesis using Cons by simp
  next
    case False
    then have "\<not> fst jt \<le> n" if "jt \<in> set ts" for jt using Cons.prems that by force
    then show ?thesis using False by (simp add: filter_empty_conv)
  qed
qed simp

section \<open>Properties\<close>

text \<open>
  C4. Whatever timers are added and cancelled, from outside or by the callbacks while the queue runs
  them, in whatever order with the firing of the timerfd: no assertion fails and no deleted timer is
  touched (the only fault is a \<^verbatim>\<open>new\<close> that finds no memory). The two sets stay in step, the timers on
  the heap are exactly the queued ones, each under its expiration, and the destructor frees them all.
\<close>

theorem timer_queue_safe:
  assumes "tq_env alloc clk acts" "list_all op_ok ops"
  shows "case foldE (do_op alloc clk acts) ops (TimerQueue_new rd created) of
      Inl e \<Rightarrow> e = BadAlloc
    | Inr q \<Rightarrow> sorted (timers q) \<and> distinct (map snd (timers q)) \<and> sizes_equal q \<and>
        dom (timer_heap q) = snd ` set (timers q) \<and>
        (\<forall>e a. (e, a) \<in> set (timers q) \<longrightarrow> expiration (the (timer_heap q a)) = e) \<and>
        set (activeTimers q) = (\<lambda>it. (snd it, sequence (the (timer_heap q (snd it))))) ` set (timers q) \<and>
        TimerQueue_destroy q = (\<lambda>_. None)"
  using do_ops_ok [OF assms(1) cinv_new assms(2), of rd created]
proof (cases rule: safeE_cases)
  case (ok q)
  then have inv: "tq_inv {} q" by (simp add: op_post_def cinv_def)
  note d = tq_invD [OF inv]
  have "expiration (the (timer_heap q a)) = e" if "(e, a) \<in> set (timers q)" for e a using d(5) [OF that] by auto
  then show ?thesis
    using ok(1) d(1,2,6,8) tq_sizes [OF inv] TimerQueue_destroy_ok [OF inv] by (simp add: image_image)
qed simp

text \<open>
  C19. When the timerfd fires, the timers that have expired by then are run, each exactly once, in the
  order of their expirations, and no others.
\<close>

theorem timer_fire_runs_expired:
  assumes "tq_env alloc clk acts" "list_all op_ok ops"
    and "foldE (do_op alloc clk acts) ops (TimerQueue_new rd created) = Inr q"
    and "do_op alloc clk acts TimerFire q = Inr q'"
  shows "ran q' = ran q @ map (\<lambda>it. (snd it, sequence (the (timer_heap q (snd it)))))
      (filter (\<lambda>it. fst it \<le> clk (reads q)) (timers q)) \<and> sorted (map fst (timers q))"
proof -
  have c: "cinv False {} {} q" using tq_reach [OF assms(1-3)] .
  then have st: "sorted (timers q)" using tq_invD(1) by (auto simp: cinv_def)
  then have "sorted (map fst (timers q))"
    by (auto simp: sorted_map less_eq_prod_def elim!: sorted_wrt_mono_rel [rotated])
  moreover from this have "filter (\<lambda>it. fst it \<le> clk (reads q)) (timers q) = takeWhile (\<lambda>it. fst it \<le> clk (reads q)) (timers q)"
    by (rule filter_takeWhile_le)
  moreover have "ran q' = ran q @ map (act_key q) (takeWhile (\<lambda>it. fst it \<le> clk (reads q)) (timers q))"
    using handleRead_ok [OF assms(1) c refl] assms(4) by simp
  ultimately show ?thesis by (simp add: act_key_def [abs_def])
qed

text \<open>
  C20. No timer is forgotten: whenever timers are queued, the timerfd is armed, for a time that is not
  in the past and not later than the earliest expiration or, if that has passed already, a tenth of a
  millisecond after the clock was read.
\<close>

theorem timer_always_armed:
  assumes "tq_env alloc clk acts" "list_all op_ok ops"
    and "foldE (do_op alloc clk acts) ops (TimerQueue_new rd created) = Inr q" "timers q \<noteq> []"
  shows "\<exists>now ts. armed q = Some (now, ts) \<and> now + 100 \<le> wake now ts \<and>
    (\<forall>it\<in>set (timers q). wake now ts \<le> max (fst it) (now + 100))"
proof -
  have c: "cinv False {} {} q" using tq_reach [OF assms(1-3)] .
  then obtain now ts where a: "armed q = Some (now, ts)" "now + 100 \<le> wake now ts"
      "wake now ts \<le> max (fst (hd (timers q))) (now + 100)"
    using assms(4) by (auto simp: cinv_def armed_inv_def armed_ok_def)
  have "sorted (timers q)" using c tq_invD(1) by (auto simp: cinv_def)
  then have "fst (hd (timers q)) \<le> fst it" if "it \<in> set (timers q)" for it using fst_hd_le that by blast
  then show ?thesis using a by (intro exI [of _ now] exI [of _ ts]) fastforce
qed


text \<open>
  A callback that cancels a timer, its own or another one that expired with it, stops it for good:
  the timer may still run once in the same pass, but a repeating timer is not started again.
\<close>

theorem cancel_in_callback_stops:
  assumes "tq_env alloc clk acts" "list_all op_ok ops" "list_all op_ok later"
    and "foldE (do_op alloc clk acts) ops (TimerQueue_new rd created) = Inr q"
    and "(e, a) \<in> set (timers q)" "e \<le> clk (reads q)"
      "CancelTimer i \<in> set (acts (callback (the (timer_heap q a))))" "tid_sequence i \<le> numCreated q"
    and "do_op alloc clk acts TimerFire q = Inr q1" "foldE (do_op alloc clk acts) later q1 = Inr q'"
  shows "\<exists>l. ran q' = ran q1 @ l \<and> (tid_timer i, tid_sequence i) \<notin> set l"
proof -
  have c: "cinv False {} {} q" using tq_reach [OF assms(1,2,4)] .
  have "cinv False {} {i} q1"
    using handleRead_cancel [OF assms(1) c assms(5), of i] assms(6-9) by simp
  then show ?thesis
    using do_ops_ok [OF assms(1) _ assms(3), of "{i}" q1] assms(10) by (auto simp: op_post_def)
qed

section \<open>A small environment\<close>

text \<open>
  Two addresses, a clock that advances by a second per reading, and two kinds of callbacks: one does
  nothing, the other cancels the timer at address 1 with sequence number 1.
\<close>

definition small_alloc :: "bool allocator" where
  "small_alloc h = (if h 1 = None then Some 1 else if h 2 = None then Some 2 else None)"

definition small_clk :: "nat \<Rightarrow> Timestamp" where
  "small_clk n = (if n < 1000 then int n * 1000000 + 1 else 1000000000)"

definition small_acts :: "bool \<Rightarrow> bool timer_call list" where
  "small_acts c = (if c then [CancelTimer \<lparr>tid_timer = 1, tid_sequence = 1\<rparr>] else [])"

lemma small_env: "tq_env small_alloc small_clk small_acts"
  by (auto simp: tq_env_def small_alloc_def small_clk_def small_acts_def UINTPTR_MAX_def split: if_splits)

lemmas tq_eval = runAt_def runEvery_def addTimer_def addTimerInLoop_def tq_insert_def sizes_equal_def timer_at_def
  sset_insert_def sset_erase_def resetTimerfd_def howMuchTimeFromNow_def ints64_def in_int64_def Timer_new_def
  TimerQueue_new_def Let_def

text \<open>One timer at half a second, queued when the clock reads 0 s.\<close>

definition small_queue :: "bool TimerQueue" where
  "small_queue = \<lparr>timers = [(500000, 1)], activeTimers = [(1, 1)], callingExpiredTimers = False,
     cancelingTimers = [], timer_heap = (\<lambda>_. None)(1 \<mapsto> \<lparr>callback = True, expiration = 500000, interval = 0,
     repeats = False, sequence = 1\<rparr>), numCreated = 1, armed = Some (1, (0, 499999000)), reads = 1, ran = []\<rparr>"

lemma small_run:
  "foldE (do_op small_alloc small_clk small_acts) [TimerCall (RunAt 500000 True)] (TimerQueue_new 0 0) = Inr small_queue"
  by (simp add: tq_eval small_alloc_def small_clk_def small_queue_def sdiv_nonneg smod_nonneg)

definition small_fired :: "bool TimerQueue" where
  "small_fired = \<lparr>timers = [], activeTimers = [], callingExpiredTimers = False, cancelingTimers = [(1, 1)],
     timer_heap = (\<lambda>_. None), numCreated = 1, armed = None, reads = 2, ran = [(1, 1)]\<rparr>"

lemma small_fire: "do_op small_alloc small_clk small_acts TimerFire small_queue = Inr small_fired"
  by (simp add: tq_eval small_queue_def small_fired_def small_clk_def small_acts_def tq_handleRead_def getExpired_def
      erase_active_def run_timer_def tq_reset_def reset_timer_def tq_cancel_def cancelInLoop_def UINTPTR_MAX_def
      Timestamp_valid_def Timestamp_invalid_def fun_eq_iff)

lemma small_ok: "list_all op_ok [TimerCall (RunAt 500000 c)]"
  by simp

theorem timer_queue_safe_witness:
  "dom (timer_heap small_queue) = {1} \<and> TimerQueue_destroy small_queue = (\<lambda>_. None) \<and>
   foldE (do_op small_alloc small_clk small_acts) [TimerCall (RunAt 500000 True)] (TimerQueue_new 0 0) = Inr small_queue"
  using timer_queue_safe [OF small_env small_ok, of True 0 0] unfolding small_run by (simp add: small_queue_def)

theorem timer_fire_runs_expired_witness:
  "do_op small_alloc small_clk small_acts TimerFire small_queue = Inr small_fired \<and> ran small_fired = [(1, 1)]"
  using timer_fire_runs_expired [OF small_env small_ok small_run small_fire] small_fire
  by (simp add: small_queue_def small_clk_def)

theorem timer_always_armed_witness:
  "\<exists>now ts. armed small_queue = Some (now, ts) \<and> wake now ts \<le> 500000"
  using timer_always_armed [OF small_env small_ok small_run] by (auto simp: small_queue_def wake_def)

lemma small_cancel:
  "foldE (do_op small_alloc small_clk small_acts)
     (TimerCall (CancelTimer \<lparr>tid_timer = 1, tid_sequence = 1\<rparr>) # [TimerFire]) small_queue =
   Inr (small_fired\<lparr>cancelingTimers := [], ran := []\<rparr>)"
  by (simp add: tq_eval small_queue_def small_fired_def small_clk_def tq_handleRead_def getExpired_def
      tq_reset_def tq_cancel_def cancelInLoop_def Timestamp_valid_def Timestamp_invalid_def fun_eq_iff)


theorem cancel_in_callback_stops_witness:
  "\<exists>q' l. foldE (do_op small_alloc small_clk small_acts) [TimerFire] small_fired = Inr q' \<and>
    ran q' = [(1, 1)] @ l \<and> (1, 1) \<notin> set l"
proof -
  have later: "foldE (do_op small_alloc small_clk small_acts) [TimerFire] small_fired =
      Inr (small_fired\<lparr>reads := 3, cancelingTimers := []\<rparr>)"
    by (simp add: tq_eval small_fired_def small_clk_def tq_handleRead_def getExpired_def tq_reset_def
        Timestamp_valid_def Timestamp_invalid_def)
  have i: "(500000, 1) \<in> set (timers small_queue)" "500000 \<le> small_clk (reads small_queue)"
      "CancelTimer \<lparr>tid_timer = 1, tid_sequence = 1\<rparr> \<in> set (small_acts (callback (the (timer_heap small_queue 1))))"
      "tid_sequence \<lparr>tid_timer = 1, tid_sequence = 1\<rparr> \<le> numCreated small_queue"
    by (simp_all add: small_queue_def small_clk_def small_acts_def)
  from cancel_in_callback_stops [OF small_env small_ok _ small_run i small_fire later] later
  show ?thesis by (simp add: small_fired_def)
qed

end
