(* ===== verification/TcpConnection.thy ===== *)
theory TcpConnection
  imports Buffer Poller Timestamp
begin

text \<open>
  \<^verbatim>\<open>muduo/net/TcpConnection\<close>: one connection with its channel and its two buffers. What the kernel
  answers to \<^verbatim>\<open>write(2)\<close> and \<^verbatim>\<open>SO_ERROR\<close>, what the user's callbacks do, and the poller are
  arguments; the read result of an event comes with the event. The functors given to
  \<^verbatim>\<open>queueInLoop\<close> are kept in order in the connection, and a trace records the calls to the kernel
  and to the callbacks in the order they happen, with the data that \<^verbatim>\<open>sendInLoop\<close> took over.
  A handler runs in the loop thread; a call from another thread only leaves a functor.
\<close>

section \<open>State\<close>

datatype StateE = kDisconnected | kConnecting | kConnected | kDisconnecting

fun stateToString :: "StateE \<Rightarrow> string" where
  "stateToString kDisconnected = ''kDisconnected''"
| "stateToString kConnecting = ''kConnecting''"
| "stateToString kConnected = ''kConnected''"
| "stateToString kDisconnecting = ''kDisconnecting''"

datatype conn_event =
    UserUp | UserDown | UserMessage | UserWriteComplete | UserHighWater nat | UserClose
  | Taken string | Wrote string | Lost string | ShutWr | Received string | Retrieved string
  | SoError int | Removed

datatype conn_functor =
    SendInLoop string | ShutdownInLoop | ForceCloseInLoop | StartReadInLoop | StopReadInLoop
  | WriteComplete | HighWaterMark nat

record 'p TcpConnection =
  reactor :: "'p reactor"
  channel :: nat
  name :: string
  state :: StateE
  reading :: bool
  writeCompleteCallback :: bool
  highWaterMarkCallback :: bool
  highWaterMark :: nat
  inputBuffer :: Buffer
  outputBuffer :: Buffer
  pending :: "conn_functor list"
  delayedCloses :: "rat list"
  calls :: nat
  trace :: "conn_event list"

datatype write_result = WriteOk nat | WriteErr int

abbreviation (input) EWOULDBLOCK :: int where "EWOULDBLOCK \<equiv> 11"
abbreviation (input) EPIPE :: int where "EPIPE \<equiv> 32"
abbreviation (input) ECONNRESET :: int where "ECONNRESET \<equiv> 104"

text \<open>
  What a user's callback may call on the connection it is given. \<open>calls\<close> numbers the questions to
  the environment, so that each may be answered differently.
\<close>

datatype user_call =
    CallSend string | CallShutdown | CallForceClose | CallForceCloseWithDelay rat
  | CallStartRead | CallStopRead | CallRetrieve nat

record 'p conn_env =
  e_update :: "'p chan_call"
  e_remove :: "'p chan_call"
  e_write :: "nat \<Rightarrow> string \<Rightarrow> write_result"
  e_soerror :: "nat \<Rightarrow> int"
  e_user :: "nat \<Rightarrow> conn_event \<Rightarrow> user_call list"

definition conn_channel :: "'p TcpConnection \<Rightarrow> Channel" where
  "conn_channel c = chans (reactor c) (channel c)"

definition on_conn_channel :: "(Channel \<Rightarrow> Channel) \<Rightarrow> 'p TcpConnection \<Rightarrow> 'p TcpConnection" where
  "on_conn_channel f c = c\<lparr>reactor := on_channel (channel c) f (reactor c)\<rparr>"

definition conn_update :: "'p chan_call \<Rightarrow> 'p TcpConnection \<Rightarrow> 'p TcpConnection res" where
  "conn_update f c = bindE (f (channel c) (reactor c)) (\<lambda>r. Inr (c\<lparr>reactor := r\<rparr>))"

definition note_event :: "conn_event \<Rightarrow> 'p TcpConnection \<Rightarrow> 'p TcpConnection" where
  "note_event ev c = c\<lparr>trace := trace c @ [ev]\<rparr>"

definition queueFunctor :: "conn_functor \<Rightarrow> 'p TcpConnection \<Rightarrow> 'p TcpConnection" where
  "queueFunctor f c = c\<lparr>pending := pending c @ [f]\<rparr>"

definition setState :: "StateE \<Rightarrow> 'p TcpConnection \<Rightarrow> 'p TcpConnection" where
  "setState s c = c\<lparr>state := s\<rparr>"

definition TcpConnection_new ::
    "nat \<Rightarrow> string \<Rightarrow> int \<Rightarrow> 'p reactor \<Rightarrow> 'p TcpConnection res" where
  "TcpConnection_new a nm sockfd r =
     bindE (Buffer_new kInitialSize) (\<lambda>inb.
     bindE (Buffer_new kInitialSize) (\<lambda>outb.
     Inr (on_conn_channel (setErrorCallback \<circ> setCloseCallback \<circ> setWriteCallback \<circ> setReadCallback)
       \<lparr>reactor = on_channel a (\<lambda>_. Channel_new sockfd) r, channel = a, name = nm, state = kConnecting,
        reading = True, writeCompleteCallback = False, highWaterMarkCallback = False,
        highWaterMark = 64 * 1024 * 1024, inputBuffer = inb, outputBuffer = outb,
        pending = [], delayedCloses = [], calls = 0, trace = []\<rparr>)))"

definition TcpConnection_destroy :: "'p TcpConnection \<Rightarrow> unit res" where
  "TcpConnection_destroy c = assert_that (state c = kDisconnected) (Inr ())"

definition connected :: "'p TcpConnection \<Rightarrow> bool" where
  "connected c \<longleftrightarrow> state c = kConnected"

definition disconnected :: "'p TcpConnection \<Rightarrow> bool" where
  "disconnected c \<longleftrightarrow> state c = kDisconnected"

definition setWriteCompleteCallback :: "'p TcpConnection \<Rightarrow> 'p TcpConnection" where
  "setWriteCompleteCallback c = c\<lparr>writeCompleteCallback := True\<rparr>"

definition setHighWaterMarkCallback :: "nat \<Rightarrow> 'p TcpConnection \<Rightarrow> 'p TcpConnection" where
  "setHighWaterMarkCallback mark c = c\<lparr>highWaterMarkCallback := True, highWaterMark := mark\<rparr>"

section \<open>Sending\<close>

text \<open>\<^verbatim>\<open>sockets::write\<close>: the answer, with the bytes the kernel took in the trace.\<close>

definition sockets_write :: "'p conn_env \<Rightarrow> string \<Rightarrow> 'p TcpConnection \<Rightarrow> write_result \<times> 'p TcpConnection" where
  "sockets_write env data c =
     (let r = e_write env (calls c) data; c' = c\<lparr>calls := calls c + 1\<rparr>
      in (r, case r of WriteOk n \<Rightarrow> note_event (Wrote (take n data)) c' | WriteErr _ \<Rightarrow> c'))"

text \<open>The first part of \<^verbatim>\<open>sendInLoop\<close>: \<^verbatim>\<open>nwrote\<close>, \<^verbatim>\<open>remaining\<close> and \<^verbatim>\<open>faultError\<close> after it.\<close>

definition send_directly ::
    "'p conn_env \<Rightarrow> string \<Rightarrow> 'p TcpConnection \<Rightarrow> (nat \<times> nat \<times> bool) \<times> 'p TcpConnection" where
  "send_directly env data c =
     (if \<not> isWriting (conn_channel c) \<and> readableBytes (outputBuffer c) = 0
      then case sockets_write env data c of
             (WriteOk n, c') \<Rightarrow>
               let remaining = sub64 (length data) n
               in ((n, remaining, False),
                   if remaining = 0 \<and> writeCompleteCallback c' then queueFunctor WriteComplete c' else c')
           | (WriteErr e, c') \<Rightarrow>
               ((0, length data, e \<noteq> EWOULDBLOCK \<and> (e = EPIPE \<or> e = ECONNRESET)), c')
      else ((0, length data, False), c))"

definition append_output :: "'p conn_env \<Rightarrow> string \<Rightarrow> nat \<Rightarrow> nat \<Rightarrow> 'p TcpConnection \<Rightarrow> 'p TcpConnection res" where
  "append_output env data nwrote remaining c =
     (let oldLen = readableBytes (outputBuffer c);
          c' = (if highWaterMark c \<le> add64 oldLen remaining \<and> oldLen < highWaterMark c \<and> highWaterMarkCallback c
                then queueFunctor (HighWaterMark (add64 oldLen remaining)) c else c)
      in bindE (Buffer_append (take remaining (drop nwrote data)) (outputBuffer c')) (\<lambda>b.
         let c'' = c'\<lparr>outputBuffer := b\<rparr>
         in if \<not> isWriting (conn_channel c'') then conn_update (enableWriting (e_update env)) c'' else Inr c''))"

definition sendInLoop :: "'p conn_env \<Rightarrow> string \<Rightarrow> 'p TcpConnection \<Rightarrow> 'p TcpConnection res" where
  "sendInLoop env data c =
     (if state c = kDisconnected then Inr c
      else case send_directly env data (note_event (Taken data) c) of ((nwrote, remaining, faultError), c') \<Rightarrow>
        let c'' = (if faultError then note_event (Lost data) c' else c')
        in assert_that (remaining \<le> length data)
             (if \<not> faultError \<and> remaining > 0 then append_output env data nwrote remaining c'' else Inr c''))"

text \<open>\<open>inLoop\<close> is \<^verbatim>\<open>loop_->isInLoopThread()\<close>: \<^verbatim>\<open>runInLoop\<close> runs at once or leaves a functor.\<close>

definition runInLoop ::
    "bool \<Rightarrow> ('p TcpConnection \<Rightarrow> 'p TcpConnection res) \<Rightarrow> conn_functor \<Rightarrow> 'p TcpConnection \<Rightarrow> 'p TcpConnection res" where
  "runInLoop inLoop run f c = (if inLoop then run c else Inr (queueFunctor f c))"

definition conn_send :: "'p conn_env \<Rightarrow> bool \<Rightarrow> string \<Rightarrow> 'p TcpConnection \<Rightarrow> 'p TcpConnection res" where
  "conn_send env inLoop message c =
     (if state c = kConnected then runInLoop inLoop (sendInLoop env message) (SendInLoop message) c else Inr c)"

definition conn_sendBuffer ::
    "'p conn_env \<Rightarrow> bool \<Rightarrow> Buffer \<Rightarrow> 'p TcpConnection \<Rightarrow> (Buffer \<times> 'p TcpConnection) res" where
  "conn_sendBuffer env inLoop buf c =
     (if state c = kConnected
      then if inLoop
           then bindE (sendInLoop env (content buf) c) (\<lambda>c'. Inr (retrieveAll buf, c'))
           else bindE (retrieveAllAsString buf) (\<lambda>(message, buf'). Inr (buf', queueFunctor (SendInLoop message) c))
      else Inr (buf, c))"

section \<open>Shutting down and closing\<close>

definition shutdownInLoop :: "'p TcpConnection \<Rightarrow> 'p TcpConnection" where
  "shutdownInLoop c = (if \<not> isWriting (conn_channel c) then note_event ShutWr c else c)"

definition conn_shutdown :: "bool \<Rightarrow> 'p TcpConnection \<Rightarrow> 'p TcpConnection res" where
  "conn_shutdown inLoop c =
     (if state c = kConnected
      then runInLoop inLoop (\<lambda>c. Inr (shutdownInLoop c)) ShutdownInLoop (setState kDisconnecting c)
      else Inr c)"

definition forceClose :: "'p TcpConnection \<Rightarrow> 'p TcpConnection" where
  "forceClose c =
     (if state c = kConnected \<or> state c = kDisconnecting
      then queueFunctor ForceCloseInLoop (setState kDisconnecting c) else c)"

definition forceCloseWithDelay :: "rat \<Rightarrow> 'p TcpConnection \<Rightarrow> 'p TcpConnection" where
  "forceCloseWithDelay seconds c =
     (if state c = kConnected \<or> state c = kDisconnecting
      then (setState kDisconnecting c)\<lparr>delayedCloses := delayedCloses c @ [seconds]\<rparr> else c)"

section \<open>Reading on and off\<close>

definition startReadInLoop :: "'p conn_env \<Rightarrow> 'p TcpConnection \<Rightarrow> 'p TcpConnection res" where
  "startReadInLoop env c =
     (if \<not> reading c \<or> \<not> isReading (conn_channel c)
      then bindE (conn_update (enableReading (e_update env)) c) (\<lambda>c. Inr (c\<lparr>reading := True\<rparr>))
      else Inr c)"

definition startRead :: "'p conn_env \<Rightarrow> bool \<Rightarrow> 'p TcpConnection \<Rightarrow> 'p TcpConnection res" where
  "startRead env inLoop c = runInLoop inLoop (startReadInLoop env) StartReadInLoop c"

definition stopReadInLoop :: "'p conn_env \<Rightarrow> 'p TcpConnection \<Rightarrow> 'p TcpConnection res" where
  "stopReadInLoop env c =
     (if reading c \<or> isReading (conn_channel c)
      then bindE (conn_update (disableReading (e_update env)) c) (\<lambda>c. Inr (c\<lparr>reading := False\<rparr>))
      else Inr c)"

definition stopRead :: "'p conn_env \<Rightarrow> bool \<Rightarrow> 'p TcpConnection \<Rightarrow> 'p TcpConnection res" where
  "stopRead env inLoop c = runInLoop inLoop (stopReadInLoop env) StopReadInLoop c"

section \<open>Callbacks of the user\<close>

text \<open>A user that retrieves more than the buffer holds would break its own assertion.\<close>

fun user_act :: "'p conn_env \<Rightarrow> bool \<Rightarrow> user_call \<Rightarrow> 'p TcpConnection \<Rightarrow> 'p TcpConnection res" where
  "user_act env inLoop (CallSend message) c = conn_send env inLoop message c"
| "user_act env inLoop CallShutdown c = conn_shutdown inLoop c"
| "user_act env inLoop CallForceClose c = Inr (forceClose c)"
| "user_act env inLoop (CallForceCloseWithDelay seconds) c = Inr (forceCloseWithDelay seconds c)"
| "user_act env inLoop CallStartRead c = startRead env inLoop c"
| "user_act env inLoop CallStopRead c = stopRead env inLoop c"
| "user_act env inLoop (CallRetrieve n) c =
     (let k = min n (readableBytes (inputBuffer c))
      in bindE (retrieve k (inputBuffer c))
           (\<lambda>b. Inr (note_event (Retrieved (take k (content (inputBuffer c)))) (c\<lparr>inputBuffer := b\<rparr>))))"

definition call_user :: "'p conn_env \<Rightarrow> conn_event \<Rightarrow> 'p TcpConnection \<Rightarrow> 'p TcpConnection res" where
  "call_user env ev c =
     foldE (user_act env True) (e_user env (calls c) ev) (note_event ev (c\<lparr>calls := calls c + 1\<rparr>))"

definition defaultMessageCallback :: "Buffer \<Rightarrow> Buffer" where
  "defaultMessageCallback buf = retrieveAll buf"

section \<open>Establishing, events, closing\<close>

definition connectEstablished :: "'p conn_env \<Rightarrow> 'p TcpConnection \<Rightarrow> 'p TcpConnection res" where
  "connectEstablished env c =
     assert_that (state c = kConnecting)
       (bindE (conn_update (enableReading (e_update env)) (on_conn_channel tie (setState kConnected c)))
          (call_user env UserUp))"

definition connectDestroyed :: "'p conn_env \<Rightarrow> 'p TcpConnection \<Rightarrow> 'p TcpConnection res" where
  "connectDestroyed env c =
     bindE (if state c = kConnected
            then bindE (conn_update (disableAll (e_update env)) (setState kDisconnected c)) (call_user env UserDown)
            else Inr c)
       (\<lambda>c. bindE (conn_update (Channel_remove (e_remove env)) c) (\<lambda>c. Inr (note_event Removed c)))"

definition handleClose :: "'p conn_env \<Rightarrow> 'p TcpConnection \<Rightarrow> 'p TcpConnection res" where
  "handleClose env c =
     assert_that (state c = kConnected \<or> state c = kDisconnecting)
       (bindE (conn_update (disableAll (e_update env)) (setState kDisconnected c)) (\<lambda>c.
        bindE (call_user env UserDown c) (\<lambda>c. Inr (note_event UserClose c))))"

definition handleError :: "'p conn_env \<Rightarrow> 'p TcpConnection \<Rightarrow> 'p TcpConnection" where
  "handleError env c = note_event (SoError (e_soerror env (calls c))) (c\<lparr>calls := calls c + 1\<rparr>)"

definition handleRead :: "'p conn_env \<Rightarrow> readv_result \<Rightarrow> 'p TcpConnection \<Rightarrow> 'p TcpConnection res" where
  "handleRead env rv c =
     bindE (readFd rv (inputBuffer c)) (\<lambda>(n, savedErrno, b).
       let c' = c\<lparr>inputBuffer := b\<rparr>
       in if n > 0
          then call_user env UserMessage (case rv of ReadvOk ds \<Rightarrow> note_event (Received ds) c' | _ \<Rightarrow> c')
          else if n = 0 then handleClose env c'
          else Inr (handleError env c'))"

definition handleWrite :: "'p conn_env \<Rightarrow> 'p TcpConnection \<Rightarrow> 'p TcpConnection res" where
  "handleWrite env c =
     (if isWriting (conn_channel c)
      then case sockets_write env (content (outputBuffer c)) c of
             (WriteOk n, c') \<Rightarrow>
               if n > 0
               then bindE (retrieve n (outputBuffer c')) (\<lambda>b.
                    let c'' = c'\<lparr>outputBuffer := b\<rparr>
                    in if readableBytes b = 0
                       then bindE (conn_update (disableWriting (e_update env)) c'') (\<lambda>c.
                            let c = (if writeCompleteCallback c then queueFunctor WriteComplete c else c)
                            in Inr (if state c = kDisconnecting then shutdownInLoop c else c))
                       else Inr c'')
               else Inr c'
           | (WriteErr e, c') \<Rightarrow> Inr c'
      else Inr c)"

definition forceCloseInLoop :: "'p conn_env \<Rightarrow> 'p TcpConnection \<Rightarrow> 'p TcpConnection res" where
  "forceCloseInLoop env c =
     (if state c = kConnected \<or> state c = kDisconnecting then handleClose env c else Inr c)"

section \<open>What the loop does with the connection\<close>

text \<open>An event of the channel dispatches to the four handlers the constructor installed.\<close>

fun conn_callback :: "'p conn_env \<Rightarrow> readv_result \<Rightarrow> channel_cb \<Rightarrow> 'p TcpConnection \<Rightarrow> 'p TcpConnection res" where
  "conn_callback env rv ReadCb c = handleRead env rv c"
| "conn_callback env rv WriteCb c = handleWrite env c"
| "conn_callback env rv CloseCb c = handleClose env c"
| "conn_callback env rv ErrorCb c = Inr (handleError env c)"

definition conn_handleEvent ::
    "'p conn_env \<Rightarrow> 32 word \<Rightarrow> readv_result \<Rightarrow> 'p TcpConnection \<Rightarrow> 'p TcpConnection res" where
  "conn_handleEvent env revt rv c =
     handleEvent conn_channel on_conn_channel (conn_callback env rv) True
       (on_conn_channel (set_revents revt) c)"

fun run_functor :: "'p conn_env \<Rightarrow> conn_functor \<Rightarrow> 'p TcpConnection \<Rightarrow> 'p TcpConnection res" where
  "run_functor env (SendInLoop message) c = sendInLoop env message c"
| "run_functor env ShutdownInLoop c = Inr (shutdownInLoop c)"
| "run_functor env ForceCloseInLoop c = forceCloseInLoop env c"
| "run_functor env StartReadInLoop c = startReadInLoop env c"
| "run_functor env StopReadInLoop c = stopReadInLoop env c"
| "run_functor env WriteComplete c = call_user env UserWriteComplete c"
| "run_functor env (HighWaterMark n) c = call_user env (UserHighWater n) c"

text \<open>
  One step of a connection's life: an event, the oldest functor, a call by the user from the loop
  thread or another one, the timer of a delayed close, and the two calls of the connection's owner.
\<close>

datatype conn_op =
    OpEstablished | OpEvent "32 word" readv_result | OpFunctor | OpCall bool user_call | OpTimer | OpDestroyed

fun conn_step :: "'p conn_env \<Rightarrow> conn_op \<Rightarrow> 'p TcpConnection \<Rightarrow> 'p TcpConnection res" where
  "conn_step env OpEstablished c = connectEstablished env c"
| "conn_step env (OpEvent revt rv) c = conn_handleEvent env revt rv c"
| "conn_step env OpFunctor c =
     (case pending c of [] \<Rightarrow> Inr c | f # fs \<Rightarrow> run_functor env f (c\<lparr>pending := fs\<rparr>))"
| "conn_step env (OpCall inLoop call) c = user_act env inLoop call c"
| "conn_step env OpTimer c =
     (case delayedCloses c of [] \<Rightarrow> Inr c | d # ds \<Rightarrow> Inr (forceClose (c\<lparr>delayedCloses := ds\<rparr>)))"
| "conn_step env OpDestroyed c = connectDestroyed env c"

section \<open>What a connection promises\<close>

text \<open>
  The abstract connection: a phase, the bytes taken over but not yet with the kernel, and the bytes
  received but not yet retrieved. It takes data only between up and down; what the kernel gets is
  the front of the queue; data is lost only when the queue held nothing else; the write side is shut
  with an empty queue, unless the connection is already down; down follows up once, close follows
  down once, and removal is the end.
\<close>

datatype phase = PhBorn | PhOpen | PhDown | PhClosed | PhGone

record conn_spec =
  sp_phase :: phase
  sp_out :: string
  sp_in :: string

definition spec_init :: conn_spec where
  "spec_init = \<lparr>sp_phase = PhBorn, sp_out = [], sp_in = []\<rparr>"

definition after_up :: "phase \<Rightarrow> bool" where
  "after_up p \<longleftrightarrow> p \<noteq> PhBorn"

fun spec_step :: "conn_event \<Rightarrow> conn_spec \<Rightarrow> conn_spec option" where
  "spec_step UserUp s = (if sp_phase s = PhBorn then Some (s\<lparr>sp_phase := PhOpen\<rparr>) else None)"
| "spec_step UserDown s = (if sp_phase s = PhOpen then Some (s\<lparr>sp_phase := PhDown\<rparr>) else None)"
| "spec_step UserClose s = (if sp_phase s = PhDown then Some (s\<lparr>sp_phase := PhClosed\<rparr>) else None)"
| "spec_step Removed s = (if sp_phase s \<in> {PhDown, PhClosed} then Some (s\<lparr>sp_phase := PhGone\<rparr>) else None)"
| "spec_step UserMessage s = (if sp_phase s = PhOpen then Some s else None)"
| "spec_step UserWriteComplete s = (if after_up (sp_phase s) then Some s else None)"
| "spec_step (UserHighWater n) s = (if after_up (sp_phase s) then Some s else None)"
| "spec_step (SoError e) s = (if after_up (sp_phase s) then Some s else None)"
| "spec_step (Taken d) s = (if sp_phase s = PhOpen then Some (s\<lparr>sp_out := sp_out s @ d\<rparr>) else None)"
| "spec_step (Wrote d) s =
     (if sp_phase s = PhOpen \<and> take (length d) (sp_out s) = d
      then Some (s\<lparr>sp_out := drop (length d) (sp_out s)\<rparr>) else None)"
| "spec_step (Lost d) s = (if sp_phase s = PhOpen \<and> sp_out s = d then Some (s\<lparr>sp_out := []\<rparr>) else None)"
| "spec_step ShutWr s =
     (if after_up (sp_phase s) \<and> (sp_phase s = PhOpen \<longrightarrow> sp_out s = []) then Some s else None)"
| "spec_step (Received d) s =
     (if sp_phase s = PhOpen \<and> d \<noteq> [] then Some (s\<lparr>sp_in := sp_in s @ d\<rparr>) else None)"
| "spec_step (Retrieved d) s =
     (if take (length d) (sp_in s) = d then Some (s\<lparr>sp_in := drop (length d) (sp_in s)\<rparr>) else None)"

fun spec_run :: "conn_event list \<Rightarrow> conn_spec \<Rightarrow> conn_spec option" where
  "spec_run [] s = Some s"
| "spec_run (ev # evs) s = (case spec_step ev s of None \<Rightarrow> None | Some s' \<Rightarrow> spec_run evs s')"

lemma spec_run_append:
  "spec_run (xs @ ys) s = (case spec_run xs s of None \<Rightarrow> None | Some t \<Rightarrow> spec_run ys t)"
  by (induction xs arbitrary: s) (simp_all split: option.split)

section \<open>The invariant\<close>

definition may_read :: "'p TcpConnection \<Rightarrow> bool" where
  "may_read c \<longleftrightarrow> state c = kConnected \<or> state c = kDisconnecting"

definition functor_ok :: "conn_functor \<Rightarrow> bool" where
  "functor_ok f \<longleftrightarrow> (case f of SendInLoop m \<Rightarrow> length m \<le> vector_max | _ \<Rightarrow> True)"

fun life_ok :: "lives \<Rightarrow> phase \<Rightarrow> life \<Rightarrow> 'p TcpConnection \<Rightarrow> bool" where
  "life_ok L PhBorn l c \<longleftrightarrow> state c = kConnecting \<and> pending c = [] \<and> content (outputBuffer c) = [] \<and>
     (\<exists>n. l = Fresh n \<and> (\<forall>b m e. b \<noteq> channel c \<longrightarrow> L b = Live m e \<longrightarrow> m \<noteq> n))"
| "life_ok L PhOpen l c \<longleftrightarrow> may_read c \<and>
     (\<exists>n e. l = Live n e \<and> (has e kWriteEvent \<longleftrightarrow> content (outputBuffer c) \<noteq> []))"
| "life_ok L PhDown l c \<longleftrightarrow> state c = kDisconnected \<and> (\<exists>n. l = Live n 0)"
| "life_ok L PhClosed l c \<longleftrightarrow> state c = kDisconnected \<and> (\<exists>n. l = Live n 0)"
| "life_ok L PhGone l c \<longleftrightarrow> state c = kDisconnected \<and> l = Gone"

text \<open>
  The connection has reached a phase: its trace is one the abstract connection allows and leaves it
  with the contents of the two buffers; the poller agrees on the channel, among other channels \<open>L\<close>.
\<close>

definition conn_at ::
    "(lives \<Rightarrow> 'p reactor \<Rightarrow> bool) \<Rightarrow> lives \<Rightarrow> nat \<Rightarrow> (32 word \<times> bool \<times> bool \<times> bool \<times> bool \<times> bool) \<Rightarrow> phase \<Rightarrow>
     'p TcpConnection \<Rightarrow> bool" where
  "conn_at rel L a v ph c \<longleftrightarrow> buf_inv (inputBuffer c) \<and> buf_inv (outputBuffer c) \<and> channel c = a \<and>
     list_all functor_ok (pending c) \<and> dispatch_view (chans (reactor c) a) = v \<and>
     spec_run (trace c) spec_init =
       Some \<lparr>sp_phase = ph, sp_out = content (outputBuffer c), sp_in = content (inputBuffer c)\<rparr> \<and>
     (\<exists>l. rel (L(a := l)) (reactor c) \<and> life_ok L ph l c)"

text \<open>What is asked of the environment and of the user.\<close>

definition call_ok :: "bool \<Rightarrow> user_call \<Rightarrow> bool" where
  "call_ok open_phase call \<longleftrightarrow>
     (case call of CallSend m \<Rightarrow> length m \<le> vector_max | CallStartRead \<Rightarrow> open_phase | CallStopRead \<Rightarrow> open_phase | _ \<Rightarrow> True)"

definition env_ok :: "'p conn_env \<Rightarrow> bool" where
  "env_ok env \<longleftrightarrow> (\<forall>n d k. e_write env n d = WriteOk k \<longrightarrow> k \<le> length d) \<and>
     (\<forall>n ev. list_all (call_ok (ev = UserUp \<or> ev = UserMessage)) (e_user env n ev))"

lemmas conn_simps = conn_channel_def on_conn_channel_def note_event_def queueFunctor_def setState_def

lemma conn_view_simps [simp]:
  "conn_channel (note_event ev c) = conn_channel c" "conn_channel (queueFunctor f c) = conn_channel c"
  "conn_channel (setState s c) = conn_channel c" "conn_channel (c\<lparr>calls := k\<rparr>) = conn_channel c"
  "conn_channel (c\<lparr>outputBuffer := b\<rparr>) = conn_channel c" "conn_channel (c\<lparr>inputBuffer := b\<rparr>) = conn_channel c"
  "conn_channel (c\<lparr>pending := p\<rparr>) = conn_channel c" "conn_channel (c\<lparr>delayedCloses := d\<rparr>) = conn_channel c"
  "conn_channel (c\<lparr>reading := r\<rparr>) = conn_channel c" "conn_channel (c\<lparr>state := s\<rparr>) = conn_channel c"
  by (simp_all add: conn_simps)

lemma event_bits:
  assumes "e \<in> event_masks"
  shows "has (e OR kWriteEvent) kWriteEvent" "\<not> has (e AND NOT kWriteEvent) kWriteEvent"
    "has (e OR kReadEvent) kWriteEvent = has e kWriteEvent"
    "has (e AND NOT kReadEvent) kWriteEvent = has e kWriteEvent"
    "\<not> has 0 kWriteEvent" "\<not> has kReadEvent kWriteEvent"
  using assms unfolding event_masks_def event_consts has_def by auto

text \<open>While data moves, the abstract queue \<open>q\<close> may be ahead of the output buffer.\<close>

definition conn_open ::
    "(lives \<Rightarrow> 'p reactor \<Rightarrow> bool) \<Rightarrow> lives \<Rightarrow> nat \<Rightarrow> (32 word \<times> bool \<times> bool \<times> bool \<times> bool \<times> bool) \<Rightarrow> string \<Rightarrow>
     'p TcpConnection \<Rightarrow> bool" where
  "conn_open rel L a v q c \<longleftrightarrow> buf_inv (inputBuffer c) \<and> buf_inv (outputBuffer c) \<and> channel c = a \<and>
     list_all functor_ok (pending c) \<and> dispatch_view (chans (reactor c) a) = v \<and>
     spec_run (trace c) spec_init = Some \<lparr>sp_phase = PhOpen, sp_out = q, sp_in = content (inputBuffer c)\<rparr> \<and>
     may_read c \<and> (\<exists>n e. rel (L(a := Live n e)) (reactor c) \<and> (has e kWriteEvent \<longleftrightarrow> content (outputBuffer c) \<noteq> []))"

lemma conn_at_open: "conn_at rel L a v PhOpen c \<longleftrightarrow> conn_open rel L a v (content (outputBuffer c)) c"
  by (auto simp: conn_at_def conn_open_def)

lemma conn_open_events:
  assumes "conn_open rel L a v q c"
  shows "spec_step ev \<lparr>sp_phase = PhOpen, sp_out = q, sp_in = content (inputBuffer c)\<rparr> =
      Some \<lparr>sp_phase = PhOpen, sp_out = q', sp_in = content (inputBuffer c)\<rparr> \<Longrightarrow> conn_open rel L a v q' (note_event ev c)"
    and "functor_ok f \<Longrightarrow> conn_open rel L a v q (queueFunctor f c)"
    and "conn_open rel L a v q (c\<lparr>calls := k\<rparr>)"
  using assms by (simp_all add: conn_open_def may_read_def note_event_def queueFunctor_def conn_channel_def spec_run_append)

lemma conn_simps_fields [simp]:
  "outputBuffer (note_event ev c) = outputBuffer c" "outputBuffer (queueFunctor f c) = outputBuffer c"
  "inputBuffer (note_event ev c) = inputBuffer c" "inputBuffer (queueFunctor f c) = inputBuffer c"
  "state (note_event ev c) = state c" "state (queueFunctor f c) = state c"
  "channel (note_event ev c) = channel c" "channel (queueFunctor f c) = channel c"
  "reactor (note_event ev c) = reactor c" "reactor (queueFunctor f c) = reactor c"
  "outputBuffer (setState s c) = outputBuffer c" "inputBuffer (setState s c) = inputBuffer c"
  "state (setState s c) = s" "channel (setState s c) = channel c" "reactor (setState s c) = reactor c"
  "pending (setState s c) = pending c" "trace (setState s c) = trace c"
  "pending (note_event ev c) = pending c" "pending (queueFunctor f c) = pending c @ [f]"
  "writeCompleteCallback (note_event ev c) = writeCompleteCallback c"
  "trace (note_event ev c) = trace c @ [ev]" "trace (queueFunctor f c) = trace c"
  by (simp_all add: note_event_def queueFunctor_def setState_def)

context reactor_contract
begin

lemma open_channel:
  assumes "conn_open rel L a v q c"
  obtains n e where "rel (L(a := Live n e)) (reactor c)" "e \<in> event_masks" "events (conn_channel c) = e"
    "has e kWriteEvent \<longleftrightarrow> content (outputBuffer c) \<noteq> []"
proof -
  obtain n e where r: "rel (L(a := Live n e)) (reactor c)" "has e kWriteEvent \<longleftrightarrow> content (outputBuffer c) \<noteq> []"
    using assms by (auto simp: conn_open_def)
  moreover have "channel c = a" using assms by (simp add: conn_open_def)
  ultimately show thesis using events_law [OF r(1), of a n e] that by (simp add: conn_channel_def)
qed

lemma open_isWriting:
  assumes "conn_open rel L a v q c"
  shows "isWriting (conn_channel c) \<longleftrightarrow> content (outputBuffer c) \<noteq> []"
  using open_channel [OF assms] by (auto simp: isWriting_def)

text \<open>The rule for every call that changes the events of the channel.\<close>

lemma conn_update_open:
  assumes "conn_open rel L a v q c" "f a (reactor c) = Inr r" "rel (L(a := Live n e)) r"
    and "dispatch_view (chans r a) = dispatch_view (chans (reactor c) a)"
    and "has e kWriteEvent \<longleftrightarrow> content (outputBuffer c) \<noteq> []"
  shows "\<exists>c'. conn_update f c = Inr c' \<and> conn_open rel L a v q c' \<and> c' = c\<lparr>reactor := r\<rparr>"
  using assms by (auto simp: conn_update_def conn_open_def conn_channel_def may_read_def)

lemma send_directly_ok:
  assumes c: "conn_open rel L a v (content (outputBuffer c) @ data) c" and env: "env_ok env"
    and len: "length data \<le> vector_max"
  obtains nwrote remaining faultError c' where "send_directly env data c = ((nwrote, remaining, faultError), c')"
    "nwrote \<le> length data" "remaining = length data - nwrote"
    "conn_open rel L a v (content (outputBuffer c') @ drop nwrote data) c'"
    "outputBuffer c' = outputBuffer c" "state c' = state c"
    "faultError \<Longrightarrow> content (outputBuffer c) = [] \<and> nwrote = 0"
proof (cases "isWriting (conn_channel c)")
  case True
  then show thesis using that [of 0 "length data" False c] c by (simp add: send_directly_def)
next
  case False
  then have out: "content (outputBuffer c) = []" using open_isWriting [OF c] by simp
  have inv: "buf_inv (outputBuffer c)" using c by (simp add: conn_open_def)
  let ?c = "c\<lparr>calls := calls c + 1\<rparr>"
  have oc: "conn_open rel L a v data ?c" using conn_open_events(3) [OF c] out by simp
  show thesis
  proof (cases "e_write env (calls c) data")
    case (WriteOk n)
    then have n: "n \<le> length data" using env by (simp add: env_ok_def)
    let ?w = "note_event (Wrote (take n data)) ?c"
    have w: "conn_open rel L a v (drop n data) ?w"
      by (rule conn_open_events(1) [OF oc]) (use n in simp)
    have rem: "sub64 (length data) n = length data - n" using n by (simp add: sub64_exact)
    define c' where "c' = (if length data - n = 0 \<and> writeCompleteCallback ?w then queueFunctor WriteComplete ?w else ?w)"
    have c': "conn_open rel L a v (drop n data) c'" "outputBuffer c' = outputBuffer c" "state c' = state c"
      using w conn_open_events(2) [OF w, of WriteComplete]
      by (auto simp add: c'_def functor_ok_def simp del: take_all drop_all)
    have "send_directly env data c = ((n, length data - n, False), c')"
      using False out inv WriteOk rem by (simp add: send_directly_def sockets_write_def readable_content Let_def c'_def)
    then show thesis using that [of n "length data - n" False c'] n c' out by simp
  next
    case (WriteErr e)
    then show thesis
      using that [of 0 "length data" "e \<noteq> EWOULDBLOCK \<and> (e = EPIPE \<or> e = ECONNRESET)" ?c] False out inv oc
      by (simp add: send_directly_def sockets_write_def readable_content Let_def)
  qed
qed

lemma append_output_ok:
  assumes c: "conn_open rel L a v (content (outputBuffer c) @ drop nwrote data) c"
    and env: "e_update env = upd" and len: "length data \<le> vector_max" and n: "nwrote < length data"
  shows "safeE {LengthError} (\<lambda>c'. conn_at rel L a v PhOpen c' \<and> state c' = state c)
    (append_output env data nwrote (length data - nwrote) c)"
proof -
  let ?d = "drop nwrote data"
  have d: "take (length data - nwrote) (drop nwrote data) = ?d" by simp
  define c1 where "c1 = (let oldLen = readableBytes (outputBuffer c) in
     if highWaterMark c \<le> add64 oldLen (length data - nwrote) \<and> oldLen < highWaterMark c \<and> highWaterMarkCallback c
     then queueFunctor (HighWaterMark (add64 oldLen (length data - nwrote))) c else c)"
  have c1: "conn_open rel L a v (content (outputBuffer c) @ ?d) c1" "outputBuffer c1 = outputBuffer c" "state c1 = state c"
    using c conn_open_events(2) [OF c] by (simp_all add: c1_def Let_def functor_ok_def)
  have inv: "buf_inv (outputBuffer c)" using c by (simp add: conn_open_def)
  have wr: "isWriting (conn_channel c1) \<longleftrightarrow> content (outputBuffer c) \<noteq> []" using open_isWriting [OF c1(1)] c1(2) by simp
  have step: "safeE {LengthError} (\<lambda>c'. conn_at rel L a v PhOpen c' \<and> state c' = state c)
      (if \<not> isWriting (conn_channel (c1\<lparr>outputBuffer := b\<rparr>))
       then conn_update (enableWriting (e_update env)) (c1\<lparr>outputBuffer := b\<rparr>) else Inr (c1\<lparr>outputBuffer := b\<rparr>))"
    if b: "buf_inv b \<and> content b = content (outputBuffer c) @ ?d" for b
  proof (cases "isWriting (conn_channel c1)")
    case True
    then show ?thesis using c1 b wr n by (auto simp add: conn_at_def conn_open_def may_read_def)
  next
    case False
    obtain k e where e: "rel (L(a := Live k e)) (reactor c1)" "e \<in> event_masks" using open_channel [OF c1(1)] by blast
    obtain r where r: "enableWriting upd a (reactor c1) = Inr r" "rel (L(a := Live k (e OR kWriteEvent))) r"
        "dispatch_view (chans r a) = dispatch_view (chans (reactor c1) a)"
      using channel_calls(3) [OF e(1)] by blast
    have "conn_at rel L a v PhOpen (c1\<lparr>outputBuffer := b, reactor := r\<rparr>)"
      using c1 b n r event_bits(1) [OF e(2)] by (auto simp: conn_at_def conn_open_def may_read_def conn_channel_def)
    moreover have "channel c1 = a" using c1(1) by (simp add: conn_open_def)
    ultimately show ?thesis using False r(1) env c1(3) by (simp add: conn_update_def)
  qed
  have "safeE {LengthError} (\<lambda>b. buf_inv b \<and> content b = content (outputBuffer c) @ ?d) (Buffer_append ?d (outputBuffer c1))"
    using Buffer_append_safe [OF inv, of ?d] len c1(2) by simp
  from safeE_bind [OF this step] show ?thesis
    unfolding append_output_def Let_def d c1_def by simp
qed

lemma sendInLoop_ok:
  assumes c: "conn_at rel L a v PhOpen c" and env: "e_update env = upd" "env_ok env" and len: "length data \<le> vector_max"
  shows "safeE {LengthError} (\<lambda>c'. conn_at rel L a v PhOpen c' \<and> state c' = state c) (sendInLoop env data c)"
proof -
  have o: "conn_open rel L a v (content (outputBuffer c)) c" using c by (simp add: conn_at_open)
  let ?t = "note_event (Taken data) c"
  have t: "conn_open rel L a v (content (outputBuffer ?t) @ data) ?t"
    by (rule conn_open_events(1) [OF o]) simp
  obtain nwrote remaining faultError c' where s: "send_directly env data ?t = ((nwrote, remaining, faultError), c')"
    "nwrote \<le> length data" "remaining = length data - nwrote"
    "conn_open rel L a v (content (outputBuffer c') @ drop nwrote data) c'"
    "outputBuffer c' = outputBuffer ?t" "state c' = state ?t"
    "faultError \<Longrightarrow> content (outputBuffer ?t) = [] \<and> nwrote = 0"
    using send_directly_ok [OF t env(2) len] by blast
  have live: "state c \<noteq> kDisconnected" using o by (auto simp: conn_open_def may_read_def)
  show ?thesis
  proof (cases faultError)
    case True
    then have "conn_open rel L a v [] (note_event (Lost data) c')" "content (outputBuffer c') = []"
      using s conn_open_events(1) [OF s(4), of "Lost data" "[]"] by simp_all
    then show ?thesis using True s live by (simp add: sendInLoop_def conn_at_open)
  next
    case False
    show ?thesis
    proof (cases "remaining > 0")
      case True
      with False s append_output_ok [OF s(4) env(1) len] live show ?thesis by (simp add: sendInLoop_def)
    next
      case none: False
      with False s live show ?thesis by (simp add: sendInLoop_def conn_at_open)
    qed
  qed
qed

end

lemma conn_at_state:
  assumes "conn_at rel L a v ph c"
  shows "may_read c \<longleftrightarrow> ph = PhOpen" "state c = kConnecting \<longleftrightarrow> ph = PhBorn"
    "state c = kDisconnected \<longleftrightarrow> ph \<in> {PhDown, PhClosed, PhGone}"
  using assms by (cases ph; auto simp: conn_at_def may_read_def)+

text \<open>Steps of the bookkeeping that leave the phase and the buffers alone.\<close>

lemma conn_at_quiet:
  assumes "conn_at rel L a v ph c"
  shows "spec_step ev \<lparr>sp_phase = ph, sp_out = content (outputBuffer c), sp_in = content (inputBuffer c)\<rparr> =
      Some \<lparr>sp_phase = ph, sp_out = content (outputBuffer c), sp_in = content (inputBuffer c)\<rparr> \<Longrightarrow>
      conn_at rel L a v ph (note_event ev c)"
    and "functor_ok f \<Longrightarrow> ph \<noteq> PhBorn \<Longrightarrow> conn_at rel L a v ph (queueFunctor f c)"
    and "conn_at rel L a v ph (c\<lparr>calls := k\<rparr>)"
    and "conn_at rel L a v ph (c\<lparr>delayedCloses := ds\<rparr>)"
    and "conn_at rel L a v ph (c\<lparr>reading := r\<rparr>)"
    and "ph = PhOpen \<Longrightarrow> conn_at rel L a v ph (setState kDisconnecting c)"
    and "ph \<noteq> PhBorn \<Longrightarrow> pending c = f # fs \<Longrightarrow> conn_at rel L a v ph (c\<lparr>pending := fs\<rparr>)"
  using assms by (cases ph; auto simp: conn_at_def may_read_def spec_run_append)+

context reactor_contract
begin

lemma at_open_update:
  assumes c: "conn_at rel L a v PhOpen c" and r: "f a (reactor c) = Inr r" "rel (L(a := Live n e)) r"
      "dispatch_view (chans r a) = dispatch_view (chans (reactor c) a)"
    and e: "has e kWriteEvent \<longleftrightarrow> content (outputBuffer c) \<noteq> []"
  shows "conn_update f c = Inr (c\<lparr>reactor := r\<rparr>)" "conn_at rel L a v PhOpen (c\<lparr>reactor := r\<rparr>)"
  using assms by (auto simp: conn_update_def conn_at_def may_read_def)

lemma reading_switched:
  assumes c: "conn_at rel L a v PhOpen c" and env: "e_update env = upd"
  shows "safeE {} (conn_at rel L a v PhOpen) (startReadInLoop env c)"
    and "safeE {} (conn_at rel L a v PhOpen) (stopReadInLoop env c)"
proof -
  have o: "conn_open rel L a v (content (outputBuffer c)) c" using c by (simp add: conn_at_open)
  obtain n e where e: "rel (L(a := Live n e)) (reactor c)" "e \<in> event_masks"
      "has e kWriteEvent \<longleftrightarrow> content (outputBuffer c) \<noteq> []"
    using open_channel [OF o] by blast
  obtain r where r: "enableReading upd a (reactor c) = Inr r" "rel (L(a := Live n (e OR kReadEvent))) r"
      "dispatch_view (chans r a) = dispatch_view (chans (reactor c) a)"
    using channel_calls(1) [OF e(1)] by blast
  obtain s where s: "disableReading upd a (reactor c) = Inr s" "rel (L(a := Live n (e AND NOT kReadEvent))) s"
      "dispatch_view (chans s a) = dispatch_view (chans (reactor c) a)"
    using channel_calls(2) [OF e(1)] by blast
  note R = at_open_update [OF c, where f = "enableReading upd", OF r]
    and S = at_open_update [OF c, where f = "disableReading upd", OF s]
  show "safeE {} (conn_at rel L a v PhOpen) (startReadInLoop env c)"
    using R e(3) event_bits(3) [OF e(2)] c env by (simp add: conn_at_quiet(5) startReadInLoop_def)
  show "safeE {} (conn_at rel L a v PhOpen) (stopReadInLoop env c)"
    using S e(3) event_bits(4) [OF e(2)] c env by (simp add: conn_at_quiet(5) stopReadInLoop_def)
qed

lemma shutdownInLoop_at:
  assumes "conn_at rel L a v ph c" "ph \<noteq> PhBorn"
  shows "conn_at rel L a v ph (shutdownInLoop c)"
proof (cases "isWriting (conn_channel c)")
  case False
  have "content (outputBuffer c) = []" if "ph = PhOpen"
    using open_isWriting assms(1) that False conn_at_open by blast
  then show ?thesis using conn_at_quiet(1) [OF assms(1), of ShutWr] assms(2) False
    by (auto simp: shutdownInLoop_def after_up_def)
qed (use assms in \<open>simp add: shutdownInLoop_def\<close>)

lemma retrieve_at:
  assumes c: "conn_at rel L a v ph c"
  shows "safeE {} (conn_at rel L a v ph) (user_act env inLoop (CallRetrieve n) c)"
proof -
  have inv: "buf_inv (inputBuffer c)" using c by (simp add: conn_at_def)
  let ?k = "min n (length (content (inputBuffer c)))"
  obtain b where b: "retrieve ?k (inputBuffer c) = Inr b" "buf_inv b" "content b = drop ?k (content (inputBuffer c))"
    using retrieve_ok [OF inv, of ?k] by auto
  then show ?thesis
    using c by (cases ph) (auto simp: conn_at_def readable_content [OF inv] Let_def spec_run_append may_read_def min_def)
qed

lemma user_act_at:
  assumes c: "conn_at rel L a v ph c" and env: "e_update env = upd" "env_ok env" and call: "call_ok (ph = PhOpen) call"
  shows "safeE {LengthError} (conn_at rel L a v ph) (user_act env inLoop call c)"
proof (cases call)
  case (CallSend m)
  then have m: "length m \<le> vector_max" using call by (simp add: call_ok_def)
  have "ph = PhOpen" if "state c = kConnected" using conn_at_state(1) [OF c] that by (simp add: may_read_def)
  with CallSend m c sendInLoop_ok [OF _ env, of L a v c m] conn_at_quiet(2) [OF c, of "SendInLoop m"] show ?thesis
    by (auto simp: conn_send_def runInLoop_def functor_ok_def elim!: safeE_mono)
next
  case CallShutdown
  let ?c = "setState kDisconnecting c"
  have "ph = PhOpen" if "state c = kConnected" using conn_at_state(1) [OF c] that by (simp add: may_read_def)
  with CallShutdown c conn_at_quiet(6) [OF c] shutdownInLoop_at [of L a v ph ?c] conn_at_quiet(2) [of rel L a v ph ?c ShutdownInLoop]
  show ?thesis by (auto simp: conn_shutdown_def runInLoop_def functor_ok_def)
next
  case CallForceClose
  let ?c = "setState kDisconnecting c"
  have "ph = PhOpen" if "may_read c" using conn_at_state(1) [OF c] that by simp
  with CallForceClose c conn_at_quiet(6) [OF c] conn_at_quiet(2) [of rel L a v ph ?c ForceCloseInLoop] show ?thesis
    by (auto simp: forceClose_def functor_ok_def may_read_def)
next
  case (CallForceCloseWithDelay d)
  have "ph = PhOpen" if "may_read c" using conn_at_state(1) [OF c] that by simp
  with CallForceCloseWithDelay c conn_at_quiet(4) [OF conn_at_quiet(6) [OF c]] show ?thesis
    by (auto simp: forceCloseWithDelay_def may_read_def)
next
  case CallStartRead
  then have "ph = PhOpen" using call by (simp add: call_ok_def)
  with CallStartRead c reading_switched(1) [OF _ env(1), of L a v c] conn_at_quiet(2) [OF c, of StartReadInLoop] show ?thesis
    by (auto simp: startRead_def runInLoop_def functor_ok_def elim: safeE_cases)
next
  case CallStopRead
  then have "ph = PhOpen" using call by (simp add: call_ok_def)
  with CallStopRead c reading_switched(2) [OF _ env(1), of L a v c] conn_at_quiet(2) [OF c, of StopReadInLoop] show ?thesis
    by (auto simp: stopRead_def runInLoop_def functor_ok_def elim: safeE_cases)
next
  case (CallRetrieve n)
  with retrieve_at [OF c, of env inLoop n] show ?thesis by (auto elim: safeE_cases)
qed

lemma call_user_at:
  assumes c: "conn_at rel L a v ph (note_event ev c)" and env: "e_update env = upd" "env_ok env"
    and ph: "ev = UserUp \<or> ev = UserMessage \<Longrightarrow> ph = PhOpen"
  shows "safeE {LengthError} (conn_at rel L a v ph) (call_user env ev c)"
proof -
  have "conn_at rel L a v ph ((note_event ev c)\<lparr>calls := calls c + 1\<rparr>)" using c by (rule conn_at_quiet)
  moreover have "(note_event ev c)\<lparr>calls := calls c + 1\<rparr> = note_event ev (c\<lparr>calls := calls c + 1\<rparr>)" by (simp add: note_event_def)
  ultimately have s: "conn_at rel L a v ph (note_event ev (c\<lparr>calls := calls c + 1\<rparr>))" by simp
  have ok: "call_ok (ph = PhOpen) call" if "call \<in> set (e_user env (calls c) ev)" for call
  proof -
    have "call_ok (ev = UserUp \<or> ev = UserMessage) call" using env(2) that by (auto simp: env_ok_def list_all_iff)
    then show ?thesis using ph by (auto simp: call_ok_def split: user_call.splits)
  qed
  show ?thesis unfolding call_user_def
    by (rule safeE_foldE [where I = "conn_at rel L a v ph", OF s]) (use user_act_at [OF _ env] ok in blast)
qed

end

text \<open>
  What the owner of the connection, the loop and the kernel keep to: the connection is established
  once; an event comes with no more data than there was room for, and a hang-up without readable
  data comes without urgent data either, as TCP reports it; reading is switched only while the
  connection is open; it is destroyed once, after it was closed or while it is plainly connected.
\<close>

definition tcp_events :: "32 word \<Rightarrow> bool" where
  "tcp_events r \<longleftrightarrow> (has r POLLHUP \<and> \<not> has r POLLIN \<longrightarrow> \<not> has r (POLLIN OR POLLPRI OR POLLRDHUP))"

definition read_ok :: "readv_result \<Rightarrow> Buffer \<Rightarrow> bool" where
  "read_ok rv b \<longleftrightarrow> (case rv of ReadvErr e \<Rightarrow> True | ReadvOk ds \<Rightarrow> length ds \<le> readv_room b)"

fun op_ok :: "conn_op \<Rightarrow> 'p TcpConnection \<Rightarrow> bool" where
  "op_ok OpEstablished c \<longleftrightarrow> state c = kConnecting"
| "op_ok (OpEvent revt rv) c \<longleftrightarrow> may_read c \<and> tcp_events revt \<and> read_ok rv (inputBuffer c)"
| "op_ok OpFunctor c \<longleftrightarrow>
     (case pending c of f # _ \<Rightarrow> f \<in> {StartReadInLoop, StopReadInLoop} \<longrightarrow> may_read c | [] \<Rightarrow> True)"
| "op_ok (OpCall inLoop call) c \<longleftrightarrow> call_ok (may_read c) call"
| "op_ok OpTimer c \<longleftrightarrow> True"
| "op_ok OpDestroyed c \<longleftrightarrow> state c = kConnected \<or> UserClose \<in> set (trace c) \<and> Removed \<notin> set (trace c)"

fun ops_ok :: "'p conn_env \<Rightarrow> conn_op list \<Rightarrow> 'p TcpConnection \<Rightarrow> bool" where
  "ops_ok env [] c \<longleftrightarrow> True"
| "ops_ok env (op # ops) c \<longleftrightarrow> op_ok op c \<and> (case conn_step env op c of Inr c' \<Rightarrow> ops_ok env ops c' | Inl _ \<Rightarrow> True)"

definition callbacks_set :: "(32 word \<times> bool \<times> bool \<times> bool \<times> bool \<times> bool) \<Rightarrow> bool" where
  "callbacks_set v \<longleftrightarrow> (case v of (_, _, rc, wc, cc, ec) \<Rightarrow> rc \<and> wc \<and> cc \<and> ec)"

lemma callbacks_set_keep:
  "callbacks_set (dispatch_view (tie ch)) = callbacks_set (dispatch_view ch)"
  "callbacks_set (dispatch_view (set_revents r ch)) = callbacks_set (dispatch_view ch)"
  by (simp_all add: callbacks_set_def dispatch_view_def tie_def set_revents_def)

lemma conn_at_view: "conn_at rel L a v ph c \<Longrightarrow> dispatch_view (conn_channel c) = v"
  by (auto simp: conn_at_def conn_channel_def)

lemma conn_at_close: "conn_at rel L a v PhDown c \<Longrightarrow> conn_at rel L a v PhClosed (note_event UserClose c)"
  by (auto simp: conn_at_def spec_run_append)

context reactor_contract
begin

lemma conn_at_touch:
  assumes c: "conn_at rel L a v ph c"
    and f: "\<And>ch. fd (f ch) = fd ch \<and> events (f ch) = events ch \<and> index (f ch) = index ch"
  shows "conn_at rel L a (dispatch_view (f (conn_channel c))) ph (on_conn_channel f c)"
proof -
  obtain l where l: "rel (L(a := l)) (reactor c)" "life_ok L ph l c" using c by (auto simp: conn_at_def)
  have "rel (L(a := l)) (on_channel a f (reactor c))" using l(1) f by (rule touch_law)
  moreover have "life_ok L ph l (c\<lparr>reactor := r\<rparr>)" for r using l(2) by (cases ph) (auto simp: may_read_def)
  ultimately show ?thesis using c by (auto simp: conn_at_def on_conn_channel_def conn_channel_def on_channel_def)
qed

lemma going_down:
  assumes c: "conn_at rel L a v PhOpen c" and env: "e_update env = upd"
  obtains c' where "conn_update (disableAll (e_update env)) (setState kDisconnected c) = Inr c'"
    "conn_at rel L a v PhDown (note_event UserDown c')"
proof -
  have o: "conn_open rel L a v (content (outputBuffer c)) c" using c by (simp add: conn_at_open)
  obtain n e where e: "rel (L(a := Live n e)) (reactor c)" using open_channel [OF o] by blast
  obtain r where r: "disableAll upd a (reactor c) = Inr r" "rel (L(a := Live n 0)) r"
      "dispatch_view (chans r a) = dispatch_view (chans (reactor c) a)"
    using channel_calls(5) [OF e] by blast
  show thesis
    using c r env by (intro that [of "(setState kDisconnected c)\<lparr>reactor := r\<rparr>"])
      (auto simp: conn_update_def conn_at_def spec_run_append)
qed

lemma handleClose_at:
  assumes c: "conn_at rel L a v PhOpen c" and env: "e_update env = upd" "env_ok env"
  shows "safeE {LengthError} (conn_at rel L a v PhClosed) (handleClose env c)"
proof -
  obtain c' where c': "conn_update (disableAll (e_update env)) (setState kDisconnected c) = Inr c'"
    "conn_at rel L a v PhDown (note_event UserDown c')" using going_down [OF c env(1)] .
  have d: "safeE {LengthError} (conn_at rel L a v PhDown) (call_user env UserDown c')"
    using call_user_at [OF c'(2) env] by simp
  have "safeE {LengthError} (conn_at rel L a v PhClosed) (bindE (call_user env UserDown c') (\<lambda>c. Inr (note_event UserClose c)))"
    by (rule safeE_bind [OF d]) (simp add: conn_at_close)
  then show ?thesis using c' conn_at_state(1) [OF c] by (simp add: handleClose_def may_read_def)
qed

lemma removed_at:
  assumes c: "conn_at rel L a v ph c" and ph: "ph = PhDown \<or> ph = PhClosed" and env: "e_remove env = rem"
  shows "safeE {} (conn_at rel L a v PhGone)
    (bindE (conn_update (Channel_remove (e_remove env)) c) (\<lambda>c. Inr (note_event Removed c)))"
proof -
  obtain n where n: "rel (L(a := Live n 0)) (reactor c)" using c ph by (auto simp: conn_at_def)
  obtain r where r: "Channel_remove rem a (reactor c) = Inr r" "rel (L(a := Gone)) r"
      "dispatch_view (chans r a) = dispatch_view (chans (reactor c) a)" using channel_removed [OF n] by blast
  then show ?thesis using c ph env by (auto simp: conn_update_def conn_at_def spec_run_append)
qed

lemma connectDestroyed_at:
  assumes c: "conn_at rel L a v ph c" and ph: "ph = PhClosed \<or> state c = kConnected"
    and env: "e_update env = upd" "env_ok env" "e_remove env = rem"
  shows "safeE {LengthError} (conn_at rel L a v PhGone) (connectDestroyed env c)"
proof (cases "state c = kConnected")
  case True
  then have "ph = PhOpen" using conn_at_state(1) [OF c] by (simp add: may_read_def)
  then obtain c' where c': "conn_update (disableAll (e_update env)) (setState kDisconnected c) = Inr c'"
    "conn_at rel L a v PhDown (note_event UserDown c')" using going_down c env(1) by blast
  have d: "safeE {LengthError} (conn_at rel L a v PhDown) (call_user env UserDown c')"
    using call_user_at [OF c'(2) env(1,2)] by simp
  have "safeE {LengthError} (conn_at rel L a v PhGone) (bindE (call_user env UserDown c')
      (\<lambda>c. bindE (conn_update (Channel_remove (e_remove env)) c) (\<lambda>c. Inr (note_event Removed c))))"
    by (rule safeE_bind [OF d])
      (rule safeE_faults [OF removed_at [where ph = PhDown, OF _ _ env(3)]]; simp)
  then show ?thesis using True c' by (simp add: connectDestroyed_def)
next
  case False
  then have "ph = PhClosed" using ph by simp
  with False safeE_faults [OF removed_at [OF c _ env(3)]] show ?thesis by (simp add: connectDestroyed_def)
qed

lemma connectEstablished_at:
  assumes c: "conn_at rel L a v PhBorn c" and env: "e_update env = upd" "env_ok env"
  shows "safeE {LengthError} (\<lambda>c'. \<exists>v'. callbacks_set v' = callbacks_set v \<and> conn_at rel L a v' PhOpen c')
    (connectEstablished env c)"
proof -
  let ?c = "on_conn_channel tie c" and ?v = "dispatch_view (tie (conn_channel c))"
  have t: "conn_at rel L a ?v PhBorn ?c" by (rule conn_at_touch [OF c]) (simp add: tie_def)
  then obtain n where n: "rel (L(a := Fresh n)) (reactor ?c)" "\<And>b m e. b \<noteq> a \<Longrightarrow> L b = Live m e \<Longrightarrow> m \<noteq> n"
    by (auto simp: conn_at_def)
  obtain r where r: "enableReading upd a (reactor ?c) = Inr r" "rel (L(a := Live n kReadEvent)) r"
      "dispatch_view (chans r a) = dispatch_view (chans (reactor ?c) a)" using first_enableReading [OF n(1)] n(2) by blast
  have sw: "setState kConnected ?c = on_conn_channel tie (setState kConnected c)"
    by (simp add: on_conn_channel_def setState_def)
  have "conn_at rel L a ?v PhOpen (note_event UserUp ((setState kConnected ?c)\<lparr>reactor := r\<rparr>))"
    using t r event_bits(6) [of 0] by (auto simp: conn_at_def spec_run_append may_read_def)
  from call_user_at [OF this env] have "safeE {LengthError} (conn_at rel L a ?v PhOpen)
      (call_user env UserUp ((setState kConnected ?c)\<lparr>reactor := r\<rparr>))" by simp
  then have "safeE {LengthError} (\<lambda>c'. \<exists>v'. callbacks_set v' = callbacks_set v \<and> conn_at rel L a v' PhOpen c')
      (call_user env UserUp ((setState kConnected ?c)\<lparr>reactor := r\<rparr>))"
    by (rule safeE_mono) (use conn_at_view [OF c] callbacks_set_keep in blast)
  moreover have "conn_update (enableReading (e_update env)) (setState kConnected ?c) = Inr ((setState kConnected ?c)\<lparr>reactor := r\<rparr>)"
    using r t env by (simp add: conn_update_def conn_at_def)
  ultimately show ?thesis
    using conn_at_state(2) [OF c] by (simp add: connectEstablished_def sw)
qed

lemma handleError_at: "conn_at rel L a v ph c \<Longrightarrow> ph \<noteq> PhBorn \<Longrightarrow> conn_at rel L a v ph (handleError env c)"
  unfolding handleError_def by (intro conn_at_quiet(1) conn_at_quiet(3)) (simp_all add: after_up_def)

end

context reactor_contract
begin

lemma handleRead_at:
  assumes c: "conn_at rel L a v PhOpen c" and env: "e_update env = upd" "env_ok env" and rv: "read_ok rv (inputBuffer c)"
  shows "safeE {LengthError} (\<lambda>c'. conn_at rel L a v PhOpen c' \<or> conn_at rel L a v PhClosed c') (handleRead env rv c)"
proof (cases rv)
  case (ReadvErr e)
  have "c\<lparr>inputBuffer := inputBuffer c\<rparr> = c" by simp
  with ReadvErr c handleError_at [OF c] show ?thesis by (simp add: handleRead_def readFd_def Let_def)
next
  case (ReadvOk ds)
  have inv: "buf_inv (inputBuffer c)" using c by (simp add: conn_at_def)
  have rd: "safeE {LengthError} (\<lambda>(k, e, b'). k = int (length ds) \<and> e = None \<and> buf_inv b' \<and>
      content b' = content (inputBuffer c) @ ds) (readFd rv (inputBuffer c))"
    unfolding ReadvOk by (rule readFd_safe [OF inv]) (use rv ReadvOk in \<open>simp add: read_ok_def\<close>)
  show ?thesis unfolding handleRead_def
  proof (rule safeE_bind [OF rd], goal_cases)
    case (1 x)
    then obtain b where x: "x = (int (length ds), None, b)" "buf_inv b" "content b = content (inputBuffer c) @ ds"
      by (cases x) auto
    let ?c = "c\<lparr>inputBuffer := b\<rparr>"
    show ?case
    proof (cases "ds = []")
      case True
      then have "conn_at rel L a v PhOpen ?c" using c x by (simp add: conn_at_def may_read_def)
      from handleClose_at [OF this env] True x show ?thesis by (simp add: Let_def) (blast intro: safeE_mono)
    next
      case False
      then have "conn_at rel L a v PhOpen (note_event UserMessage (note_event (Received ds) ?c))"
        using c x by (auto simp: conn_at_def may_read_def spec_run_append)
      from call_user_at [OF this env] False x ReadvOk show ?thesis by (simp add: Let_def) (blast intro: safeE_mono)
    qed
  qed
qed

lemma handleWrite_open:
  assumes c: "conn_at rel L a v PhOpen c" and env: "e_update env = upd" "env_ok env"
    and wr: "isWriting (conn_channel c)"
    and n: "e_write env (calls c) (content (outputBuffer c)) = WriteOk n" "n > 0"
  shows "safeE {} (\<lambda>c'. conn_at rel L a v PhOpen c' \<and> content (outputBuffer c') = drop n (content (outputBuffer c)) \<and>
    state c' = state c \<and> pending c' = pending c @ (if content (outputBuffer c') = [] \<and> writeCompleteCallback c then [WriteComplete] else []) \<and>
    trace c' = trace c @ [Wrote (take n (content (outputBuffer c)))] @
      (if content (outputBuffer c') = [] \<and> state c = kDisconnecting then [ShutWr] else [])) (handleWrite env c)"
proof -
  let ?out = "content (outputBuffer c)"
  have le: "n \<le> length ?out" using env(2) n by (simp add: env_ok_def)
  have inv: "buf_inv (outputBuffer c)" using c by (simp add: conn_at_def)
  obtain b where b: "retrieve n (outputBuffer c) = Inr b" "buf_inv b" "content b = drop n ?out"
    using retrieve_ok [OF inv le] by blast
  have o: "conn_open rel L a v ?out c" using c by (simp add: conn_at_open)
  obtain m e where e: "rel (L(a := Live m e)) (reactor c)" "e \<in> event_masks" "has e kWriteEvent \<longleftrightarrow> ?out \<noteq> []"
    using open_channel [OF o] by blast
  let ?w = "(note_event (Wrote (take n ?out)) (c\<lparr>calls := calls c + 1\<rparr>))\<lparr>outputBuffer := b\<rparr>"
  have step: "sockets_write env ?out c = (WriteOk n, note_event (Wrote (take n ?out)) (c\<lparr>calls := calls c + 1\<rparr>))"
    using n by (simp add: sockets_write_def Let_def)
  show ?thesis
  proof (cases "drop n ?out = []")
    case False
    then have "conn_at rel L a v PhOpen ?w"
      using c b e le n(2) by (auto simp: conn_at_def may_read_def spec_run_append note_event_def)
    then show ?thesis using wr step b False readable_content [OF b(2)] n(2)
      by (simp add: handleWrite_def Let_def note_event_def)
  next
    case True
    obtain r where r: "disableWriting upd a (reactor c) = Inr r" "rel (L(a := Live m (e AND NOT kWriteEvent))) r"
        "dispatch_view (chans r a) = dispatch_view (chans (reactor c) a)"
      using channel_calls(4) [OF e(1)] by blast
    have a: "conn_at rel L a v PhOpen (?w\<lparr>reactor := r\<rparr>)"
      using c b r True le event_bits(2) [OF e(2)] by (auto simp: conn_at_def may_read_def spec_run_append note_event_def)
    have u: "conn_update (disableWriting (e_update env)) ?w = Inr (?w\<lparr>reactor := r\<rparr>)"
      using r env(1) c by (simp add: conn_update_def conn_at_def note_event_def)
    define q where "q = (if writeCompleteCallback (?w\<lparr>reactor := r\<rparr>) then queueFunctor WriteComplete (?w\<lparr>reactor := r\<rparr>) else ?w\<lparr>reactor := r\<rparr>)"
    have q: "conn_at rel L a v PhOpen q" "outputBuffer q = b" "state q = state c"
        "pending q = pending c @ (if writeCompleteCallback c then [WriteComplete] else [])" "trace q = trace c @ [Wrote (take n ?out)]"
      using a conn_at_quiet(2) [OF a, of WriteComplete] by (simp_all add: q_def functor_ok_def note_event_def queueFunctor_def)
    have "\<not> isWriting (conn_channel q)" using open_isWriting q(1,2) b(3) True conn_at_open by metis
    then have s: "shutdownInLoop q = note_event ShutWr q" by (simp add: shutdownInLoop_def)
    have eq: "handleWrite env c = Inr (if state c = kDisconnecting then shutdownInLoop q else q)"
      using wr step b True readable_content [OF b(2)] n(2) u
      by (simp add: handleWrite_def Let_def q_def)
    show ?thesis
      using q b(3) True shutdownInLoop_at [OF q(1)] unfolding eq by (simp add: s)
  qed
qed

end

lemma dispatch_view_keep:
  "dispatch_view (ch\<lparr>eventHandling := h\<rparr>) = dispatch_view ch" "fst (dispatch_view (set_revents r ch)) = r"
  by (simp_all add: dispatch_view_def set_revents_def)

definition conn_reached :: "(lives \<Rightarrow> 'p reactor \<Rightarrow> bool) \<Rightarrow> lives \<Rightarrow> nat \<Rightarrow> 'p TcpConnection \<Rightarrow> bool" where
  "conn_reached rel L a c \<longleftrightarrow> (\<exists>v ph. callbacks_set v \<and> ph \<noteq> PhDown \<and> conn_at rel L a v ph c)"

lemma conn_reachedI: "conn_at rel L a v ph c \<Longrightarrow> callbacks_set v \<Longrightarrow> ph \<noteq> PhDown \<Longrightarrow> conn_reached rel L a c"
  unfolding conn_reached_def by blast

lemma spec_close_once:
  "spec_run tr s = Some t \<Longrightarrow> sp_phase t = PhOpen \<or> sp_phase t = PhBorn \<Longrightarrow> UserClose \<notin> set tr \<and> (sp_phase s = PhOpen \<or> sp_phase s = PhBorn)"
proof (induction tr arbitrary: s)
  case (Cons ev tr)
  then obtain s' where s': "spec_step ev s = Some s'" "spec_run tr s' = Some t" by (auto split: option.splits)
  from Cons.IH [OF s'(2) Cons.prems(2)] s'(1) show ?case by (cases ev) (auto split: if_splits)
qed simp

lemma spec_gone_removed:
  "spec_run tr s = Some t \<Longrightarrow> sp_phase t = PhGone \<Longrightarrow> sp_phase s = PhGone \<or> Removed \<in> set tr"
proof (induction tr arbitrary: s)
  case (Cons ev tr)
  then obtain s' where s': "spec_step ev s = Some s'" "spec_run tr s' = Some t" by (auto split: option.splits)
  from Cons.IH [OF s'(2) Cons.prems(2)] s'(1) show ?case by (cases ev) (auto split: if_splits)
qed simp

lemma destroy_phase:
  assumes "conn_at rel L a v ph c" "ph \<noteq> PhDown" "op_ok OpDestroyed c"
  shows "ph = PhClosed \<or> state c = kConnected"
proof (cases "state c = kConnected")
  case False
  then have t: "UserClose \<in> set (trace c)" "Removed \<notin> set (trace c)" using assms(3) by simp_all
  have r: "spec_run (trace c) spec_init =
      Some \<lparr>sp_phase = ph, sp_out = content (outputBuffer c), sp_in = content (inputBuffer c)\<rparr>"
    using assms(1) by (simp add: conn_at_def)
  have "ph \<noteq> PhOpen" "ph \<noteq> PhBorn" "ph \<noteq> PhGone"
    using spec_close_once [OF r] spec_gone_removed [OF r] t by (auto simp: spec_init_def)
  then show ?thesis using assms(2) by (cases ph) simp_all
qed simp

context reactor_contract
begin

lemma handleWrite_at:
  assumes c: "conn_at rel L a v ph c" and ph: "ph = PhOpen \<or> ph = PhClosed" and env: "e_update env = upd" "env_ok env"
  shows "safeE {} (conn_at rel L a v ph) (handleWrite env c)"
proof (cases "isWriting (conn_channel c)")
  case True
  have "ph = PhOpen"
  proof (rule ccontr)
    assume "ph \<noteq> PhOpen"
    then obtain n where n: "rel (L(a := Live n 0)) (reactor c)" "channel c = a" using c ph by (auto simp: conn_at_def)
    then have "events (conn_channel c) = 0" using events_law [OF n(1), of a n 0] by (simp add: conn_channel_def)
    then show False using True by (simp add: isWriting_def has_def)
  qed
  with c have c: "conn_at rel L a v PhOpen c" by simp
  show ?thesis
  proof (cases "\<exists>n>0. e_write env (calls c) (content (outputBuffer c)) = WriteOk n")
    case True
    then obtain n where n: "e_write env (calls c) (content (outputBuffer c)) = WriteOk n" "n > 0" by blast
    from handleWrite_open [OF c env \<open>isWriting (conn_channel c)\<close> n] show ?thesis
      unfolding \<open>ph = PhOpen\<close> by (rule safeE_mono) blast
  next
    case False
    have "conn_at rel L a v PhOpen (note_event (Wrote []) (c\<lparr>calls := calls c + 1\<rparr>))"
      by (rule conn_at_quiet(1) [OF conn_at_quiet(3) [OF c]]) simp
    then show ?thesis unfolding \<open>ph = PhOpen\<close>
      using False True conn_at_quiet(3) [OF c]
      by (cases "e_write env (calls c) (content (outputBuffer c))") (auto simp: handleWrite_def sockets_write_def Let_def)
  qed
qed (use c in \<open>simp add: handleWrite_def\<close>)

lemma when_at:
  assumes "conn_at rel L a v ph c" "cond (fst v) \<Longrightarrow> safeE F P (run cb c)" "P c"
  shows "safeE F P (when_events conn_channel run cond cb c)"
proof -
  have "revents (conn_channel c) = fst v" using assms(1) by (auto simp: conn_at_def conn_channel_def dispatch_view_def)
  then show ?thesis using assms(2,3) by (simp add: when_events_def)
qed

lemma handleEvent_at:
  assumes c: "conn_at rel L a v PhOpen c" and env: "e_update env = upd" "env_ok env"
    and ev: "tcp_events revt" "read_ok rv (inputBuffer c)" and v: "callbacks_set v"
  shows "safeE {LengthError} (conn_reached rel L a) (conn_handleEvent env revt rv c)"
proof -
  let ?run = "conn_callback env rv"
  define v1 where "v1 = dispatch_view (set_revents revt (conn_channel c))"
  have v1: "callbacks_set v1" using v conn_at_view [OF c] callbacks_set_keep(2) by (simp add: v1_def)
  have r: "fst v1 = revt" by (simp add: v1_def dispatch_view_keep)
  have c1: "conn_at rel L a v1 PhOpen (on_conn_channel (set_revents revt) c)"
    unfolding v1_def by (rule conn_at_touch [OF c]) (simp add: set_revents_def)
  let ?h = "\<lambda>x. on_conn_channel (\<lambda>ch. ch\<lparr>eventHandling := x\<rparr>)"
  have keep: "conn_at rel L a v1 ph (?h x c')" if "conn_at rel L a v1 ph c'" for ph c' x
    using conn_at_touch [OF that, of "\<lambda>ch. ch\<lparr>eventHandling := x\<rparr>"] that
    by (auto simp: dispatch_view_keep conn_at_def conn_channel_def)
  let ?c = "?h True (on_conn_channel (set_revents revt) c)"
  let ?A = "conn_at rel L a v1"
  let ?P1 = "\<lambda>c'. ?A PhOpen c' \<and> inputBuffer c' = inputBuffer c \<or> ?A PhClosed c' \<and> has revt POLLHUP \<and> \<not> has revt POLLIN"
  let ?P2 = "\<lambda>c'. ?A PhOpen c' \<or> ?A PhClosed c'"
  have s1: "safeE {LengthError} ?P1 (when_events conn_channel ?run (\<lambda>r. has r POLLHUP \<and> \<not> has r POLLIN) CloseCb ?c)"
  proof (rule when_at [OF keep [OF c1]])
    assume "has (fst v1) POLLHUP \<and> \<not> has (fst v1) POLLIN"
    then show "safeE {LengthError} ?P1 (?run CloseCb ?c)"
      using handleClose_at [OF keep [OF c1] env] r by (simp) (blast intro: safeE_mono)
  qed (use keep [OF c1] in \<open>simp add: on_conn_channel_def\<close>)
  have s2: "safeE {LengthError} ?P1 (when_events conn_channel ?run (\<lambda>r. has r (POLLERR OR POLLNVAL)) ErrorCb c')" if P: "?P1 c'" for c'
  proof -
    obtain ph where ph: "?A ph c'" "ph = PhOpen \<or> ph = PhClosed" using P by blast
    show ?thesis
      by (rule when_at [OF ph(1)]) (use P handleError_at [of L a v1 _ c' env] in \<open>auto simp: handleError_def\<close>)
  qed
  have s3: "safeE {LengthError} ?P2 (when_events conn_channel ?run (\<lambda>r. has r (POLLIN OR POLLPRI OR POLLRDHUP)) ReadCb c')" if "?P1 c'" for c'
  proof (cases "?A PhOpen c' \<and> inputBuffer c' = inputBuffer c")
    case True
    then show ?thesis by (intro when_at [of L a v1 PhOpen c']) (use handleRead_at [OF _ env] ev in simp_all)
  next
    case False
    then have f: "?A PhClosed c'" "has revt POLLHUP \<and> \<not> has revt POLLIN" using that by blast+
    then show ?thesis by (intro when_at [OF f(1)]) (use ev(1) r in \<open>simp_all add: tcp_events_def\<close>)
  qed
  have s4: "safeE {LengthError} ?P2 (when_events conn_channel ?run (\<lambda>r. has r POLLOUT) WriteCb c')" if P: "?P2 c'" for c'
  proof -
    obtain ph where ph: "?A ph c'" "ph = PhOpen \<or> ph = PhClosed" using P by blast
    have "safeE {LengthError} ?P2 (?run WriteCb c')"
      using handleWrite_at [OF ph env] ph(2) by (auto elim!: safeE_cases)
    then show ?thesis by (intro when_at [OF ph(1)]) (use P in simp_all)
  qed
  have "safeE {LengthError} (conn_reached rel L a)
      (handleEventWithGuard conn_channel on_conn_channel ?run (on_conn_channel (set_revents revt) c))"
    unfolding handleEventWithGuard_def
    by (rule safeE_bind [OF s1], rule safeE_bind [OF s2], assumption, rule safeE_bind [OF s3], assumption,
        rule safeE_bind [OF s4], assumption) (auto intro: keep conn_reachedI [OF _ v1])
  then show ?thesis by (simp add: conn_handleEvent_def handleEvent_def)
qed

end

lemma conn_at_callbacks:
  "conn_at rel L a v ph c \<Longrightarrow> conn_at rel L a v ph (c\<lparr>writeCompleteCallback := w, highWaterMarkCallback := h, highWaterMark := m\<rparr>)"
  by (cases ph) (auto simp: conn_at_def may_read_def)

context reactor_contract
begin

lemma functor_at:
  assumes c: "conn_at rel L a v ph c" and ph: "ph \<noteq> PhDown" and v: "callbacks_set v"
    and env: "e_update env = upd" "env_ok env"
    and f: "functor_ok f" "f \<in> {StartReadInLoop, StopReadInLoop} \<longrightarrow> may_read c" "ph \<noteq> PhBorn"
  shows "safeE {LengthError} (conn_reached rel L a) (run_functor env f c)"
proof -
  have keep: "safeE {LengthError} (conn_reached rel L a) r" if "safeE {LengthError} (conn_at rel L a v ph) r" for r
    using that by (rule safeE_mono) (rule conn_reachedI [OF _ v ph])
  have st: "may_read c \<longleftrightarrow> ph = PhOpen" "state c = kDisconnected \<longleftrightarrow> ph \<noteq> PhOpen"
    using conn_at_state [OF c] f(3) by (cases ph; simp)+
  show ?thesis
  proof (cases f)
    case (SendInLoop m)
    then have m: "length m \<le> vector_max" using f(1) by (simp add: functor_ok_def)
    show ?thesis
    proof (cases "ph = PhOpen")
      case True
      then have "conn_at rel L a v PhOpen c" using c by simp
      from sendInLoop_ok [OF this env m] have "safeE {LengthError} (conn_at rel L a v ph) (sendInLoop env m c)"
        unfolding True by (rule safeE_mono) blast
      then show ?thesis using keep SendInLoop by simp
    next
      case False
      then show ?thesis using keep [of "Inr c"] c st SendInLoop by (simp add: sendInLoop_def)
    qed
  next
    case ShutdownInLoop
    then show ?thesis using keep [of "Inr (shutdownInLoop c)"] shutdownInLoop_at [OF c f(3)] by simp
  next
    case ForceCloseInLoop
    show ?thesis
    proof (cases "ph = PhOpen")
      case True
      then have "conn_at rel L a v PhOpen c" using c by simp
      from handleClose_at [OF this env] have "safeE {LengthError} (conn_reached rel L a) (handleClose env c)"
        by (rule safeE_mono) (erule conn_reachedI [OF _ v], simp)
      then show ?thesis using ForceCloseInLoop st True by (simp add: forceCloseInLoop_def may_read_def)
    next
      case False
      then show ?thesis using keep [of "Inr c"] c st ForceCloseInLoop by (simp add: forceCloseInLoop_def)
    qed
  next
    case StartReadInLoop
    then have "ph = PhOpen" using f(2) st by simp
    then show ?thesis using keep safeE_faults [OF reading_switched(1) [OF _ env(1)], of L a v c "{LengthError}"] c StartReadInLoop by simp
  next
    case StopReadInLoop
    then have "ph = PhOpen" using f(2) st by simp
    then show ?thesis using keep safeE_faults [OF reading_switched(2) [OF _ env(1)], of L a v c "{LengthError}"] c StopReadInLoop by simp
  next
    case WriteComplete
    have "conn_at rel L a v ph (note_event UserWriteComplete c)"
      by (rule conn_at_quiet(1) [OF c]) (use f(3) in \<open>simp add: after_up_def\<close>)
    from call_user_at [OF this env] show ?thesis using keep WriteComplete by simp
  next
    case (HighWaterMark n)
    have "conn_at rel L a v ph (note_event (UserHighWater n) c)"
      by (rule conn_at_quiet(1) [OF c]) (use f(3) in \<open>simp add: after_up_def\<close>)
    from call_user_at [OF this env] show ?thesis using keep HighWaterMark by simp
  qed
qed

lemma step_reached:
  assumes r: "conn_reached rel L a c" and env: "e_update env = upd" "env_ok env" "e_remove env = rem" and op: "op_ok op c"
  shows "safeE {LengthError} (conn_reached rel L a) (conn_step env op c)"
proof -
  obtain v ph where v: "callbacks_set v" "ph \<noteq> PhDown" and c: "conn_at rel L a v ph c" using r by (auto simp: conn_reached_def)
  have keep: "safeE {LengthError} (conn_reached rel L a) r" if "safeE {LengthError} (conn_at rel L a v ph') r" "ph' \<noteq> PhDown" for r ph'
    using that(1) by (rule safeE_mono) (rule conn_reachedI [OF _ v(1) that(2)])
  show ?thesis
  proof (cases op)
    case OpEstablished
    then have "conn_at rel L a v PhBorn c" using op conn_at_state(2) [OF c] c by simp
    from connectEstablished_at [OF this env(1,2)] have "safeE {LengthError} (conn_reached rel L a) (connectEstablished env c)"
      by (rule safeE_mono) (use v conn_reachedI in blast)
    then show ?thesis using OpEstablished by simp
  next
    case (OpEvent revt rv)
    then have "conn_at rel L a v PhOpen c" using op conn_at_state(1) [OF c] c by simp
    from handleEvent_at [OF this env(1,2)] OpEvent op v show ?thesis by simp
  next
    case OpFunctor
    show ?thesis
    proof (cases "pending c")
      case Nil
      then show ?thesis using OpFunctor r by simp
    next
      case (Cons f fs)
      have nb: "ph \<noteq> PhBorn" and f: "functor_ok f" using c Cons by (auto simp: conn_at_def)
      have "conn_at rel L a v ph (c\<lparr>pending := fs\<rparr>)" by (rule conn_at_quiet(7) [OF c nb Cons])
      from functor_at [OF this v(2,1) env(1,2) f _ nb] op OpFunctor Cons show ?thesis by (simp add: may_read_def)
    qed
  next
    case (OpCall inLoop call)
    then have "call_ok (ph = PhOpen) call" using op conn_at_state(1) [OF c] by simp
    from keep [OF user_act_at [OF c env(1,2) this] v(2)] OpCall show ?thesis by simp
  next
    case OpTimer
    show ?thesis
    proof (cases "delayedCloses c")
      case Nil
      then show ?thesis using OpTimer r by simp
    next
      case (Cons d ds)
      from keep [OF user_act_at [OF conn_at_quiet(4) [OF c] env(1,2), where call = CallForceClose] v(2)] OpTimer Cons
      show ?thesis by (simp add: call_ok_def)
    qed
  next
    case OpDestroyed
    then have "ph = PhClosed \<or> state c = kConnected" using destroy_phase [OF c v(2)] op by simp
    from keep [OF connectDestroyed_at [OF c this env]] OpDestroyed show ?thesis by simp
  qed
qed

lemma run_reached:
  assumes "conn_reached rel L a c" "e_update env = upd" "env_ok env" "e_remove env = rem" "ops_ok env ops c"
  shows "safeE {LengthError} (conn_reached rel L a) (foldE (conn_step env) ops c)"
  using assms(1,5)
proof (induction ops arbitrary: c)
  case (Cons op ops)
  then have "safeE {LengthError} (conn_reached rel L a) (conn_step env op c)" using step_reached assms(2-4) by simp
  then show ?case using Cons by (auto elim!: safeE_cases)
qed simp

lemma new_reached:
  assumes rel: "rel L r" and a: "L a = Gone" and n: "0 \<le> sockfd" "sockfd < fd_max"
    and free: "\<And>b m e. L b = Live m e \<Longrightarrow> m \<noteq> sockfd"
  obtains c where "TcpConnection_new a nm sockfd r = Inr c" "conn_reached rel L a c" "trace c = []" "state c = kConnecting"
proof -
  obtain b where b: "Buffer_new kInitialSize = Inr b" "buf_inv b" "content b = []"
    using buf_inv_new [of kInitialSize] by (auto simp: kInitialSize_def vector_max_def kCheapPrepend_def)
  define c0 :: "'a TcpConnection" where "c0 = \<lparr>reactor = on_channel a (\<lambda>_. Channel_new sockfd) r, channel = a, name = nm, state = kConnecting,
        reading = True, writeCompleteCallback = False, highWaterMarkCallback = False,
        highWaterMark = 64 * 1024 * 1024, inputBuffer = b, outputBuffer = b,
        pending = [], delayedCloses = [], calls = 0, trace = []\<rparr>"
  let ?f = "setErrorCallback \<circ> setCloseCallback \<circ> setWriteCallback \<circ> setReadCallback"
  note cbs = setErrorCallback_def setCloseCallback_def setWriteCallback_def setReadCallback_def
  have "rel (L(a := Fresh sockfd)) (reactor c0)" using new_law [OF rel, of a sockfd] a n by (simp add: c0_def)
  moreover have "life_ok L PhBorn (Fresh sockfd) c0" using b free by (auto simp: c0_def)
  ultimately have "\<exists>l. rel (L(a := l)) (reactor c0) \<and> life_ok L PhBorn l c0" by blast
  then have "conn_at rel L a (dispatch_view (conn_channel c0)) PhBorn c0"
    using b by (simp add: conn_at_def c0_def spec_init_def conn_channel_def)
  from conn_at_touch [OF this, of ?f] have c: "conn_at rel L a (dispatch_view (?f (conn_channel c0))) PhBorn (on_conn_channel ?f c0)"
    by (simp add: cbs)
  have "callbacks_set (dispatch_view (?f (conn_channel c0)))" by (simp add: callbacks_set_def dispatch_view_def cbs)
  from conn_reachedI [OF c this] have "conn_reached rel L a (on_conn_channel ?f c0)" by simp
  moreover have "TcpConnection_new a nm sockfd r = Inr (on_conn_channel ?f c0)"
    using b by (simp add: TcpConnection_new_def c0_def)
  ultimately show thesis using that by (simp add: on_conn_channel_def c0_def)
qed

lemma reached_callbacks:
  assumes "conn_reached rel L a c"
  shows "conn_reached rel L a (c\<lparr>writeCompleteCallback := w, highWaterMarkCallback := h, highWaterMark := m\<rparr>)"
  using assms conn_at_callbacks unfolding conn_reached_def by blast

end

section \<open>What the abstract connection guarantees\<close>

primrec taken :: "conn_event list \<Rightarrow> string" where
  "taken [] = []"
| "taken (ev # tr) = (case ev of Taken d \<Rightarrow> d | _ \<Rightarrow> []) @ taken tr"

primrec wrote :: "conn_event list \<Rightarrow> string" where
  "wrote [] = []"
| "wrote (ev # tr) = (case ev of Wrote d \<Rightarrow> d | _ \<Rightarrow> []) @ wrote tr"

primrec received :: "conn_event list \<Rightarrow> string" where
  "received [] = []"
| "received (ev # tr) = (case ev of Received d \<Rightarrow> d | _ \<Rightarrow> []) @ received tr"

primrec retrieved :: "conn_event list \<Rightarrow> string" where
  "retrieved [] = []"
| "retrieved (ev # tr) = (case ev of Retrieved d \<Rightarrow> d | _ \<Rightarrow> []) @ retrieved tr"

definition nothing_lost :: "conn_event list \<Rightarrow> bool" where
  "nothing_lost tr \<longleftrightarrow> list_all (\<lambda>ev. case ev of Lost d \<Rightarrow> False | _ \<Rightarrow> True) tr"

lemma spec_run_Cons:
  assumes "spec_run (ev # tr) s = Some t"
  obtains s' where "spec_step ev s = Some s'" "spec_run tr s' = Some t"
  using assms by (auto split: option.splits)

lemma take_prefix: "take (length d) xs = d \<Longrightarrow> \<exists>ys. xs = d @ ys"
  by (metis append_take_drop_id)

lemma spec_output: "spec_run tr s = Some t \<Longrightarrow> nothing_lost tr \<Longrightarrow> sp_out s @ taken tr = wrote tr @ sp_out t"
proof (induction tr arbitrary: s)
  case (Cons ev tr)
  then obtain s' where s': "spec_step ev s = Some s'" "spec_run tr s' = Some t" by (elim spec_run_Cons)
  have "sp_out s' @ taken tr = wrote tr @ sp_out t" using Cons.IH [OF s'(2)] Cons.prems(2) by (simp add: nothing_lost_def)
  then show ?case using s'(1) Cons.prems(2)
    by (cases ev) (auto simp: nothing_lost_def dest!: take_prefix split: if_splits)
qed simp

lemma spec_input: "spec_run tr s = Some t \<Longrightarrow> sp_in s @ received tr = retrieved tr @ sp_in t"
proof (induction tr arbitrary: s)
  case (Cons ev tr)
  then obtain s' where s': "spec_step ev s = Some s'" "spec_run tr s' = Some t" by (elim spec_run_Cons)
  have "sp_in s' @ received tr = retrieved tr @ sp_in t" using Cons.IH [OF s'(2)] .
  then show ?case using s'(1) by (cases ev) (auto dest!: take_prefix split: if_splits)
qed simp

primrec phase_rank :: "phase \<Rightarrow> nat" where
  "phase_rank PhBorn = 0"
| "phase_rank PhOpen = 1"
| "phase_rank PhDown = 2"
| "phase_rank PhClosed = 3"
| "phase_rank PhGone = 4"

lemma spec_phase_mono: "spec_run tr s = Some t \<Longrightarrow> phase_rank (sp_phase s) \<le> phase_rank (sp_phase t)"
proof (induction tr arbitrary: s)
  case (Cons ev tr)
  then obtain s' where s': "spec_step ev s = Some s'" "spec_run tr s' = Some t" by (elim spec_run_Cons)
  from Cons.IH [OF s'(2)] s'(1) show ?case by (cases ev) (auto split: if_splits)
qed simp

lemma spec_phases:
  assumes "spec_run tr s = Some t"
  shows "count_list tr UserUp = (if sp_phase s = PhBorn \<and> sp_phase t \<noteq> PhBorn then 1 else 0)"
    and "count_list tr UserDown = (if sp_phase s \<in> {PhBorn, PhOpen} \<and> sp_phase t \<notin> {PhBorn, PhOpen} then 1 else 0)"
    and "count_list tr UserClose \<le> (if sp_phase s \<in> {PhBorn, PhOpen, PhDown} then 1 else 0)"
    and "count_list tr Removed \<le> (if sp_phase s \<noteq> PhGone then 1 else 0)"
  using assms
proof (induction tr arbitrary: s)
  case (Cons ev tr)
  {
    case 1
    then obtain s' where s': "spec_step ev s = Some s'" "spec_run tr s' = Some t" by (elim spec_run_Cons)
    from Cons.IH(1) [OF s'(2)] spec_phase_mono [OF s'(2)] s'(1) show ?case by (cases ev) (auto split: if_splits)
  next
    case 2
    then obtain s' where s': "spec_step ev s = Some s'" "spec_run tr s' = Some t" by (elim spec_run_Cons)
    from Cons.IH(2) [OF s'(2)] spec_phase_mono [OF s'(2)] s'(1) show ?case by (cases ev) (auto split: if_splits)
  next
    case 3
    then obtain s' where s': "spec_step ev s = Some s'" "spec_run tr s' = Some t" by (elim spec_run_Cons)
    from Cons.IH(3) [OF s'(2)] spec_phase_mono [OF s'(2)] s'(1) show ?case by (cases ev) (auto split: if_splits)
  next
    case 4
    then obtain s' where s': "spec_step ev s = Some s'" "spec_run tr s' = Some t" by (elim spec_run_Cons)
    from Cons.IH(4) [OF s'(2)] spec_phase_mono [OF s'(2)] s'(1) show ?case by (cases ev) (auto split: if_splits)
  }
qed auto

lemma spec_split:
  assumes "spec_run (xs @ ev # ys) s = Some t"
  obtains u v where "spec_run xs s = Some u" "spec_step ev u = Some v" "spec_run ys v = Some t"
  using assms by (auto simp: spec_run_append split: option.splits)

lemma spec_no_down: "spec_run tr s = Some t \<Longrightarrow> UserDown \<notin> set tr \<Longrightarrow> sp_phase s \<in> {PhBorn, PhOpen} \<Longrightarrow>
  sp_phase t \<in> {PhBorn, PhOpen}"
  using spec_phases(2) [of tr s t] by (auto simp: count_list_0_iff split: if_splits)

lemma spec_after_down:
  "spec_run tr s = Some t \<Longrightarrow> sp_phase s \<notin> {PhBorn, PhOpen} \<Longrightarrow>
    UserMessage \<notin> set tr \<and> taken tr = [] \<and> wrote tr = [] \<and> received tr = []"
proof (induction tr arbitrary: s)
  case (Cons ev tr)
  then obtain s' where s': "spec_step ev s = Some s'" "spec_run tr s' = Some t" by (elim spec_run_Cons)
  from Cons.IH [OF s'(2)] Cons.prems(2) s'(1) show ?case by (cases ev) (auto split: if_splits)
qed simp

section \<open>A connection from the start\<close>

definition conn_world :: "(lives \<Rightarrow> 'p reactor \<Rightarrow> bool) \<Rightarrow> lives \<Rightarrow> nat \<Rightarrow> int \<Rightarrow> 'p reactor \<Rightarrow> bool" where
  "conn_world rel L a sockfd r \<longleftrightarrow> rel L r \<and> L a = Gone \<and> 0 \<le> sockfd \<and> sockfd < fd_max \<and>
     (\<forall>b m e. L b = Live m e \<longrightarrow> m \<noteq> sockfd)"

definition set_callbacks :: "bool \<Rightarrow> nat option \<Rightarrow> 'p TcpConnection \<Rightarrow> 'p TcpConnection" where
  "set_callbacks wc hw c =
     (let c = (if wc then setWriteCompleteCallback c else c)
      in case hw of None \<Rightarrow> c | Some mark \<Rightarrow> setHighWaterMarkCallback mark c)"

definition conn_run ::
    "'p conn_env \<Rightarrow> nat \<Rightarrow> string \<Rightarrow> int \<Rightarrow> bool \<Rightarrow> nat option \<Rightarrow> conn_op list \<Rightarrow> 'p reactor \<Rightarrow> 'p TcpConnection res" where
  "conn_run env a nm sockfd wc hw ops r =
     bindE (TcpConnection_new a nm sockfd r) (\<lambda>c. foldE (conn_step env) ops (set_callbacks wc hw c))"

definition run_ok ::
    "'p conn_env \<Rightarrow> nat \<Rightarrow> string \<Rightarrow> int \<Rightarrow> bool \<Rightarrow> nat option \<Rightarrow> conn_op list \<Rightarrow> 'p reactor \<Rightarrow> bool" where
  "run_ok env a nm sockfd wc hw ops r \<longleftrightarrow> env_ok env \<and>
     (case TcpConnection_new a nm sockfd r of Inr c \<Rightarrow> ops_ok env ops (set_callbacks wc hw c) | Inl _ \<Rightarrow> True)"

context reactor_contract
begin

lemma run_new:
  assumes w: "conn_world rel L a sockfd r" and env: "e_update env = upd" "e_remove env = rem"
    and ok: "run_ok env a nm sockfd wc hw ops r"
  shows "safeE {LengthError} (conn_reached rel L a) (conn_run env a nm sockfd wc hw ops r)"
proof -
  have w': "rel L r" "L a = Gone" "0 \<le> sockfd" "sockfd < fd_max" "\<And>b m e. L b = Live m e \<Longrightarrow> m \<noteq> sockfd"
    using w unfolding conn_world_def by blast+
  obtain c where c: "TcpConnection_new a nm sockfd r = Inr c" "conn_reached rel L a c"
    by (rule new_reached [OF w'(1-4)]) (erule w'(5))
  have "set_callbacks wc hw c = c\<lparr>writeCompleteCallback := wc \<or> writeCompleteCallback c,
      highWaterMarkCallback := hw \<noteq> None \<or> highWaterMarkCallback c,
      highWaterMark := (case hw of None \<Rightarrow> highWaterMark c | Some m \<Rightarrow> m)\<rparr>"
    by (simp add: set_callbacks_def setWriteCompleteCallback_def setHighWaterMarkCallback_def Let_def split: option.split)
  then have "conn_reached rel L a (set_callbacks wc hw c)" using reached_callbacks [OF c(2)] by simp
  from run_reached [OF this env(1) _ env(2)] ok c(1) show ?thesis by (simp add: conn_run_def run_ok_def)
qed

lemma run_spec:
  assumes "conn_world rel L a sockfd r" "e_update env = upd" "e_remove env = rem" "run_ok env a nm sockfd wc hw ops r"
    and "conn_run env a nm sockfd wc hw ops r = Inr c"
  obtains v ph where "callbacks_set v" "ph \<noteq> PhDown" "conn_at rel L a v ph c"
    "spec_run (trace c) spec_init =
       Some \<lparr>sp_phase = ph, sp_out = content (outputBuffer c), sp_in = content (inputBuffer c)\<rparr>"
proof -
  have "conn_reached rel L a c" using run_new [OF assms(1-4)] assms(5) by simp
  then obtain v ph where "callbacks_set v" "ph \<noteq> PhDown" "conn_at rel L a v ph c" unfolding conn_reached_def by blast
  then show thesis using that by (simp add: conn_at_def)
qed

end

definition sample_env :: "(int \<Rightarrow> epoll_event option) EPollPoller conn_env" where
  "sample_env = \<lparr>e_update = epoll_updateChannel model_ctl, e_remove = epoll_removeChannel model_ctl,
     e_write = (\<lambda>_ d. WriteOk (min 1 (length d))), e_soerror = (\<lambda>_. 0), e_user = (\<lambda>_ _. [])\<rparr>"

definition sample_reactor :: "(int \<Rightarrow> epoll_event option) EPollPoller reactor" where
  "sample_reactor = reactor_new (\<lambda>_. Channel_new 0) \<lparr>channels = (\<lambda>_. None), kernel = (\<lambda>_. None), eventList = 16\<rparr>"

lemmas sample_defs = sample_env_def sample_reactor_def reactor_new_def TcpConnection_new_def set_callbacks_def
  setWriteCompleteCallback_def setHighWaterMarkCallback_def connectEstablished_def conn_update_def on_conn_channel_def
  setState_def enableReading_def enableWriting_def disableWriting_def disableAll_def Channel_update_def Channel_remove_def on_channel_def Channel_new_def tie_def setErrorCallback_def
  setCloseCallback_def setWriteCallback_def setReadCallback_def epoll_updateChannel_def epoll_update_def epoll_removeChannel_def set_index_def
  kNew_def kAdded_def kDeleted_def isNoneEvent_def event_consts call_user_def note_event_def queueFunctor_def

lemma sample_buffers:
  obtains b b1 b2 b3 where "Buffer_new kInitialSize = Inr b" "readableBytes b = 0" "content b = []"
    "Buffer_append ''b'' b = Inr b1" "readableBytes b1 = 1" "content b1 = ''b''"
    "retrieve 1 b1 = Inr b2" "retrieve (Suc 0) b1 = Inr b2" "readableBytes b2 = 0" "content b2 = []"
    "readFd (ReadvOk []) b = Inr (0, None, b3)" "content b3 = []"
proof -
  obtain b where b: "Buffer_new kInitialSize = Inr b" "buf_inv b" "content b = []" "writerIndex b = kCheapPrepend"
      "length (buffer b) = kCheapPrepend + kInitialSize"
    using buf_inv_new [of kInitialSize] by (auto simp: kInitialSize_def vector_max_def kCheapPrepend_def)
  obtain b1 where b1: "Buffer_append ''b'' b = Inr b1" "buf_inv b1" "content b1 = ''b''"
    using Buffer_append_ok [OF b(2), of "''b''"] b by (auto simp: kCheapPrepend_def vector_max_def)
  obtain b2 where b2: "retrieve 1 b1 = Inr b2" "buf_inv b2" "content b2 = []" using retrieve_ok [OF b1(2), of 1] b1(3) by auto
  obtain b3 where "readFd (ReadvOk []) b = Inr (0, None, b3)" "content b3 = []"
    using readFd_ok [OF b(2), of "[]"] b(3,5) by (auto simp: kCheapPrepend_def kInitialSize_def extrabuf_size_def vector_max_def)
  then show thesis using that b b1 b2 by (simp add: readable_content)
qed

definition sample_ops :: "conn_op list" where
  "sample_ops = [OpEstablished, OpCall True (CallSend ''ab''), OpCall True CallShutdown]"

definition sample_end :: "conn_op list" where
  "sample_end = [OpEvent POLLOUT (ReadvErr 11), OpFunctor, OpEvent POLLIN (ReadvOk []), OpDestroyed]"

lemmas send_defs = conn_send_def runInLoop_def sendInLoop_def send_directly_def sockets_write_def append_output_def
  conn_channel_def isWriting_def isReading_def has_def conn_shutdown_def shutdownInLoop_def

lemma sample_run:
  "\<exists>c. conn_run sample_env 7 ''c'' 3 True None sample_ops sample_reactor = Inr c \<and> state c = kDisconnecting \<and>
    content (outputBuffer c) = ''b'' \<and> trace c = [UserUp, Taken ''ab'', Wrote ''a''] \<and> 
    run_ok sample_env 7 ''c'' 3 True None sample_ops sample_reactor"
  by (rule sample_buffers)
    (simp add: conn_run_def run_ok_def env_ok_def call_ok_def sample_ops_def sample_defs send_defs sub64_exact add64_def Let_def size_mod_def vector_max_def)

lemma sample_end_run:
  "\<exists>c. conn_run sample_env 7 ''c'' 3 True None (sample_ops @ sample_end) sample_reactor = Inr c \<and> state c = kDisconnected \<and>
    trace c = [UserUp, Taken ''ab'', Wrote ''a'', Wrote ''b'', ShutWr, UserWriteComplete, UserDown, UserClose, Removed] \<and> 
    run_ok sample_env 7 ''c'' 3 True None (sample_ops @ sample_end) sample_reactor"
  by (rule sample_buffers)
    (simp add: conn_run_def run_ok_def env_ok_def call_ok_def sample_ops_def sample_end_def sample_defs send_defs
      conn_handleEvent_def handleEvent_def handleEventWithGuard_def when_events_def set_revents_def
      handleWrite_def handleRead_def handleClose_def connectDestroyed_def may_read_def tcp_events_def read_ok_def
       sub64_exact add64_def Let_def size_mod_def vector_max_def)

section \<open>Flushing\<close>

definition kernel_accepts :: "'p conn_env \<Rightarrow> bool" where
  "kernel_accepts env \<longleftrightarrow> (\<forall>n d. d \<noteq> [] \<longrightarrow> (\<exists>k>0. e_write env n d = WriteOk k))"

lemma wanted_quiet:
  assumes "L a = Gone" "\<And>n e. l = Live n e \<Longrightarrow> e = 0"
  shows "wanted (L(a := l)) = wanted L"
proof -
  have "(\<exists>b. (L(a := l)) b = Live n e) \<longleftrightarrow> (\<exists>b. L b = Live n e)" if e: "e \<noteq> 0" for n e
  proof
    assume "\<exists>b. (L(a := l)) b = Live n e"
    then show "\<exists>b. L b = Live n e" using assms(2) e by (auto split: if_splits)
  next
    assume "\<exists>b. L b = Live n e"
    then obtain b where "L b = Live n e" by blast
    then show "\<exists>b. (L(a := l)) b = Live n e" using assms(1) by (intro exI [of _ b]) auto
  qed
  then show ?thesis unfolding wanted_def by blast
qed

lemma wrote_append [simp]: "wrote (xs @ ys) = wrote xs @ wrote ys"
  by (induction xs) simp_all

context reactor_contract
begin

lemma write_event:
  assumes c: "conn_at rel L a v PhOpen c" and v: "callbacks_set v" and env: "e_update env = upd" "env_ok env"
    and k: "e_write env (calls c) (content (outputBuffer c)) = WriteOk k" "k > 0" and out: "content (outputBuffer c) \<noteq> []"
  shows "\<exists>c' v'. conn_step env (OpEvent POLLOUT rv) c = Inr c' \<and> conn_at rel L a v' PhOpen c' \<and> callbacks_set v' \<and>
    content (outputBuffer c') = drop k (content (outputBuffer c)) \<and> state c' = state c \<and>
    trace c' = trace c @ [Wrote (take k (content (outputBuffer c)))] @
      (if content (outputBuffer c') = [] \<and> state c = kDisconnecting then [ShutWr] else [])"
proof -
  let ?h = "\<lambda>x. on_conn_channel (\<lambda>ch. ch\<lparr>eventHandling := x\<rparr>)"
  define v1 where "v1 = dispatch_view (set_revents POLLOUT (conn_channel c))"
  have v1: "callbacks_set v1" using v conn_at_view [OF c] callbacks_set_keep(2) by (simp add: v1_def)
  have c1: "conn_at rel L a v1 PhOpen (on_conn_channel (set_revents POLLOUT) c)"
    unfolding v1_def by (rule conn_at_touch [OF c]) (simp add: set_revents_def)
  have keep: "conn_at rel L a v1 ph (?h x c')" if "conn_at rel L a v1 ph c'" for ph c' x
    using conn_at_touch [OF that, of "\<lambda>ch. ch\<lparr>eventHandling := x\<rparr>"] conn_at_view [OF that] by (simp add: dispatch_view_keep)
  define c2 where "c2 = ?h True (on_conn_channel (set_revents POLLOUT) c)"
  have c2: "conn_at rel L a v1 PhOpen c2" "outputBuffer c2 = outputBuffer c" "state c2 = state c" "trace c2 = trace c" "calls c2 = calls c"
    using keep [OF c1] by (simp_all add: c2_def on_conn_channel_def)
  have wr: "isWriting (conn_channel c2)" using open_isWriting c2(1,2) out conn_at_open by metis
  have r: "revents (conn_channel c2) = POLLOUT"
    by (simp add: c2_def conn_channel_def on_conn_channel_def on_channel_def set_revents_def)
  have w: "writeCallback (conn_channel c2)"
    using v1 conn_at_view [OF c2(1)] by (auto simp: callbacks_set_def dispatch_view_def)
  have "safeE {} (\<lambda>c'. conn_at rel L a v1 PhOpen c' \<and> content (outputBuffer c') = drop k (content (outputBuffer c)) \<and>
      state c' = state c \<and> trace c' = trace c @ [Wrote (take k (content (outputBuffer c)))] @
      (if content (outputBuffer c') = [] \<and> state c = kDisconnecting then [ShutWr] else [])) (handleWrite env c2)"
    by (rule safeE_mono [OF handleWrite_open [OF c2(1) env wr, unfolded c2(2-5), OF k]]) blast
  then obtain c3 where c3: "handleWrite env c2 = Inr c3" "conn_at rel L a v1 PhOpen c3"
      "content (outputBuffer c3) = drop k (content (outputBuffer c))" "state c3 = state c"
      "trace c3 = trace c @ [Wrote (take k (content (outputBuffer c)))] @
      (if content (outputBuffer c3) = [] \<and> state c = kDisconnecting then [ShutWr] else [])"
    by (elim safeE_cases) auto
  have "conn_step env (OpEvent POLLOUT rv) c = Inr (?h False c3)"
    using c3(1) r w by (simp add: conn_handleEvent_def handleEvent_def handleEventWithGuard_def when_events_def
        c2_def [symmetric] has_def)
  then show ?thesis using keep [OF c3(2), of False] v1 c3
    by (intro exI [of _ "?h False c3"] exI [of _ v1]) (simp add: on_conn_channel_def)
qed

lemma flushes:
  assumes "conn_at rel L a v PhOpen c" "callbacks_set v" and env: "e_update env = upd" "env_ok env" "kernel_accepts env"
  shows "\<exists>n \<le> length (content (outputBuffer c)). \<exists>c'. foldE (conn_step env) (replicate n (OpEvent POLLOUT rv)) c = Inr c' \<and>
    content (outputBuffer c') = [] \<and> state c' = state c \<and> wrote (trace c') = wrote (trace c) @ content (outputBuffer c) \<and>
    (content (outputBuffer c) \<noteq> [] \<longrightarrow> state c = kDisconnecting \<longrightarrow> last (trace c') = ShutWr)"
  using assms(1,2)
proof (induction "length (content (outputBuffer c))" arbitrary: c v rule: less_induct)
  case less
  show ?case
  proof (cases "content (outputBuffer c) = []")
    case False
    then obtain k where k: "e_write env (calls c) (content (outputBuffer c)) = WriteOk k" "k > 0"
      using env(3) by (auto simp: kernel_accepts_def)
    obtain c1 v1 where s: "conn_step env (OpEvent POLLOUT rv) c = Inr c1" "conn_at rel L a v1 PhOpen c1" "callbacks_set v1"
        "content (outputBuffer c1) = drop k (content (outputBuffer c))" "state c1 = state c"
        "trace c1 = trace c @ [Wrote (take k (content (outputBuffer c)))] @
          (if content (outputBuffer c1) = [] \<and> state c = kDisconnecting then [ShutWr] else [])"
      using write_event [OF less.prems env(1,2) k False] by blast
    have lt: "length (content (outputBuffer c1)) < length (content (outputBuffer c))" using s(4) k(2) False by simp
    obtain n c' where n: "n \<le> length (content (outputBuffer c1))" "foldE (conn_step env) (replicate n (OpEvent POLLOUT rv)) c1 = Inr c'"
        "content (outputBuffer c') = []" "state c' = state c1" "wrote (trace c') = wrote (trace c1) @ content (outputBuffer c1)"
        "content (outputBuffer c1) \<noteq> [] \<longrightarrow> state c1 = kDisconnecting \<longrightarrow> last (trace c') = ShutWr"
      using less.hyps [OF lt s(2,3)] by blast
    have "last (trace c') = ShutWr" if "state c = kDisconnecting"
    proof (cases "content (outputBuffer c1) = []")
      case True
      then have "c' = c1" using n(1,2) by simp
      then show ?thesis using s(6) True that by simp
    qed (use n(6) s(5) that in simp)
    moreover have "wrote (trace c1) @ content (outputBuffer c1) = wrote (trace c) @ content (outputBuffer c)"
      using s(4,6) by simp
    ultimately show ?thesis using n s(1,5) lt by (intro exI [of _ "Suc n"]) simp
  qed (auto intro: exI [of _ 0])
qed

lemma closed_then_startRead:
  assumes c: "conn_at rel L a v PhClosed c" and env: "e_update env = upd"
  shows "\<exists>c'. startReadInLoop env c = Inr c' \<and> connectDestroyed env c' = Inl AssertFail"
proof -
  obtain n where n: "rel (L(a := Live n 0)) (reactor c)" and ch: "channel c = a" "state c = kDisconnected"
    using c by (auto simp: conn_at_def)
  have "events (conn_channel c) = 0" using events_law [OF n, of a n 0] ch by (simp add: conn_channel_def)
  then have nr: "\<not> isReading (conn_channel c)" by (simp add: isReading_def has_def)
  obtain r where r: "enableReading upd a (reactor c) = Inr r" "rel (L(a := Live n (0 OR kReadEvent))) r"
    using channel_calls(1) [OF n] by blast
  have "events (chans r a) = kReadEvent" using events_law [OF r(2), of a n kReadEvent] by simp
  then show ?thesis using nr r(1) env ch
    by (simp add: startReadInLoop_def conn_update_def connectDestroyed_def Channel_remove_def isNoneEvent_def event_consts)
qed

end

text \<open>Destroying a connection that is still shutting down, or restarting reading after it closed, ends in an assertion.\<close>

lemma destroyed_while_disconnecting:
  assumes "state c = kDisconnecting" "\<not> isNoneEvent (conn_channel c)"
  shows "connectDestroyed env c = Inl AssertFail"
  using assms by (simp add: connectDestroyed_def conn_update_def Channel_remove_def conn_channel_def)

section \<open>Properties\<close>






text \<open>
  C16. Data does not stay behind: in any state a connection can be in while it is up, if the kernel
  takes at least a byte whenever it reports the socket writable, then as many such reports as there
  are bytes in the output buffer empty it without changing the state, the bytes reach the kernel, and
  a \<^verbatim>\<open>shutdown\<close> that was waiting for them is carried out.
\<close>

theorem connection_flushes:
  assumes "conn_world (epoll_rel ctl interest) L a sockfd r"
    and "e_update env = epoll_updateChannel ctl" "e_remove env = epoll_removeChannel ctl"
    and "run_ok env a nm sockfd wc hw ops r" "conn_run env a nm sockfd wc hw ops r = Inr c"
    and "state c \<in> {kConnected, kDisconnecting}" "kernel_accepts env"
  shows "\<exists>n \<le> length (content (outputBuffer c)). \<exists>c'. foldE (conn_step env) (replicate n (OpEvent POLLOUT rv)) c = Inr c' \<and>
    content (outputBuffer c') = [] \<and> state c' = state c \<and> wrote (trace c') = wrote (trace c) @ content (outputBuffer c) \<and>
    (content (outputBuffer c) \<noteq> [] \<longrightarrow> state c = kDisconnecting \<longrightarrow> last (trace c') = ShutWr)"
proof -
  obtain v ph where v: "callbacks_set v" and c: "conn_at (epoll_rel ctl interest) L a v ph c"
    using epollr.run_spec [OF assms(1-5)] by blast
  have "env_ok env" using assms(4) by (simp add: run_ok_def)
  moreover have "ph = PhOpen" using conn_at_state(1) [OF c] assms(6) by (auto simp: may_read_def)
  ultimately show ?thesis using epollr.flushes [OF _ v assms(2) _ assms(7)] c by blast
qed


text \<open>
  The witnesses run a connection whose kernel takes a byte at a time: it is established, sends two
  bytes, shuts down, becomes writable, and is closed by the peer and destroyed.
\<close>

lemma sample_world: "conn_world (epoll_rel model_ctl (\<lambda>k. k)) (\<lambda>_. Gone) 7 3 sample_reactor"
  by (simp add: conn_world_def fd_max_def sample_reactor_def epoll_rel_def model_ctl_works reactor_new_def)

lemma sample_calls: "e_update sample_env = epoll_updateChannel model_ctl" "e_remove sample_env = epoll_removeChannel model_ctl"
  by (simp_all add: sample_env_def)




theorem connection_flushes_witness:
  "\<exists>c n c'. conn_run sample_env 7 ''c'' 3 True None sample_ops sample_reactor = Inr c \<and>
     foldE (conn_step sample_env) (replicate n (OpEvent POLLOUT (ReadvErr 11))) c = Inr c' \<and>
     content (outputBuffer c') = [] \<and> last (trace c') = ShutWr"
proof -
  obtain c where c: "conn_run sample_env 7 ''c'' 3 True None sample_ops sample_reactor = Inr c" "state c = kDisconnecting"
      "content (outputBuffer c) = ''b''" "run_ok sample_env 7 ''c'' 3 True None sample_ops sample_reactor"
    using sample_run by blast
  have "kernel_accepts sample_env" by (simp add: kernel_accepts_def sample_env_def)
  from connection_flushes [OF sample_world sample_calls c(4,1) _ this, of "ReadvErr 11"] c show ?thesis by auto
qed

text \<open>The same connection on \<^verbatim>\<open>PollPoller\<close>.\<close>

definition sample_poll_env :: "PollPoller conn_env" where
  "sample_poll_env = \<lparr>e_update = poll_updateChannel, e_remove = poll_removeChannel,
     e_write = (\<lambda>_ d. WriteOk (min 1 (length d))), e_soerror = (\<lambda>_. 0), e_user = (\<lambda>_ _. [])\<rparr>"

definition sample_poll_reactor :: "PollPoller reactor" where
  "sample_poll_reactor = reactor_new (\<lambda>_. Channel_new 0) PollPoller_new"

lemma sample_poll_world: "conn_world poll_rel (\<lambda>_. Gone) 7 3 sample_poll_reactor"
  by (simp add: conn_world_def fd_max_def sample_poll_reactor_def poll_rel_new)

lemma sample_poll_calls: "e_update sample_poll_env = poll_updateChannel" "e_remove sample_poll_env = poll_removeChannel"
  by (simp_all add: sample_poll_env_def)

lemma sample_poll_run:
  "\<exists>c. conn_run sample_poll_env 7 ''c'' 3 True None (sample_ops @ sample_end) sample_poll_reactor = Inr c \<and> state c = kDisconnected \<and>
    trace c = [UserUp, Taken ''ab'', Wrote ''a'', Wrote ''b'', ShutWr, UserWriteComplete, UserDown, UserClose, Removed] \<and>
    run_ok sample_poll_env 7 ''c'' 3 True None (sample_ops @ sample_end) sample_poll_reactor"
  by (rule sample_buffers)
    (simp add: conn_run_def run_ok_def env_ok_def call_ok_def sample_ops_def sample_end_def sample_defs send_defs
      sample_poll_env_def sample_poll_reactor_def PollPoller_new_def poll_updateChannel_def poll_removeChannel_def
      to_int32_def in_int32_def ints32_def vec_nth_def
      conn_handleEvent_def handleEvent_def handleEventWithGuard_def when_events_def set_revents_def
      handleWrite_def handleRead_def handleClose_def connectDestroyed_def may_read_def tcp_events_def read_ok_def
      sub64_exact add64_def Let_def size_mod_def vector_max_def)



end
