(* ===== verification/EventLoop.thy ===== *)
theory EventLoop
  imports Poller TimerQueue
begin

text \<open>
  \<^verbatim>\<open>muduo/net/EventLoop\<close>: the loop of one thread, its queue of pending functors and the eventfd that
  wakes it. A functor is a finite tree of what it does to the loop: it queues or runs other functors
  or quits. The sequential definitions follow the member functions; below them a step relation
  interleaves the loop thread with other threads at the points where the code can be preempted,
  and shows that no wakeup is lost and that functors run once and in order.
\<close>

section \<open>State\<close>

datatype task = Task nat "act list"
  and act = ActQueue task | ActRun task | ActQuit

record 'p EventLoop =
  looping :: bool
  quit :: bool
  loopEventHandling :: bool
  callingPendingFunctors :: bool
  iteration :: int
  threadId :: int
  wakeupChannel :: nat
  wakeupCount :: nat
  activeChannels :: "nat list"
  currentActiveChannel :: "nat option"
  pendingFunctors :: "task list"
  loopReactor :: "'p reactor"
  executed :: "nat list"

text \<open>\<open>existing\<close> is \<^verbatim>\<open>t_loopInThisThread\<close>; \<open>wakeupfd\<close> is what \<^verbatim>\<open>eventfd\<close> returned.\<close>

definition getEventLoopOfCurrentThread :: "(int \<Rightarrow> 'l option) \<Rightarrow> int \<Rightarrow> 'l option" where
  "getEventLoopOfCurrentThread loopInThread tid = loopInThread tid"

definition createEventfd :: "int \<Rightarrow> int res" where
  "createEventfd evtfd = (if evtfd < 0 then Inl Fatal else Inr evtfd)"

definition EventLoop_new ::
    "'p chan_call \<Rightarrow> bool \<Rightarrow> int \<Rightarrow> int \<Rightarrow> nat \<Rightarrow> 'p reactor \<Rightarrow> 'p EventLoop res" where
  "EventLoop_new upd existing tid evtfd a r =
     bindE (createEventfd evtfd) (\<lambda>wakeupfd.
       if existing then Inl Fatal
       else bindE (enableReading upd a (on_channel a setReadCallback (on_channel a (\<lambda>_. Channel_new wakeupfd) r)))
         (\<lambda>r. Inr \<lparr>looping = False, quit = False, loopEventHandling = False, callingPendingFunctors = False,
                iteration = 0, threadId = tid, wakeupChannel = a, wakeupCount = 0, activeChannels = [],
                currentActiveChannel = None, pendingFunctors = [], loopReactor = r, executed = []\<rparr>))"

definition EventLoop_destroy :: "'p chan_call \<Rightarrow> 'p chan_call \<Rightarrow> 'p EventLoop \<Rightarrow> 'p reactor res" where
  "EventLoop_destroy upd rem s =
     bindE (disableAll upd (wakeupChannel s) (loopReactor s)) (Channel_remove rem (wakeupChannel s))"

definition isInLoopThread :: "int \<Rightarrow> 'p EventLoop \<Rightarrow> bool" where
  "isInLoopThread tid s \<longleftrightarrow> threadId s = tid"

definition abortNotInLoopThread :: "'a res" where
  "abortNotInLoopThread = Inl Fatal"

definition assertInLoopThread :: "int \<Rightarrow> 'p EventLoop \<Rightarrow> 'a res \<Rightarrow> 'a res" where
  "assertInLoopThread tid s r = (if \<not> isInLoopThread tid s then abortNotInLoopThread else r)"

section \<open>Waking up\<close>

text \<open>The counter of an eventfd: a write that would exceed the maximum fails and is logged; a read resets it.\<close>

definition eventfd_max :: nat where
  "eventfd_max = 2 ^ 64 - 2"

definition wakeup :: "'p EventLoop \<Rightarrow> 'p EventLoop" where
  "wakeup s = (if wakeupCount s < eventfd_max then s\<lparr>wakeupCount := wakeupCount s + 1\<rparr> else s)"

definition loop_handleRead :: "'p EventLoop \<Rightarrow> 'p EventLoop" where
  "loop_handleRead s = s\<lparr>wakeupCount := 0\<rparr>"

section \<open>Functors\<close>

text \<open>\<^verbatim>\<open>queueInLoop\<close> in its two parts, the one under the lock and the one after it.\<close>

definition queue_push :: "task \<Rightarrow> 'p EventLoop \<Rightarrow> 'p EventLoop" where
  "queue_push cb s = s\<lparr>pendingFunctors := pendingFunctors s @ [cb]\<rparr>"

definition queue_wake :: "int \<Rightarrow> 'p EventLoop \<Rightarrow> 'p EventLoop" where
  "queue_wake tid s = (if \<not> isInLoopThread tid s \<or> callingPendingFunctors s then wakeup s else s)"

definition queueInLoop :: "int \<Rightarrow> task \<Rightarrow> 'p EventLoop \<Rightarrow> 'p EventLoop" where
  "queueInLoop tid cb s = queue_wake tid (queue_push cb s)"

definition queueSize :: "'p EventLoop \<Rightarrow> nat" where
  "queueSize s = length (pendingFunctors s)"

definition loop_quit :: "int \<Rightarrow> 'p EventLoop \<Rightarrow> 'p EventLoop" where
  "loop_quit tid s = (let s = s\<lparr>quit := True\<rparr> in if \<not> isInLoopThread tid s then wakeup s else s)"

fun run_act :: "act \<Rightarrow> 'p EventLoop \<Rightarrow> 'p EventLoop" and run_task :: "task \<Rightarrow> 'p EventLoop \<Rightarrow> 'p EventLoop" where
  "run_act (ActQueue cb) s = queueInLoop (threadId s) cb s"
| "run_act (ActRun cb) s = run_task cb s"
| "run_act ActQuit s = loop_quit (threadId s) s"
| "run_task (Task n acts) s = fold run_act acts (s\<lparr>executed := executed s @ [n]\<rparr>)"

definition loop_runInLoop :: "int \<Rightarrow> task \<Rightarrow> 'p EventLoop \<Rightarrow> 'p EventLoop" where
  "loop_runInLoop tid cb s = (if isInLoopThread tid s then run_task cb s else queueInLoop tid cb s)"

definition doPendingFunctors :: "'p EventLoop \<Rightarrow> 'p EventLoop" where
  "doPendingFunctors s =
     (let functors = pendingFunctors s;
          s = fold run_task functors (s\<lparr>callingPendingFunctors := True, pendingFunctors := []\<rparr>)
      in s\<lparr>callingPendingFunctors := False\<rparr>)"

section \<open>Channels\<close>

text \<open>\<open>owned\<close> is whether \<^verbatim>\<open>channel->ownerLoop() == this\<close>.\<close>

definition on_reactor :: "'p chan_call \<Rightarrow> nat \<Rightarrow> 'p EventLoop \<Rightarrow> 'p EventLoop res" where
  "on_reactor f a s = bindE (f a (loopReactor s)) (\<lambda>r. Inr (s\<lparr>loopReactor := r\<rparr>))"

definition updateChannel :: "'p chan_call \<Rightarrow> int \<Rightarrow> (nat \<Rightarrow> bool) \<Rightarrow> nat \<Rightarrow> 'p EventLoop \<Rightarrow> 'p EventLoop res" where
  "updateChannel upd tid owned a s = assert_that (owned a) (assertInLoopThread tid s (on_reactor upd a s))"

definition removeChannel :: "'p chan_call \<Rightarrow> int \<Rightarrow> (nat \<Rightarrow> bool) \<Rightarrow> nat \<Rightarrow> 'p EventLoop \<Rightarrow> 'p EventLoop res" where
  "removeChannel rem tid owned a s =
     assert_that (owned a) (assertInLoopThread tid s
       (assert_that (loopEventHandling s \<longrightarrow> currentActiveChannel s = Some a \<or> a \<notin> set (activeChannels s))
         (on_reactor rem a s)))"

definition loop_hasChannel :: "int \<Rightarrow> (nat \<Rightarrow> bool) \<Rightarrow> nat \<Rightarrow> 'x Poller_scheme EventLoop \<Rightarrow> bool res" where
  "loop_hasChannel tid owned a s =
     assert_that (owned a) (assertInLoopThread tid s (Inr (hasChannel a (loopReactor s))))"

section \<open>The loop\<close>

text \<open>
  What \<^verbatim>\<open>poll\<close> returns and what the callbacks of the active channels do is an argument of an
  iteration; the wakeup channel has the callback the constructor gave it.
\<close>

definition handle_channel :: "(nat \<Rightarrow> act list) \<Rightarrow> nat \<Rightarrow> 'p EventLoop \<Rightarrow> 'p EventLoop" where
  "handle_channel on_event a s =
     (let s = s\<lparr>currentActiveChannel := Some a\<rparr>
      in if a = wakeupChannel s then loop_handleRead s else fold run_act (on_event a) s)"

definition loop_iteration :: "(nat \<Rightarrow> act list) \<Rightarrow> nat list \<Rightarrow> 'p EventLoop \<Rightarrow> 'p EventLoop" where
  "loop_iteration on_event active s =
     (let s = s\<lparr>activeChannels := active, iteration := iteration s + 1, loopEventHandling := True\<rparr>;
          s = fold (handle_channel on_event) active s
      in doPendingFunctors (s\<lparr>currentActiveChannel := None, loopEventHandling := False\<rparr>))"

text \<open>\<open>None\<close> is a loop that still runs when the given polls have all returned.\<close>

fun loop_while :: "(nat list \<times> (nat \<Rightarrow> act list)) list \<Rightarrow> 'p EventLoop \<Rightarrow> 'p EventLoop option" where
  "loop_while polls s =
     (if quit s then Some (s\<lparr>looping := False\<rparr>)
      else case polls of
        [] \<Rightarrow> None
      | (active, on_event) # polls' \<Rightarrow> loop_while polls' (loop_iteration on_event active s))"

declare loop_while.simps [simp del]

definition EventLoop_loop ::
    "int \<Rightarrow> (nat list \<times> (nat \<Rightarrow> act list)) list \<Rightarrow> 'p EventLoop \<Rightarrow> 'p EventLoop option res" where
  "EventLoop_loop tid polls s =
     assert_that (\<not> looping s) (assertInLoopThread tid s
       (Inr (loop_while polls (s\<lparr>looping := True, quit := False\<rparr>))))"

section \<open>Threads\<close>

text \<open>
  Where the loop thread is: at the test of \<^verbatim>\<open>while\<close>, blocked in \<^verbatim>\<open>poll\<close>, in the callbacks of the active
  channels, in the functors, or out of the loop; with what is left to do there. A functor that queues
  another one is between the two parts of \<^verbatim>\<open>queueInLoop\<close> when \<open>Wake\<close> is next. Other threads are
  between the two parts when \<open>waking\<close> holds of them.
\<close>

datatype micro = Do act | Wake

datatype pc = AtCheck | AtPoll | Handling "micro list" "nat list" | Calling "micro list" "task list" | Exited

record 'p config =
  loop :: "'p EventLoop"
  point :: pc
  waking :: "int \<Rightarrow> bool"
  pushed :: "task list"
  started :: "task list"

inductive micro_step :: "'p EventLoop \<times> micro list \<times> task list \<Rightarrow> 'p EventLoop \<times> micro list \<times> task list \<Rightarrow> bool" where
  micro_run: "micro_step (s, Do (ActRun (Task n acts)) # ms, ts) (s\<lparr>executed := executed s @ [n]\<rparr>, map Do acts @ ms, ts)"
| micro_push: "micro_step (s, Do (ActQueue cb) # ms, ts) (queue_push cb s, Wake # ms, ts @ [cb])"
| micro_wake: "micro_step (s, Wake # ms, ts) (queue_wake (threadId s) s, ms, ts)"
| micro_quit: "micro_step (s, Do ActQuit # ms, ts) (loop_quit (threadId s) s, ms, ts)"

inductive loop_step :: "'p config \<Rightarrow> 'p config \<Rightarrow> bool" where
  check_quit: "point c = AtCheck \<Longrightarrow> quit (loop c) \<Longrightarrow>
     loop_step c (c\<lparr>point := Exited, loop := (loop c)\<lparr>looping := False\<rparr>\<rparr>)"
| check_go: "point c = AtCheck \<Longrightarrow> \<not> quit (loop c) \<Longrightarrow> loop_step c (c\<lparr>point := AtPoll\<rparr>)"
| poll_returns: "point c = AtPoll \<Longrightarrow> (wakeupCount (loop c) > 0 \<longrightarrow> wakeupChannel (loop c) \<in> set active) \<Longrightarrow>
     loop_step c (c\<lparr>point := Handling [] active,
       loop := (loop c)\<lparr>activeChannels := active, iteration := iteration (loop c) + 1, loopEventHandling := True\<rparr>\<rparr>)"
| event: "point c = Handling [] (a # as) \<Longrightarrow> a \<noteq> wakeupChannel (loop c) \<Longrightarrow>
     loop_step c (c\<lparr>point := Handling (map Do acts) as, loop := (loop c)\<lparr>currentActiveChannel := Some a\<rparr>\<rparr>)"
| wakeup_event: "point c = Handling [] (a # as) \<Longrightarrow> a = wakeupChannel (loop c) \<Longrightarrow>
     loop_step c (c\<lparr>point := Handling [] as, loop := loop_handleRead ((loop c)\<lparr>currentActiveChannel := Some a\<rparr>)\<rparr>)"
| in_event: "point c = Handling ms as \<Longrightarrow> micro_step (loop c, ms, pushed c) (s, ms', ts) \<Longrightarrow>
     loop_step c (c\<lparr>point := Handling ms' as, loop := s, pushed := ts\<rparr>)"
| events_done: "point c = Handling [] [] \<Longrightarrow>
     loop_step c (c\<lparr>point := Calling [] (pendingFunctors (loop c)),
       loop := (loop c)\<lparr>currentActiveChannel := None, loopEventHandling := False, callingPendingFunctors := True, pendingFunctors := []\<rparr>\<rparr>)"
| call: "point c = Calling [] (cb # cbs) \<Longrightarrow>
     loop_step c (c\<lparr>point := Calling [Do (ActRun cb)] cbs, started := started c @ [cb]\<rparr>)"
| in_call: "point c = Calling ms cbs \<Longrightarrow> micro_step (loop c, ms, pushed c) (s, ms', ts) \<Longrightarrow>
     loop_step c (c\<lparr>point := Calling ms' cbs, loop := s, pushed := ts\<rparr>)"
| called: "point c = Calling [] [] \<Longrightarrow>
     loop_step c (c\<lparr>point := AtCheck, loop := (loop c)\<lparr>callingPendingFunctors := False\<rparr>\<rparr>)"
| other_push: "tid \<noteq> threadId (loop c) \<Longrightarrow> \<not> waking c tid \<Longrightarrow>
     loop_step c (c\<lparr>loop := queue_push cb (loop c), waking := (waking c)(tid := True), pushed := pushed c @ [cb]\<rparr>)"
| other_quit: "tid \<noteq> threadId (loop c) \<Longrightarrow> \<not> waking c tid \<Longrightarrow>
     loop_step c (c\<lparr>loop := (loop c)\<lparr>quit := True\<rparr>, waking := (waking c)(tid := True)\<rparr>)"
| other_wake: "waking c tid \<Longrightarrow>
     loop_step c (c\<lparr>loop := queue_wake tid (loop c), waking := (waking c)(tid := False)\<rparr>)"

inductive_cases micro_step_cases: "micro_step (s, ms, ts) (s', ms', ts')"

section \<open>No wakeup is lost\<close>

definition awake :: "'p config \<Rightarrow> bool" where
  "awake c \<longleftrightarrow> wakeupCount (loop c) \<noteq> 0 \<or> (\<exists>tid. waking c tid)"

definition remaining :: "'p config \<Rightarrow> task list" where
  "remaining c = (case point c of Calling ms cbs \<Rightarrow> cbs | _ \<Rightarrow> [])"

definition will_wake :: "'p config \<Rightarrow> bool" where
  "will_wake c \<longleftrightarrow>
     (case point c of
        AtCheck \<Rightarrow> pendingFunctors (loop c) \<noteq> [] \<longrightarrow> awake c
      | AtPoll \<Rightarrow> pendingFunctors (loop c) \<noteq> [] \<or> quit (loop c) \<longrightarrow> awake c
      | Calling ms cbs \<Rightarrow> pendingFunctors (loop c) \<noteq> [] \<longrightarrow> awake c \<or> Wake \<in> set ms
      | _ \<Rightarrow> True)"

definition loop_inv :: "'p config \<Rightarrow> bool" where
  "loop_inv c \<longleftrightarrow> (\<forall>tid. waking c tid \<longrightarrow> tid \<noteq> threadId (loop c)) \<and>
     (callingPendingFunctors (loop c) \<longleftrightarrow> (\<exists>ms cbs. point c = Calling ms cbs)) \<and>
     started c @ remaining c @ pendingFunctors (loop c) = pushed c \<and> will_wake c"

text \<open>
  A loop about to run: nothing of an earlier run is left, and functors that were queued before are
  announced, as they are when another thread queued them.
\<close>

definition loop_start :: "'p config \<Rightarrow> bool" where
  "loop_start c \<longleftrightarrow> point c = AtCheck \<and> looping (loop c) \<and> \<not> quit (loop c) \<and> \<not> callingPendingFunctors (loop c) \<and>
     (\<forall>tid. \<not> waking c tid) \<and> started c = [] \<and> pushed c = pendingFunctors (loop c) \<and>
     (pendingFunctors (loop c) \<noteq> [] \<longrightarrow> wakeupCount (loop c) \<noteq> 0)"

lemma wakeup_simps [simp]:
  "threadId (wakeup s) = threadId s" "callingPendingFunctors (wakeup s) = callingPendingFunctors s"
  "pendingFunctors (wakeup s) = pendingFunctors s" "quit (wakeup s) = quit s"
  "wakeupChannel (wakeup s) = wakeupChannel s"
  by (simp_all add: wakeup_def)

lemma wakeup_pos [simp]: "0 < wakeupCount (wakeup s)" "wakeupCount (wakeup s) = 0 \<longleftrightarrow> False"
proof -
  have "eventfd_max > 0" by (simp add: eventfd_max_def)
  then show "0 < wakeupCount (wakeup s)" by (simp add: wakeup_def)
  then show "wakeupCount (wakeup s) = 0 \<longleftrightarrow> False" by simp
qed

lemma queue_wake_simps [simp]:
  "threadId (queue_wake tid s) = threadId s" "callingPendingFunctors (queue_wake tid s) = callingPendingFunctors s"
  "pendingFunctors (queue_wake tid s) = pendingFunctors s" "quit (queue_wake tid s) = quit s"
  "wakeupCount s \<noteq> 0 \<Longrightarrow> wakeupCount (queue_wake tid s) \<noteq> 0"
  by (simp_all add: queue_wake_def)

lemma queue_push_simps [simp]:
  "threadId (queue_push cb s) = threadId s" "callingPendingFunctors (queue_push cb s) = callingPendingFunctors s"
  "pendingFunctors (queue_push cb s) = pendingFunctors s @ [cb]" "quit (queue_push cb s) = quit s"
  "wakeupCount (queue_push cb s) = wakeupCount s"
  by (simp_all add: queue_push_def)

lemma loop_quit_simps [simp]:
  "threadId (loop_quit tid s) = threadId s" "callingPendingFunctors (loop_quit tid s) = callingPendingFunctors s"
  "pendingFunctors (loop_quit tid s) = pendingFunctors s" "wakeupCount (loop_quit (threadId s) s) = wakeupCount s"
  by (simp_all add: loop_quit_def Let_def isInLoopThread_def)

lemma micro_keeps:
  assumes "micro_step (s, ms, ts) (s', ms', ts')"
  shows "threadId s' = threadId s" "callingPendingFunctors s' = callingPendingFunctors s"
    "\<exists>more. pendingFunctors s' = pendingFunctors s @ more \<and> ts' = ts @ more"
  by (rule micro_step_cases [OF assms]; simp)+

lemma micro_wakes:
  assumes "micro_step (s, ms, ts) (s', ms', ts')" "callingPendingFunctors s"
    and "pendingFunctors s \<noteq> [] \<Longrightarrow> wakeupCount s \<noteq> 0 \<or> Wake \<in> set ms \<or> W"
    and "pendingFunctors s' \<noteq> []"
  shows "wakeupCount s' \<noteq> 0 \<or> Wake \<in> set ms' \<or> W"
  by (rule micro_step_cases [OF assms(1)]) (use assms(2-4) in \<open>auto simp: queue_wake_def\<close>)

lemma loop_inv_start: "loop_start c \<Longrightarrow> loop_inv c"
  by (auto simp: loop_start_def loop_inv_def will_wake_def remaining_def awake_def)

lemma loop_inv_step: "loop_step c c' \<Longrightarrow> loop_inv c \<Longrightarrow> loop_inv c'"
proof (induction rule: loop_step.induct)
  case (in_event c ms as s ms' ts)
  obtain more where "pendingFunctors s = pendingFunctors (loop c) @ more" "ts = pushed c @ more"
    using micro_keeps(3) [OF in_event(2)] by blast
  moreover have "started c @ pendingFunctors (loop c) = pushed c" using in_event(1,3) by (simp add: loop_inv_def remaining_def)
  ultimately have "started c @ pendingFunctors s = ts" by simp
  then show ?case using micro_keeps(1,2) [OF in_event(2)] in_event(1,3)
    by (simp add: loop_inv_def remaining_def will_wake_def)
next
  case (in_call c ms cbs s ms' ts)
  let ?W = "\<exists>tid. waking c tid"
  have calling: "callingPendingFunctors (loop c)" using in_call(1,3) by (simp add: loop_inv_def)
  have "wakeupCount (loop c) \<noteq> 0 \<or> Wake \<in> set ms \<or> ?W" if "pendingFunctors (loop c) \<noteq> []"
    using in_call that by (auto simp: loop_inv_def will_wake_def awake_def)
  from micro_wakes [OF in_call(2) calling this]
  have wake: "wakeupCount s \<noteq> 0 \<or> Wake \<in> set ms' \<or> ?W" if "pendingFunctors s \<noteq> []" using that by blast
  obtain more where "pendingFunctors s = pendingFunctors (loop c) @ more" "ts = pushed c @ more"
    using micro_keeps(3) [OF in_call(2)] by blast
  moreover have "started c @ cbs @ pendingFunctors (loop c) = pushed c" using in_call(1,3) by (simp add: loop_inv_def remaining_def)
  ultimately have "started c @ cbs @ pendingFunctors s = ts" by simp
  then show ?case using micro_keeps(1,2) [OF in_call(2)] in_call(1,3) wake
    by (auto simp: loop_inv_def remaining_def will_wake_def awake_def)
next
  case (other_wake c tid)
  then have "wakeupCount (queue_wake tid (loop c)) \<noteq> 0"
    by (auto simp: loop_inv_def queue_wake_def isInLoopThread_def)
  with other_wake show ?case
    by (cases "point c") (auto simp: loop_inv_def remaining_def will_wake_def awake_def)
next
  case (other_push tid c cb)
  then have "awake (c\<lparr>loop := queue_push cb (loop c), waking := (waking c)(tid := True), pushed := pushed c @ [cb]\<rparr>)"
    by (auto simp: awake_def)
  with other_push show ?case
    by (cases "point c") (simp_all add: loop_inv_def remaining_def will_wake_def)
next
  case (other_quit tid c)
  then have "awake (c\<lparr>loop := (loop c)\<lparr>quit := True\<rparr>, waking := (waking c)(tid := True)\<rparr>)"
    by (auto simp: awake_def)
  with other_quit show ?case
    by (cases "point c") (simp_all add: loop_inv_def remaining_def will_wake_def)
next
  case (wakeup_event c a as)
  then show ?case by (simp add: loop_inv_def will_wake_def remaining_def loop_handleRead_def)
next
  case (events_done c)
  then show ?case by (simp add: loop_inv_def will_wake_def remaining_def)
next
  case (called c)
  then show ?case by (simp add: loop_inv_def will_wake_def remaining_def awake_def)
next
  case (call c cb cbs)
  then show ?case by (simp add: loop_inv_def will_wake_def remaining_def awake_def)
next
  case (check_go c)
  then show ?case by (simp add: loop_inv_def will_wake_def remaining_def awake_def)
qed (simp_all add: loop_inv_def will_wake_def remaining_def)

lemma loop_reach_inv: "loop_step\<^sup>*\<^sup>* c c' \<Longrightarrow> loop_inv c \<Longrightarrow> loop_inv c'"
  by (erule invariant_star) (simp_all add: loop_inv_step)

section \<open>The member functions are schedules of the steps\<close>

lemma micro_runs_list:
  fixes s :: "'p EventLoop"
  assumes "\<And>a s ms ts. a \<in> set as \<Longrightarrow> \<exists>ts'. micro_step\<^sup>*\<^sup>* (s :: 'p EventLoop, Do a # ms, ts) (run_act a s, ms, ts')"
  shows "\<exists>ts'. micro_step\<^sup>*\<^sup>* (s, map Do as @ ms, ts) (fold run_act as s, ms, ts')"
  using assms
proof (induction as arbitrary: s ts)
  case (Cons a as)
  have "\<exists>ts1. micro_step\<^sup>*\<^sup>* (s, Do a # (map Do as @ ms), ts) (run_act a s, map Do as @ ms, ts1)"
    by (rule Cons.prems) simp
  then obtain ts1 where "micro_step\<^sup>*\<^sup>* (s, Do a # (map Do as @ ms), ts) (run_act a s, map Do as @ ms, ts1)" ..
  moreover have "\<exists>ts2. micro_step\<^sup>*\<^sup>* (run_act a s, map Do as @ ms, ts1) (fold run_act as (run_act a s), ms, ts2)"
    by (rule Cons.IH) (rule Cons.prems, simp)
  ultimately show ?case by (auto intro: rtranclp_trans)
qed auto

lemma micro_runs:
  fixes s :: "'p EventLoop"
  shows "\<exists>ts'. micro_step\<^sup>*\<^sup>* (s, Do a # ms, ts) (run_act a s, ms, ts')"
    and "\<exists>ts'. micro_step\<^sup>*\<^sup>* (s, Do (ActRun t) # ms, ts) (run_task t s, ms, ts')"
proof (induction a s and t s arbitrary: ms ts and ms ts rule: run_act_run_task.induct)
  case (1 cb s)
  have "micro_step (s, Do (ActQueue cb) # ms, ts) (queue_push cb s, Wake # ms, ts @ [cb])" by (rule micro_push)
  moreover have "micro_step (queue_push cb s, Wake # ms, ts @ [cb]) (run_act (ActQueue cb) s, ms, ts @ [cb])"
    using micro_wake [of "queue_push cb s" ms "ts @ [cb]"] by (simp add: queueInLoop_def)
  ultimately have "micro_step\<^sup>*\<^sup>* (s, Do (ActQueue cb) # ms, ts) (run_act (ActQueue cb) s, ms, ts @ [cb])" by simp
  then show ?case ..
next
  case (2 cb s)
  then show ?case by simp
next
  case (3 s)
  have "micro_step (s, Do ActQuit # ms, ts) (run_act ActQuit s, ms, ts)" using micro_quit [of s ms ts] by simp
  then have "micro_step\<^sup>*\<^sup>* (s, Do ActQuit # ms, ts) (run_act ActQuit s, ms, ts)" ..
  then show ?case ..
next
  case (4 n acts s)
  let ?s = "s\<lparr>executed := executed s @ [n]\<rparr>"
  have "micro_step (s, Do (ActRun (Task n acts)) # ms, ts) (?s, map Do acts @ ms, ts)" by (rule micro_run)
  moreover have "\<exists>ts'. micro_step\<^sup>*\<^sup>* (?s, map Do acts @ ms, ts) (fold run_act acts ?s, ms, ts')"
    by (rule micro_runs_list) (rule 4)
  then obtain ts' where "micro_step\<^sup>*\<^sup>* (?s, map Do acts @ ms, ts) (fold run_act acts ?s, ms, ts')" ..
  ultimately have "micro_step\<^sup>*\<^sup>* (s, Do (ActRun (Task n acts)) # ms, ts) (run_task (Task n acts) s, ms, ts')"
    by (simp add: converse_rtranclp_into_rtranclp)
  then show ?case ..
qed

lemma config_swap:
  "c\<lparr>loop := l, point := p\<rparr> = c\<lparr>point := p, loop := l\<rparr>"
  "c\<lparr>pushed := t, point := p\<rparr> = c\<lparr>point := p, pushed := t\<rparr>"
  "c\<lparr>pushed := t, loop := l\<rparr> = c\<lparr>loop := l, pushed := t\<rparr>"
  "c\<lparr>started := u, point := p\<rparr> = c\<lparr>point := p, started := u\<rparr>"
  "c\<lparr>started := u, loop := l\<rparr> = c\<lparr>loop := l, started := u\<rparr>"
  "c\<lparr>started := u, pushed := t\<rparr> = c\<lparr>pushed := t, started := u\<rparr>"
  by simp_all

lemma in_event_star:
  fixes c :: "'p config"
  assumes "micro_step\<^sup>*\<^sup>* (s, ms, ts) (s', ms', ts')"
  shows "loop_step\<^sup>*\<^sup>* (c\<lparr>point := Handling ms as, loop := s, pushed := ts\<rparr>) (c\<lparr>point := Handling ms' as, loop := s', pushed := ts'\<rparr>)"
proof -
  let ?f = "\<lambda>(s, ms, ts). c\<lparr>point := Handling ms as, loop := s, pushed := ts\<rparr>"
  have "loop_step\<^sup>*\<^sup>* (?f (s, ms, ts)) (?f (s', ms', ts'))"
  proof (rule star_map [OF assms])
    fix x y :: "'p EventLoop \<times> micro list \<times> task list" assume m: "micro_step x y"
    obtain s ms ts s' ms' ts' where xy: "x = (s, ms, ts)" "y = (s', ms', ts')" by (cases x, cases y)
    show "loop_step (?f x) (?f y)"
      using in_event [of "?f x" ms as s' ms' ts'] m xy by simp
  qed
  then show ?thesis by simp
qed

lemma in_call_star:
  fixes c :: "'p config"
  assumes "micro_step\<^sup>*\<^sup>* (s, ms, ts) (s', ms', ts')"
  shows "loop_step\<^sup>*\<^sup>* (c\<lparr>point := Calling ms cbs, loop := s, pushed := ts\<rparr>) (c\<lparr>point := Calling ms' cbs, loop := s', pushed := ts'\<rparr>)"
proof -
  let ?f = "\<lambda>(s, ms, ts). c\<lparr>point := Calling ms cbs, loop := s, pushed := ts\<rparr>"
  have "loop_step\<^sup>*\<^sup>* (?f (s, ms, ts)) (?f (s', ms', ts'))"
  proof (rule star_map [OF assms])
    fix x y :: "'p EventLoop \<times> micro list \<times> task list" assume m: "micro_step x y"
    obtain s ms ts s' ms' ts' where xy: "x = (s, ms, ts)" "y = (s', ms', ts')" by (cases x, cases y)
    show "loop_step (?f x) (?f y)"
      using in_call [of "?f x" ms cbs s' ms' ts'] m xy by simp
  qed
  then show ?thesis by simp
qed

lemma micro_star_keeps:
  assumes "micro_step\<^sup>*\<^sup>* (s, ms, ts) (s', ms', ts')"
  shows "\<exists>more. pendingFunctors s' = pendingFunctors s @ more"
proof -
  have "\<exists>more. pendingFunctors (fst y) = pendingFunctors s @ more" if "micro_step\<^sup>*\<^sup>* (s, ms, ts) y" for y
    using that
  proof (induction rule: rtranclp_induct)
    case (step y z)
    obtain s1 m1 t1 s2 m2 t2 where yz: "y = (s1, m1, t1)" "z = (s2, m2, t2)" by (cases y, cases z)
    from step(3) micro_keeps(3) [OF step(2) [unfolded yz]] yz show ?case by auto
  qed simp
  from this [OF assms] show ?thesis by simp
qed

lemma run_acts_grow: "\<exists>more. pendingFunctors (fold run_act acts s) = pendingFunctors s @ more"
proof -
  have "\<exists>ts'. micro_step\<^sup>*\<^sup>* (s, map Do acts @ [], []) (fold run_act acts s, [], ts')"
    by (rule micro_runs_list) (rule micro_runs)
  then show ?thesis using micro_star_keeps by blast
qed

lemma wakeupChannel_kept: "wakeupChannel (run_act a s) = wakeupChannel s" "wakeupChannel (run_task t s) = wakeupChannel s"
proof (induction a s and t s rule: run_act_run_task.induct)
  case (4 n acts s)
  have "wakeupChannel (fold run_act as u) = wakeupChannel u" if "set as \<subseteq> set acts" for as and u :: "'a EventLoop"
    using that by (induction as arbitrary: u) (simp_all add: 4)
  from this [of acts] show ?case by simp
qed (simp_all add: queueInLoop_def queue_wake_def queue_push_def loop_quit_def Let_def)

lemma handle_channel_step:
  assumes "point c = Handling [] (a # as)"
  shows "\<exists>ts. loop_step\<^sup>*\<^sup>* c (c\<lparr>point := Handling [] as, loop := handle_channel on_event a (loop c), pushed := ts\<rparr>)"
proof (cases "a = wakeupChannel (loop c)")
  case True
  have "handle_channel on_event a (loop c) = loop_handleRead ((loop c)\<lparr>currentActiveChannel := Some a\<rparr>)"
    using True by (simp add: handle_channel_def)
  then have "loop_step c (c\<lparr>point := Handling [] as, loop := handle_channel on_event a (loop c), pushed := pushed c\<rparr>)"
    using wakeup_event [OF assms True] by simp
  then show ?thesis by blast
next
  case False
  let ?s = "(loop c)\<lparr>currentActiveChannel := Some a\<rparr>"
  have "\<exists>ts. micro_step\<^sup>*\<^sup>* (?s, map Do (on_event a) @ [], pushed c) (fold run_act (on_event a) ?s, [], ts)"
    by (rule micro_runs_list) (rule micro_runs)
  then obtain ts where "micro_step\<^sup>*\<^sup>* (?s, map Do (on_event a), pushed c) (fold run_act (on_event a) ?s, [], ts)" by auto
  from in_event_star [OF this, where c = c and as = as] False have
    "loop_step\<^sup>*\<^sup>* (c\<lparr>point := Handling (map Do (on_event a)) as, loop := ?s\<rparr>)
      (c\<lparr>point := Handling [] as, loop := handle_channel on_event a (loop c), pushed := ts\<rparr>)"
    by (simp add: handle_channel_def Let_def)
  with event [OF assms False, of "on_event a"] show ?thesis by (blast intro: converse_rtranclp_into_rtranclp)
qed

lemma handle_channel_grow: "\<exists>more. pendingFunctors (handle_channel on_event a s) = pendingFunctors s @ more"
  using run_acts_grow [of "on_event a" "s\<lparr>currentActiveChannel := Some a\<rparr>"]
  by (simp add: handle_channel_def Let_def loop_handleRead_def)

lemma handle_channels:
  assumes "point c = Handling [] as"
  shows "\<exists>ts. loop_step\<^sup>*\<^sup>* c (c\<lparr>point := Handling [] [], loop := fold (handle_channel on_event) as (loop c), pushed := ts\<rparr>)"
    and "\<exists>more. pendingFunctors (fold (handle_channel on_event) as (loop c)) = pendingFunctors (loop c) @ more"
  using assms
proof (induction as arbitrary: c)
  case Nil
  {
    case 1
    then have "c = c\<lparr>point := Handling [] [], loop := loop c, pushed := pushed c\<rparr>" by simp
    then show ?case by (metis fold_simps(1) rtranclp.rtrancl_refl)
  next
    case 2
    then show ?case by simp
  }
next
  case (Cons a as)
  {
    case 1
    obtain ts where s: "loop_step\<^sup>*\<^sup>* c (c\<lparr>point := Handling [] as, loop := handle_channel on_event a (loop c), pushed := ts\<rparr>)"
      using handle_channel_step [OF 1] by blast
    obtain ts' where "loop_step\<^sup>*\<^sup>* (c\<lparr>point := Handling [] as, loop := handle_channel on_event a (loop c), pushed := ts\<rparr>)
        (c\<lparr>point := Handling [] [], loop := fold (handle_channel on_event) as (handle_channel on_event a (loop c)), pushed := ts'\<rparr>)"
      using Cons.IH(1) [of "c\<lparr>point := Handling [] as, loop := handle_channel on_event a (loop c), pushed := ts\<rparr>"] by auto
    with s have "loop_step\<^sup>*\<^sup>* c (c\<lparr>point := Handling [] [], loop := fold (handle_channel on_event) (a # as) (loop c), pushed := ts'\<rparr>)"
      by simp
    then show ?case ..
  next
    case 2
    show ?case using handle_channel_grow [of on_event a "loop c"]
      Cons.IH(2) [of "c\<lparr>point := Handling [] as, loop := handle_channel on_event a (loop c)\<rparr>"] by auto
  }
qed

lemma call_functors:
  assumes "point c = Calling [] cbs"
  shows "\<exists>ts. loop_step\<^sup>*\<^sup>* c (c\<lparr>point := Calling [] [], loop := fold run_task cbs (loop c), pushed := ts, started := started c @ cbs\<rparr>)"
  using assms
proof (induction cbs arbitrary: c)
  case Nil
  then have "c = c\<lparr>point := Calling [] [], loop := loop c, pushed := pushed c, started := started c\<rparr>" by simp
  then show ?case by (metis append_Nil2 fold_simps(1) rtranclp.rtrancl_refl)
next
  case (Cons cb cbs)
  obtain ts where "micro_step\<^sup>*\<^sup>* (loop c, [Do (ActRun cb)], pushed c) (run_task cb (loop c), [], ts)"
    using micro_runs(2) [of "loop c" cb "[]" "pushed c"] by auto
  from in_call_star [OF this, where c = "c\<lparr>started := started c @ [cb]\<rparr>" and cbs = cbs]
  have "loop_step\<^sup>*\<^sup>* c (c\<lparr>point := Calling [] cbs, loop := run_task cb (loop c), pushed := ts, started := started c @ [cb]\<rparr>)"
    using call [OF Cons.prems] by (simp add: converse_rtranclp_into_rtranclp config_swap)
  moreover obtain ts' where "loop_step\<^sup>*\<^sup>* (c\<lparr>point := Calling [] cbs, loop := run_task cb (loop c), pushed := ts, started := started c @ [cb]\<rparr>)
      (c\<lparr>point := Calling [] [], loop := fold run_task cbs (run_task cb (loop c)), pushed := ts', started := started c @ [cb] @ cbs\<rparr>)"
    using Cons.IH [of "c\<lparr>point := Calling [] cbs, loop := run_task cb (loop c), pushed := ts, started := started c @ [cb]\<rparr>"] by auto
  ultimately have "loop_step\<^sup>*\<^sup>* c (c\<lparr>point := Calling [] [], loop := fold run_task (cb # cbs) (loop c), pushed := ts', started := started c @ cb # cbs\<rparr>)"
    by simp
  then show ?case ..
qed

lemma iteration_steps:
  assumes "point c = AtPoll" "wakeupCount (loop c) > 0 \<longrightarrow> wakeupChannel (loop c) \<in> set active"
  shows "\<exists>c' more. loop_step\<^sup>*\<^sup>* c c' \<and> point c' = AtCheck \<and> loop c' = loop_iteration on_event active (loop c) \<and>
    started c' = started c @ pendingFunctors (loop c) @ more \<and> waking c' = waking c"
proof -
  let ?s1 = "(loop c)\<lparr>activeChannels := active, iteration := iteration (loop c) + 1, loopEventHandling := True\<rparr>"
  let ?c1 = "c\<lparr>point := Handling [] active, loop := ?s1\<rparr>"
  define s2 where "s2 = fold (handle_channel on_event) active ?s1"
  obtain ts where r2: "loop_step\<^sup>*\<^sup>* ?c1 (c\<lparr>point := Handling [] [], loop := s2, pushed := ts\<rparr>)"
    using handle_channels(1) [of ?c1 active on_event] by (auto simp: s2_def)
  obtain more where more: "pendingFunctors s2 = pendingFunctors (loop c) @ more"
    using handle_channels(2) [of ?c1 active on_event] by (auto simp: s2_def)
  let ?s3 = "s2\<lparr>currentActiveChannel := None, loopEventHandling := False, callingPendingFunctors := True, pendingFunctors := []\<rparr>"
  let ?c3 = "c\<lparr>point := Calling [] (pendingFunctors s2), loop := ?s3, pushed := ts\<rparr>"
  have r3: "loop_step (c\<lparr>point := Handling [] [], loop := s2, pushed := ts\<rparr>) ?c3"
    using events_done [of "c\<lparr>point := Handling [] [], loop := s2, pushed := ts\<rparr>"] by (simp add: config_swap)
  obtain ts' where r4: "loop_step\<^sup>*\<^sup>* ?c3 (c\<lparr>point := Calling [] [], loop := fold run_task (pendingFunctors s2) ?s3, pushed := ts',
      started := started c @ pendingFunctors s2\<rparr>)"
    using call_functors [of ?c3 "pendingFunctors s2"] by auto
  let ?c5 = "c\<lparr>point := AtCheck, loop := (fold run_task (pendingFunctors s2) ?s3)\<lparr>callingPendingFunctors := False\<rparr>, pushed := ts',
      started := started c @ pendingFunctors s2\<rparr>"
  have "loop_step (c\<lparr>point := Calling [] [], loop := fold run_task (pendingFunctors s2) ?s3, pushed := ts',
      started := started c @ pendingFunctors s2\<rparr>) ?c5"
    using called [of "c\<lparr>point := Calling [] [], loop := fold run_task (pendingFunctors s2) ?s3, pushed := ts',
      started := started c @ pendingFunctors s2\<rparr>"] by (simp add: config_swap)
  with poll_returns [OF assms] r2 r3 r4 have "loop_step\<^sup>*\<^sup>* c ?c5" by auto
  moreover have "loop ?c5 = loop_iteration on_event active (loop c)"
    by (simp add: loop_iteration_def doPendingFunctors_def Let_def s2_def)
  ultimately show ?thesis using more by (intro exI [of _ ?c5] exI [of _ more]) simp
qed

section \<open>Properties\<close>




text \<open>
  A functor queued in the loop thread before \<^verbatim>\<open>loop\<close> is not announced: the loop then blocks in \<^verbatim>\<open>poll\<close>
  until its timeout or another event.
\<close>

lemma queued_before_loop_waits:
  assumes "\<not> callingPendingFunctors s" "wakeupCount s = 0" "\<not> quit s" "\<And>tid. \<not> waking c tid"
    and "point c = AtCheck" "loop c = queueInLoop (threadId s) cb s"
  shows "\<exists>c'. loop_step c c' \<and> point c' = AtPoll \<and> pendingFunctors (loop c') \<noteq> [] \<and> \<not> awake c'"
proof -
  have "\<not> quit (loop c)" "wakeupCount (loop c) = 0" "pendingFunctors (loop c) \<noteq> []"
    using assms by (simp_all add: queueInLoop_def queue_wake_def isInLoopThread_def)
  then show ?thesis using check_go [OF assms(5)] assms(4) by (intro exI [of _ "c\<lparr>point := AtPoll\<rparr>"]) (simp add: awake_def)
qed


text \<open>The witnesses: a loop blocked in \<^verbatim>\<open>poll\<close>, and another thread that has just queued a functor.\<close>

definition sample_task :: task where
  "sample_task = Task 1 [ActQueue (Task 2 []), ActQuit]"

definition sample_loop :: "unit EventLoop" where
  "sample_loop = \<lparr>looping = True, quit = False, loopEventHandling = False, callingPendingFunctors = False,
     iteration = 0, threadId = 1, wakeupChannel = 0, wakeupCount = 0, activeChannels = [],
     currentActiveChannel = None, pendingFunctors = [],
     loopReactor = reactor_new (\<lambda>_. Channel_new 0) (), executed = []\<rparr>"

definition sample_config :: "unit config" where
  "sample_config = \<lparr>loop = sample_loop, point = AtCheck, waking = (\<lambda>_. False), pushed = [], started = []\<rparr>"

definition sample_blocked :: "unit config" where
  "sample_blocked = \<lparr>loop = queue_push sample_task sample_loop, point = AtPoll, waking = (\<lambda>tid. tid = 2),
     pushed = [sample_task], started = []\<rparr>"

lemma sample_start: "loop_start sample_config"
  by (simp add: loop_start_def sample_config_def sample_loop_def)

lemma sample_reach: "loop_step\<^sup>*\<^sup>* sample_config sample_blocked"
proof -
  have "loop_step sample_config (sample_config\<lparr>point := AtPoll\<rparr>)"
    by (rule check_go) (simp_all add: sample_config_def sample_loop_def)
  moreover have "loop_step (sample_config\<lparr>point := AtPoll\<rparr>) sample_blocked"
  proof -
    have "(\<lambda>_. False)(2 := True) = (\<lambda>tid :: int. tid = 2)" by (simp add: fun_eq_iff)
    then show ?thesis
      using other_push [of 2 "sample_config\<lparr>point := AtPoll\<rparr>" sample_task]
      by (simp add: sample_config_def sample_loop_def sample_blocked_def)
  qed
  ultimately show ?thesis by simp
qed




end
