(* ===== verification/Monitor.thy ===== *)
theory Monitor
  imports Timestamp "HOL-Library.Extended_Nat"
begin

text \<open>
  \<^verbatim>\<open>muduo/base/Mutex.h\<close> and \<^verbatim>\<open>Condition\<close>, and the way the queues of \<^verbatim>\<open>muduo/base\<close> use them: an operation
  takes the lock, waits on a condition while its guard holds, does its work on the guarded state,
  notifies, and releases the lock. A monitor collects such operations; its step relation interleaves
  any number of threads, with spurious wakeups. The locale gives what a set of operations has to
  satisfy so that no notification is missed, and proves it once for all monitors.
\<close>

section \<open>MutexLock\<close>

text \<open>\<open>owner\<close> is the thread that holds the \<^verbatim>\<open>pthread_mutex_t\<close>; taking a held mutex blocks.\<close>

record MutexLock =
  owner :: "int option"
  holder :: int

definition assignHolder :: "int \<Rightarrow> MutexLock \<Rightarrow> MutexLock" where
  "assignHolder tid m = m\<lparr>holder := tid\<rparr>"

definition unassignHolder :: "MutexLock \<Rightarrow> MutexLock" where
  "unassignHolder m = m\<lparr>holder := 0\<rparr>"

definition MutexLock_new :: MutexLock where
  "MutexLock_new = \<lparr>owner = None, holder = 0\<rparr>"

definition MutexLock_destroy :: "MutexLock \<Rightarrow> unit res" where
  "MutexLock_destroy m =
     assert_that (holder m = 0) (case owner m of None \<Rightarrow> Inr () | Some _ \<Rightarrow> Inl UndefinedBehaviour)"

definition isLockedByThisThread :: "int \<Rightarrow> MutexLock \<Rightarrow> bool" where
  "isLockedByThisThread tid m \<longleftrightarrow> holder m = tid"

definition assertLocked :: "int \<Rightarrow> MutexLock \<Rightarrow> 'a res \<Rightarrow> 'a res" where
  "assertLocked tid m r = assert_that (isLockedByThisThread tid m) r"

definition mutex_lock :: "int \<Rightarrow> MutexLock \<Rightarrow> MutexLock option" where
  "mutex_lock tid m = (case owner m of None \<Rightarrow> Some (assignHolder tid (m\<lparr>owner := Some tid\<rparr>)) | Some _ \<Rightarrow> None)"

definition mutex_unlock :: "int \<Rightarrow> MutexLock \<Rightarrow> MutexLock res" where
  "mutex_unlock tid m =
     (let m = unassignHolder m
      in if owner m = Some tid then Inr (m\<lparr>owner := None\<rparr>) else Inl UndefinedBehaviour)"

section \<open>Condition\<close>

text \<open>
  \<^verbatim>\<open>wait\<close> gives the mutex back while the thread sleeps, with the holder unassigned by the guard
  object, and takes it again before it returns.
\<close>

definition cond_wait_begin :: "int \<Rightarrow> MutexLock \<Rightarrow> MutexLock res" where
  "cond_wait_begin tid m =
     (let m = unassignHolder m
      in if owner m = Some tid then Inr (m\<lparr>owner := None\<rparr>) else Inl UndefinedBehaviour)"

definition cond_wait_end :: "int \<Rightarrow> MutexLock \<Rightarrow> MutexLock option" where
  "cond_wait_end tid m = (case owner m of None \<Rightarrow> Some (assignHolder tid (m\<lparr>owner := Some tid\<rparr>)) | Some _ \<Rightarrow> None)"

text \<open>The absolute time \<^verbatim>\<open>waitForSeconds\<close> waits for; the clock reads \<open>sec\<close> and \<open>nsec\<close>.\<close>

definition waitForSeconds_until :: "rat \<Rightarrow> int \<Rightarrow> int \<Rightarrow> (int \<times> int) res" where
  "waitForSeconds_until seconds sec nsec =
     (let kNanoSecondsPerSecond = 1000000000; nanoseconds = trunc_rat (dbl (seconds * of_int kNanoSecondsPerSecond))
      in ints64 [nanoseconds, nsec + nanoseconds, sec + (nsec + nanoseconds) sdiv kNanoSecondsPerSecond]
           (Inr (sec + (nsec + nanoseconds) sdiv kNanoSecondsPerSecond, (nsec + nanoseconds) smod kNanoSecondsPerSecond)))"

section \<open>Monitors\<close>

datatype notification = NoSignal | Signal | Broadcast

text \<open>
  An operation waits on its condition while its guard holds; then it changes the state and
  notifies. What it notifies depends on the state it found.
\<close>

record ('o, 's, 'c) monitor =
  m_guard :: "'o \<Rightarrow> 's \<Rightarrow> bool"
  m_cond :: "'o \<Rightarrow> 'c"
  m_body :: "'o \<Rightarrow> 's \<Rightarrow> 's"
  m_notify :: "'o \<Rightarrow> 's \<Rightarrow> 'c \<Rightarrow> notification"

text \<open>
  A thread is outside, wants the lock (to begin, or after it was woken), has it and is about to test
  the guard, or sleeps.
\<close>

datatype 'o thread_state = Outside | Wants 'o | Inside 'o | Sleeps 'o

record ('o, 's) mconfig =
  mutex :: MutexLock
  threads :: "int \<Rightarrow> 'o thread_state"
  shared :: 's
  history :: "(int \<times> 'o \<times> 's) list"

text \<open>Whom the notifications wake: nobody, at least one sleeper of the condition if there is one, all of them.\<close>

definition woken_ok :: "('o, 's, 'c) monitor \<Rightarrow> ('c \<Rightarrow> notification) \<Rightarrow> (int \<Rightarrow> 'o thread_state) \<Rightarrow> int set \<Rightarrow> bool" where
  "woken_ok M note thr W \<longleftrightarrow> (\<forall>t\<in>W. \<exists>op. thr t = Sleeps op) \<and>
     (\<forall>c. let sleepers = {t. \<exists>op. thr t = Sleeps op \<and> m_cond M op = c}
          in case note c of
               NoSignal \<Rightarrow> W \<inter> sleepers = {}
             | Signal \<Rightarrow> sleepers \<noteq> {} \<longrightarrow> W \<inter> sleepers \<noteq> {}
             | Broadcast \<Rightarrow> sleepers \<subseteq> W)"

definition wake :: "int set \<Rightarrow> (int \<Rightarrow> 'o thread_state) \<Rightarrow> int \<Rightarrow> 'o thread_state" where
  "wake W thr t = (if t \<in> W then (case thr t of Sleeps op \<Rightarrow> Wants op | s \<Rightarrow> s) else thr t)"

inductive monitor_step :: "('o, 's, 'c) monitor \<Rightarrow> ('o, 's) mconfig \<Rightarrow> ('o, 's) mconfig \<Rightarrow> bool" for M where
  arrive: "threads c t = Outside \<Longrightarrow> t \<noteq> 0 \<Longrightarrow> monitor_step M c (c\<lparr>threads := (threads c)(t := Wants op)\<rparr>)"
| acquire: "threads c t = Wants op \<Longrightarrow> mutex_lock t (mutex c) = Some m \<Longrightarrow>
     monitor_step M c (c\<lparr>threads := (threads c)(t := Inside op), mutex := m\<rparr>)"
| sleep: "threads c t = Inside op \<Longrightarrow> m_guard M op (shared c) \<Longrightarrow> cond_wait_begin t (mutex c) = Inr m \<Longrightarrow>
     monitor_step M c (c\<lparr>threads := (threads c)(t := Sleeps op), mutex := m\<rparr>)"
| spurious: "threads c t = Sleeps op \<Longrightarrow> monitor_step M c (c\<lparr>threads := (threads c)(t := Wants op)\<rparr>)"
| leave: "threads c t = Inside op \<Longrightarrow> \<not> m_guard M op (shared c) \<Longrightarrow> mutex_unlock t (mutex c) = Inr m \<Longrightarrow>
     woken_ok M (m_notify M op (shared c)) (threads c) W \<Longrightarrow>
     monitor_step M c (c\<lparr>threads := (wake W (threads c))(t := Outside), mutex := m,
       shared := m_body M op (shared c), history := history c @ [(t, op, shared c)]\<rparr>)"

definition monitor_start :: "'s \<Rightarrow> ('o, 's) mconfig \<Rightarrow> bool" where
  "monitor_start s c \<longleftrightarrow> mutex c = MutexLock_new \<and> threads c = (\<lambda>_. Outside) \<and> shared c = s \<and> history c = []"

lemma cond_wait_mutex: "cond_wait_begin = mutex_unlock" "cond_wait_end = mutex_lock"
  by (simp_all add: fun_eq_iff cond_wait_begin_def mutex_unlock_def cond_wait_end_def mutex_lock_def)

fun runs_to :: "('o, 's, 'c) monitor \<Rightarrow> 's \<Rightarrow> (int \<times> 'o \<times> 's) list \<Rightarrow> 's \<Rightarrow> bool" where
  "runs_to M s [] s' \<longleftrightarrow> s' = s"
| "runs_to M s ((t, op, u) # h) s' \<longleftrightarrow> u = s \<and> \<not> m_guard M op s \<and> runs_to M (m_body M op s) h s'"

lemma runs_to_snoc:
  "runs_to M s (h @ [(t, op, u)]) s' \<longleftrightarrow> runs_to M s h u \<and> \<not> m_guard M op u \<and> s' = m_body M op u"
  by (induction M s h u rule: runs_to.induct) auto

definition active :: "('o, 's, 'c) monitor \<Rightarrow> (int \<Rightarrow> 'o thread_state) \<Rightarrow> 'c \<Rightarrow> int set" where
  "active M thr k = {t. \<exists>op. (thr t = Wants op \<or> thr t = Inside op) \<and> m_cond M op = k}"

definition sleepers :: "('o, 's, 'c) monitor \<Rightarrow> (int \<Rightarrow> 'o thread_state) \<Rightarrow> 'c \<Rightarrow> int set" where
  "sleepers M thr k = {t. \<exists>op. thr t = Sleeps op \<and> m_cond M op = k}"

text \<open>The lock is held exactly by the thread inside, and \<^verbatim>\<open>holder_\<close> names it.\<close>

definition lock_ok :: "('o, 's) mconfig \<Rightarrow> bool" where
  "lock_ok c \<longleftrightarrow> finite {t. threads c t \<noteq> Outside} \<and> threads c 0 = Outside \<and>
     (\<forall>t op. threads c t = Inside op \<longrightarrow> owner (mutex c) = Some t) \<and>
     (case owner (mutex c) of None \<Rightarrow> holder (mutex c) = 0
      | Some t \<Rightarrow> holder (mutex c) = t \<and> (\<exists>op. threads c t = Inside op))"

lemma one_inside: "lock_ok c \<Longrightarrow> threads c t = Inside op \<Longrightarrow> threads c u = Inside op' \<Longrightarrow> u = t"
proof -
  assume "lock_ok c" "threads c t = Inside op" "threads c u = Inside op'"
  then have "owner (mutex c) = Some t" "owner (mutex c) = Some u" unfolding lock_ok_def by blast+
  then show ?thesis by simp
qed

lemma lock_ok_step:
  assumes "monitor_step M c c'" "lock_ok c"
  shows "lock_ok c'"
  using assms
proof (induction rule: monitor_step.induct)
  case (arrive c t op)
  then have "{u. ((threads c)(t := Wants op)) u \<noteq> Outside} \<subseteq> insert t {u. threads c u \<noteq> Outside}" by auto
  then have "finite {u. ((threads c)(t := Wants op)) u \<noteq> Outside}"
    using arrive(3) finite_subset unfolding lock_ok_def by blast
  with arrive show ?case by (auto simp: lock_ok_def split: option.splits)
next
  case (acquire c t op m)
  then have "{u. ((threads c)(t := Inside op)) u \<noteq> Outside} = {u. threads c u \<noteq> Outside}" by auto
  moreover have "owner (mutex c) = None" "m = \<lparr>owner = Some t, holder = t\<rparr>"
    using acquire(2) by (auto simp: mutex_lock_def assignHolder_def split: option.splits)
  ultimately show ?case using acquire by (auto simp: lock_ok_def)
next
  case (sleep c t op m)
  then have "{u. ((threads c)(t := Sleeps op)) u \<noteq> Outside} = {u. threads c u \<noteq> Outside}" by auto
  moreover have "m = \<lparr>owner = None, holder = 0\<rparr>"
    using sleep(3) by (auto simp: cond_wait_begin_def unassignHolder_def Let_def split: if_splits)
  ultimately show ?case using sleep by (auto simp: lock_ok_def dest: one_inside [OF sleep(4,1)])
next
  case (spurious c t op)
  then have "{u. ((threads c)(t := Wants op)) u \<noteq> Outside} = {u. threads c u \<noteq> Outside}" by auto
  with spurious show ?case by (auto simp: lock_ok_def split: option.splits)
next
  case (leave c t op m W)
  have "{u. ((wake W (threads c))(t := Outside)) u \<noteq> Outside} \<subseteq> {u. threads c u \<noteq> Outside}"
    by (auto simp: wake_def)
  then have "finite {u. ((wake W (threads c))(t := Outside)) u \<noteq> Outside}"
    using leave(5) finite_subset unfolding lock_ok_def by blast
  moreover have "m = \<lparr>owner = None, holder = 0\<rparr>"
    using leave(3) by (auto simp: mutex_unlock_def unassignHolder_def Let_def split: if_splits)
  ultimately show ?case using leave
    by (auto simp: lock_ok_def wake_def dest: one_inside [OF leave(5,1)] split: if_splits thread_state.splits)
qed

definition monitor_inv ::
    "('o, 's, 'c) monitor \<Rightarrow> ('s \<Rightarrow> bool) \<Rightarrow> ('s \<Rightarrow> 'c \<Rightarrow> enat) \<Rightarrow> 's \<Rightarrow> ('o, 's) mconfig \<Rightarrow> bool" where
  "monitor_inv M good need s0 c \<longleftrightarrow> lock_ok c \<and> good (shared c) \<and> runs_to M s0 (history c) (shared c) \<and>
     (\<forall>k. sleepers M (threads c) k \<noteq> {} \<longrightarrow> need (shared c) k \<le> enat (card (active M (threads c) k)))"

text \<open>
  What the operations of a monitor have to satisfy: \<open>need s k\<close> is how many threads waiting on \<open>k\<close> could
  go on in state \<open>s\<close>. A thread waits exactly when that is none; an operation that lets more of them go
  on signals, one thread per signal, or wakes all.
\<close>

locale monitor_contract =
  fixes M :: "('o, 's, 'c) monitor" and inv :: "'s \<Rightarrow> bool" and need :: "'s \<Rightarrow> 'c \<Rightarrow> enat"
  assumes inv_body: "inv s \<Longrightarrow> \<not> m_guard M op s \<Longrightarrow> inv (m_body M op s)"
    and guard_need: "inv s \<Longrightarrow> m_guard M op s \<longleftrightarrow> need s (m_cond M op) = 0"
    and body_need: "inv s \<Longrightarrow> \<not> m_guard M op s \<Longrightarrow> m_notify M op s k \<noteq> Broadcast \<Longrightarrow>
      need (m_body M op s) k + (if k = m_cond M op then 1 else 0) \<le> need s k + (if m_notify M op s k = Signal then 1 else 0)"
begin

lemma finite_active: "lock_ok c \<Longrightarrow> finite (active M (threads c) k)"
  unfolding lock_ok_def active_def by (auto elim!: finite_subset [rotated])

lemma monitor_inv_start: "inv s \<Longrightarrow> monitor_start s c \<Longrightarrow> monitor_inv M inv need s c"
  by (auto simp: monitor_inv_def monitor_start_def lock_ok_def MutexLock_new_def sleepers_def)

lemma monitor_inv_more:
  assumes c: "monitor_inv M inv need s0 c" and ok: "lock_ok c'"
    and same: "shared c' = shared c" "history c' = history c"
    and "\<And>k. active M (threads c) k \<subseteq> active M (threads c') k" "\<And>k. sleepers M (threads c') k \<subseteq> sleepers M (threads c) k"
  shows "monitor_inv M inv need s0 c'"
proof -
  have "need (shared c') k \<le> enat (card (active M (threads c') k))" if "sleepers M (threads c') k \<noteq> {}" for k
  proof -
    have "need (shared c) k \<le> enat (card (active M (threads c) k))" using that assms(6) [of k] c by (auto simp: monitor_inv_def)
    also have "\<dots> \<le> enat (card (active M (threads c') k))"
      using card_mono [OF finite_active [OF ok] assms(5)] by simp
    finally show ?thesis using same by simp
  qed
  then show ?thesis using c ok same by (simp add: monitor_inv_def)
qed

lemma leave_need:
  assumes ok: "lock_ok c" and t: "threads c t = Inside op" "\<not> m_guard M op (shared c)" and i_inv: "inv (shared c)"
    and W: "woken_ok M (m_notify M op (shared c)) (threads c) W"
    and sl: "sleepers M ((wake W (threads c))(t := Outside)) k \<noteq> {}"
    and le: "sleepers M (threads c) k \<noteq> {} \<longrightarrow> need (shared c) k \<le> enat (card (active M (threads c) k))"
  shows "need (m_body M op (shared c)) k \<le> enat (card (active M ((wake W (threads c))(t := Outside)) k))"
proof -
  let ?note = "m_notify M op (shared c) k" and ?thr = "(wake W (threads c))(t := Outside)"
  let ?A = "active M (threads c) k" and ?A' = "active M ?thr k" and ?S = "sleepers M (threads c) k"
  have finA: "finite ?A" using ok by (rule finite_active)
  obtain u where u: "u \<in> ?S" "u \<notin> W"
    using sl by (auto simp: sleepers_def wake_def split: if_splits thread_state.splits)
  have "case ?note of NoSignal \<Rightarrow> W \<inter> ?S = {} | Signal \<Rightarrow> ?S \<noteq> {} \<longrightarrow> W \<inter> ?S \<noteq> {} | Broadcast \<Rightarrow> ?S \<subseteq> W"
    using W unfolding woken_ok_def sleepers_def Let_def by blast
  then have notified: "?note \<noteq> Broadcast" "?note = Signal \<Longrightarrow> W \<inter> ?S \<noteq> {}"
    using u by (cases ?note; auto)+
  have grow: "(?A - {t}) \<union> (W \<inter> ?S) \<subseteq> ?A'"
    using t(1) by (auto simp: active_def sleepers_def wake_def split: if_splits)
  have fin: "finite ?A'"
  proof (rule finite_subset)
    show "?A' \<subseteq> {t. threads c t \<noteq> Outside}" by (auto simp: active_def wake_def split: if_splits)
    show "finite {t. threads c t \<noteq> Outside}" using ok by (simp add: lock_ok_def)
  qed
  define j where "j = (if ?note = Signal then 1 else 0 :: nat)"
  define i where "i = (if k = m_cond M op then 1 else 0 :: nat)"
  have tA: "t \<in> ?A \<longleftrightarrow> k = m_cond M op" using t(1) by (auto simp: active_def)
  have "card (?A - {t}) + j \<le> card ((?A - {t}) \<union> (W \<inter> ?S))"
  proof (cases "?note = Signal")
    case True
    then obtain w where w: "w \<in> W" "w \<in> ?S" using notified(2) by blast
    then have "w \<notin> ?A - {t}" by (auto simp: active_def sleepers_def)
    then have "card (insert w (?A - {t})) = card (?A - {t}) + 1" using finA by simp
    moreover have "card (insert w (?A - {t})) \<le> card ((?A - {t}) \<union> (W \<inter> ?S))"
      by (rule card_mono) (use w finite_subset [OF grow fin] in auto)
    ultimately show ?thesis using True by (simp add: j_def)
  qed (simp add: j_def card_mono [OF finite_subset [OF grow fin]])
  then have "card (?A - {t}) + j \<le> card ?A'" using card_mono [OF fin grow] by linarith
  moreover have "card ?A \<le> card (?A - {t}) + i"
    using tA card_Diff_singleton_if [of ?A t] by (simp add: i_def) arith
  ultimately have cards: "card ?A + j \<le> card ?A' + i" by linarith
  have e1: "enat (Suc 0) = 1" by (metis One_nat_def enat_1)
  have "need (m_body M op (shared c)) k + enat i \<le> need (shared c) k + enat j"
    using body_need [OF i_inv t(2) notified(1)] by (auto simp: i_def j_def enat_0 e1 split: if_splits)
  also have "\<dots> \<le> enat (card ?A) + enat j" using le u(1) by (intro add_right_mono) auto
  also have "\<dots> \<le> enat (card ?A') + enat i" using cards by simp
  finally show ?thesis by (cases "need (m_body M op (shared c)) k") simp_all
qed

lemma monitor_inv_step:
  assumes "monitor_step M c c'" "monitor_inv M inv need s0 c"
  shows "monitor_inv M inv need s0 c'"
  using assms
proof (induction rule: monitor_step.induct)
  case (leave c t op m W)
  let ?c = "c\<lparr>threads := (wake W (threads c))(t := Outside), mutex := m,
       shared := m_body M op (shared c), history := history c @ [(t, op, shared c)]\<rparr>"
  have "lock_ok ?c" using lock_ok_step [OF monitor_step.leave [OF leave(1-4)]] leave(5) by (simp add: monitor_inv_def)
  moreover have "inv (m_body M op (shared c))" "runs_to M s0 (history c @ [(t, op, shared c)]) (m_body M op (shared c))"
    using leave by (simp_all add: monitor_inv_def inv_body runs_to_snoc)
  moreover have "need (m_body M op (shared c)) k \<le> enat (card (active M ((wake W (threads c))(t := Outside)) k))"
    if "sleepers M ((wake W (threads c))(t := Outside)) k \<noteq> {}" for k
    using leave_need [OF _ leave(1,2) _ leave(4) that] leave(5) by (simp add: monitor_inv_def)
  ultimately show ?case by (simp add: monitor_inv_def)
next
  case (arrive c t op)
  show ?case by (rule monitor_inv_more [OF arrive(3) lock_ok_step [OF monitor_step.arrive [OF arrive(1,2)]]])
    (use arrive in \<open>auto simp: monitor_inv_def active_def sleepers_def\<close>)
next
  case (acquire c t op m)
  show ?case by (rule monitor_inv_more [OF acquire(3) lock_ok_step [OF monitor_step.acquire [OF acquire(1,2)]]])
    (use acquire in \<open>auto simp: monitor_inv_def active_def sleepers_def\<close>)
next
  case (spurious c t op)
  show ?case by (rule monitor_inv_more [OF spurious(2) lock_ok_step [OF monitor_step.spurious [OF spurious(1)]]])
    (use spurious in \<open>auto simp: monitor_inv_def active_def sleepers_def\<close>)
next
  case (sleep c t op m)
  let ?c = "c\<lparr>threads := (threads c)(t := Sleeps op), mutex := m\<rparr>"
  have ok: "lock_ok ?c" using lock_ok_step [OF monitor_step.sleep [OF sleep(1-3)]] sleep(4) by (simp add: monitor_inv_def)
  have "need (shared c) k \<le> enat (card (active M (threads ?c) k))" if "sleepers M (threads ?c) k \<noteq> {}" for k
  proof (cases "k = m_cond M op")
    case True
    then have "need (shared c) k = 0" using guard_need sleep(2,4) by (simp add: monitor_inv_def)
    then show ?thesis by simp
  next
    case False
    then have "active M (threads ?c) k = active M (threads c) k" "sleepers M (threads ?c) k = sleepers M (threads c) k"
      using sleep(1) by (auto simp: active_def sleepers_def)
    then show ?thesis using sleep(4) that by (simp add: monitor_inv_def)
  qed
  then show ?case using ok sleep(4) by (simp add: monitor_inv_def)
qed

lemma monitor_reach:
  assumes "inv s" "monitor_start s c0" "(monitor_step M)\<^sup>*\<^sup>* c0 c"
  shows "monitor_inv M inv need s c"
  using assms(3) by (rule invariant_star) (use monitor_inv_start [OF assms(1,2)] monitor_inv_step in blast)+

text \<open>No thread sleeps on although it could go on, unless another one that waits on the same condition is awake.\<close>

lemma no_missed_signal:
  assumes "monitor_inv M inv need s0 c" "threads c t = Sleeps op" "\<not> m_guard M op (shared c)"
  shows "\<exists>u op'. (threads c u = Wants op' \<or> threads c u = Inside op') \<and> m_cond M op' = m_cond M op"
proof -
  have "sleepers M (threads c) (m_cond M op) \<noteq> {}" using assms(2) by (auto simp: sleepers_def)
  then have "need (shared c) (m_cond M op) \<le> enat (card (active M (threads c) (m_cond M op)))"
    using assms(1) by (simp add: monitor_inv_def)
  moreover have "need (shared c) (m_cond M op) \<noteq> 0" using assms(1,3) guard_need by (simp add: monitor_inv_def)
  ultimately have "card (active M (threads c) (m_cond M op)) \<noteq> 0" by (metis le_zero_eq zero_enat_def)
  then have "active M (threads c) (m_cond M op) \<noteq> {}" by auto
  then show ?thesis by (auto simp: active_def)
qed

end

end
