(* ===== verification/Queues.thy ===== *)
theory Queues
  imports Monitor Format
begin

text \<open>
  The monitors of \<^verbatim>\<open>muduo/base\<close>: \<^verbatim>\<open>BlockingQueue\<close>, \<^verbatim>\<open>BoundedBlockingQueue\<close>, \<^verbatim>\<open>CountDownLatch\<close> and
  \<^verbatim>\<open>ThreadPool\<close>. Each operation is a function on the guarded state; the monitor says what it waits
  for and what it notifies. \<open>Never\<close> is the condition of the operations that do not wait.
\<close>

section \<open>What queues have in common\<close>

locale queue_monitor = monitor_contract M inv need
  for M :: "('o, 's, 'c) monitor" and inv :: "'s \<Rightarrow> bool" and need :: "'s \<Rightarrow> 'c \<Rightarrow> enat" +
  fixes stored :: "'s \<Rightarrow> 'a list" and pushed popped :: "'o \<Rightarrow> 's \<Rightarrow> 'a list"
  assumes queue_law: "inv s \<Longrightarrow> \<not> m_guard M op s \<Longrightarrow> stored s @ pushed op s = popped op s @ stored (m_body M op s)"
begin

lemma queue_history:
  assumes "inv s" "runs_to M s h s'"
  shows "stored s @ concat (map (\<lambda>(t, op, u). pushed op u) h) = concat (map (\<lambda>(t, op, u). popped op u) h) @ stored s'"
  using assms
proof (induction h arbitrary: s)
  case (Cons e h)
  obtain t op u where e: "e = (t, op, u)" by (cases e)
  then have r: "u = s" "\<not> m_guard M op s" "runs_to M (m_body M op s) h s'" using Cons.prems(2) by simp_all
  note step = queue_law [OF Cons.prems(1) r(2)] and rest = Cons.IH [OF inv_body [OF Cons.prems(1) r(2)] r(3)]
  have assoc: "stored s @ pushed op s @ ys = popped op s @ stored (m_body M op s) @ ys" for ys using step by (metis append_assoc)
  show ?case unfolding e r(1) by (simp add: assoc rest)
qed simp

text \<open>Everything a client of a queue may rely on, in any state its threads can reach.\<close>

lemma queue_reach:
  assumes "inv s0" "monitor_start s0 c0" "(monitor_step M)\<^sup>*\<^sup>* c0 c"
  shows "stored s0 @ concat (map (\<lambda>(t, op, u). pushed op u) (history c)) =
      concat (map (\<lambda>(t, op, u). popped op u) (history c)) @ stored (shared c)"
    and "inv (shared c)"
    and "threads c t = Inside op \<Longrightarrow> isLockedByThisThread t (mutex c)"
    and "threads c t = Inside op \<Longrightarrow> threads c t' = Inside op' \<Longrightarrow> t' = t"
    and "threads c t = Sleeps op \<Longrightarrow> \<not> m_guard M op (shared c) \<Longrightarrow>
      \<exists>t' op'. (threads c t' = Wants op' \<or> threads c t' = Inside op') \<and> m_cond M op' = m_cond M op"
proof -
  have i: "monitor_inv M inv need s0 c" using assms by (rule monitor_reach)
  then have ok: "lock_ok c" "inv (shared c)" "runs_to M s0 (history c) (shared c)" by (simp_all add: monitor_inv_def)
  show "stored s0 @ concat (map (\<lambda>(t, op, u). pushed op u) (history c)) =
      concat (map (\<lambda>(t, op, u). popped op u) (history c)) @ stored (shared c)"
    by (rule queue_history [OF assms(1) ok(3)])
  show "inv (shared c)" by (rule ok(2))
  show "isLockedByThisThread t (mutex c)" if "threads c t = Inside op"
  proof -
    have "owner (mutex c) = Some t" using ok(1) that unfolding lock_ok_def by blast
    then show ?thesis using ok(1) by (simp add: lock_ok_def isLockedByThisThread_def)
  qed
  show "t' = t" if "threads c t = Inside op" "threads c t' = Inside op'" by (rule one_inside [OF ok(1) that])
  show "\<exists>t' op'. (threads c t' = Wants op' \<or> threads c t' = Inside op') \<and> m_cond M op' = m_cond M op"
    if "threads c t = Sleeps op" "\<not> m_guard M op (shared c)" by (rule no_missed_signal [OF i that])
qed

end

section \<open>BlockingQueue\<close>

datatype queue_cond = NotEmpty | NotFull | Never

definition bq_put :: "'a \<Rightarrow> 'a list \<Rightarrow> 'a list" where
  "bq_put x queue = queue @ [x]"

definition bq_take :: "'a list \<Rightarrow> ('a \<times> 'a list) res" where
  "bq_take queue = assert_that (queue \<noteq> []) (Inr (hd queue, tl queue))"

definition bq_drain :: "'a list \<Rightarrow> 'a list \<times> 'a list" where
  "bq_drain queue = (queue, [])"

definition bq_size :: "'a list \<Rightarrow> nat" where
  "bq_size queue = length queue"

datatype 'a bq_op = BqPut 'a | BqTake | BqDrain | BqSize

definition after :: "('r \<times> 's) res \<Rightarrow> 's \<Rightarrow> 's" where
  "after r s = (case r of Inr (_, s') \<Rightarrow> s' | Inl _ \<Rightarrow> s)"

fun bq_body :: "'a bq_op \<Rightarrow> 'a list \<Rightarrow> 'a list" where
  "bq_body (BqPut x) queue = bq_put x queue"
| "bq_body BqTake queue = after (bq_take queue) queue"
| "bq_body BqDrain queue = snd (bq_drain queue)"
| "bq_body BqSize queue = queue"

definition BlockingQueue :: "('a bq_op, 'a list, queue_cond) monitor" where
  "BlockingQueue = \<lparr>
     m_guard = (\<lambda>op queue. op = BqTake \<and> queue = []),
     m_cond = (\<lambda>op. if op = BqTake then NotEmpty else Never),
     m_body = bq_body,
     m_notify = (\<lambda>op queue k. case op of BqPut x \<Rightarrow> (if k = NotEmpty then Signal else NoSignal) | _ \<Rightarrow> NoSignal)\<rparr>"

section \<open>BoundedBlockingQueue\<close>

text \<open>\<^verbatim>\<open>boost::circular_buffer\<close> is a parameter, with what its documentation says of it.\<close>

record ('a, 'q) circular_buffer =
  cb_new :: "nat \<Rightarrow> 'q"
  cb_full :: "'q \<Rightarrow> bool"
  cb_empty :: "'q \<Rightarrow> bool"
  cb_push_back :: "'a \<Rightarrow> 'q \<Rightarrow> 'q"
  cb_front :: "'q \<Rightarrow> 'a"
  cb_pop_front :: "'q \<Rightarrow> 'q"
  cb_size :: "'q \<Rightarrow> nat"
  cb_capacity :: "'q \<Rightarrow> nat"

definition circular_buffer_works :: "('a, 'q) circular_buffer \<Rightarrow> ('q \<Rightarrow> 'a list) \<Rightarrow> bool" where
  "circular_buffer_works cb contents \<longleftrightarrow>
     (\<forall>n. contents (cb_new cb n) = [] \<and> cb_capacity cb (cb_new cb n) = n) \<and>
     (\<forall>q. cb_size cb q = length (contents q) \<and> (cb_empty cb q \<longleftrightarrow> contents q = []) \<and>
        (cb_full cb q \<longleftrightarrow> length (contents q) = cb_capacity cb q)) \<and>
     (\<forall>q x. length (contents q) < cb_capacity cb q \<longrightarrow>
        contents (cb_push_back cb x q) = contents q @ [x] \<and> cb_capacity cb (cb_push_back cb x q) = cb_capacity cb q) \<and>
     (\<forall>q. contents q \<noteq> [] \<longrightarrow> cb_front cb q = hd (contents q) \<and> contents (cb_pop_front cb q) = tl (contents q) \<and>
        cb_capacity cb (cb_pop_front cb q) = cb_capacity cb q)"

text \<open>\<^verbatim>\<open>maxSize\<close> is an \<^verbatim>\<open>int\<close> that is converted to \<^verbatim>\<open>size_t\<close>.\<close>

definition bbq_new :: "('a, 'q) circular_buffer \<Rightarrow> int \<Rightarrow> 'q" where
  "bbq_new cb maxSize = cb_new cb (nat (maxSize mod 2 ^ 64))"

definition bbq_put :: "('a, 'q) circular_buffer \<Rightarrow> 'a \<Rightarrow> 'q \<Rightarrow> (unit \<times> 'q) res" where
  "bbq_put cb x queue = assert_that (\<not> cb_full cb queue) (Inr ((), cb_push_back cb x queue))"

definition bbq_take :: "('a, 'q) circular_buffer \<Rightarrow> 'q \<Rightarrow> ('a \<times> 'q) res" where
  "bbq_take cb queue = assert_that (\<not> cb_empty cb queue) (Inr (cb_front cb queue, cb_pop_front cb queue))"

definition bbq_empty :: "('a, 'q) circular_buffer \<Rightarrow> 'q \<Rightarrow> bool" where
  "bbq_empty cb queue = cb_empty cb queue"

definition bbq_full :: "('a, 'q) circular_buffer \<Rightarrow> 'q \<Rightarrow> bool" where
  "bbq_full cb queue = cb_full cb queue"

definition bbq_size :: "('a, 'q) circular_buffer \<Rightarrow> 'q \<Rightarrow> nat" where
  "bbq_size cb queue = cb_size cb queue"

definition bbq_capacity :: "('a, 'q) circular_buffer \<Rightarrow> 'q \<Rightarrow> nat" where
  "bbq_capacity cb queue = cb_capacity cb queue"

datatype 'a bbq_op = BbqPut 'a | BbqTake | BbqLook

fun bbq_body :: "('a, 'q) circular_buffer \<Rightarrow> 'a bbq_op \<Rightarrow> 'q \<Rightarrow> 'q" where
  "bbq_body cb (BbqPut x) queue = after (bbq_put cb x queue) queue"
| "bbq_body cb BbqTake queue = after (bbq_take cb queue) queue"
| "bbq_body cb BbqLook queue = queue"

definition BoundedBlockingQueue :: "('a, 'q) circular_buffer \<Rightarrow> ('a bbq_op, 'q, queue_cond) monitor" where
  "BoundedBlockingQueue cb = \<lparr>
     m_guard = (\<lambda>op queue. case op of BbqPut x \<Rightarrow> cb_full cb queue | BbqTake \<Rightarrow> cb_empty cb queue | BbqLook \<Rightarrow> False),
     m_cond = (\<lambda>op. case op of BbqPut x \<Rightarrow> NotFull | BbqTake \<Rightarrow> NotEmpty | BbqLook \<Rightarrow> Never),
     m_body = bbq_body cb,
     m_notify = (\<lambda>op queue k. case op of
         BbqPut x \<Rightarrow> (if k = NotEmpty then Signal else NoSignal)
       | BbqTake \<Rightarrow> (if k = NotFull then Signal else NoSignal)
       | BbqLook \<Rightarrow> NoSignal)\<rparr>"

section \<open>CountDownLatch\<close>

datatype latch_op = LatchWait | LatchCountDown | LatchGetCount

datatype latch_cond = LatchZero | LatchNever

definition latch_countDown :: "int \<Rightarrow> int" where
  "latch_countDown count = count - 1"

definition CountDownLatch :: "(latch_op, int, latch_cond) monitor" where
  "CountDownLatch = \<lparr>
     m_guard = (\<lambda>op count. op = LatchWait \<and> count > 0),
     m_cond = (\<lambda>op. if op = LatchWait then LatchZero else LatchNever),
     m_body = (\<lambda>op count. if op = LatchCountDown then latch_countDown count else count),
     m_notify = (\<lambda>op count k. if op = LatchCountDown \<and> latch_countDown count = 0 \<and> k = LatchZero then Broadcast else NoSignal)\<rparr>"

section \<open>ThreadPool\<close>

record 'a ThreadPool =
  poolName :: string
  poolThreads :: "string list"
  poolQueue :: "'a list"
  maxQueueSize :: nat
  poolRunning :: bool

definition ThreadPool_new :: "string \<Rightarrow> 'a ThreadPool" where
  "ThreadPool_new nm = \<lparr>poolName = nm, poolThreads = [], poolQueue = [], maxQueueSize = 0, poolRunning = False\<rparr>"

definition setMaxQueueSize :: "int \<Rightarrow> 'a ThreadPool \<Rightarrow> 'a ThreadPool" where
  "setMaxQueueSize maxSize p = p\<lparr>maxQueueSize := nat (maxSize mod 2 ^ 64)\<rparr>"

text \<open>Whether the initialisation callback runs in the calling thread comes with the result.\<close>

definition ThreadPool_start :: "int \<Rightarrow> bool \<Rightarrow> 'a ThreadPool \<Rightarrow> (bool \<times> 'a ThreadPool) res" where
  "ThreadPool_start numThreads hasInit p =
     assert_that (poolThreads p = [])
       (if numThreads < 0 then Inl LengthError
        else Inr (numThreads = 0 \<and> hasInit,
               p\<lparr>poolRunning := True, poolThreads := map (\<lambda>i. poolName p @ fmt_d (i + 1)) [0..numThreads - 1]\<rparr>))"

definition isFull :: "'a ThreadPool \<Rightarrow> bool" where
  "isFull p \<longleftrightarrow> maxQueueSize p > 0 \<and> length (poolQueue p) \<ge> maxQueueSize p"

definition pool_stop :: "'a ThreadPool \<Rightarrow> 'a ThreadPool" where
  "pool_stop p = p\<lparr>poolRunning := False\<rparr>"

definition pool_queueSize :: "'a ThreadPool \<Rightarrow> nat" where
  "pool_queueSize p = length (poolQueue p)"

text \<open>
  \<^verbatim>\<open>run\<close>, after it stopped waiting if it did. With no threads the caller runs the task itself: the
  task that is run at once comes with the result.
\<close>

definition pool_run :: "'a \<Rightarrow> 'a ThreadPool \<Rightarrow> ('a option \<times> 'a ThreadPool) res" where
  "pool_run x p =
     (if poolThreads p = [] then Inr (Some x, p)
      else if \<not> poolRunning p then Inr (None, p)
      else assert_that (\<not> isFull p) (Inr (None, p\<lparr>poolQueue := poolQueue p @ [x]\<rparr>)))"

definition pool_take :: "'a ThreadPool \<Rightarrow> 'a option \<times> 'a ThreadPool" where
  "pool_take p =
     (if poolQueue p \<noteq> [] then (Some (hd (poolQueue p)), p\<lparr>poolQueue := tl (poolQueue p)\<rparr>) else (None, p))"

text \<open>
  A worker: what it finds in \<^verbatim>\<open>running_\<close> at each turn and what \<^verbatim>\<open>take\<close> gives it are arguments; an
  exception of a task or of the initialisation callback ends the program.
\<close>

fun runTasks :: "('a \<Rightarrow> bool) \<Rightarrow> (bool \<times> 'a option) list \<Rightarrow> 'a list res" where
  "runTasks throws [] = Inr []"
| "runTasks throws ((running, task) # turns) =
     (if \<not> running then Inr []
      else case task of
        None \<Rightarrow> runTasks throws turns
      | Some x \<Rightarrow> if throws x then Inl Fatal else bindE (runTasks throws turns) (\<lambda>xs. Inr (x # xs)))"

definition runInThread :: "bool \<Rightarrow> ('a \<Rightarrow> bool) \<Rightarrow> (bool \<times> 'a option) list \<Rightarrow> 'a list res" where
  "runInThread initThrows throws turns = (if initThrows then Inl Fatal else runTasks throws turns)"

datatype 'a pool_op = PoolRun 'a | PoolTake | PoolStop | PoolSize

fun pool_body :: "'a pool_op \<Rightarrow> 'a ThreadPool \<Rightarrow> 'a ThreadPool" where
  "pool_body (PoolRun x) p = after (pool_run x p) p"
| "pool_body PoolTake p = snd (pool_take p)"
| "pool_body PoolStop p = pool_stop p"
| "pool_body PoolSize p = p"

definition Pool :: "('a pool_op, 'a ThreadPool, queue_cond) monitor" where
  "Pool = \<lparr>
     m_guard = (\<lambda>op p. case op of PoolRun x \<Rightarrow> isFull p \<and> poolRunning p | PoolTake \<Rightarrow> poolQueue p = [] \<and> poolRunning p | _ \<Rightarrow> False),
     m_cond = (\<lambda>op. case op of PoolRun x \<Rightarrow> NotFull | PoolTake \<Rightarrow> NotEmpty | _ \<Rightarrow> Never),
     m_body = pool_body,
     m_notify = (\<lambda>op p k. case op of
         PoolRun x \<Rightarrow> (if poolRunning p \<and> k = NotEmpty then Signal else NoSignal)
       | PoolTake \<Rightarrow> (if poolQueue p \<noteq> [] \<and> maxQueueSize p > 0 \<and> k = NotFull then Signal else NoSignal)
       | PoolStop \<Rightarrow> (if k = Never then NoSignal else Broadcast)
       | PoolSize \<Rightarrow> NoSignal)\<rparr>"

section \<open>The queues keep the contract\<close>

fun bq_pushed :: "'a bq_op \<Rightarrow> 'a list \<Rightarrow> 'a list" where
  "bq_pushed (BqPut x) queue = [x]"
| "bq_pushed op queue = []"

fun bq_popped :: "'a bq_op \<Rightarrow> 'a list \<Rightarrow> 'a list" where
  "bq_popped BqTake queue = (case bq_take queue of Inr (x, _) \<Rightarrow> [x] | Inl _ \<Rightarrow> [])"
| "bq_popped BqDrain queue = fst (bq_drain queue)"
| "bq_popped op queue = []"

fun bq_need :: "'a list \<Rightarrow> queue_cond \<Rightarrow> enat" where
  "bq_need queue NotEmpty = enat (length queue)"
| "bq_need queue k = \<infinity>"

lemma enat_one: "(1 :: enat) = enat 1"
  by (simp add: one_enat_def)

lemma enat_tl: "queue \<noteq> [] \<Longrightarrow> enat (length queue - Suc 0) + 1 \<le> enat (length queue)"
  by (cases queue) (simp_all add: enat_one)

lemma enat_snoc: "enat (Suc n) \<le> enat n + 1"
  by (simp add: enat_one)

lemmas enat_lengths = enat_tl enat_snoc

interpretation bq: queue_monitor "BlockingQueue :: ('a bq_op, 'a list, queue_cond) monitor" "\<lambda>queue. True" bq_need
  "\<lambda>queue. queue" bq_pushed bq_popped
proof
  fix op :: "'a bq_op" and s :: "'a list" and k
  show "m_guard BlockingQueue op s \<longleftrightarrow> bq_need s (m_cond BlockingQueue op) = 0"
    by (cases op) (auto simp: BlockingQueue_def enat_0 [symmetric])
  assume g: "\<not> m_guard BlockingQueue op s"
  show "s @ bq_pushed op s = bq_popped op s @ m_body BlockingQueue op s"
    using g by (cases op) (auto simp: BlockingQueue_def bq_put_def bq_take_def bq_drain_def after_def assert_that_def)
  show "bq_need (m_body BlockingQueue op s) k + (if k = m_cond BlockingQueue op then 1 else 0)
    \<le> bq_need s k + (if m_notify BlockingQueue op s k = Signal then 1 else 0)"
    using g by (cases op; cases k)
      (auto simp: BlockingQueue_def bq_put_def bq_take_def bq_drain_def after_def assert_that_def enat_lengths)
qed simp

definition bbq_inv :: "('a, 'q) circular_buffer \<Rightarrow> ('q \<Rightarrow> 'a list) \<Rightarrow> nat \<Rightarrow> 'q \<Rightarrow> bool" where
  "bbq_inv cb contents n queue \<longleftrightarrow> circular_buffer_works cb contents \<and> cb_capacity cb queue = n \<and> length (contents queue) \<le> n"

fun bbq_pushed :: "'a bbq_op \<Rightarrow> 'q \<Rightarrow> 'a list" where
  "bbq_pushed (BbqPut x) queue = [x]"
| "bbq_pushed op queue = []"

fun bbq_popped :: "('a, 'q) circular_buffer \<Rightarrow> 'a bbq_op \<Rightarrow> 'q \<Rightarrow> 'a list" where
  "bbq_popped cb BbqTake queue = (case bbq_take cb queue of Inr (x, _) \<Rightarrow> [x] | Inl _ \<Rightarrow> [])"
| "bbq_popped cb op queue = []"

fun bbq_need :: "('q \<Rightarrow> 'a list) \<Rightarrow> nat \<Rightarrow> 'q \<Rightarrow> queue_cond \<Rightarrow> enat" where
  "bbq_need contents n queue NotEmpty = enat (length (contents queue))"
| "bbq_need contents n queue NotFull = enat (n - length (contents queue))"
| "bbq_need contents n queue Never = \<infinity>"

lemma circular_buffer_facts:
  assumes "circular_buffer_works cb contents"
  shows "cb_empty cb q \<longleftrightarrow> contents q = []" "cb_full cb q \<longleftrightarrow> length (contents q) = cb_capacity cb q"
    "cb_size cb q = length (contents q)" "contents (cb_new cb n) = []" "cb_capacity cb (cb_new cb n) = n"
    "length (contents q) < cb_capacity cb q \<Longrightarrow> contents (cb_push_back cb x q) = contents q @ [x]"
    "length (contents q) < cb_capacity cb q \<Longrightarrow> cb_capacity cb (cb_push_back cb x q) = cb_capacity cb q"
    "contents q \<noteq> [] \<Longrightarrow> cb_front cb q = hd (contents q)"
    "contents q \<noteq> [] \<Longrightarrow> contents (cb_pop_front cb q) = tl (contents q)"
    "contents q \<noteq> [] \<Longrightarrow> cb_capacity cb (cb_pop_front cb q) = cb_capacity cb q"
  using assms unfolding circular_buffer_works_def by blast+

lemma bbq_body_put:
  "bbq_inv cb contents n s \<Longrightarrow> length (contents s) \<noteq> n \<Longrightarrow>
   bbq_inv cb contents n (bbq_body cb (BbqPut x) s) \<and> contents (bbq_body cb (BbqPut x) s) = contents s @ [x]"
  by (auto simp: bbq_inv_def bbq_put_def after_def assert_that_def circular_buffer_facts [of cb contents])

lemma bbq_body_take:
  "bbq_inv cb contents n s \<Longrightarrow> contents s \<noteq> [] \<Longrightarrow>
   bbq_inv cb contents n (bbq_body cb BbqTake s) \<and> contents (bbq_body cb BbqTake s) = tl (contents s) \<and>
   bbq_popped cb BbqTake s = [hd (contents s)]"
  by (auto simp: bbq_inv_def bbq_take_def after_def assert_that_def circular_buffer_facts [of cb contents])

lemma bbq_guard:
  assumes "bbq_inv cb contents n s"
  shows "m_guard (BoundedBlockingQueue cb) (BbqPut x) s \<longleftrightarrow> length (contents s) = n"
    "m_guard (BoundedBlockingQueue cb) BbqTake s \<longleftrightarrow> contents s = []" "\<not> m_guard (BoundedBlockingQueue cb) BbqLook s"
  using assms by (auto simp: bbq_inv_def BoundedBlockingQueue_def circular_buffer_facts [of cb contents])

lemma bbq_fields:
  "m_body (BoundedBlockingQueue cb) = bbq_body cb" "m_cond (BoundedBlockingQueue cb) (BbqPut x) = NotFull"
  "m_cond (BoundedBlockingQueue cb) BbqTake = NotEmpty" "m_cond (BoundedBlockingQueue cb) BbqLook = Never"
  "m_notify (BoundedBlockingQueue cb) (BbqPut x) s k = (if k = NotEmpty then Signal else NoSignal)"
  "m_notify (BoundedBlockingQueue cb) BbqTake s k = (if k = NotFull then Signal else NoSignal)"
  "m_notify (BoundedBlockingQueue cb) BbqLook s k = NoSignal"
  by (simp_all add: BoundedBlockingQueue_def)

lemma enat_put: "l < n \<Longrightarrow> enat (n - Suc l) + 1 \<le> enat (n - l)"
  by (simp add: enat_one)

lemma enat_take: "l \<le> n \<Longrightarrow> enat (n - (l - Suc 0)) \<le> enat (n - l) + 1"
  by (simp add: enat_one)

interpretation bbq: queue_monitor "BoundedBlockingQueue cb" "bbq_inv cb contents n" "bbq_need contents n"
  contents bbq_pushed "bbq_popped cb" for cb contents n
proof
  fix op s k assume i: "bbq_inv cb contents n s"
  then have le: "length (contents s) \<le> n" by (simp add: bbq_inv_def)
  show "m_guard (BoundedBlockingQueue cb) op s \<longleftrightarrow> bbq_need contents n s (m_cond (BoundedBlockingQueue cb) op) = 0"
    using le by (cases op) (auto simp: bbq_guard [OF i] bbq_fields enat_0 [symmetric])
  assume g: "\<not> m_guard (BoundedBlockingQueue cb) op s"
  show "bbq_inv cb contents n (m_body (BoundedBlockingQueue cb) op s)"
    using g i by (cases op) (simp_all add: bbq_guard [OF i] bbq_fields bbq_body_put bbq_body_take del: bbq_body.simps(1,2) bbq_popped.simps(1))
  show "contents s @ bbq_pushed op s = bbq_popped cb op s @ contents (m_body (BoundedBlockingQueue cb) op s)"
    using g i by (cases op) (simp_all add: bbq_guard [OF i] bbq_fields bbq_body_put bbq_body_take del: bbq_body.simps(1,2) bbq_popped.simps(1))
  show "bbq_need contents n (m_body (BoundedBlockingQueue cb) op s) k + (if k = m_cond (BoundedBlockingQueue cb) op then 1 else 0)
    \<le> bbq_need contents n s k + (if m_notify (BoundedBlockingQueue cb) op s k = Signal then 1 else 0)"
    using g i le by (cases op; cases k)
      (simp_all add: bbq_guard [OF i] bbq_fields bbq_body_put bbq_body_take enat_lengths enat_put enat_take
        del: bbq_body.simps(1,2) bbq_popped.simps(1))
qed


section \<open>The latch and the pool keep the contract\<close>

definition latch_need :: "int \<Rightarrow> latch_cond \<Rightarrow> enat" where
  "latch_need count k = (if k = LatchZero \<and> count > 0 then 0 else \<infinity>)"

interpretation latch: monitor_contract CountDownLatch "\<lambda>count. True" latch_need
  by unfold_locales (auto simp: CountDownLatch_def latch_need_def latch_countDown_def split: if_splits)

fun pool_pushed :: "'a pool_op \<Rightarrow> 'a ThreadPool \<Rightarrow> 'a list" where
  "pool_pushed (PoolRun x) p = (if poolRunning p then [x] else [])"
| "pool_pushed op p = []"

fun pool_popped :: "'a pool_op \<Rightarrow> 'a ThreadPool \<Rightarrow> 'a list" where
  "pool_popped PoolTake p = (case fst (pool_take p) of Some x \<Rightarrow> [x] | None \<Rightarrow> [])"
| "pool_popped op p = []"

definition pool_inv :: "'a ThreadPool \<Rightarrow> bool" where
  "pool_inv p \<longleftrightarrow> poolThreads p \<noteq> [] \<and> (maxQueueSize p > 0 \<longrightarrow> length (poolQueue p) \<le> maxQueueSize p)"

fun pool_need :: "'a ThreadPool \<Rightarrow> queue_cond \<Rightarrow> enat" where
  "pool_need p NotEmpty = (if poolRunning p then enat (length (poolQueue p)) else \<infinity>)"
| "pool_need p NotFull =
     (if poolRunning p \<and> maxQueueSize p > 0 then enat (maxQueueSize p - length (poolQueue p)) else \<infinity>)"
| "pool_need p Never = \<infinity>"

lemmas pool_defs = Pool_def pool_run_def pool_take_def pool_stop_def isFull_def after_def assert_that_def

interpretation pool: queue_monitor "Pool :: ('a pool_op, 'a ThreadPool, queue_cond) monitor" pool_inv pool_need
  poolQueue pool_pushed pool_popped
proof
  fix op :: "'a pool_op" and s :: "'a ThreadPool" and k assume i: "pool_inv s"
  show "m_guard Pool op s \<longleftrightarrow> pool_need s (m_cond Pool op) = 0"
    using i by (cases op) (auto simp: pool_defs pool_inv_def enat_0 [symmetric])
  assume g: "\<not> m_guard Pool op s"
  show "pool_inv (m_body Pool op s)" using g i by (cases op) (auto simp: pool_defs pool_inv_def)
  show "poolQueue s @ pool_pushed op s = pool_popped op s @ poolQueue (m_body Pool op s)"
    using g i by (cases op) (auto simp: pool_defs pool_inv_def)
  assume "m_notify Pool op s k \<noteq> Broadcast"
  then show "pool_need (m_body Pool op s) k + (if k = m_cond Pool op then 1 else 0)
    \<le> pool_need s k + (if m_notify Pool op s k = Signal then 1 else 0)"
    using g i by (cases op; cases k)
      (auto simp: pool_defs pool_inv_def enat_lengths enat_put enat_take split: if_splits)
qed

section \<open>What the monitors promise\<close>

lemma runs_to_guards: "runs_to M s h s' \<Longrightarrow> (t, op, u) \<in> set h \<Longrightarrow> \<not> m_guard M op u"
  by (induction M s h s' rule: runs_to.induct) auto

context monitor_contract
begin

text \<open>Nobody sleeps on a condition that has become true for good.\<close>

lemma nobody_sleeps:
  assumes "monitor_inv M inv need s0 c" "need (shared c) (m_cond M op) = \<infinity>"
  shows "threads c t \<noteq> Sleeps op"
proof
  assume "threads c t = Sleeps op"
  then have "sleepers M (threads c) (m_cond M op) \<noteq> {}" by (auto simp: sleepers_def)
  then have "need (shared c) (m_cond M op) \<le> enat (card (active M (threads c) (m_cond M op)))"
    using assms(1) by (simp add: monitor_inv_def)
  then show False using assms(2) by simp
qed

end

definition puts :: "(int \<times> 'a bbq_op \<times> 'q) list \<Rightarrow> 'a list" where
  "puts h = concat (map (\<lambda>(t, op, queue). bbq_pushed op queue) h)"

definition takes :: "('a, 'q) circular_buffer \<Rightarrow> (int \<times> 'a bbq_op \<times> 'q) list \<Rightarrow> 'a list" where
  "takes cb h = concat (map (\<lambda>(t, op, queue). bbq_popped cb op queue) h)"

definition bbq_asserts_hold :: "('a, 'q) circular_buffer \<Rightarrow> 'a bbq_op \<Rightarrow> 'q \<Rightarrow> bool" where
  "bbq_asserts_hold cb op queue \<longleftrightarrow>
     (case op of BbqPut x \<Rightarrow> bbq_put cb x queue \<noteq> Inl AssertFail | BbqTake \<Rightarrow> bbq_take cb queue \<noteq> Inl AssertFail | BbqLook \<Rightarrow> True)"

lemma bounded_queue_facts:
  assumes "circular_buffer_works cb contents" "monitor_start (bbq_new cb maxSize) c0"
    and "(monitor_step (BoundedBlockingQueue cb))\<^sup>*\<^sup>* c0 c"
  shows "takes cb (history c) @ contents (shared c) = puts (history c)"
    and "length (contents (shared c)) \<le> nat (maxSize mod 2 ^ 64)"
    and "(t, op, queue) \<in> set (history c) \<Longrightarrow> bbq_asserts_hold cb op queue"
    and "threads c t = Inside op \<Longrightarrow> isLockedByThisThread t (mutex c) \<and> (\<forall>t' op'. threads c t' = Inside op' \<longrightarrow> t' = t)"
    and "threads c t = Sleeps op \<Longrightarrow> \<not> m_guard (BoundedBlockingQueue cb) op (shared c) \<Longrightarrow>
      \<exists>t' op'. (threads c t' = Wants op' \<or> threads c t' = Inside op') \<and>
        m_cond (BoundedBlockingQueue cb) op' = m_cond (BoundedBlockingQueue cb) op"
proof -
  have i: "bbq_inv cb contents (nat (maxSize mod 2 ^ 64)) (bbq_new cb maxSize)"
    and empty: "contents (bbq_new cb maxSize) = []"
    using assms(1) by (simp_all add: bbq_inv_def bbq_new_def circular_buffer_facts)
  note facts = bbq.queue_reach [OF i assms(2,3)]
  show "takes cb (history c) @ contents (shared c) = puts (history c)"
    using facts(1) empty by (simp add: takes_def puts_def)
  show "length (contents (shared c)) \<le> nat (maxSize mod 2 ^ 64)" using facts(2) by (simp add: bbq_inv_def)
  show "bbq_asserts_hold cb op queue" if "(t, op, queue) \<in> set (history c)"
  proof -
    have "runs_to (BoundedBlockingQueue cb) (bbq_new cb maxSize) (history c) (shared c)"
      using bbq.monitor_reach [OF i assms(2,3)] by (simp add: monitor_inv_def)
    from runs_to_guards [OF this that] have "\<not> m_guard (BoundedBlockingQueue cb) op queue" .
    then show ?thesis
      by (cases op) (simp_all add: bbq_asserts_hold_def BoundedBlockingQueue_def bbq_put_def bbq_take_def assert_that_def)
  qed
  show "isLockedByThisThread t (mutex c) \<and> (\<forall>t' op'. threads c t' = Inside op' \<longrightarrow> t' = t)" if "threads c t = Inside op"
    using facts(3,4) that by blast
  show "\<exists>t' op'. (threads c t' = Wants op' \<or> threads c t' = Inside op') \<and>
        m_cond (BoundedBlockingQueue cb) op' = m_cond (BoundedBlockingQueue cb) op"
    if "threads c t = Sleeps op" "\<not> m_guard (BoundedBlockingQueue cb) op (shared c)"
    by (rule facts(5) [OF that])
qed

text \<open>
  C11. Any number of threads use a \<^verbatim>\<open>BoundedBlockingQueue\<close>, interleaved in any way, with spurious
  wake-ups and with any choice of whom \<^verbatim>\<open>notify\<close> wakes. What was taken, followed by what the queue
  holds, is what was put, in order; the queue never holds more than its capacity; no assertion
  of \<^verbatim>\<open>put\<close> or \<^verbatim>\<open>take\<close> fails; at most one thread is inside and \<^verbatim>\<open>holder_\<close> names it; and a
  thread asleep whose condition holds is never forgotten: another thread is on its way to the same
  condition.
\<close>

theorem bounded_queue_correct:
  assumes "circular_buffer_works cb contents" "monitor_start (bbq_new cb maxSize) c0"
    and "(monitor_step (BoundedBlockingQueue cb))\<^sup>*\<^sup>* c0 c"
  shows "takes cb (history c) @ contents (shared c) = puts (history c) \<and>
    length (contents (shared c)) \<le> nat (maxSize mod 2 ^ 64) \<and>
    (\<forall>t op queue. (t, op, queue) \<in> set (history c) \<longrightarrow> bbq_asserts_hold cb op queue) \<and>
    (\<forall>t op. threads c t = Inside op \<longrightarrow> isLockedByThisThread t (mutex c) \<and> (\<forall>t' op'. threads c t' = Inside op' \<longrightarrow> t' = t)) \<and>
    (\<forall>t op. threads c t = Sleeps op \<and> \<not> m_guard (BoundedBlockingQueue cb) op (shared c) \<longrightarrow>
      (\<exists>t' op'. (threads c t' = Wants op' \<or> threads c t' = Inside op') \<and>
        m_cond (BoundedBlockingQueue cb) op' = m_cond (BoundedBlockingQueue cb) op))"
  using bounded_queue_facts [OF assms] by blast

lemma thread_pool_facts:
  assumes start: "pool_inv p" "poolQueue p = []" "monitor_start p c0" and run: "(monitor_step Pool)\<^sup>*\<^sup>* c0 c"
  shows "concat (map (\<lambda>(t, op, q). pool_popped op q) (history c)) @ poolQueue (shared c) =
      concat (map (\<lambda>(t, op, q). pool_pushed op q) (history c))"
    and "maxQueueSize (shared c) > 0 \<Longrightarrow> length (poolQueue (shared c)) \<le> maxQueueSize (shared c)"
    and "threads c t = Sleeps op \<Longrightarrow> \<not> m_guard Pool op (shared c) \<Longrightarrow>
      \<exists>t' op'. (threads c t' = Wants op' \<or> threads c t' = Inside op') \<and> m_cond Pool op' = m_cond Pool op"
    and "\<not> poolRunning (shared c) \<Longrightarrow> threads c t \<noteq> Sleeps op"
proof -
  note facts = pool.queue_reach [OF start(1,3) run]
  show "concat (map (\<lambda>(t, op, q). pool_popped op q) (history c)) @ poolQueue (shared c) =
      concat (map (\<lambda>(t, op, q). pool_pushed op q) (history c))"
    using facts(1) start(2) by simp
  show "length (poolQueue (shared c)) \<le> maxQueueSize (shared c)" if "maxQueueSize (shared c) > 0"
    using facts(2) that by (simp add: pool_inv_def)
  show "\<exists>t' op'. (threads c t' = Wants op' \<or> threads c t' = Inside op') \<and> m_cond Pool op' = m_cond Pool op"
    if "threads c t = Sleeps op" "\<not> m_guard Pool op (shared c)"
    by (rule facts(5) [OF that])
  show "threads c t \<noteq> Sleeps op" if "\<not> poolRunning (shared c)"
  proof -
    have "pool_need (shared c) (m_cond Pool op) = \<infinity>" using that by (cases op) (simp_all add: Pool_def)
    then show ?thesis by (rule pool.nobody_sleeps [OF pool.monitor_reach [OF start(1,3) run]])
  qed
qed

text \<open>
  C21. The threads of a \<^verbatim>\<open>ThreadPool\<close>: a task that \<^verbatim>\<open>run\<close> accepts while the pool runs is taken exactly
  once, in the order of the calls, or is still queued; the queue keeps its limit; a worker or a
  producer whose condition holds is not forgotten asleep; and after \<^verbatim>\<open>stop\<close> nobody sleeps in the
  pool, so \<^verbatim>\<open>join\<close> does not wait for a thread that nobody wakes.
\<close>

theorem thread_pool_correct:
  assumes "pool_inv p" "poolQueue p = []" "monitor_start p c0" "(monitor_step Pool)\<^sup>*\<^sup>* c0 c"
  shows "concat (map (\<lambda>(t, op, q). pool_popped op q) (history c)) @ poolQueue (shared c) =
      concat (map (\<lambda>(t, op, q). pool_pushed op q) (history c)) \<and>
    (maxQueueSize (shared c) > 0 \<longrightarrow> length (poolQueue (shared c)) \<le> maxQueueSize (shared c)) \<and>
    (\<forall>t op. threads c t = Sleeps op \<and> \<not> m_guard Pool op (shared c) \<longrightarrow>
      (\<exists>t' op'. (threads c t' = Wants op' \<or> threads c t' = Inside op') \<and> m_cond Pool op' = m_cond Pool op)) \<and>
    (\<not> poolRunning (shared c) \<longrightarrow> (\<forall>t op. threads c t \<noteq> Sleeps op))"
  using thread_pool_facts [OF assms] by blast

definition countDowns :: "(int \<times> latch_op \<times> int) list \<Rightarrow> int" where
  "countDowns h = int (length (filter (\<lambda>(t, op, count). op = LatchCountDown) h))"

lemma latch_history: "runs_to CountDownLatch n h m \<Longrightarrow> m = n - countDowns h"
  by (induction "CountDownLatch" n h m rule: runs_to.induct)
    (auto simp: countDowns_def CountDownLatch_def latch_countDown_def split: if_splits)

text \<open>A latch counts what was counted down; a wait ends only at zero or below, and nobody sleeps there.\<close>

theorem latch_correct:
  assumes "monitor_start n c0" "(monitor_step CountDownLatch)\<^sup>*\<^sup>* c0 c"
  shows "shared c = n - countDowns (history c)"
    and "(t, LatchWait, m) \<in> set (history c) \<Longrightarrow> m \<le> 0"
    and "shared c \<le> 0 \<Longrightarrow> threads c t \<noteq> Sleeps op"
proof -
  have i: "monitor_inv CountDownLatch (\<lambda>_. True) latch_need n c" using latch.monitor_reach assms by simp
  then have r: "runs_to CountDownLatch n (history c) (shared c)" by (simp add: monitor_inv_def)
  then show "shared c = n - countDowns (history c)" by (rule latch_history)
  show "m \<le> 0" if "(t, LatchWait, m) \<in> set (history c)"
    using runs_to_guards [OF r that] by (simp add: CountDownLatch_def not_less)
  show "threads c t \<noteq> Sleeps op" if "shared c \<le> 0"
    by (rule latch.nobody_sleeps [OF i]) (use that in \<open>simp add: latch_need_def\<close>)
qed


section \<open>Examples\<close>

definition list_buffer :: "('a, nat \<times> 'a list) circular_buffer" where
  "list_buffer = \<lparr>cb_new = (\<lambda>n. (n, [])), cb_full = (\<lambda>(n, xs). length xs = n), cb_empty = (\<lambda>(n, xs). xs = []),
     cb_push_back = (\<lambda>x (n, xs). (n, xs @ [x])), cb_front = (\<lambda>(n, xs). hd xs), cb_pop_front = (\<lambda>(n, xs). (n, tl xs)),
     cb_size = (\<lambda>(n, xs). length xs), cb_capacity = fst\<rparr>"

lemma list_buffer_works: "circular_buffer_works list_buffer snd"
  by (auto simp: circular_buffer_works_def list_buffer_def)

definition sample_start_of :: "'s \<Rightarrow> ('o, 's) mconfig" where
  "sample_start_of s = \<lparr>mutex = MutexLock_new, threads = (\<lambda>_. Outside), shared = s, history = []\<rparr>"

lemma sample_start_of_start: "monitor_start s (sample_start_of s)"
  by (simp add: monitor_start_def sample_start_of_def)

text \<open>Thread 1 finds its condition false and sleeps; thread 2 runs an operation that wakes it.\<close>

lemma sleep_then_signal:
  assumes op: "m_guard M slow s" "\<not> m_guard M quick s" "m_notify M quick s (m_cond M slow) = Signal"
    and other: "\<forall>k. k \<noteq> m_cond M slow \<longrightarrow> m_notify M quick s k = NoSignal"
  shows "\<exists>c. (monitor_step M)\<^sup>*\<^sup>* (sample_start_of s) c \<and> history c = [(2, quick, s)] \<and> shared c = m_body M quick s \<and>
    threads c = (\<lambda>_. Outside)(1 := Wants slow)"
proof -
  define cfg :: "_ \<Rightarrow> _ \<Rightarrow> _ \<Rightarrow> _ \<Rightarrow> ('a, 'b) mconfig" where "cfg = (\<lambda>m thr s h. \<lparr>mutex = m, threads = thr, shared = s, history = h\<rparr>)"
  let ?free = "\<lparr>owner = None, holder = 0\<rparr>" and ?held = "\<lambda>t. \<lparr>owner = Some t, holder = t\<rparr>" and ?out = "\<lambda>_. Outside"
  have lock: "mutex_lock t ?free = Some (?held t)" "cond_wait_begin t (?held t) = Inr ?free" "mutex_unlock t (?held t) = Inr ?free"
    if "t \<noteq> 0" for t
    using that by (simp_all add: mutex_lock_def cond_wait_begin_def mutex_unlock_def assignHolder_def unassignHolder_def)
  have a: "monitor_step M (cfg ?free ?out s []) (cfg ?free (?out(1 := Wants slow)) s [])"
    using monitor_step.arrive [of "cfg ?free ?out s []" 1 M slow] by (simp add: cfg_def)
  have b: "monitor_step M (cfg ?free (?out(1 := Wants slow)) s []) (cfg (?held 1) (?out(1 := Inside slow)) s [])"
    using monitor_step.acquire [of "cfg ?free (?out(1 := Wants slow)) s []" 1 slow "?held 1" M] lock by (simp add: cfg_def)
  have c: "monitor_step M (cfg (?held 1) (?out(1 := Inside slow)) s []) (cfg ?free (?out(1 := Sleeps slow)) s [])"
    using monitor_step.sleep [of "cfg (?held 1) (?out(1 := Inside slow)) s []" 1 slow M ?free] lock op(1) by (simp add: cfg_def)
  have d: "monitor_step M (cfg ?free (?out(1 := Sleeps slow)) s []) (cfg ?free (?out(1 := Sleeps slow, 2 := Wants quick)) s [])"
    using monitor_step.arrive [of "cfg ?free (?out(1 := Sleeps slow)) s []" 2 M quick] by (simp add: cfg_def)
  have e: "monitor_step M (cfg ?free (?out(1 := Sleeps slow, 2 := Wants quick)) s [])
      (cfg (?held 2) (?out(1 := Sleeps slow, 2 := Inside quick)) s [])"
    using monitor_step.acquire [of "cfg ?free (?out(1 := Sleeps slow, 2 := Wants quick)) s []" 2 quick "?held 2" M] lock
    by (simp add: cfg_def)
  have W: "woken_ok M (m_notify M quick s) (?out(1 := Sleeps slow, 2 := Inside quick)) {1}"
    unfolding woken_ok_def Let_def by (auto simp: op(3) split: notification.splits simp: other)
  have "(wake {1} (?out(1 := Sleeps slow, 2 := Inside quick)))(2 := Outside) = ?out(1 := Wants slow)"
    by (auto simp: wake_def fun_eq_iff)
  then have f: "monitor_step M (cfg (?held 2) (?out(1 := Sleeps slow, 2 := Inside quick)) s [])
      (cfg ?free (?out(1 := Wants slow)) (m_body M quick s) [(2, quick, s)])"
    using monitor_step.leave [of "cfg (?held 2) (?out(1 := Sleeps slow, 2 := Inside quick)) s []" 2 quick M ?free "{1}"]
      lock op(2) W by (simp add: cfg_def)
  have "(monitor_step M)\<^sup>*\<^sup>* (cfg ?free ?out s []) (cfg ?free (?out(1 := Wants slow)) (m_body M quick s) [(2, quick, s)])"
    using a b c d e f by (meson converse_rtranclp_into_rtranclp rtranclp.rtrancl_refl)
  then show ?thesis by (auto simp: cfg_def sample_start_of_def MutexLock_new_def intro!: exI)
qed

lemma sample_ops:
  fixes q :: "nat \<times> nat list"
  defines "q \<equiv> bbq_new list_buffer 1"
  shows "m_guard (BoundedBlockingQueue list_buffer) BbqTake q" "\<not> m_guard (BoundedBlockingQueue list_buffer) (BbqPut 5) q"
    "m_notify (BoundedBlockingQueue list_buffer) (BbqPut 5) q (m_cond (BoundedBlockingQueue list_buffer) BbqTake) = Signal"
    "\<forall>k. k \<noteq> m_cond (BoundedBlockingQueue list_buffer) BbqTake \<longrightarrow> m_notify (BoundedBlockingQueue list_buffer) (BbqPut 5) q k = NoSignal"
  by (simp_all add: q_def BoundedBlockingQueue_def bbq_new_def list_buffer_def)

theorem bounded_queue_correct_witness:
  "\<exists>c. (monitor_step (BoundedBlockingQueue list_buffer))\<^sup>*\<^sup>* (sample_start_of (bbq_new list_buffer 1)) c \<and>
     threads c 1 = Wants BbqTake \<and> takes list_buffer (history c) @ snd (shared c) = [5 :: nat]"
proof -
  obtain c where c: "(monitor_step (BoundedBlockingQueue list_buffer))\<^sup>*\<^sup>* (sample_start_of (bbq_new list_buffer 1)) c"
      "history c = [(2, BbqPut (5 :: nat), bbq_new list_buffer 1)]" "threads c 1 = Wants BbqTake"
    using sleep_then_signal [of "BoundedBlockingQueue list_buffer" BbqTake "bbq_new list_buffer 1" "BbqPut (5 :: nat)", OF sample_ops]
    by auto
  then show ?thesis
    using bounded_queue_correct [OF list_buffer_works sample_start_of_start c(1)] by (auto simp: puts_def)
qed

definition sample_pool :: "nat ThreadPool" where
  "sample_pool = \<lparr>poolName = ''p'', poolThreads = [''p1''], poolQueue = [], maxQueueSize = 2, poolRunning = True\<rparr>"

lemma sample_pool_ops:
  "m_guard Pool PoolTake sample_pool" "\<not> m_guard Pool (PoolRun 5) sample_pool"
  "m_notify Pool (PoolRun 5) sample_pool (m_cond Pool PoolTake) = Signal"
  "\<forall>k. k \<noteq> m_cond Pool PoolTake \<longrightarrow> m_notify Pool (PoolRun 5) sample_pool k = NoSignal"
  by (simp_all add: Pool_def sample_pool_def isFull_def)

theorem thread_pool_correct_witness:
  "\<exists>c. (monitor_step Pool)\<^sup>*\<^sup>* (sample_start_of sample_pool) c \<and> threads c 1 = Wants PoolTake \<and>
     concat (map (\<lambda>(t, op, q). pool_popped op q) (history c)) @ poolQueue (shared c) = [5 :: nat]"
proof -
  obtain c where c: "(monitor_step Pool)\<^sup>*\<^sup>* (sample_start_of sample_pool) c"
      "history c = [(2, PoolRun (5 :: nat), sample_pool)]" "threads c 1 = Wants PoolTake"
    using sleep_then_signal [of Pool PoolTake sample_pool "PoolRun 5", OF sample_pool_ops] by auto
  have p: "pool_inv sample_pool" "poolQueue sample_pool = []" by (simp_all add: pool_inv_def sample_pool_def)
  show ?thesis
    using thread_pool_correct [OF p sample_start_of_start c(1)] c by (auto simp: sample_pool_def)
qed

end
