(* ===== verification/Sockets.thy ===== *)
theory Sockets
  imports Endian Format
begin

text \<open>
  \<^verbatim>\<open>muduo/net/SocketsOps.cc\<close>, \<^verbatim>\<open>Socket.cc\<close> and \<^verbatim>\<open>InetAddress.cc\<close>. A socket address is the 28 bytes of a
  \<^verbatim>\<open>sockaddr_in6\<close>, in which a \<^verbatim>\<open>sockaddr_in\<close> shares the first 16; the offsets are the ones the
  \<^verbatim>\<open>static_assert\<close>s name. What a system call answers is an argument. The conversions
  \<^verbatim>\<open>inet_ntop\<close> and \<^verbatim>\<open>inet_pton\<close> are parameters.
\<close>

section \<open>Addresses in memory\<close>

type_synonym sockaddr = "char list"

definition mem_get :: "nat \<Rightarrow> nat \<Rightarrow> char list \<Rightarrow> char list" where
  "mem_get off n a = take n (drop off a)"

definition mem_put :: "nat \<Rightarrow> char list \<Rightarrow> char list \<Rightarrow> char list" where
  "mem_put off bs a = take off a @ bs @ drop (off + length bs) a"

abbreviation AF_INET :: "16 word" where "AF_INET \<equiv> 2"
abbreviation AF_INET6 :: "16 word" where "AF_INET6 \<equiv> 10"

definition sin_family :: "sockaddr \<Rightarrow> 16 word" where
  "sin_family a = bytes_word (mem_get 0 2 a)"

definition sin_port :: "sockaddr \<Rightarrow> 16 word" where
  "sin_port a = bytes_word (mem_get 2 2 a)"

definition sin_addr :: "sockaddr \<Rightarrow> char list" where
  "sin_addr a = mem_get 4 4 a"

definition sin6_addr :: "sockaddr \<Rightarrow> char list" where
  "sin6_addr a = mem_get 8 16 a"

definition zeros :: "nat \<Rightarrow> char list" where
  "zeros n = replicate n (CHR 0x00)"

section \<open>SocketsOps\<close>

record inet_text =
  ntop4 :: "char list \<Rightarrow> string"
  ntop6 :: "char list \<Rightarrow> string"
  pton4 :: "string \<Rightarrow> char list option"
  pton6 :: "string \<Rightarrow> char list option"

definition createNonblockingOrDie :: "int \<Rightarrow> int res" where
  "createNonblockingOrDie sockfd = (if sockfd < 0 then Inl Fatal else Inr sockfd)"

definition bindOrDie :: "int \<Rightarrow> unit res" where
  "bindOrDie ret = (if ret < 0 then Inl Fatal else Inr ())"

definition listenOrDie :: "int \<Rightarrow> unit res" where
  "listenOrDie ret = (if ret < 0 then Inl Fatal else Inr ())"

abbreviation (input) EPERM :: int where "EPERM \<equiv> 1"
abbreviation (input) EINTR :: int where "EINTR \<equiv> 4"
abbreviation (input) EBADF :: int where "EBADF \<equiv> 9"
abbreviation (input) EAGAIN :: int where "EAGAIN \<equiv> 11"
abbreviation (input) EACCES :: int where "EACCES \<equiv> 13"
abbreviation (input) EFAULT :: int where "EFAULT \<equiv> 14"
abbreviation (input) EMFILE :: int where "EMFILE \<equiv> 24"
abbreviation (input) EPROTO :: int where "EPROTO \<equiv> 71"
abbreviation (input) ENOTSOCK :: int where "ENOTSOCK \<equiv> 88"
abbreviation (input) EAFNOSUPPORT :: int where "EAFNOSUPPORT \<equiv> 97"
abbreviation (input) EADDRINUSE :: int where "EADDRINUSE \<equiv> 98"
abbreviation (input) EADDRNOTAVAIL :: int where "EADDRNOTAVAIL \<equiv> 99"
abbreviation (input) ENETUNREACH :: int where "ENETUNREACH \<equiv> 101"
abbreviation (input) ECONNABORTED :: int where "ECONNABORTED \<equiv> 103"
abbreviation (input) EISCONN :: int where "EISCONN \<equiv> 106"
abbreviation (input) ECONNREFUSED :: int where "ECONNREFUSED \<equiv> 111"
abbreviation (input) EALREADY :: int where "EALREADY \<equiv> 114"
abbreviation (input) EINPROGRESS :: int where "EINPROGRESS \<equiv> 115"

text \<open>The value of \<^verbatim>\<open>errno\<close> after a failed \<^verbatim>\<open>accept\<close> is kept: the caller reads it.\<close>

definition sockets_accept :: "int \<Rightarrow> int \<Rightarrow> int res" where
  "sockets_accept connfd err =
     (if connfd < 0 \<and> err \<notin> {EAGAIN, ECONNABORTED, EINTR, EPROTO, EPERM, EMFILE} then Inl Fatal else Inr connfd)"

text \<open>\<^verbatim>\<open>toIp\<close> and \<^verbatim>\<open>toIpPort\<close> give the string they leave in a buffer that held the empty string.\<close>

definition sockets_toIp :: "inet_text \<Rightarrow> nat \<Rightarrow> sockaddr \<Rightarrow> string res" where
  "sockets_toIp txt sz a =
     (if sin_family a = AF_INET then assert_that (sz \<ge> 16) (Inr (ntop4 txt (sin_addr a)))
      else if sin_family a = AF_INET6 then assert_that (sz \<ge> 46) (Inr (ntop6 txt (sin6_addr a)))
      else Inr '''')"

definition sockets_toIpPort :: "inet_text \<Rightarrow> nat \<Rightarrow> sockaddr \<Rightarrow> string res" where
  "sockets_toIpPort txt sz a =
     (if sin_family a = AF_INET6
      then bindE (sockets_toIp txt (sz - 1) a) (\<lambda>ip.
        let buf = ''['' @ ip; port = networkToHost16 (sin_port a)
        in assert_that (sz > length buf) (Inr (buf @ snprintf_buf (sz - length buf) ('']:'' @ dec_digits (unat port)))))
      else bindE (sockets_toIp txt sz a) (\<lambda>buf.
        let port = networkToHost16 (sin_port a)
        in assert_that (sz > length buf) (Inr (buf @ snprintf_buf (sz - length buf) ('':'' @ dec_digits (unat port))))))"

definition fromIpPort4 :: "inet_text \<Rightarrow> string \<Rightarrow> 16 word \<Rightarrow> sockaddr \<Rightarrow> sockaddr" where
  "fromIpPort4 txt ip port a =
     (let a = mem_put 2 (word_bytes (hostToNetwork16 port)) (mem_put 0 (word_bytes AF_INET) a)
      in case pton4 txt ip of Some ad \<Rightarrow> mem_put 4 ad a | None \<Rightarrow> a)"

definition fromIpPort6 :: "inet_text \<Rightarrow> string \<Rightarrow> 16 word \<Rightarrow> sockaddr \<Rightarrow> sockaddr" where
  "fromIpPort6 txt ip port a =
     (let a = mem_put 2 (word_bytes (hostToNetwork16 port)) (mem_put 0 (word_bytes AF_INET6) a)
      in case pton6 txt ip of Some ad \<Rightarrow> mem_put 8 ad a | None \<Rightarrow> a)"

text \<open>\<open>ret\<close>, \<open>optval\<close> and \<open>err\<close> are the answer of \<^verbatim>\<open>getsockopt\<close>, what it stored and \<^verbatim>\<open>errno\<close>.\<close>

definition getSocketError :: "int \<Rightarrow> int \<Rightarrow> int \<Rightarrow> int" where
  "getSocketError ret optval err = (if ret < 0 then err else optval)"

text \<open>The kernel gives an address, or fails and leaves the zeroed one.\<close>

definition getLocalAddr :: "sockaddr option \<Rightarrow> sockaddr" where
  "getLocalAddr answer = (case answer of Some a \<Rightarrow> a | None \<Rightarrow> zeros 28)"

definition getPeerAddr :: "sockaddr option \<Rightarrow> sockaddr" where
  "getPeerAddr answer = (case answer of Some a \<Rightarrow> a | None \<Rightarrow> zeros 28)"

definition isSelfConnect :: "sockaddr option \<Rightarrow> sockaddr option \<Rightarrow> bool" where
  "isSelfConnect localAnswer peerAnswer =
     (let localaddr = getLocalAddr localAnswer; peeraddr = getPeerAddr peerAnswer
      in if sin_family localaddr = AF_INET
         then sin_port localaddr = sin_port peeraddr \<and> sin_addr localaddr = sin_addr peeraddr
         else if sin_family localaddr = AF_INET6
         then sin_port localaddr = sin_port peeraddr \<and> sin6_addr localaddr = sin6_addr peeraddr
         else False)"

section \<open>InetAddress\<close>

text \<open>
  A constructor leaves the bytes that it does not set as it found them: \<open>g\<close> is what the memory held.
\<close>

definition kInaddrAny :: "32 word" where "kInaddrAny = 0"
definition kInaddrLoopback :: "32 word" where "kInaddrLoopback = 0x7f000001"
definition in6addr_any :: "char list" where "in6addr_any = zeros 16"
definition in6addr_loopback :: "char list" where "in6addr_loopback = zeros 15 @ [CHR 0x01]"

definition InetAddress_port :: "sockaddr \<Rightarrow> 16 word \<Rightarrow> bool \<Rightarrow> bool \<Rightarrow> sockaddr" where
  "InetAddress_port g portArg loopbackOnly ipv6 =
     (if ipv6
      then mem_put 2 (word_bytes (hostToNetwork16 portArg))
        (mem_put 8 (if loopbackOnly then in6addr_loopback else in6addr_any)
          (mem_put 0 (word_bytes AF_INET6) (mem_put 0 (zeros 28) g)))
      else mem_put 2 (word_bytes (hostToNetwork16 portArg))
        (mem_put 4 (word_bytes (hostToNetwork32 (if loopbackOnly then kInaddrLoopback else kInaddrAny)))
          (mem_put 0 (word_bytes AF_INET) (mem_put 0 (zeros 16) g))))"

definition InetAddress_ip :: "inet_text \<Rightarrow> sockaddr \<Rightarrow> string \<Rightarrow> 16 word \<Rightarrow> bool \<Rightarrow> sockaddr" where
  "InetAddress_ip txt g ip portArg ipv6 =
     (if ipv6 \<or> CHR '':'' \<in> set ip
      then fromIpPort6 txt ip portArg (mem_put 0 (zeros 28) g)
      else fromIpPort4 txt ip portArg (mem_put 0 (zeros 16) g))"

definition inet_family :: "sockaddr \<Rightarrow> 16 word" where
  "inet_family a = sin_family a"

definition inet_toIpPort :: "inet_text \<Rightarrow> sockaddr \<Rightarrow> string res" where
  "inet_toIpPort txt a = sockets_toIpPort txt 64 a"

definition inet_toIp :: "inet_text \<Rightarrow> sockaddr \<Rightarrow> string res" where
  "inet_toIp txt a = sockets_toIp txt 64 a"

definition ipv4NetEndian :: "sockaddr \<Rightarrow> 32 word res" where
  "ipv4NetEndian a = assert_that (inet_family a = AF_INET) (Inr (bytes_word (sin_addr a)))"

definition portNetEndian :: "sockaddr \<Rightarrow> 16 word" where
  "portNetEndian a = sin_port a"

definition inet_port :: "sockaddr \<Rightarrow> 16 word" where
  "inet_port a = networkToHost16 (portNetEndian a)"

text \<open>
  What \<^verbatim>\<open>gethostbyname_r\<close> found: the type and the bytes of the first address. \<open>ret\<close> is its result.
\<close>

definition resolve :: "int \<Rightarrow> (16 word \<times> char list) option \<Rightarrow> sockaddr \<Rightarrow> (bool \<times> sockaddr) res" where
  "resolve ret he out =
     (case he of
        Some (h_addrtype, h_addr) \<Rightarrow>
          if ret = 0
          then assert_that (h_addrtype = AF_INET \<and> length h_addr = 4) (Inr (True, mem_put 4 h_addr out))
          else Inr (False, out)
      | None \<Rightarrow> Inr (False, out))"

definition setScopeId :: "32 word \<Rightarrow> sockaddr \<Rightarrow> sockaddr" where
  "setScopeId scope_id a = (if inet_family a = AF_INET6 then mem_put 24 (word_bytes scope_id) a else a)"

section \<open>Socket\<close>

text \<open>The answer of \<^verbatim>\<open>accept4\<close> and the address it stored; on failure the peer's address is left alone.\<close>

definition socket_accept :: "int \<Rightarrow> int \<Rightarrow> sockaddr \<Rightarrow> sockaddr \<Rightarrow> (int \<times> sockaddr) res" where
  "socket_accept connfd err addr peeraddr =
     bindE (sockets_accept connfd err) (\<lambda>connfd. Inr (connfd, if connfd \<ge> 0 then addr else peeraddr))"

definition getTcpInfoString :: "nat list option \<Rightarrow> nat \<Rightarrow> string option" where
  "getTcpInfoString tcpi len = (case tcpi of
     Some [retransmits, rto, ato, snd_mss, rcv_mss, lost, retrans, rtt, rttvar, ssthresh, cwnd, total_retrans] \<Rightarrow>
       Some (snprintf_buf len (
         ''unrecovered='' @ dec_digits retransmits @ '' rto='' @ dec_digits rto @ '' ato='' @ dec_digits ato @
         '' snd_mss='' @ dec_digits snd_mss @ '' rcv_mss='' @ dec_digits rcv_mss @ '' lost='' @ dec_digits lost @
         '' retrans='' @ dec_digits retrans @ '' rtt='' @ dec_digits rtt @ '' rttvar='' @ dec_digits rttvar @
         '' sshthresh='' @ dec_digits ssthresh @ '' cwnd='' @ dec_digits cwnd @ '' total_retrans='' @ dec_digits total_retrans))
   | _ \<Rightarrow> None)"

section \<open>Reading back what was stored\<close>

lemma length_mem_put [simp]: "off + length bs \<le> length a \<Longrightarrow> length (mem_put off bs a) = length a"
  by (simp add: mem_put_def)

lemma length_zeros [simp]: "length (zeros n) = n"
  by (simp add: zeros_def)

lemma mem_get_put [simp]: "off + length bs \<le> length a \<Longrightarrow> n = length bs \<Longrightarrow> mem_get off n (mem_put off bs a) = bs"
  by (simp add: mem_get_def mem_put_def)

lemma mem_get_other:
  "off + length bs \<le> length a \<Longrightarrow> off' + n \<le> off \<or> off + length bs \<le> off' \<Longrightarrow> mem_get off' n (mem_put off bs a) = mem_get off' n a"
  by (auto simp: mem_get_def mem_put_def take_drop min_def)

text \<open>What the manual says of \<^verbatim>\<open>inet_ntop\<close> and \<^verbatim>\<open>inet_pton\<close>.\<close>

definition inet_text_works :: "inet_text \<Rightarrow> bool" where
  "inet_text_works txt \<longleftrightarrow>
     (\<forall>ad. length ad = 4 \<longrightarrow> pton4 txt (ntop4 txt ad) = Some ad \<and> length (ntop4 txt ad) \<le> 15 \<and> CHR '':'' \<notin> set (ntop4 txt ad)) \<and>
     (\<forall>ad. length ad = 16 \<longrightarrow> pton6 txt (ntop6 txt ad) = Some ad \<and> length (ntop6 txt ad) \<le> 45 \<and> CHR '':'' \<in> set (ntop6 txt ad))"

lemma inet_text_facts:
  assumes "inet_text_works txt"
  shows "length ad = 4 \<Longrightarrow> pton4 txt (ntop4 txt ad) = Some ad" "length ad = 4 \<Longrightarrow> length (ntop4 txt ad) \<le> 15"
    "length ad = 4 \<Longrightarrow> CHR '':'' \<notin> set (ntop4 txt ad)"
    "length ad = 16 \<Longrightarrow> pton6 txt (ntop6 txt ad) = Some ad" "length ad = 16 \<Longrightarrow> length (ntop6 txt ad) \<le> 45"
    "length ad = 16 \<Longrightarrow> CHR '':'' \<in> set (ntop6 txt ad)"
  using assms unfolding inet_text_works_def by blast+

lemma sockaddr_in_built:
  fixes p fam :: "16 word"
  assumes "length a = 28" "length ad = n" "off + n \<le> 28" "4 \<le> off"
  defines "b \<equiv> mem_put off ad (mem_put 2 (word_bytes p) (mem_put 0 (word_bytes fam) a))"
  shows "sin_family b = fam" "sin_port b = p" "mem_get off n b = ad"
  using assms(1-4)
  by (simp_all add: b_def sin_family_def sin_port_def mem_get_other bytes_word_bytes)

lemma port_digits: "length (dec_digits (unat (p :: 16 word))) \<le> 5"
proof -
  have "unat p < 2 ^ 16" using unsigned_less [of p] by simp
  then show ?thesis using dec_digits_length [of 5 "unat p"] by simp
qed

lemma fromIpPort4_built:
  assumes "length a = 28" "pton4 txt ip = Some ad" "length ad = 4"
  shows "sin_family (fromIpPort4 txt ip port a) = AF_INET" "sin_port (fromIpPort4 txt ip port a) = hostToNetwork16 port"
    "sin_addr (fromIpPort4 txt ip port a) = ad"
  using sockaddr_in_built [OF assms(1,3), of 4] by (simp_all add: fromIpPort4_def assms(2) sin_addr_def)

lemma fromIpPort6_built:
  assumes "length a = 28" "pton6 txt ip = Some ad" "length ad = 16"
  shows "sin_family (fromIpPort6 txt ip port a) = AF_INET6" "sin_port (fromIpPort6 txt ip port a) = hostToNetwork16 port"
    "sin6_addr (fromIpPort6 txt ip port a) = ad"
  using sockaddr_in_built [OF assms(1,3), of 8] by (simp_all add: fromIpPort6_def assms(2) sin6_addr_def)

text \<open>
  C39. An \<^verbatim>\<open>InetAddress\<close> built from the text of an address and a port gives both back, whatever the memory
  held before: \<^verbatim>\<open>toIp\<close> the text, \<^verbatim>\<open>port\<close> the port, \<^verbatim>\<open>toIpPort\<close> the two joined, with
  brackets for IPv6; the buffers are large enough and no assertion fails.
\<close>

theorem inet_address_roundtrip:
  assumes works: "inet_text_works txt" and g: "length g = 28" and ad: "length ad = (if v6 then 16 else 4)"
    and ip: "ip = (if v6 then ntop6 txt ad else ntop4 txt ad)"
  shows "inet_toIp txt (InetAddress_ip txt g ip port v6) = Inr ip \<and>
    inet_port (InetAddress_ip txt g ip port v6) = port \<and>
    inet_toIpPort txt (InetAddress_ip txt g ip port v6) =
      Inr ((if v6 then ''['' @ ip @ '']'' else ip) @ '':'' @ dec_digits (unat port)) \<and>
    InetAddress_ip txt g ip port v6 = InetAddress_ip txt g ip port False"
proof (cases v6)
  case True
  note facts = inet_text_facts(4-6) [OF works, of ad]
  have b: "length (mem_put 0 (zeros 28) g) = 28" "pton6 txt ip = Some ad" "length ad = 16" "ntop6 txt ad = ip"
    using g facts ad ip True by simp_all
  show ?thesis
    using True facts port_digits [of port] fromIpPort6_built [OF b(1-3), of port] b(3,4)
    by (simp add: inet_toIp_def inet_toIpPort_def inet_port_def portNetEndian_def sockets_toIp_def sockets_toIpPort_def
        InetAddress_ip_def assert_that_def snprintf_buf_def)
next
  case False
  note facts = inet_text_facts(1-3) [OF works, of ad]
  have b: "length (mem_put 0 (zeros 16) g) = 28" "pton4 txt ip = Some ad" "length ad = 4" "ntop4 txt ad = ip"
    using g facts ad ip False by simp_all
  show ?thesis
    using False facts port_digits [of port] fromIpPort4_built [OF b(1-3), of port] b(3,4)
    by (simp add: inet_toIp_def inet_toIpPort_def inet_port_def portNetEndian_def sockets_toIp_def sockets_toIpPort_def
        InetAddress_ip_def assert_that_def snprintf_buf_def)
qed

section \<open>An example of the text conversions\<close>

fun dotted :: "char list \<Rightarrow> string" where
  "dotted [] = ''''"
| "dotted [c] = dec_digits (of_char c)"
| "dotted (c # cs) = dec_digits (of_char c) @ ''.'' @ dotted cs"

fun undotted :: "nat \<Rightarrow> string \<Rightarrow> char list" where
  "undotted acc '''' = [char_of acc]"
| "undotted acc (c # s) =
     (if c = CHR ''.'' then char_of acc # undotted 0 s
      else undotted (acc * 10 + (case char_digit c of Some d \<Rightarrow> d | None \<Rightarrow> 0)) s)"

lemma undotted_digits: "undotted acc (dec_digits n @ s) = undotted (acc * 10 ^ length (dec_digits n) + n) s"
proof (induction n arbitrary: acc s rule: less_induct)
  case (less n)
  have dot: "digit_char d \<noteq> CHR ''.''" if "d < 10" for d
    using that char_digit_char [of d] by (auto simp: char_digit_def)
  show ?case
  proof (cases "n < 10")
    case True
    then show ?thesis using dot by (simp add: dec_digits_small)
  next
    case False
    then have "dec_digits n = dec_digits (n div 10) @ [digit_char (n mod 10)]" "n div 10 < n" by (simp_all add: dec_digits_large)
    then show ?thesis using less [of "n div 10"] dot by (simp add: algebra_simps)
  qed
qed

lemma undotted_dotted: "cs \<noteq> [] \<Longrightarrow> undotted 0 (dotted cs) = cs"
proof (induction cs rule: dotted.induct)
  case (2 c)
  then show ?case using undotted_digits [of 0 "of_char c" "''''"] by simp
next
  case (3 c d cs)
  then show ?case using undotted_digits [of 0 "of_char c"] by simp
qed simp

lemma dotted_length: "length (dotted cs) \<le> 4 * length cs - 1"
proof (induction cs rule: dotted.induct)
  case (2 c)
  show ?case using dec_digits_length [of 3 "of_char c"] nat_of_char_less_256 [of c] by simp
next
  case (3 c d cs)
  then show ?case using dec_digits_length [of 3 "of_char c"] nat_of_char_less_256 [of c] by simp
qed simp

lemma dotted_no_colon: "CHR '':'' \<notin> set (dotted cs)"
proof -
  have "CHR '':'' \<notin> set (dec_digits n)" for n
  proof
    assume "CHR '':'' \<in> set (dec_digits n)"
    then obtain d where "d < 10" "CHR '':'' = digit_char d" using dec_digits_numeral [of n] by auto
    then have "char_digit (CHR '':'') = Some d" by simp
    then show False by (simp add: char_digit_def)
  qed
  then show ?thesis by (induction cs rule: dotted.induct) auto
qed

definition hex_char :: "nat \<Rightarrow> char" where
  "hex_char d = ''0123456789abcdef'' ! d"

definition hex_byte :: "char \<Rightarrow> string" where
  "hex_byte c = [hex_char (of_char c div 16), hex_char (of_char c mod 16)]"

definition hex_value :: "char \<Rightarrow> nat" where
  "hex_value c = length (takeWhile (\<lambda>x. x \<noteq> c) ''0123456789abcdef'')"

fun hex_groups :: "char list \<Rightarrow> string" where
  "hex_groups (a # b # c # cs) = hex_byte a @ hex_byte b @ '':'' @ hex_groups (c # cs)"
| "hex_groups cs = concat (map hex_byte cs)"

fun hex_parse :: "string \<Rightarrow> char list" where
  "hex_parse (x # y # s) =
     (if x = CHR '':'' then hex_parse (y # s) else char_of (16 * hex_value x + hex_value y) # hex_parse s)"
| "hex_parse _ = []"

lemma hex_value_char: "d < 16 \<Longrightarrow> hex_value (hex_char d) = d \<and> hex_char d \<noteq> CHR '':''"
proof -
  assume "d < 16"
  then have "d \<in> set [0..<16]" by simp
  moreover have "list_all (\<lambda>d. hex_value (hex_char d) = d \<and> hex_char d \<noteq> CHR '':'') [0..<16]"
    by (simp add: upt_rec hex_value_def hex_char_def)
  ultimately show ?thesis by (simp add: list_all_iff)
qed

lemma hex_parse_byte: "hex_parse (hex_byte c @ s) = c # hex_parse s"
proof -
  have "of_char c div 16 < (16 :: nat)" using nat_of_char_less_256 [of c] by (simp add: div_less_iff_less_mult)
  then show ?thesis
    using hex_value_char [of "of_char c div 16"] hex_value_char [of "of_char c mod 16"] by (simp add: hex_byte_def)
qed

lemma hex_parse_colon: "hex_parse ('':'' @ hex_byte c @ s) = hex_parse (hex_byte c @ s)"
  by (simp add: hex_byte_def)

lemma hex_groups_start: "\<exists>s. hex_groups (c # cs) = hex_byte c @ s"
  by (cases cs rule: list.exhaust; cases "tl cs") auto

lemma hex_parse_groups: "hex_parse (hex_groups cs) = cs"
proof (induction cs rule: hex_groups.induct)
  case (1 a b c cs)
  obtain s where s: "hex_groups (c # cs) = hex_byte c @ s" using hex_groups_start by blast
  then show ?case using 1 by (simp add: hex_parse_byte hex_parse_colon [simplified])
qed (use hex_parse_byte [of _ "''''"] in \<open>simp_all add: hex_parse_byte\<close>)

lemma hex_groups_length: "length (hex_groups cs) = 2 * length cs + (length cs - 1) div 2"
  by (induction cs rule: hex_groups.induct) (simp_all add: hex_byte_def)

lemma hex_groups_colon: "length cs > 2 \<Longrightarrow> CHR '':'' \<in> set (hex_groups cs)"
  by (cases cs rule: hex_groups.cases) simp_all

definition plain_text :: inet_text where
  "plain_text = \<lparr>ntop4 = dotted, ntop6 = hex_groups, pton4 = (\<lambda>s. Some (undotted 0 s)), pton6 = (\<lambda>s. Some (hex_parse s))\<rparr>"

lemma plain_text_works: "inet_text_works plain_text"
proof -
  have "length (dotted ad) \<le> 15" "ad \<noteq> []" if "length ad = 4" for ad :: "char list"
    using that dotted_length [of ad] by auto
  then show ?thesis
    by (auto simp: inet_text_works_def plain_text_def undotted_dotted dotted_no_colon hex_parse_groups hex_groups_length hex_groups_colon)
qed

theorem inet_address_roundtrip_witness:
  "inet_toIpPort plain_text (InetAddress_ip plain_text (zeros 28) ''127.0.0.1'' 8080 False) = Inr ''127.0.0.1:8080''"
proof -
  have "''127.0.0.1'' = dotted (map char_of [127, 0, 0, 1 :: nat])" by (simp add: dec_digits.simps digit_char_def eq_char_of)
  then have ip: "''127.0.0.1'' = (if False then ntop6 plain_text ad else ntop4 plain_text ad)"
      if "ad = map char_of [127, 0, 0, 1 :: nat]" for ad
    using that by (simp add: plain_text_def)
  show ?thesis
    using inet_address_roundtrip [OF plain_text_works _ _ ip [OF refl], of "zeros 28" 8080] by (simp add: dec_digits.simps digit_char_def char_of_eq_iff)
qed

end
