(* ===== verification/Connector.thy ===== *)
theory Connector
  imports Sockets
begin

text \<open>
  \<^verbatim>\<open>muduo/net/Connector.cc\<close> and \<^verbatim>\<open>TcpClient.cc\<close>. What a connector leaves with its loop (the functors it
  queues and its retry timers) is part of the state; what it does to sockets and the poller is
  recorded as a list of actions. The answers of the kernel are arguments of the steps.
\<close>

section \<open>Connector\<close>

datatype Connector_States = Disconnected | Connecting | Connected

datatype connector_functor = StartInLoop | StopInLoop | ResetChannel

datatype connector_act =
    WantConnect | WantStop | Restarted
  | SocketMade int | Watch int | Unwatch int | Closed int | Handed int | RetryAfter int | SysErr int

text \<open>The channel is its descriptor and whether the poller knows it.\<close>

record Connector =
  connect :: bool
  cstate :: Connector_States
  channel :: "(int \<times> bool) option"
  retryDelayMs :: int
  functors :: "connector_functor list"
  retryTimers :: nat
  acts :: "connector_act list"

definition kMaxRetryDelayMs :: int where "kMaxRetryDelayMs = 30 * 1000"
definition kInitRetryDelayMs :: int where "kInitRetryDelayMs = 500"

definition Connector_new :: Connector where
  "Connector_new = \<lparr>connect = False, cstate = Disconnected, channel = None, retryDelayMs = kInitRetryDelayMs,
     functors = [], retryTimers = 0, acts = []\<rparr>"

definition Connector_destroy :: "Connector \<Rightarrow> unit res" where
  "Connector_destroy s = assert_that (channel s = None) (Inr ())"

definition act :: "connector_act \<Rightarrow> Connector \<Rightarrow> Connector" where
  "act a s = s\<lparr>acts := acts s @ [a]\<rparr>"

definition connector_setState :: "Connector_States \<Rightarrow> Connector \<Rightarrow> Connector" where
  "connector_setState st s = s\<lparr>cstate := st\<rparr>"

definition connector_queue :: "connector_functor \<Rightarrow> Connector \<Rightarrow> Connector" where
  "connector_queue f s = s\<lparr>functors := functors s @ [f]\<rparr>"

definition connector_retry :: "int \<Rightarrow> Connector \<Rightarrow> Connector res" where
  "connector_retry sockfd s =
     (let s = connector_setState Disconnected (act (Closed sockfd) s)
      in if connect s
         then ints32 [retryDelayMs s * 2]
           (Inr ((act (RetryAfter (retryDelayMs s)) s)\<lparr>retryTimers := Suc (retryTimers s),
              retryDelayMs := min (retryDelayMs s * 2) kMaxRetryDelayMs\<rparr>))
         else Inr s)"

definition connecting :: "int \<Rightarrow> Connector \<Rightarrow> Connector res" where
  "connecting sockfd s =
     (let s = connector_setState Connecting s
      in assert_that (channel s = None) (Inr (act (Watch sockfd) (s\<lparr>channel := Some (sockfd, True)\<rparr>))))"

text \<open>\<open>sock\<close> is the answer of \<^verbatim>\<open>socket\<close>, \<open>savedErrno\<close> the result of \<^verbatim>\<open>connect\<close> (0 when it succeeds).\<close>

definition connector_connect :: "int \<times> int \<Rightarrow> Connector \<Rightarrow> Connector res" where
  "connector_connect krn s =
     (let (sock, savedErrno) = krn
      in bindE (createNonblockingOrDie sock) (\<lambda>sockfd.
        let s = act (SocketMade sockfd) s
        in if savedErrno \<in> {0, EINPROGRESS, EINTR, EISCONN} then connecting sockfd s
           else if savedErrno \<in> {EAGAIN, EADDRINUSE, EADDRNOTAVAIL, ECONNREFUSED, ENETUNREACH} then connector_retry sockfd s
           else Inr (act (Closed sockfd) (act (SysErr savedErrno) s))))"

definition startInLoop :: "int \<times> int \<Rightarrow> Connector \<Rightarrow> Connector res" where
  "startInLoop krn s =
     assert_that (cstate s = Disconnected) (if connect s then connector_connect krn s else Inr s)"

definition connector_start :: "bool \<Rightarrow> int \<times> int \<Rightarrow> Connector \<Rightarrow> Connector res" where
  "connector_start inLoopThread krn s =
     (let s = act WantConnect (s\<lparr>connect := True\<rparr>)
      in if inLoopThread then startInLoop krn s else Inr (connector_queue StartInLoop s))"

text \<open>
  \<^verbatim>\<open>removeAndResetChannel\<close> dereferences the channel; the poller's assertions refuse a channel it
  does not know.
\<close>

definition removeAndResetChannel :: "Connector \<Rightarrow> (int \<times> Connector) res" where
  "removeAndResetChannel s =
     (case channel s of
        None \<Rightarrow> Inl UndefinedBehaviour
      | Some (fd, added) \<Rightarrow>
          assert_that added (Inr (fd, connector_queue ResetChannel (act (Unwatch fd) (s\<lparr>channel := Some (fd, False)\<rparr>)))))"

text \<open>The destructor of a channel asserts that the loop no longer has it.\<close>

definition resetChannel :: "Connector \<Rightarrow> Connector res" where
  "resetChannel s =
     (case channel s of None \<Rightarrow> Inr s | Some (fd, added) \<Rightarrow> assert_that (\<not> added) (Inr (s\<lparr>channel := None\<rparr>)))"

definition stopInLoop :: "Connector \<Rightarrow> Connector res" where
  "stopInLoop s =
     (if cstate s = Connecting
      then bindE (removeAndResetChannel (connector_setState Disconnected s)) (\<lambda>(sockfd, s). connector_retry sockfd s)
      else Inr s)"

definition connector_stop :: "Connector \<Rightarrow> Connector" where
  "connector_stop s = connector_queue StopInLoop (act WantStop (s\<lparr>connect := False\<rparr>))"

definition connector_restart :: "int \<times> int \<Rightarrow> Connector \<Rightarrow> Connector res" where
  "connector_restart krn s =
     startInLoop krn (act Restarted ((connector_setState Disconnected s)\<lparr>retryDelayMs := kInitRetryDelayMs, connect := True\<rparr>))"

text \<open>The descriptor given to \<^verbatim>\<open>newConnectionCallback_\<close>, if any, comes with the result.\<close>

definition connector_handleWrite :: "int \<Rightarrow> bool \<Rightarrow> Connector \<Rightarrow> (int option \<times> Connector) res" where
  "connector_handleWrite err selfConnect s =
     (if cstate s = Connecting
      then bindE (removeAndResetChannel s) (\<lambda>(sockfd, s).
        if err \<noteq> 0 then bindE (connector_retry sockfd s) (\<lambda>s. Inr (None, s))
        else if selfConnect then bindE (connector_retry sockfd s) (\<lambda>s. Inr (None, s))
        else let s = connector_setState Connected s
             in if connect s then Inr (Some sockfd, act (Handed sockfd) s) else Inr (None, act (Closed sockfd) s))
      else assert_that (cstate s = Disconnected) (Inr (None, s)))"

definition connector_handleError :: "Connector \<Rightarrow> Connector res" where
  "connector_handleError s =
     (if cstate s = Connecting then bindE (removeAndResetChannel s) (\<lambda>(sockfd, s). connector_retry sockfd s) else Inr s)"

section \<open>Runs of a connector\<close>

text \<open>
  What can happen: another thread or the loop thread calls \<^verbatim>\<open>start\<close> or \<^verbatim>\<open>stop\<close>; the loop runs the first
  functor, fires a retry timer, or dispatches the events of the channel, the error before the
  write as \<^verbatim>\<open>Channel::handleEventWithGuard\<close> does; the client restarts a connector whose connection
  is gone.
\<close>

datatype connector_event =
    CStart bool "int \<times> int" | CStop | CFunctor "int \<times> int" | CTimer "int \<times> int" | CEvents bool bool int bool | CRestart "int \<times> int"

definition run_functor :: "int \<times> int \<Rightarrow> Connector \<Rightarrow> Connector res" where
  "run_functor krn s =
     (case functors s of
        [] \<Rightarrow> Inr s
      | f # fs \<Rightarrow>
          let s = s\<lparr>functors := fs\<rparr>
          in case f of StartInLoop \<Rightarrow> startInLoop krn s | StopInLoop \<Rightarrow> stopInLoop s | ResetChannel \<Rightarrow> resetChannel s)"

definition connector_events :: "bool \<Rightarrow> bool \<Rightarrow> int \<Rightarrow> bool \<Rightarrow> Connector \<Rightarrow> (int option \<times> Connector) res" where
  "connector_events failed writable err selfConnect s =
     (case channel s of
        Some (fd, True) \<Rightarrow>
          bindE (if failed then connector_handleError s else Inr s) (\<lambda>s.
            if writable then connector_handleWrite err selfConnect s else Inr (None, s))
      | _ \<Rightarrow> Inr (None, s))"

definition fire_timer :: "int \<times> int \<Rightarrow> Connector \<Rightarrow> Connector res" where
  "fire_timer krn s =
     (case retryTimers s of 0 \<Rightarrow> Inr s | Suc n \<Rightarrow> startInLoop krn (s\<lparr>retryTimers := n\<rparr>))"

fun connector_step :: "connector_event \<Rightarrow> Connector \<Rightarrow> (int option \<times> Connector) res" where
  "connector_step (CStart inLoopThread krn) s = bindE (connector_start inLoopThread krn s) (\<lambda>s. Inr (None, s))"
| "connector_step CStop s = Inr (None, connector_stop s)"
| "connector_step (CFunctor krn) s = bindE (run_functor krn s) (\<lambda>s. Inr (None, s))"
| "connector_step (CTimer krn) s = bindE (fire_timer krn s) (\<lambda>s. Inr (None, s))"
| "connector_step (CEvents failed writable err selfConnect) s = connector_events failed writable err selfConnect s"
| "connector_step (CRestart krn) s =
     (if cstate s = Connected then bindE (connector_restart krn s) (\<lambda>s. Inr (None, s)) else Inr (None, s))"

definition connector_run :: "connector_event list \<Rightarrow> Connector \<Rightarrow> Connector res" where
  "connector_run evs s = foldE (\<lambda>ev s. bindE (connector_step ev s) (\<lambda>(_, s). Inr s)) evs s"

section \<open>What a connector promises\<close>

text \<open>
  The life of the sockets: one at a time; it is watched at most once and no longer watched when it is
  closed or handed over; it is handed over, and a retry is scheduled, only while the user wants
  a connection; the delays double from 500 ms up to 30 s.
\<close>

record connector_spec =
  sp_want :: bool
  sp_sock :: "(int \<times> bool) option"
  sp_delay :: int

definition connector_spec_init :: connector_spec where
  "connector_spec_init = \<lparr>sp_want = False, sp_sock = None, sp_delay = 500\<rparr>"

fun connector_spec_step :: "connector_act \<Rightarrow> connector_spec \<Rightarrow> connector_spec option" where
  "connector_spec_step WantConnect p = Some (p\<lparr>sp_want := True\<rparr>)"
| "connector_spec_step WantStop p = Some (p\<lparr>sp_want := False\<rparr>)"
| "connector_spec_step Restarted p = Some (p\<lparr>sp_want := True, sp_delay := 500\<rparr>)"
| "connector_spec_step (SocketMade fd) p = (if sp_sock p = None \<and> 0 \<le> fd then Some (p\<lparr>sp_sock := Some (fd, False)\<rparr>) else None)"
| "connector_spec_step (Watch fd) p = (if sp_sock p = Some (fd, False) then Some (p\<lparr>sp_sock := Some (fd, True)\<rparr>) else None)"
| "connector_spec_step (Unwatch fd) p = (if sp_sock p = Some (fd, True) then Some (p\<lparr>sp_sock := Some (fd, False)\<rparr>) else None)"
| "connector_spec_step (Closed fd) p = (if sp_sock p = Some (fd, False) then Some (p\<lparr>sp_sock := None\<rparr>) else None)"
| "connector_spec_step (Handed fd) p =
     (if sp_sock p = Some (fd, False) \<and> sp_want p then Some (p\<lparr>sp_sock := None\<rparr>) else None)"
| "connector_spec_step (RetryAfter ms) p =
     (if sp_sock p = None \<and> sp_want p \<and> ms = sp_delay p then Some (p\<lparr>sp_delay := min (2 * ms) 30000\<rparr>) else None)"
| "connector_spec_step (SysErr e) p = Some p"

fun connector_spec_run :: "connector_act list \<Rightarrow> connector_spec \<Rightarrow> connector_spec option" where
  "connector_spec_run [] p = Some p"
| "connector_spec_run (a # as) p = Option.bind (connector_spec_step a p) (connector_spec_run as)"

definition connector_abs :: "Connector \<Rightarrow> (int \<times> bool) option \<Rightarrow> connector_spec" where
  "connector_abs s sock = \<lparr>sp_want = connect s, sp_sock = sock, sp_delay = retryDelayMs s\<rparr>"

text \<open>\<open>sock\<close> is the socket the connector has in hand in the middle of an operation.\<close>

definition connector_at :: "(int \<times> bool) option \<Rightarrow> Connector \<Rightarrow> bool" where
  "connector_at sock s \<longleftrightarrow> connector_spec_run (acts s) connector_spec_init = Some (connector_abs s sock) \<and>
     500 \<le> retryDelayMs s \<and> retryDelayMs s \<le> 30000"

definition connector_inv :: "Connector \<Rightarrow> bool" where
  "connector_inv s \<longleftrightarrow> (case channel s of
       Some (fd, True) \<Rightarrow> cstate s = Connecting \<and> connector_at (Some (fd, True)) s
     | _ \<Rightarrow> cstate s \<noteq> Connecting \<and> connector_at None s)"

lemma connector_spec_run_snoc:
  "connector_spec_run (as @ [a]) p = Option.bind (connector_spec_run as p) (connector_spec_step a)"
  by (induction as arbitrary: p) (auto split: bind_split)

lemma connector_at_step:
  assumes "connector_at sock s" "acts s' = acts s @ [a]" "connector_spec_step a (connector_abs s sock) = Some (connector_abs s' sock')"
    and "500 \<le> retryDelayMs s'" "retryDelayMs s' \<le> 30000"
  shows "connector_at sock' s'"
  using assms by (simp add: connector_at_def connector_spec_run_snoc)

lemma act_simps [simp]:
  "connect (act a s) = connect s" "cstate (act a s) = cstate s" "channel (act a s) = channel s"
  "retryDelayMs (act a s) = retryDelayMs s" "functors (act a s) = functors s" "retryTimers (act a s) = retryTimers s"
  "acts (act a s) = acts s @ [a]"
  by (simp_all add: act_def)

lemma connector_setState_simps [simp]:
  "connect (connector_setState st s) = connect s" "cstate (connector_setState st s) = st" "channel (connector_setState st s) = channel s"
  "retryDelayMs (connector_setState st s) = retryDelayMs s" "functors (connector_setState st s) = functors s"
  "retryTimers (connector_setState st s) = retryTimers s" "acts (connector_setState st s) = acts s"
  by (simp_all add: connector_setState_def)

lemma connector_queue_simps [simp]:
  "connect (connector_queue f s) = connect s" "cstate (connector_queue f s) = cstate s" "channel (connector_queue f s) = channel s"
  "retryDelayMs (connector_queue f s) = retryDelayMs s" "functors (connector_queue f s) = functors s @ [f]"
  "retryTimers (connector_queue f s) = retryTimers s" "acts (connector_queue f s) = acts s"
  by (simp_all add: connector_queue_def)

text \<open>\<open>connector_at\<close> looks only at the actions, the wish and the delay.\<close>

lemma connector_at_cong:
  "connector_at sock s \<Longrightarrow> acts s' = acts s \<Longrightarrow> connect s' = connect s \<Longrightarrow> retryDelayMs s' = retryDelayMs s \<Longrightarrow> connector_at sock s'"
  by (simp add: connector_at_def connector_abs_def)

lemma connector_at_act:
  "connector_at sock s \<Longrightarrow> connector_spec_step a (connector_abs s sock) = Some (connector_abs s sock') \<Longrightarrow> connector_at sock' (act a s)"
  by (rule connector_at_step [of sock s _ a]) (simp_all add: connector_at_def connector_abs_def)

lemma connector_at_delay: "connector_at sock s \<Longrightarrow> 500 \<le> retryDelayMs s" "connector_at sock s \<Longrightarrow> retryDelayMs s \<le> 30000"
  by (simp_all add: connector_at_def)

text \<open>What the operations do to a connector, given the socket in hand.\<close>

lemma connector_retry_safe:
  assumes "connector_at (Some (fd, False)) s"
  shows "safeE {} (\<lambda>s'. connector_at None s' \<and> cstate s' = Disconnected \<and> channel s' = channel s \<and> functors s' = functors s \<and>
    connect s' = connect s \<and> retryTimers s' = retryTimers s + (if connect s then 1 else 0) \<and> set (acts s) \<subseteq> set (acts s'))
    (connector_retry fd s)"
proof -
  let ?s = "connector_setState Disconnected (act (Closed fd) s)"
  have at: "connector_at None (act (Closed fd) s)" by (rule connector_at_act [OF assms]) (simp add: connector_abs_def)
  then have s: "connector_at None ?s" by (rule connector_at_cong) simp_all
  note d = connector_at_delay [OF s]
  let ?t = "(act (RetryAfter (retryDelayMs ?s)) ?s)\<lparr>retryTimers := Suc (retryTimers ?s),
      retryDelayMs := min (retryDelayMs ?s * 2) kMaxRetryDelayMs\<rparr>"
  have "connector_at None ?t" if "connect s"
    by (rule connector_at_step [OF s, of _ "RetryAfter (retryDelayMs ?s)"])
      (use d that in \<open>simp_all add: connector_abs_def kMaxRetryDelayMs_def mult.commute\<close>)
  then show ?thesis using s d by (auto simp: connector_retry_def Let_def ints32_def in_int32_def)
qed

lemma connecting_safe:
  assumes "connector_at (Some (fd, False)) s"
  shows "safeE (if channel s = None then {} else {AssertFail})
    (\<lambda>s'. connector_at (Some (fd, True)) s' \<and> cstate s' = Connecting \<and> channel s' = Some (fd, True) \<and> functors s' = functors s \<and>
      connect s' = connect s \<and> retryTimers s' = retryTimers s) (connecting fd s)"
proof -
  have "connector_at (Some (fd, False)) (connector_setState Connecting s\<lparr>channel := Some (fd, True)\<rparr>)"
    by (rule connector_at_cong [OF assms]) simp_all
  then have "connector_at (Some (fd, True)) (act (Watch fd) (connector_setState Connecting s\<lparr>channel := Some (fd, True)\<rparr>))"
    by (rule connector_at_act) (simp add: connector_abs_def)
  then show ?thesis by (simp add: connecting_def Let_def assert_that_def)
qed

text \<open>An attempt either leaves a watched socket, or none, with a retry scheduled unless the error was hard.\<close>

definition attempted :: "Connector \<Rightarrow> Connector \<Rightarrow> bool" where
  "attempted s s' \<longleftrightarrow> connector_inv s' \<and> functors s' = functors s \<and> connect s' = connect s \<and>
     (cstate s' = Connecting \<and> retryTimers s' = retryTimers s \<or>
      cstate s' = Disconnected \<and> channel s' = channel s \<and>
        (retryTimers s' = Suc (retryTimers s) \<or> retryTimers s' = retryTimers s \<and> (\<exists>e. SysErr e \<in> set (acts s'))))"

lemma connector_connect_safe:
  assumes "connector_at None s" "cstate s = Disconnected" "connect s" "\<nexists>fd. channel s = Some (fd, True)"
  shows "safeE (if channel s = None then {Fatal} else {AssertFail, Fatal}) (attempted s) (connector_connect krn s)"
proof (cases krn)
  case (Pair sock err)
  let ?s = "act (SocketMade sock) s" and ?F = "if channel s = None then {Fatal} else {AssertFail, Fatal}"
  have ch: "(case channel s of Some (fd, True) \<Rightarrow> A fd | _ \<Rightarrow> B) = B" for A :: "int \<Rightarrow> bool" and B
    using assms(4) by (auto split: option.splits bool.splits)
  show ?thesis
  proof (cases "sock < 0")
    case False
    have at: "connector_at (Some (sock, False)) ?s"
      by (rule connector_at_act [OF assms(1)]) (use False in \<open>simp add: connector_abs_def\<close>)
    have a: "safeE ?F (attempted s) (connecting sock ?s)"
      by (rule safeE_mono [OF safeE_faults [OF connecting_safe [OF at]]]) (auto simp: attempted_def connector_inv_def)
    have b: "safeE ?F (attempted s) (connector_retry sock ?s)"
      by (rule safeE_mono [OF safeE_faults [OF connector_retry_safe [OF at]]])
        (auto simp: attempted_def connector_inv_def assms(3) ch)
    have "connector_at (Some (sock, False)) (act (SysErr err) ?s)"
      by (rule connector_at_act [OF at]) (simp add: connector_abs_def)
    then have "connector_at None (act (Closed sock) (act (SysErr err) ?s))"
      by (rule connector_at_act) (simp add: connector_abs_def)
    then have c: "attempted s (act (Closed sock) (act (SysErr err) ?s))"
      using assms(2) by (auto simp: attempted_def connector_inv_def ch)
    show ?thesis using False a b c by (simp add: Pair connector_connect_def createNonblockingOrDie_def Let_def)
  qed (simp add: Pair connector_connect_def createNonblockingOrDie_def)
qed

lemma connector_inv_idle:
  "connector_inv s \<Longrightarrow> cstate s \<noteq> Connecting \<Longrightarrow> connector_at None s \<and> (\<nexists>fd. channel s = Some (fd, True))"
  by (auto simp: connector_inv_def split: option.splits bool.splits prod.splits)

lemma connector_inv_cong:
  "connector_inv s \<Longrightarrow> acts s' = acts s \<Longrightarrow> connect s' = connect s \<Longrightarrow> retryDelayMs s' = retryDelayMs s \<Longrightarrow>
   cstate s' = cstate s \<Longrightarrow> channel s' = channel s \<Longrightarrow> connector_inv s'"
  unfolding connector_inv_def by (auto split: option.splits prod.splits bool.splits intro: connector_at_cong)

lemma startInLoop_safe:
  assumes "connector_inv s"
  shows "safeE ((if channel s = None then {} else {AssertFail}) \<union> (if cstate s = Disconnected then {} else {AssertFail}) \<union> {Fatal})
    (\<lambda>s'. if connect s then attempted s s' else s' = s) (startInLoop krn s)"
proof (cases "cstate s = Disconnected")
  case True
  then have "connector_at None s" "\<nexists>fd. channel s = Some (fd, True)" using connector_inv_idle [OF assms] by auto
  then show ?thesis
    using connector_connect_safe [OF _ True, of krn] True
    by (auto simp: startInLoop_def assert_that_def elim: safeE_faults [OF safeE_mono])
qed (simp add: startInLoop_def assert_that_def)

lemma connector_inv_queue [simp]: "connector_inv (connector_queue f s) \<longleftrightarrow> connector_inv s"
  by (auto elim!: connector_inv_cong)

lemma connector_inv_act:
  assumes "connector_inv s" "\<And>sock. connector_spec_step a (connector_abs s sock) = Some (connector_abs s' sock)"
    and "acts s' = acts s @ [a]" "cstate s' = cstate s" "channel s' = channel s" "500 \<le> retryDelayMs s'" "retryDelayMs s' \<le> 30000"
  shows "connector_inv s'"
  using assms unfolding connector_inv_def
  by (auto split: option.splits prod.splits bool.splits intro: connector_at_step [OF _ assms(3) assms(2)])

lemma connector_inv_delay: "connector_inv s \<Longrightarrow> 500 \<le> retryDelayMs s \<and> retryDelayMs s \<le> 30000"
  by (auto simp: connector_inv_def connector_at_def split: option.splits prod.splits bool.splits)

lemma connector_inv_want: "connector_inv s \<Longrightarrow> connector_inv (act WantConnect (s\<lparr>connect := True\<rparr>))"
  "connector_inv s \<Longrightarrow> connector_inv (act WantStop (s\<lparr>connect := False\<rparr>))"
  by (rule connector_inv_act [of s WantConnect]; simp add: connector_abs_def connector_inv_delay)
     (rule connector_inv_act [of s WantStop]; simp add: connector_abs_def connector_inv_delay)

text \<open>\<^verbatim>\<open>removeAndResetChannel\<close> in the middle of an attempt.\<close>

definition detached :: "Connector \<Rightarrow> int \<Rightarrow> Connector \<Rightarrow> bool" where
  "detached s fd s' \<longleftrightarrow> connector_at (Some (fd, False)) s' \<and> channel s' = Some (fd, False) \<and> functors s' = functors s @ [ResetChannel] \<and>
     connect s' = connect s \<and> retryTimers s' = retryTimers s \<and> set (acts s) \<subseteq> set (acts s')"

lemma removeAndResetChannel_safe:
  assumes "connector_inv s" "cstate s = Connecting" "s0 = connector_setState st s"
  shows "safeE {} (\<lambda>(fd, s'). detached s fd s' \<and> cstate s' = st) (removeAndResetChannel s0)"
proof -
  obtain fd where fd: "channel s = Some (fd, True)" "connector_at (Some (fd, True)) s"
    using assms(1,2) by (auto simp: connector_inv_def split: option.splits prod.splits bool.splits)
  let ?s = "act (Unwatch fd) (s0\<lparr>channel := Some (fd, False)\<rparr>)"
  have "connector_at (Some (fd, True)) (s0\<lparr>channel := Some (fd, False)\<rparr>)"
    by (rule connector_at_cong [OF fd(2)]) (simp_all add: assms(3))
  then have "connector_at (Some (fd, False)) ?s"
    by (rule connector_at_act) (simp add: connector_abs_def)
  then have "connector_at (Some (fd, False)) (connector_queue ResetChannel ?s)"
    by (rule connector_at_cong) simp_all
  then show ?thesis using fd(1) assms(3) by (auto simp: removeAndResetChannel_def assert_that_def detached_def)
qed

text \<open>Giving up an attempt: the socket is closed, a retry is scheduled if the user wants one.\<close>

definition gave_up :: "Connector \<Rightarrow> Connector \<Rightarrow> bool" where
  "gave_up s s' \<longleftrightarrow> connector_inv s' \<and> cstate s' = Disconnected \<and> (\<exists>fd. channel s' = Some (fd, False)) \<and>
     functors s' = functors s @ [ResetChannel] \<and> connect s' = connect s \<and>
     retryTimers s' = retryTimers s + (if connect s then 1 else 0) \<and> set (acts s) \<subseteq> set (acts s')"

lemma retry_gave_up: "detached s fd s' \<Longrightarrow> safeE {} (gave_up s) (connector_retry fd s')"
  by (rule safeE_mono [OF connector_retry_safe]) (auto simp: detached_def gave_up_def connector_inv_def)

lemma remove_then_retry:
  assumes "connector_inv s" "cstate s = Connecting" "s0 = connector_setState st s"
  shows "safeE {} (gave_up s) (bindE (removeAndResetChannel s0) (\<lambda>(sockfd, s). connector_retry sockfd s))"
  by (rule safeE_bind [OF removeAndResetChannel_safe [OF assms]]) (auto intro: retry_gave_up)

lemma connector_setState_same: "connector_setState (cstate s) s = s"
  by (simp add: connector_setState_def)

lemma stopInLoop_safe:
  "connector_inv s \<Longrightarrow> safeE {} (\<lambda>s'. if cstate s = Connecting then gave_up s s' else s' = s) (stopInLoop s)"
  using remove_then_retry [of s "connector_setState Disconnected s" Disconnected] by (simp add: stopInLoop_def)

lemma connector_handleError_safe:
  "connector_inv s \<Longrightarrow> safeE {} (\<lambda>s'. if cstate s = Connecting then gave_up s s' else s' = s) (connector_handleError s)"
  using remove_then_retry [of s s Connecting] connector_setState_same [of s] by (auto simp: connector_handleError_def)

text \<open>A finished attempt: handed over or, if the user no longer wants it, closed.\<close>

definition finished :: "Connector \<Rightarrow> int option \<Rightarrow> Connector \<Rightarrow> bool" where
  "finished s given s' \<longleftrightarrow> connector_inv s' \<and> cstate s' = Connected \<and> (\<exists>fd. channel s' = Some (fd, False)) \<and>
     functors s' = functors s @ [ResetChannel] \<and> connect s' = connect s \<and> retryTimers s' = retryTimers s \<and>
     set (acts s) \<subseteq> set (acts s') \<and> (given \<noteq> None \<longleftrightarrow> connect s)"

lemma connector_handleWrite_safe:
  assumes "connector_inv s"
  shows "safeE (if cstate s = Connected then {AssertFail} else {})
    (\<lambda>(given, s'). if cstate s = Connecting then finished s given s' \<or> given = None \<and> gave_up s s' else given = None \<and> s' = s)
    (connector_handleWrite err selfConnect s)"
proof (cases "cstate s = Connecting")
  case True
  have s: "s = connector_setState Connecting s" using connector_setState_same [of s] True by simp
  have post: "safeE {} (\<lambda>(given, s'). finished s given s' \<or> given = None \<and> gave_up s s')
      (if err \<noteq> 0 then bindE (connector_retry fd t) (\<lambda>s. Inr (None, s))
       else if selfConnect then bindE (connector_retry fd t) (\<lambda>s. Inr (None, s))
       else let s = connector_setState Connected t
            in if connect s then Inr (Some fd, act (Handed fd) s) else Inr (None, act (Closed fd) s))"
    if t: "detached s fd t" for fd t
  proof -
    have r: "safeE {} (\<lambda>(given, s'). finished s given s' \<or> given = None \<and> gave_up s s') (bindE (connector_retry fd t) (\<lambda>s. Inr (None, s)))"
      by (rule safeE_bind [OF retry_gave_up [OF t]]) simp
    have u: "connector_at (Some (fd, False)) (connector_setState Connected t)"
      by (rule connector_at_cong [of _ t]) (use t in \<open>simp_all add: detached_def\<close>)
    have "connector_at None (act (Handed fd) (connector_setState Connected t))" if "connect t"
      by (rule connector_at_act [OF u]) (simp add: connector_abs_def that)
    moreover have "connector_at None (act (Closed fd) (connector_setState Connected t))"
      by (rule connector_at_act [OF u]) (simp add: connector_abs_def)
    ultimately show ?thesis using r t by (auto simp: Let_def finished_def detached_def connector_inv_def)
  qed
  have "safeE {} (\<lambda>(given, s'). finished s given s' \<or> given = None \<and> gave_up s s') (connector_handleWrite err selfConnect s)"
    unfolding connector_handleWrite_def if_P [OF True]
    by (rule safeE_bind [OF removeAndResetChannel_safe [OF assms True s]]) (use post in auto)
  then show ?thesis using True by simp
next
  case False
  then show ?thesis by (cases "cstate s") (simp_all add: connector_handleWrite_def assert_that_def)
qed


section \<open>Every run follows the specification\<close>

lemma connector_events_safe:
  assumes "connector_inv s"
  shows "safeE {} (\<lambda>(given, s'). given = None \<and> (s' = s \<or> gave_up s s') \<or> finished s given s')
    (connector_events failed writable err selfConnect s)"
proof (cases "\<exists>fd. channel s = Some (fd, True)")
  case True
  then obtain fd where fd: "channel s = Some (fd, True)" by blast
  then have st: "cstate s = Connecting" using assms by (simp add: connector_inv_def)
  let ?post = "\<lambda>(given, s'). given = None \<and> (s' = s \<or> gave_up s s') \<or> finished s given s'"
  have rest: "safeE {} ?post (if writable then connector_handleWrite err selfConnect t else Inr (None, t))"
    if "t = s \<or> gave_up s t" for t
  proof -
    have t: "connector_inv t" "cstate t \<noteq> Connected" using that assms st by (auto simp: gave_up_def)
    have "safeE {} ?post (connector_handleWrite err selfConnect t)"
      using connector_handleWrite_safe [OF t(1), of err selfConnect] that st t(2)
      by (auto simp: gave_up_def elim!: safeE_mono split: if_splits)
    then show ?thesis using that by auto
  qed
  have "safeE {} (\<lambda>t. t = s \<or> gave_up s t) (if failed then connector_handleError s else Inr s)"
    using connector_handleError_safe [OF assms] st by (auto elim: safeE_mono)
  from safeE_bind [OF this rest] show ?thesis unfolding connector_events_def fd by simp
qed (auto simp: connector_events_def split: option.splits bool.splits)

lemma resetChannel_safe:
  assumes "connector_inv s"
  shows "safeE (if \<exists>fd. channel s = Some (fd, True) then {AssertFail} else {}) (\<lambda>s'. connector_inv s' \<and> s' = s\<lparr>channel := None\<rparr>) (resetChannel s)"
proof (cases "channel s")
  case None
  then show ?thesis using assms by (simp add: resetChannel_def)
next
  case (Some c)
  then show ?thesis
  proof (cases c)
    case (Pair fd added)
    have "connector_inv (s\<lparr>channel := None\<rparr>)" if "\<not> added"
      using assms Some Pair that by (auto simp: connector_inv_def intro: connector_at_cong)
    then show ?thesis using Some Pair by (simp add: resetChannel_def assert_that_def)
  qed
qed

lemma run_functor_inv:
  assumes "connector_inv s"
  shows "safeE {AssertFail, Fatal} connector_inv (run_functor krn s)"
proof (cases "functors s")
  case (Cons f fs)
  let ?s = "s\<lparr>functors := fs\<rparr>"
  have i: "connector_inv ?s" by (rule connector_inv_cong [OF assms]) simp_all
  have a: "safeE {AssertFail, Fatal} connector_inv (startInLoop krn ?s)"
    by (rule safeE_mono [OF safeE_faults [OF startInLoop_safe [OF i]]]) (use i in \<open>auto simp: attempted_def split: if_splits\<close>)
  have b: "safeE {AssertFail, Fatal} connector_inv (stopInLoop ?s)"
    by (rule safeE_mono [OF safeE_faults [OF stopInLoop_safe [OF i]]]) (use i in \<open>auto simp: gave_up_def split: if_splits\<close>)
  have c: "safeE {AssertFail, Fatal} connector_inv (resetChannel ?s)"
    by (rule safeE_mono [OF safeE_faults [OF resetChannel_safe [OF i]]]) (auto split: if_splits)
  show ?thesis using a b c by (cases f) (simp_all add: run_functor_def Cons)
qed (use assms in \<open>simp add: run_functor_def\<close>)

lemma fire_timer_inv:
  assumes "connector_inv s"
  shows "safeE {AssertFail, Fatal} connector_inv (fire_timer krn s)"
proof (cases "retryTimers s")
  case (Suc n)
  have i: "connector_inv (s\<lparr>retryTimers := n\<rparr>)" by (rule connector_inv_cong [OF assms]) simp_all
  have "safeE {AssertFail, Fatal} connector_inv (startInLoop krn (s\<lparr>retryTimers := n\<rparr>))"
    by (rule safeE_mono [OF safeE_faults [OF startInLoop_safe [OF i]]]) (use i in \<open>auto simp: attempted_def split: if_splits\<close>)
  then show ?thesis by (simp add: fire_timer_def Suc)
qed (use assms in \<open>simp add: fire_timer_def\<close>)

lemma connector_start_inv:
  assumes "connector_inv s"
  shows "safeE {AssertFail, Fatal} connector_inv (connector_start inLoopThread krn s)"
proof -
  note i = connector_inv_want(1) [OF assms]
  have "safeE {AssertFail, Fatal} connector_inv (startInLoop krn (act WantConnect (s\<lparr>connect := True\<rparr>)))"
    by (rule safeE_mono [OF safeE_faults [OF startInLoop_safe [OF i]]]) (use i in \<open>auto simp: attempted_def split: if_splits\<close>)
  then show ?thesis using i by (simp add: connector_start_def Let_def)
qed

lemma restarted_inv:
  assumes "connector_inv s" "cstate s = Connected"
  shows "connector_inv (act Restarted ((connector_setState Disconnected s)\<lparr>retryDelayMs := kInitRetryDelayMs, connect := True\<rparr>))"
proof -
  have s: "connector_at None s" "\<nexists>fd. channel s = Some (fd, True)" using connector_inv_idle assms by auto
  have "connector_at None (act Restarted ((connector_setState Disconnected s)\<lparr>retryDelayMs := kInitRetryDelayMs, connect := True\<rparr>))"
    by (rule connector_at_step [OF s(1), of _ Restarted]) (simp_all add: connector_abs_def kInitRetryDelayMs_def)
  then show ?thesis using s(2) by (auto simp: connector_inv_def split: option.splits bool.splits)
qed

lemma connector_restart_inv:
  assumes "connector_inv s" "cstate s = Connected"
  shows "safeE {AssertFail, Fatal} connector_inv (connector_restart krn s)"
  unfolding connector_restart_def
  by (rule safeE_mono [OF safeE_faults [OF startInLoop_safe [OF restarted_inv [OF assms]]]])
    (auto simp: attempted_def split: if_splits)

lemma safeE_silent: "safeE F P r \<Longrightarrow> safeE F (\<lambda>(given, s). P s) (bindE r (\<lambda>s. Inr (None, s)))"
  by (cases r) simp_all

lemma connector_step_inv:
  assumes "connector_inv s"
  shows "safeE {AssertFail, Fatal} (\<lambda>(given, s'). connector_inv s') (connector_step ev s)"
proof (cases ev)
  case (CStart b krn)
  then show ?thesis using safeE_silent [OF connector_start_inv [OF assms]] by simp
next
  case CStop
  then show ?thesis using connector_inv_want(2) [OF assms] by (simp add: connector_stop_def)
next
  case (CFunctor krn)
  then show ?thesis using safeE_silent [OF run_functor_inv [OF assms]] by simp
next
  case (CTimer krn)
  then show ?thesis using safeE_silent [OF fire_timer_inv [OF assms]] by simp
next
  case (CEvents failed writable err selfConnect)
  have "safeE {AssertFail, Fatal} (\<lambda>(given, s'). connector_inv s') (connector_events failed writable err selfConnect s)"
    by (rule safeE_mono [OF safeE_faults [OF connector_events_safe [OF assms]]])
      (use assms in \<open>auto simp: gave_up_def finished_def\<close>)
  then show ?thesis by (simp add: CEvents)
next
  case (CRestart krn)
  then show ?thesis by (simp add: safeE_silent [OF connector_restart_inv [OF assms]] assms)
qed

lemma connector_run_inv: "safeE {AssertFail, Fatal} connector_inv (connector_run evs Connector_new)"
  unfolding connector_run_def
proof (rule safeE_foldE)
  show "connector_inv Connector_new"
    by (simp add: connector_inv_def connector_at_def connector_abs_def Connector_new_def kInitRetryDelayMs_def connector_spec_init_def)
  show "safeE {AssertFail, Fatal} connector_inv (bindE (connector_step ev s) (\<lambda>(_, s). Inr s))" if "connector_inv s" for ev s
    by (rule safeE_bind [OF connector_step_inv [OF that]]) auto
qed

section \<open>TcpClient\<close>

text \<open>
  The client owns a connector and at most one connection. Connections are numbered in the order they
  are made; what the client does to one is recorded.
\<close>

datatype client_act =
    Established nat | ShutdownConn nat | QueueDestroyed nat | DetachClose nat | ForceCloseConn nat | KeepConnector

record TcpClient =
  connector :: Connector
  connection :: "nat option"
  retry :: bool
  clientConnect :: bool
  nextConnId :: int
  clientName :: string
  made :: "string list"
  clientActs :: "client_act list"

definition TcpClient_new :: "string \<Rightarrow> TcpClient" where
  "TcpClient_new nm = \<lparr>connector = Connector_new, connection = None, retry = False, clientConnect = True, nextConnId = 1,
     clientName = nm, made = [], clientActs = []\<rparr>"

definition enableRetry :: "TcpClient \<Rightarrow> TcpClient" where
  "enableRetry c = c\<lparr>retry := True\<rparr>"

definition client_act :: "client_act \<Rightarrow> TcpClient \<Rightarrow> TcpClient" where
  "client_act a c = c\<lparr>clientActs := clientActs c @ [a]\<rparr>"

definition TcpClient_destroy :: "bool \<Rightarrow> TcpClient \<Rightarrow> TcpClient" where
  "TcpClient_destroy unique c =
     (case connection c of
        Some i \<Rightarrow> (if unique then client_act (ForceCloseConn i) (client_act (DetachClose i) c) else client_act (DetachClose i) c)
      | None \<Rightarrow> client_act KeepConnector (c\<lparr>connector := connector_stop (connector c)\<rparr>))"

definition client_connect :: "bool \<Rightarrow> int \<times> int \<Rightarrow> TcpClient \<Rightarrow> TcpClient res" where
  "client_connect inLoopThread krn c =
     bindE (connector_start inLoopThread krn (connector c)) (\<lambda>s. Inr (c\<lparr>clientConnect := True, connector := s\<rparr>))"

definition client_disconnect :: "TcpClient \<Rightarrow> TcpClient" where
  "client_disconnect c =
     (let c = c\<lparr>clientConnect := False\<rparr> in case connection c of Some i \<Rightarrow> client_act (ShutdownConn i) c | None \<Rightarrow> c)"

definition client_stop :: "TcpClient \<Rightarrow> TcpClient" where
  "client_stop c = c\<lparr>clientConnect := False, connector := connector_stop (connector c)\<rparr>"

definition client_newConnection :: "string \<Rightarrow> int \<Rightarrow> TcpClient \<Rightarrow> TcpClient res" where
  "client_newConnection peer sockfd c =
     (let buf = snprintf_buf 32 ('':'' @ peer @ ''#'' @ fmt_d (nextConnId c)); connName = clientName c @ buf
      in ints32 [nextConnId c + 1]
        (Inr (client_act (Established (length (made c)))
          (c\<lparr>nextConnId := nextConnId c + 1, made := made c @ [connName], connection := Some (length (made c))\<rparr>))))"

definition client_removeConnection :: "int \<times> int \<Rightarrow> nat \<Rightarrow> TcpClient \<Rightarrow> TcpClient res" where
  "client_removeConnection krn conn c =
     assert_that (connection c = Some conn)
       (let c = client_act (QueueDestroyed conn) (c\<lparr>connection := None\<rparr>)
        in if retry c \<and> clientConnect c
           then bindE (connector_restart krn (connector c)) (\<lambda>s. Inr (c\<lparr>connector := s\<rparr>))
           else Inr c)"

text \<open>
  The user's calls, an event of the connector (with the text of the peer's address, should a
  connection come of it), and the close callback of the current connection.
\<close>

datatype client_event =
    ClConnect bool "int \<times> int" | ClDisconnect | ClStop | ClLoop connector_event string | ClClosed "int \<times> int"

fun client_step :: "client_event \<Rightarrow> TcpClient \<Rightarrow> TcpClient res" where
  "client_step (ClConnect inLoopThread krn) c = client_connect inLoopThread krn c"
| "client_step ClDisconnect c = Inr (client_disconnect c)"
| "client_step ClStop c = Inr (client_stop c)"
| "client_step (ClLoop ev peer) c =
     bindE (connector_step ev (connector c)) (\<lambda>(given, s).
       let c = c\<lparr>connector := s\<rparr> in case given of Some sockfd \<Rightarrow> client_newConnection peer sockfd c | None \<Rightarrow> Inr c)"
| "client_step (ClClosed krn) c = (case connection c of Some i \<Rightarrow> client_removeConnection krn i c | None \<Rightarrow> Inr c)"

definition client_run :: "client_event list \<Rightarrow> TcpClient \<Rightarrow> TcpClient res" where
  "client_run evs c = foldE client_step evs c"

section \<open>A client used with care\<close>

text \<open>
  A connector may be started when it is idle. The functors an iteration queued run before a timer
  fires or a connection closes in a later one.
\<close>

definition tokens :: "Connector \<Rightarrow> nat" where
  "tokens s = count_list (functors s) StartInLoop + retryTimers s"

definition idle :: "Connector \<Rightarrow> bool" where
  "idle s \<longleftrightarrow> tokens s = 0 \<and> cstate s = Disconnected \<and> channel s = None"

fun in_order :: "client_event \<Rightarrow> TcpClient \<Rightarrow> bool" where
  "in_order (ClConnect b krn) c \<longleftrightarrow> idle (connector c)"
| "in_order (ClLoop ev peer) c \<longleftrightarrow>
     (case ev of CTimer krn \<Rightarrow> ResetChannel \<notin> set (functors (connector c)) | CFunctor krn \<Rightarrow> True | CEvents f w e b \<Rightarrow> True | _ \<Rightarrow> False)"
| "in_order (ClClosed krn) c \<longleftrightarrow> ResetChannel \<notin> set (functors (connector c))"
| "in_order ev c \<longleftrightarrow> True"

fun run_in_order :: "client_event list \<Rightarrow> TcpClient \<Rightarrow> bool" where
  "run_in_order [] c \<longleftrightarrow> True"
| "run_in_order (ev # evs) c \<longleftrightarrow> in_order ev c \<and> (case client_step ev c of Inr c' \<Rightarrow> run_in_order evs c' | Inl _ \<Rightarrow> True)"

definition underway :: "Connector \<Rightarrow> bool" where
  "underway s \<longleftrightarrow> cstate s = Connecting \<or> tokens s = 1 \<or> (\<exists>e. SysErr e \<in> set (acts s))"

definition calm :: "Connector \<Rightarrow> bool" where
  "calm s \<longleftrightarrow> connector_inv s \<and> tokens s \<le> 1 \<and> (tokens s = 1 \<longrightarrow> cstate s = Disconnected) \<and>
     (StartInLoop \<in> set (functors s) \<longrightarrow> channel s = None) \<and>
     count_list (functors s) ResetChannel = (case channel s of Some (fd, False) \<Rightarrow> 1 | _ \<Rightarrow> 0) \<and>
     (connect s \<and> cstate s \<noteq> Connected \<longrightarrow> underway s)"

lemma count_list_snoc: "count_list (xs @ [x]) y = count_list xs y + (if x = y then 1 else 0)"
  by simp

lemma calm_channel:
  assumes "calm s"
  shows "ResetChannel \<notin> set (functors s) \<Longrightarrow> cstate s \<noteq> Connecting \<Longrightarrow> channel s = None"
    and "ResetChannel \<in> set (functors s) \<Longrightarrow> \<exists>fd. channel s = Some (fd, False)"
    and "ResetChannel \<in> set (functors s) \<Longrightarrow> count_list (functors s) ResetChannel = 1"
  using assms by (auto simp: calm_def connector_inv_def count_list_0_iff split: option.splits prod.splits bool.splits)

text \<open>An attempt from an idle connector, a lost attempt and a finished one leave it calm.\<close>

lemma attempted_calm:
  assumes "attempted s s'" "tokens s = 0" "channel s = None" "ResetChannel \<notin> set (functors s)"
  shows "calm s'"
proof -
  have z: "count_list (functors s') StartInLoop = 0" "count_list (functors s') ResetChannel = 0" "retryTimers s = 0"
    using assms by (auto simp: attempted_def tokens_def count_list_0_iff)
  have ch: "channel s' = None \<or> (\<exists>fd. channel s' = Some (fd, True))"
    using assms(1,3) by (auto simp: attempted_def connector_inv_def split: option.splits prod.splits bool.splits)
  show ?thesis
    using assms(1) z ch by (auto simp: attempted_def calm_def tokens_def underway_def count_list_0_iff)
qed

lemma connecting_channel: "connector_inv s \<Longrightarrow> cstate s = Connecting \<Longrightarrow> \<exists>fd. channel s = Some (fd, True)"
  by (auto simp: connector_inv_def split: option.splits prod.splits bool.splits)

lemma calm_connecting:
  assumes "calm s" "cstate s = Connecting"
  shows "tokens s = 0" "StartInLoop \<notin> set (functors s)" "count_list (functors s) ResetChannel = 0"
proof -
  obtain fd where "channel s = Some (fd, True)" using connecting_channel assms unfolding calm_def by blast
  then show "tokens s = 0" "StartInLoop \<notin> set (functors s)" "count_list (functors s) ResetChannel = 0"
    using assms by (auto simp: calm_def)
qed

lemma gave_up_calm:
  assumes "gave_up s s'" "calm s" "cstate s = Connecting"
  shows "calm s'"
  using assms(1) calm_connecting [OF assms(2,3)]
  by (auto simp: gave_up_def calm_def tokens_def underway_def count_list_0_iff)

lemma finished_calm:
  assumes "finished s given s'" "calm s" "cstate s = Connecting"
  shows "calm s'"
  using assms(1) calm_connecting [OF assms(2,3)]
  by (auto simp: finished_def calm_def tokens_def underway_def count_list_0_iff)


text \<open>
  What a step of the loop keeps: the wish, and \<open>Connected\<close> once it is reached; it is reached only by
  handing a socket over, or when no connection is wanted any more.
\<close>

definition calm_step :: "Connector \<Rightarrow> int option \<Rightarrow> Connector \<Rightarrow> bool" where
  "calm_step s given s' \<longleftrightarrow> calm s' \<and> connect s' = connect s \<and> (given \<noteq> None \<longrightarrow> cstate s \<noteq> Connected \<and> cstate s' = Connected) \<and>
     (cstate s = Connected \<longrightarrow> cstate s' = Connected) \<and>
     (cstate s' = Connected \<longrightarrow> cstate s = Connected \<or> given \<noteq> None \<or> \<not> connect s)"

lemma calm_popped:
  assumes "calm s" "functors s = StopInLoop # fs"
  shows "calm (s\<lparr>functors := fs\<rparr>)"
proof -
  have "connector_inv (s\<lparr>functors := fs\<rparr>)" using assms(1) unfolding calm_def by (auto intro: connector_inv_cong)
  then show ?thesis using assms by (auto simp: calm_def tokens_def underway_def)
qed

lemma attempted_keeps: "attempted s s' \<Longrightarrow> connect s' = connect s \<and> cstate s' \<noteq> Connected"
  by (auto simp: attempted_def)

lemma run_start_calm:
  assumes "calm s" "functors s = StartInLoop # fs"
  shows "safeE {Fatal} (\<lambda>s'. calm_step s None s') (startInLoop krn (s\<lparr>functors := fs\<rparr>))"
proof -
  let ?s = "s\<lparr>functors := fs\<rparr>"
  have s: "tokens ?s = 0" "channel ?s = None" "cstate ?s = Disconnected" "tokens s = 1"
    using assms by (auto simp: calm_def tokens_def)
  have i: "connector_inv ?s" using assms(1) unfolding calm_def by (auto intro: connector_inv_cong)
  have "count_list (functors s) ResetChannel = 0" using assms s(2) by (simp add: calm_def)
  then have r: "ResetChannel \<notin> set fs" using assms(2) by (auto simp: count_list_0_iff)
  have "calm ?s" if "\<not> connect s" using assms i s that r by (auto simp: calm_def tokens_def count_list_0_iff)
  moreover have "calm t" if "attempted ?s t" for t by (rule attempted_calm [OF that s(1,2)]) (simp add: r)
  ultimately have "calm_step s None t" if "if connect ?s then attempted ?s t else t = ?s" for t
    using that s(3) attempted_keeps [of ?s t] by (auto simp: calm_step_def split: if_splits)
  then show ?thesis using safeE_faults [OF safeE_mono [OF startInLoop_safe [OF i]]] s(2,3) by simp
qed

lemma run_functor_calm:
  assumes "calm s"
  shows "safeE {Fatal} (\<lambda>s'. calm_step s None s') (run_functor krn s)"
proof (cases "functors s")
  case Nil
  then show ?thesis using assms by (simp add: run_functor_def calm_step_def)
next
  case (Cons f fs)
  let ?s = "s\<lparr>functors := fs\<rparr>"
  show ?thesis
  proof (cases f)
    case StartInLoop
    then show ?thesis using run_start_calm [OF assms, of fs krn] Cons by (simp add: run_functor_def)
  next
    case StopInLoop
    then have c: "calm ?s" using assms Cons calm_popped by simp
    then have i: "connector_inv ?s" by (simp add: calm_def)
    have "calm_step s None t" if "if cstate ?s = Connecting then gave_up ?s t else t = ?s" for t
      using that c gave_up_calm [OF _ c, of t] by (auto simp: calm_step_def gave_up_def split: if_splits)
    then show ?thesis
      using safeE_faults [OF safeE_mono [OF stopInLoop_safe [OF i]]] StopInLoop Cons by (simp add: run_functor_def)
  next
    case ResetChannel
    then obtain fd where fd: "channel s = Some (fd, False)" using calm_channel(2) [OF assms] Cons by auto
    then have n: "count_list (functors s) ResetChannel = 1" using assms by (simp add: calm_def)
    have i: "connector_inv ?s" using assms unfolding calm_def by (auto intro: connector_inv_cong)
    have "calm_step s None t" if "connector_inv t" "t = ?s\<lparr>channel := None\<rparr>" for t
      using that assms Cons ResetChannel n by (auto simp: calm_step_def calm_def tokens_def underway_def)
    then show ?thesis
      using safeE_faults [OF safeE_mono [OF resetChannel_safe [OF i]]] ResetChannel Cons fd by (simp add: run_functor_def)
  qed
qed

lemma fire_timer_calm:
  assumes "calm s" "ResetChannel \<notin> set (functors s)"
  shows "safeE {Fatal} (\<lambda>s'. calm_step s None s') (fire_timer krn s)"
proof (cases "retryTimers s")
  case 0
  then show ?thesis using assms by (simp add: fire_timer_def calm_step_def)
next
  case (Suc n)
  let ?s = "s\<lparr>retryTimers := n\<rparr>"
  have s: "tokens ?s = 0" "cstate ?s = Disconnected" "StartInLoop \<notin> set (functors s)"
    using assms(1) Suc by (auto simp: calm_def tokens_def count_list_0_iff)
  then have ch: "channel ?s = None" using calm_channel(1) [OF assms(1,2)] by simp
  have i: "connector_inv ?s" using assms(1) unfolding calm_def by (auto intro: connector_inv_cong)
  have "calm ?s" if "\<not> connect s" using assms i s that by (auto simp: calm_def tokens_def)
  moreover have "calm t" if "attempted ?s t" for t by (rule attempted_calm [OF that s(1) ch]) (simp add: assms(2))
  ultimately have "calm_step s None t" if "if connect ?s then attempted ?s t else t = ?s" for t
    using that s(2) attempted_keeps [of ?s t] by (auto simp: calm_step_def split: if_splits)
  then have "safeE {Fatal} (\<lambda>s'. calm_step s None s') (startInLoop krn ?s)"
    using safeE_faults [OF safeE_mono [OF startInLoop_safe [OF i]]] s(2) ch by simp
  then show ?thesis by (simp add: fire_timer_def Suc)
qed

lemma connector_events_calm:
  assumes "calm s"
  shows "safeE {} (\<lambda>(given, s'). calm_step s given s') (connector_events failed writable err selfConnect s)"
proof (cases "\<exists>fd. channel s = Some (fd, True)")
  case True
  then have st: "connector_inv s" "cstate s = Connecting" using assms by (auto simp: calm_def connector_inv_def)
  show ?thesis
    by (rule safeE_mono [OF connector_events_safe [OF st(1)]])
      (use assms st gave_up_calm [OF _ assms] finished_calm [OF _ assms]
        in \<open>auto simp: calm_step_def gave_up_def finished_def\<close>)
next
  case False
  then show ?thesis using assms by (auto simp: connector_events_def calm_step_def split: option.splits bool.splits)
qed

lemma connector_start_calm:
  assumes "calm s" "idle s"
  shows "safeE {Fatal} (\<lambda>s'. calm s' \<and> connect s' \<and> cstate s' \<noteq> Connected) (connector_start inLoopThread krn s)"
proof -
  let ?s = "act WantConnect (s\<lparr>connect := True\<rparr>)"
  have i: "connector_inv ?s" using assms(1) connector_inv_want unfolding calm_def by blast
  have s: "tokens ?s = 0" "channel ?s = None" "cstate ?s = Disconnected" using assms(2) by (simp_all add: idle_def tokens_def)
  have r: "ResetChannel \<notin> set (functors s)" using calm_channel(2) [OF assms(1)] s(2) by auto
  have a: "safeE {Fatal} (\<lambda>s'. calm s' \<and> connect s' \<and> cstate s' \<noteq> Connected) (startInLoop krn ?s)"
    by (rule safeE_mono [OF safeE_faults [OF startInLoop_safe [OF i]]])
      (use s r attempted_calm [OF _ s(1,2)] attempted_keeps [of ?s] in auto)
  have "calm (connector_queue StartInLoop ?s)"
    using i s r by (auto simp: calm_def tokens_def underway_def count_list_0_iff)
  then show ?thesis using a s(3) by (simp add: connector_start_def Let_def)
qed

lemma connector_stop_calm: "calm s \<Longrightarrow> calm (connector_stop s)"
  using connector_inv_want(2) [of s] by (auto simp: calm_def connector_stop_def tokens_def underway_def)

lemma connector_restart_calm:
  assumes "calm s" "cstate s = Connected" "ResetChannel \<notin> set (functors s)"
  shows "safeE {Fatal} (\<lambda>s'. calm s' \<and> connect s' \<and> cstate s' \<noteq> Connected) (connector_restart krn s)"
proof -
  let ?s = "act Restarted ((connector_setState Disconnected s)\<lparr>retryDelayMs := kInitRetryDelayMs, connect := True\<rparr>)"
  have i: "connector_inv ?s" using assms(1,2) restarted_inv unfolding calm_def by blast
  have s: "tokens ?s = 0" "channel ?s = None" "cstate ?s = Disconnected"
    using assms calm_channel(1) [OF assms(1,3)] by (auto simp: calm_def tokens_def le_Suc_eq)
  show ?thesis unfolding connector_restart_def
    by (rule safeE_mono [OF safeE_faults [OF startInLoop_safe [OF i]]])
      (use s assms(3) attempted_calm [OF _ s(1,2)] attempted_keeps [of ?s] in auto)
qed

definition client_inv :: "nat \<Rightarrow> TcpClient \<Rightarrow> bool" where
  "client_inv n c \<longleftrightarrow> calm (connector c) \<and> retry c \<and> (connection c \<noteq> None \<longrightarrow> cstate (connector c) = Connected) \<and>
     (cstate (connector c) = Connected \<and> connection c = None \<longrightarrow> \<not> clientConnect c \<or> \<not> connect (connector c)) \<and>
     nextConnId c = 1 + int (length (made c)) \<and> length (made c) \<le> n"

lemma client_connect_inv:
  assumes "client_inv n c" "idle (connector c)"
  shows "safeE {Fatal} (client_inv n) (client_connect inLoopThread krn c)"
  unfolding client_connect_def
proof (rule safeE_bind [OF connector_start_calm])
  show "calm (connector c)" "idle (connector c)" using assms by (simp_all add: client_inv_def)
  have "connection c = None" using assms by (auto simp: client_inv_def idle_def)
  then show "safeE {Fatal} (client_inv n) (Inr (c\<lparr>clientConnect := True, connector := s\<rparr>))"
    if "calm s \<and> connect s \<and> cstate s \<noteq> Connected" for s
    using that assms(1) by (simp add: client_inv_def)
qed

lemma client_newConnection_inv:
  assumes "client_inv n c" "calm_step (connector c) (Some fd) s" "n < 2 ^ 31 - 2"
  shows "safeE {} (client_inv (Suc n)) (client_newConnection peer fd (c\<lparr>connector := s\<rparr>))"
  using assms by (auto simp: client_newConnection_def Let_def client_inv_def client_act_def calm_step_def ints32_def in_int32_def)

lemma client_loop_inv:
  assumes c: "client_inv n c" "n < 2 ^ 31 - 2"
    and step: "safeE {Fatal} (\<lambda>(given, s). calm_step (connector c) given s) (connector_step ev (connector c))"
  shows "safeE {Fatal} (client_inv (Suc n)) (client_step (ClLoop ev peer) c)"
  unfolding client_step.simps
proof (rule safeE_bind [OF step])
  fix r assume r: "case r of (given, s) \<Rightarrow> calm_step (connector c) given s"
  obtain given s where gs: "r = (given, s)" by (cases r)
  show "safeE {Fatal} (client_inv (Suc n)) (case r of (given, s) \<Rightarrow>
      let c = c\<lparr>connector := s\<rparr> in case given of Some sockfd \<Rightarrow> client_newConnection peer sockfd c | None \<Rightarrow> Inr c)"
  proof (cases given)
    case None
    then show ?thesis using r gs c by (auto simp: client_inv_def calm_step_def)
  next
    case (Some fd)
    then have "safeE {} (client_inv (Suc n)) (client_newConnection peer fd (c\<lparr>connector := s\<rparr>))"
      using client_newConnection_inv [OF c(1) _ c(2)] r gs by simp
    then show ?thesis using Some gs safeE_faults by fastforce
  qed
qed

lemma client_closed_inv:
  assumes c: "client_inv n c" "connection c = Some i" "ResetChannel \<notin> set (functors (connector c))"
  shows "safeE {Fatal} (client_inv n) (client_removeConnection krn i c)"
proof (cases "retry c \<and> clientConnect c")
  case True
  let ?c = "client_act (QueueDestroyed i) (c\<lparr>connection := None\<rparr>)"
  have "calm (connector c)" "cstate (connector c) = Connected" using c by (auto simp: client_inv_def)
  from connector_restart_calm [OF this c(3)]
  have "safeE {Fatal} (client_inv n) (bindE (connector_restart krn (connector c)) (\<lambda>s. Inr (?c\<lparr>connector := s\<rparr>)))"
    by (rule safeE_bind) (use c(1) in \<open>simp add: client_inv_def client_act_def\<close>)
  then show ?thesis using True c(2) by (simp add: client_removeConnection_def Let_def assert_that_def client_act_def)
next
  case False
  then show ?thesis using c by (auto simp: client_removeConnection_def Let_def assert_that_def client_inv_def client_act_def)
qed

lemma client_inv_more: "client_inv n c \<Longrightarrow> n \<le> m \<Longrightarrow> client_inv m c"
  by (simp add: client_inv_def)

lemma client_step_inv:
  assumes c: "client_inv n c" "n < 2 ^ 31 - 2" and ev: "in_order ev c"
  shows "safeE {Fatal} (client_inv (Suc n)) (client_step ev c)"
proof (cases ev)
  case (ClConnect b krn)
  then have "safeE {Fatal} (client_inv n) (client_connect b krn c)" using client_connect_inv [OF c(1)] ev by simp
  then show ?thesis unfolding ClConnect client_step.simps by (rule safeE_mono) (simp add: client_inv_more)
next
  case ClDisconnect
  then show ?thesis using c by (auto simp: client_disconnect_def client_inv_def client_act_def Let_def split: option.splits)
next
  case ClStop
  then show ?thesis using c connector_stop_calm by (auto simp: client_stop_def client_inv_def connector_stop_def)
next
  case (ClLoop cev peer)
  have s: "calm (connector c)" using c(1) by (simp add: client_inv_def)
  have silent: "safeE {Fatal} (\<lambda>(given, s). calm_step (connector c) given s) (bindE r (\<lambda>s. Inr (None, s)))"
    if "safeE {Fatal} (calm_step (connector c) None) r" for r
    using that by (cases r) simp_all
  have "safeE {Fatal} (\<lambda>(given, s). calm_step (connector c) given s) (connector_step cev (connector c))"
    using ev ClLoop silent [OF run_functor_calm [OF s]] silent [OF fire_timer_calm [OF s]]
      safeE_faults [OF connector_events_calm [OF s], of "{Fatal}"]
    by (cases cev) auto
  then show ?thesis unfolding ClLoop by (rule client_loop_inv [OF c])
next
  case (ClClosed krn)
  show ?thesis
  proof (cases "connection c")
    case (Some i)
    then have "safeE {Fatal} (client_inv n) (client_step ev c)" using client_closed_inv [OF c(1) Some] ev ClClosed by simp
    then show ?thesis by (rule safeE_mono) (simp add: client_inv_more)
  qed (use ClClosed c(1) client_inv_more [of n _ "Suc n"] in simp)
qed

lemma client_run_inv:
  assumes "client_inv n c" "n + length evs < 2 ^ 31 - 1" "run_in_order evs c"
  shows "safeE {Fatal} (client_inv (n + length evs)) (client_run evs c)"
  using assms
proof (induction evs arbitrary: n c)
  case (Cons ev evs)
  have "safeE {Fatal} (\<lambda>c'. client_inv (Suc n) c' \<and> run_in_order evs c') (client_step ev c)"
    using client_step_inv [OF Cons.prems(1), of ev] Cons.prems(2,3) by (cases "client_step ev c") auto
  then have "safeE {Fatal} (client_inv (Suc n + length evs)) (bindE (client_step ev c) (client_run evs))"
    by (rule safeE_bind) (use Cons.IH [of "Suc n"] Cons.prems(2) in auto)
  then show ?case by (simp add: client_run_def [abs_def])
qed (simp add: client_run_def)

section \<open>Properties\<close>

text \<open>
  C9. Whatever calls and events come in whatever order, a connector that runs on keeps the life of its
  sockets: it has at most one, watched exactly while it is connecting, never leaks one and never
  closes one twice; it hands one over and schedules a retry only while a connection is
  wanted; the retry delays double from 500 ms up to 30 s, and restart from 500 ms.
\<close>

theorem connector_refines:
  "safeE {AssertFail, Fatal} (\<lambda>s. \<exists>sock. connector_spec_run (acts s) connector_spec_init =
       Some \<lparr>sp_want = connect s, sp_sock = sock, sp_delay = retryDelayMs s\<rparr> \<and>
     (if cstate s = Connecting then sock = channel s \<and> (\<exists>fd. sock = Some (fd, True)) else sock = None) \<and>
     500 \<le> retryDelayMs s \<and> retryDelayMs s \<le> 30000) (connector_run evs Connector_new)"
  by (rule safeE_mono [OF connector_run_inv])
    (auto simp: connector_inv_def connector_at_def connector_abs_def split: option.splits prod.splits bool.splits)

text \<open>
  C23. A client that retries and that the user connects only while its connector is idle: no assertion of
  \<^verbatim>\<open>TcpClient\<close> or \<^verbatim>\<open>Connector\<close> fails; it has a connection only in the state \<^verbatim>\<open>kConnected\<close>; and as
  long as the user wants to be connected it is, or an attempt is under way or scheduled, unless
  \<^verbatim>\<open>connect\<close> failed with an error that is not retried.
\<close>

theorem client_keeps_trying:
  assumes "run_in_order evs (enableRetry (TcpClient_new nm))" "length evs < 2 ^ 31 - 1"
  shows "safeE {Fatal} (\<lambda>c. (connection c \<noteq> None \<longrightarrow> cstate (connector c) = Connected) \<and>
      (clientConnect c \<and> connect (connector c) \<longrightarrow> connection c \<noteq> None \<or> underway (connector c)))
    (client_run evs (enableRetry (TcpClient_new nm)))"
proof -
  have "connector_inv Connector_new" using connector_run_inv [of "[]"] by (simp add: connector_run_def)
  then have "client_inv 0 (enableRetry (TcpClient_new nm))"
    by (simp add: client_inv_def enableRetry_def TcpClient_new_def calm_def tokens_def Connector_new_def)
  then have "safeE {Fatal} (client_inv (0 + length evs)) (client_run evs (enableRetry (TcpClient_new nm)))"
    using assms by (intro client_run_inv) simp_all
  then show ?thesis by (rule safeE_mono) (auto simp: client_inv_def calm_def)
qed

section \<open>Examples\<close>

lemmas connector_ops = connector_start_def startInLoop_def connector_connect_def connecting_def connector_retry_def
  connector_stop_def stopInLoop_def removeAndResetChannel_def resetChannel_def connector_restart_def connector_handleWrite_def
  connector_handleError_def run_functor_def connector_events_def fire_timer_def createNonblockingOrDie_def act_def connector_setState_def
  connector_queue_def Connector_new_def kInitRetryDelayMs_def kMaxRetryDelayMs_def assert_that_def ints32_def in_int32_def Let_def

lemmas client_ops = client_connect_def client_newConnection_def client_removeConnection_def client_act_def TcpClient_new_def
  enableRetry_def client_run_def

definition sample_client :: "client_event list" where
  "sample_client = [ClConnect True (3, EINPROGRESS), ClLoop (CEvents False True 0 False) ''1.2.3.4:80'', ClLoop (CFunctor (0, 0)) '''',
     ClClosed (4, ECONNREFUSED), ClLoop (CTimer (5, EINPROGRESS)) '''']"

theorem client_keeps_trying_witness:
  "\<exists>c. client_run sample_client (enableRetry (TcpClient_new ''c'')) = Inr c \<and> underway (connector c) \<and>
     retryDelayMs (connector c) = 1000"
proof -
  have o: "run_in_order sample_client (enableRetry (TcpClient_new ''c''))"
    by (simp add: sample_client_def client_ops connector_ops idle_def tokens_def)
  obtain c where c: "client_run sample_client (enableRetry (TcpClient_new ''c'')) = Inr c" "clientConnect c" "connect (connector c)"
      "connection c = None" "retryDelayMs (connector c) = 1000"
    by (simp add: sample_client_def client_ops connector_ops)
  then show ?thesis using client_keeps_trying [OF o] by (auto simp: sample_client_def)
qed

text \<open>
  What goes wrong otherwise. \<^verbatim>\<open>stop\<close> and \<^verbatim>\<open>start\<close> from another thread during an attempt: \<^verbatim>\<open>startInLoop\<close> runs
  before \<^verbatim>\<open>resetChannel\<close>. A retry timer, which \<^verbatim>\<open>stop\<close> does not cancel, fires in the attempt of
  the next \<^verbatim>\<open>start\<close>. And a client that was connected once cannot \<^verbatim>\<open>connect\<close> again.
\<close>

lemma stop_then_start_asserts:
  "connector_run [CStart True (3, EINPROGRESS), CStop, CStart False (0, 0), CFunctor (0, 0), CFunctor (4, EINPROGRESS)] Connector_new =
   Inl AssertFail"
  by (simp add: connector_run_def connector_ops)

lemma stale_timer_asserts:
  "connector_run [CStart True (3, ECONNREFUSED), CStop, CStart True (4, EINPROGRESS), CTimer (5, EINPROGRESS)] Connector_new =
   Inl AssertFail"
  by (simp add: connector_run_def connector_ops)

lemma connect_again_asserts:
  "client_run [ClConnect True (3, EINPROGRESS), ClLoop (CEvents False True 0 False) ''1.2.3.4:80'', ClLoop (CFunctor (0, 0)) '''',
     ClClosed (0, 0), ClConnect True (4, EINPROGRESS)] (TcpClient_new ''c'') = Inl AssertFail"
  by (simp add: client_ops connector_ops)

end
