(* ===== verification/TcpServer.thy ===== *)
theory TcpServer
  imports Sockets
begin

text \<open>
  \<^verbatim>\<open>muduo/net/EventLoopThreadPool.cc\<close>, \<^verbatim>\<open>Acceptor.cc\<close> and \<^verbatim>\<open>TcpServer.cc\<close>. Loops are
  numbered; what the server asks a loop to run is recorded with the loop. A connection is known by
  its place in the order of acceptance.
\<close>

section \<open>EventLoopThreadPool\<close>

record EventLoopThreadPool =
  baseLoop :: nat
  loopPoolName :: string
  loopPoolStarted :: bool
  numThreads :: int
  nextLoop :: int
  loopThreads :: "string list"
  loops :: "nat list"

definition EventLoopThreadPool_new :: "nat \<Rightarrow> string \<Rightarrow> EventLoopThreadPool" where
  "EventLoopThreadPool_new base nm = \<lparr>baseLoop = base, loopPoolName = nm, loopPoolStarted = False, numThreads = 0, nextLoop = 0,
     loopThreads = [], loops = []\<rparr>"

definition pool_setThreadNum :: "int \<Rightarrow> EventLoopThreadPool \<Rightarrow> EventLoopThreadPool" where
  "pool_setThreadNum n p = p\<lparr>numThreads := n\<rparr>"

text \<open>\<open>inBase\<close> says whether the caller is the thread of the base loop; otherwise \<^verbatim>\<open>assertInLoopThread\<close> ends the program.\<close>

definition in_loop :: "bool \<Rightarrow> 'a res \<Rightarrow> 'a res" where
  "in_loop inBase r = (if inBase then r else Inl Fatal)"

text \<open>\<open>startLoop i\<close> is the loop that the thread \<open>i\<close> runs. Whether the callback runs on the base loop comes with the result.\<close>

definition looppool_start :: "bool \<Rightarrow> (nat \<Rightarrow> nat) \<Rightarrow> bool \<Rightarrow> EventLoopThreadPool \<Rightarrow> (bool \<times> EventLoopThreadPool) res" where
  "looppool_start inBase startLoop hasCallback p =
     assert_that (\<not> loopPoolStarted p) (in_loop inBase
       (let is = [0..<nat (numThreads p)]
        in Inr (numThreads p = 0 \<and> hasCallback,
             p\<lparr>loopPoolStarted := True,
               loopThreads := loopThreads p @
                 map (\<lambda>i. snprintf_buf (length (loopPoolName p) + 32) (loopPoolName p @ fmt_d (int i))) is,
               loops := loops p @ map startLoop is\<rparr>)))"

definition getNextLoop :: "bool \<Rightarrow> EventLoopThreadPool \<Rightarrow> (nat \<times> EventLoopThreadPool) res" where
  "getNextLoop inBase p =
     in_loop inBase (assert_that (loopPoolStarted p)
       (if loops p \<noteq> []
        then if nextLoop p < 0 \<or> nextLoop p \<ge> int (length (loops p)) then Inl UndefinedBehaviour
          else let loop = loops p ! nat (nextLoop p); next = nextLoop p + 1
               in ints32 [next] (Inr (loop, p\<lparr>nextLoop := if next \<ge> int (length (loops p)) then 0 else next\<rparr>))
        else Inr (baseLoop p, p)))"

definition getLoopForHash :: "bool \<Rightarrow> nat \<Rightarrow> EventLoopThreadPool \<Rightarrow> nat res" where
  "getLoopForHash inBase hashCode p =
     in_loop inBase (Inr (if loops p \<noteq> [] then loops p ! (hashCode mod length (loops p)) else baseLoop p))"

definition getAllLoops :: "bool \<Rightarrow> EventLoopThreadPool \<Rightarrow> nat list res" where
  "getAllLoops inBase p =
     in_loop inBase (assert_that (loopPoolStarted p) (Inr (if loops p = [] then [baseLoop p] else loops p)))"

section \<open>Acceptor\<close>

datatype acceptor_act = AcceptorOpen int | AcceptorClose int | Accepted int | WatchListen

record Acceptor =
  acceptFd :: int
  listening :: bool
  idleFd :: int
  acceptorActs :: "acceptor_act list"

definition acceptor_act :: "acceptor_act \<Rightarrow> Acceptor \<Rightarrow> Acceptor" where
  "acceptor_act x a = a\<lparr>acceptorActs := acceptorActs a @ [x]\<rparr>"

text \<open>The answers of \<^verbatim>\<open>socket\<close>, \<^verbatim>\<open>open\<close> and \<^verbatim>\<open>bind\<close>.\<close>

definition Acceptor_new :: "int \<Rightarrow> int \<Rightarrow> int \<Rightarrow> Acceptor res" where
  "Acceptor_new sock idle bound =
     bindE (createNonblockingOrDie sock) (\<lambda>fd.
       assert_that (idle \<ge> 0)
         (bindE (bindOrDie bound) (\<lambda>_.
           Inr \<lparr>acceptFd = fd, listening = False, idleFd = idle, acceptorActs = [AcceptorOpen fd, AcceptorOpen idle]\<rparr>)))"

definition acceptor_listen :: "bool \<Rightarrow> int \<Rightarrow> Acceptor \<Rightarrow> Acceptor res" where
  "acceptor_listen inBase listened a =
     in_loop inBase
       (let a = a\<lparr>listening := True\<rparr> in bindE (listenOrDie listened) (\<lambda>_. Inr (acceptor_act WatchListen a)))"

text \<open>
  The kernel's answers to one readable event: the accepted descriptor or the error; when descriptors
  ran out, what the second \<^verbatim>\<open>accept\<close> and the \<^verbatim>\<open>open\<close> that follows give. Closing \<open>-1\<close> does nothing.
\<close>

record accept_answer =
  ans_connfd :: int
  ans_errno :: int
  ans_second :: int
  ans_reopened :: int

definition close_fd :: "int \<Rightarrow> Acceptor \<Rightarrow> Acceptor" where
  "close_fd fd a = (if fd < 0 then a else acceptor_act (AcceptorClose fd) a)"

definition open_fd :: "int \<Rightarrow> Acceptor \<Rightarrow> Acceptor" where
  "open_fd fd a = (if fd < 0 then a else acceptor_act (AcceptorOpen fd) a)"

definition acceptor_handleRead :: "bool \<Rightarrow> bool \<Rightarrow> accept_answer \<Rightarrow> Acceptor \<Rightarrow> (int option \<times> Acceptor) res" where
  "acceptor_handleRead inBase hasCallback ans a =
     in_loop inBase (bindE (sockets_accept (ans_connfd ans) (ans_errno ans)) (\<lambda>connfd.
       if connfd \<ge> 0
       then let a = open_fd connfd a
            in if hasCallback then Inr (Some connfd, acceptor_act (Accepted connfd) a) else Inr (None, close_fd connfd a)
       else if ans_errno ans = EMFILE
       then let a = close_fd (idleFd a) a;
                a = open_fd (ans_second ans) (a\<lparr>idleFd := ans_second ans\<rparr>);
                a = close_fd (idleFd a) a;
                a = open_fd (ans_reopened ans) (a\<lparr>idleFd := ans_reopened ans\<rparr>)
            in Inr (None, a)
       else Inr (None, a)))"

definition Acceptor_destroy :: "Acceptor \<Rightarrow> Acceptor" where
  "Acceptor_destroy a = close_fd (acceptFd a) (close_fd (idleFd a) a)"

section \<open>TcpServer\<close>

datatype server_task = ConnectEstablished nat | ConnectDestroyed nat | ListenTask

datatype server_act = RunInLoop nat server_task | QueueInLoop nat server_task

record TcpServer =
  ipPort :: string
  serverName :: string
  acceptor :: Acceptor
  threadPool :: EventLoopThreadPool
  started :: int
  serverNextId :: int
  connections :: "string \<rightharpoonup> nat"
  created :: "(string \<times> nat) list"
  removals :: "nat list"
  serverActs :: "server_act list"

definition TcpServer_new :: "nat \<Rightarrow> string \<Rightarrow> string \<Rightarrow> Acceptor \<Rightarrow> TcpServer" where
  "TcpServer_new loop ip nm a = \<lparr>ipPort = ip, serverName = nm, acceptor = a, threadPool = EventLoopThreadPool_new loop nm, started = 0,
     serverNextId = 1, connections = Map.empty, created = [], removals = [], serverActs = []\<rparr>"

definition server_setThreadNum :: "int \<Rightarrow> TcpServer \<Rightarrow> TcpServer res" where
  "server_setThreadNum n s = assert_that (0 \<le> n) (Inr (s\<lparr>threadPool := pool_setThreadNum n (threadPool s)\<rparr>))"

definition server_act :: "server_act \<Rightarrow> TcpServer \<Rightarrow> TcpServer" where
  "server_act x s = s\<lparr>serverActs := serverActs s @ [x]\<rparr>"

definition server_start :: "bool \<Rightarrow> (nat \<Rightarrow> nat) \<Rightarrow> bool \<Rightarrow> TcpServer \<Rightarrow> TcpServer res" where
  "server_start inBase startLoop hasInit s =
     (let old = started s; s = s\<lparr>started := 1\<rparr>
      in if old = 0
         then bindE (looppool_start inBase startLoop hasInit (threadPool s)) (\<lambda>(_, p).
           assert_that (\<not> listening (acceptor s))
             (Inr (server_act (RunInLoop (baseLoop p) ListenTask) (s\<lparr>threadPool := p\<rparr>))))
         else Inr s)"

definition server_newConnection :: "bool \<Rightarrow> TcpServer \<Rightarrow> TcpServer res" where
  "server_newConnection inBase s =
     in_loop inBase (bindE (getNextLoop inBase (threadPool s)) (\<lambda>(ioLoop, p).
       let buf = snprintf_buf 64 (''-'' @ ipPort s @ ''#'' @ fmt_d (serverNextId s)); connName = serverName s @ buf; conn = length (created s)
       in ints32 [serverNextId s + 1]
         (Inr (server_act (RunInLoop ioLoop (ConnectEstablished conn))
           (s\<lparr>threadPool := p, serverNextId := serverNextId s + 1, created := created s @ [(connName, ioLoop)],
              connections := (connections s)(connName \<mapsto> conn)\<rparr>)))))"

text \<open>
  \<^verbatim>\<open>removeConnection\<close> runs in the loop of the connection: in the base loop it goes on at once, from
  another loop the removal is queued in the base loop.
\<close>

definition removeConnectionInLoop :: "bool \<Rightarrow> nat \<Rightarrow> TcpServer \<Rightarrow> TcpServer res" where
  "removeConnectionInLoop inBase conn s =
     in_loop inBase
       (let (connName, ioLoop) = created s ! conn; n = (if connections s connName = None then 0 else 1 :: nat);
            s = s\<lparr>connections := (connections s)(connName := None)\<rparr>
        in assert_that (n = 1) (Inr (server_act (QueueInLoop ioLoop (ConnectDestroyed conn)) s)))"

definition server_removeConnection :: "nat \<Rightarrow> TcpServer \<Rightarrow> TcpServer res" where
  "server_removeConnection conn s =
     (if snd (created s ! conn) = baseLoop (threadPool s)
      then removeConnectionInLoop True conn s
      else Inr (s\<lparr>removals := removals s @ [conn]\<rparr>))"

text \<open>The destructor visits the map in the order of the names; each loop is told to destroy its connections.\<close>

definition TcpServer_destroy :: "bool \<Rightarrow> nat list \<Rightarrow> TcpServer \<Rightarrow> TcpServer res" where
  "TcpServer_destroy inBase order s =
     in_loop inBase (Inr (fold (\<lambda>conn. server_act (RunInLoop (snd (created s ! conn)) (ConnectDestroyed conn))) order s))"

section \<open>Runs of a server\<close>

text \<open>
  The listening socket is readable; a connection calls its close callback; the base loop runs the next
  removal that another loop queued.
\<close>

datatype server_event = SvReadable accept_answer | SvClosed nat | SvFunctor

definition server_readable :: "accept_answer \<Rightarrow> TcpServer \<Rightarrow> TcpServer res" where
  "server_readable ans s =
     bindE (acceptor_handleRead True True ans (acceptor s)) (\<lambda>(connfd, a).
       let s = s\<lparr>acceptor := a\<rparr> in case connfd of Some fd \<Rightarrow> server_newConnection True s | None \<Rightarrow> Inr s)"

fun server_step :: "server_event \<Rightarrow> TcpServer \<Rightarrow> TcpServer res" where
  "server_step (SvReadable ans) s = server_readable ans s"
| "server_step (SvClosed conn) s = server_removeConnection conn s"
| "server_step SvFunctor s = (case removals s of [] \<Rightarrow> Inr s | conn # rest \<Rightarrow> removeConnectionInLoop True conn (s\<lparr>removals := rest\<rparr>))"

definition server_run :: "server_event list \<Rightarrow> TcpServer \<Rightarrow> TcpServer res" where
  "server_run evs s = foldE server_step evs s"

text \<open>A connection calls its close callback once, after it was made.\<close>

fun closes_ok :: "server_event list \<Rightarrow> nat set \<Rightarrow> TcpServer \<Rightarrow> bool" where
  "closes_ok [] closed s \<longleftrightarrow> True"
| "closes_ok (ev # evs) closed s \<longleftrightarrow>
     (case ev of SvClosed conn \<Rightarrow> conn < length (created s) \<and> conn \<notin> closed | _ \<Rightarrow> True) \<and>
     (case server_step ev s of
        Inr s' \<Rightarrow> closes_ok evs (case ev of SvClosed conn \<Rightarrow> insert conn closed | _ \<Rightarrow> closed) s'
      | Inl _ \<Rightarrow> True)"

section \<open>The registry of connections\<close>

definition conn_name :: "string \<Rightarrow> string \<Rightarrow> nat \<Rightarrow> string" where
  "conn_name nm ip i = nm @ snprintf_buf 64 (''-'' @ ip @ ''#'' @ fmt_d (int i + 1))"

definition conn_loop :: "nat \<Rightarrow> nat list \<Rightarrow> nat \<Rightarrow> nat" where
  "conn_loop base ls i = (if ls = [] then base else ls ! (i mod length ls))"

lemma conn_name_inj:
  assumes "length ip \<le> 51" "i < 2 ^ 31 - 1" "j < 2 ^ 31 - 1" "conn_name nm ip i = conn_name nm ip j"
  shows "i = j"
proof -
  have full: "conn_name nm ip k = nm @ ''-'' @ ip @ ''#'' @ dec_digits (k + 1)" if "k < 2 ^ 31 - 1" for k
  proof -
    have "fmt_d (int k + 1) = dec_digits (k + 1)" by (simp add: fmt_d_def nat_add_distrib del: of_nat_Suc)
    moreover have "length (dec_digits (k + 1)) \<le> 10" using dec_digits_length [of 10 "k + 1"] that by simp
    moreover have "take (64 - 1) (''-'' @ ip @ ''#'' @ dec_digits (k + 1)) = ''-'' @ ip @ ''#'' @ dec_digits (k + 1)"
      using calculation(2) assms(1) by (intro take_all) simp
    ultimately show ?thesis unfolding conn_name_def snprintf_buf_def by (simp only:)
  qed
  from full [OF assms(2)] full [OF assms(3)] assms(4) have "dec_digits (i + 1) = dec_digits (j + 1)" by simp
  then have "dec_value (dec_digits (i + 1)) = dec_value (dec_digits (j + 1))" by (rule arg_cong)
  then show ?thesis by simp
qed

text \<open>What the server asked for one connection, in order.\<close>

definition about :: "nat \<Rightarrow> server_act \<Rightarrow> bool" where
  "about i x \<longleftrightarrow> (\<exists>l. x = RunInLoop l (ConnectEstablished i) \<or> x = RunInLoop l (ConnectDestroyed i) \<or>
     x = QueueInLoop l (ConnectEstablished i) \<or> x = QueueInLoop l (ConnectDestroyed i))"

lemma about_simps [simp]:
  "about i (RunInLoop l (ConnectEstablished j)) \<longleftrightarrow> i = j" "about i (QueueInLoop l (ConnectDestroyed j)) \<longleftrightarrow> i = j"
  "\<not> about i (RunInLoop l ListenTask)"
  by (auto simp: about_def)

definition conn_story :: "nat \<Rightarrow> nat list \<Rightarrow> nat \<Rightarrow> nat set \<Rightarrow> nat \<Rightarrow> server_act list" where
  "conn_story base ls n gone i =
     (if i < n then [RunInLoop (conn_loop base ls i) (ConnectEstablished i)] else []) @
     (if i \<in> gone then [QueueInLoop (conn_loop base ls i) (ConnectDestroyed i)] else [])"

text \<open>\<open>closed\<close> is the set of connections that called their close callback.\<close>

definition server_inv :: "string \<Rightarrow> string \<Rightarrow> nat \<Rightarrow> nat list \<Rightarrow> nat set \<Rightarrow> TcpServer \<Rightarrow> bool" where
  "server_inv nm ip base ls closed s \<longleftrightarrow>
     serverName s = nm \<and> ipPort s = ip \<and> baseLoop (threadPool s) = base \<and> loops (threadPool s) = ls \<and> loopPoolStarted (threadPool s) \<and>
     (ls \<noteq> [] \<longrightarrow> nextLoop (threadPool s) = int (length (created s) mod length ls)) \<and>
     serverNextId s = int (length (created s)) + 1 \<and>
     (\<forall>i<length (created s). created s ! i = (conn_name nm ip i, conn_loop base ls i)) \<and>
     distinct (removals s) \<and> set (removals s) \<subseteq> closed \<and> closed \<subseteq> {..<length (created s)} \<and>
     (\<forall>name i. connections s name = Some i \<longleftrightarrow>
        i < length (created s) \<and> name = conn_name nm ip i \<and> (i \<in> closed \<longrightarrow> i \<in> set (removals s))) \<and>
     (\<forall>i. filter (about i) (serverActs s) = conn_story base ls (length (created s)) (closed - set (removals s)) i)"

lemma server_inv_created:
  "server_inv nm ip base ls closed s \<Longrightarrow> i < length (created s) \<Longrightarrow> created s ! i = (conn_name nm ip i, conn_loop base ls i)"
  by (simp add: server_inv_def)

lemma getNextLoop_inv:
  assumes "server_inv nm ip base ls closed s" "length ls < 2 ^ 31"
  shows "\<exists>p. getNextLoop True (threadPool s) = Inr (conn_loop base ls (length (created s)), p) \<and> baseLoop p = base \<and> loops p = ls \<and>
    loopPoolStarted p \<and> (ls \<noteq> [] \<longrightarrow> nextLoop p = int (Suc (length (created s)) mod length ls))"
proof -
  let ?n = "length (created s)" and ?p = "threadPool s"
  have p: "loops ?p = ls" "loopPoolStarted ?p" "baseLoop ?p = base" and nx: "ls \<noteq> [] \<longrightarrow> nextLoop ?p = int (?n mod length ls)"
    using assms(1) unfolding server_inv_def by blast+
  show ?thesis
  proof (cases "ls = []")
    case True
    then show ?thesis using p by (simp add: getNextLoop_def in_loop_def assert_that_def conn_loop_def)
  next
    case False
    define k where "k = ?n mod length ls"
    have lt: "k < length ls" using False by (simp add: k_def)
    have suc: "(if int k + 1 \<ge> int (length ls) then 0 else int k + 1) = int (Suc ?n mod length ls)"
      unfolding mod_Suc k_def [symmetric] using lt by auto
    have "in_int32 (int k + 1)" using lt assms(2) by (simp add: in_int32_def)
    moreover have "nextLoop ?p = int k" using nx False by (simp add: k_def)
    ultimately show ?thesis
      using False lt p suc unfolding conn_loop_def k_def [symmetric]
      by (simp add: getNextLoop_def in_loop_def assert_that_def ints32_def Let_def)
  qed
qed

lemma server_newConnection_inv:
  assumes s: "server_inv nm ip base ls closed s" and b: "length ls < 2 ^ 31" "length ip \<le> 51" "length (created s) < 2 ^ 31 - 2"
  shows "safeE {} (\<lambda>s'. server_inv nm ip base ls closed s' \<and> length (created s') = Suc (length (created s))) (server_newConnection True s)"
proof -
  let ?n = "length (created s)" and ?nm = "conn_name nm ip (length (created s))" and ?l = "conn_loop base ls (length (created s))"
  obtain p where p: "getNextLoop True (threadPool s) = Inr (?l, p)" "baseLoop p = base" "loops p = ls" "loopPoolStarted p"
      "ls \<noteq> [] \<longrightarrow> nextLoop p = int (Suc ?n mod length ls)"
    using getNextLoop_inv [OF s b(1)] by blast
  let ?s = "server_act (RunInLoop ?l (ConnectEstablished ?n)) (s\<lparr>threadPool := p, serverNextId := serverNextId s + 1,
      created := created s @ [(?nm, ?l)], connections := (connections s)(?nm \<mapsto> ?n)\<rparr>)"
  have id: "serverNextId s = int ?n + 1" "serverName s = nm" "ipPort s = ip" "closed \<subseteq> {..<?n}" using s by (simp_all add: server_inv_def)
  have r: "server_newConnection True s = Inr ?s"
    using b(3) p(1) id by (simp add: server_newConnection_def in_loop_def conn_name_def ints32_def in_int32_def Let_def)
  have other: "conn_name nm ip i \<noteq> ?nm" if "i < ?n" for i using conn_name_inj [OF b(2), of i ?n nm] that b(3) by auto
  have conns: "connections s name = Some i \<longleftrightarrow> i < ?n \<and> name = conn_name nm ip i \<and> (i \<in> closed \<longrightarrow> i \<in> set (removals s))" for name i
    using s by (simp add: server_inv_def)
  have "((connections s)(?nm \<mapsto> ?n)) name = Some i \<longleftrightarrow>
      i < Suc ?n \<and> name = conn_name nm ip i \<and> (i \<in> closed \<longrightarrow> i \<in> set (removals s))" for name i
  proof (cases "name = ?nm")
    case True
    then show ?thesis using other [of i] id(4) by (cases "i = ?n") (auto simp: less_Suc_eq)
  qed (use conns [of name i] in \<open>auto simp: less_Suc_eq\<close>)
  moreover have "filter (about i) (serverActs s @ [RunInLoop ?l (ConnectEstablished ?n)]) =
      conn_story base ls (Suc ?n) (closed - set (removals s)) i" for i
    using s id(4) by (auto simp: server_inv_def conn_story_def)
  moreover have "\<forall>i<Suc ?n. (created s @ [(?nm, ?l)]) ! i = (conn_name nm ip i, conn_loop base ls i)"
    using server_inv_created [OF s] by (simp add: less_Suc_eq nth_append)
  moreover have "distinct (removals s)" "set (removals s) \<subseteq> closed" "closed \<subseteq> {..<Suc ?n}"
    using s id(4) by (auto simp: server_inv_def)
  ultimately have "server_inv nm ip base ls closed ?s"
    unfolding server_inv_def server_act_def using p id(1-3) by simp
  then show ?thesis unfolding r by (simp add: server_act_def)
qed

lemma removeConnectionInLoop_inv:
  assumes s: "server_inv nm ip base ls (insert i closed) (s\<lparr>removals := i # removals s\<rparr>)" "i \<notin> set (removals s)"
    and b: "length ip \<le> 51" "length (created s) < 2 ^ 31 - 1"
  shows "safeE {} (\<lambda>s'. server_inv nm ip base ls (insert i closed) s' \<and> created s' = created s) (removeConnectionInLoop True i s)"
proof -
  let ?nm = "conn_name nm ip i" and ?l = "conn_loop base ls i"
  let ?s = "server_act (QueueInLoop ?l (ConnectDestroyed i)) (s\<lparr>connections := (connections s)(?nm := None)\<rparr>)"
  have i: "i < length (created s)" "connections s ?nm = Some i" using s(1) by (auto simp: server_inv_def)
  have "created s ! i = (?nm, ?l)" using server_inv_created [OF s(1), of i] i by simp
  then have r: "removeConnectionInLoop True i s = Inr ?s"
    using i by (simp add: removeConnectionInLoop_def in_loop_def assert_that_def)
  have conns: "connections s name = Some j \<longleftrightarrow>
      j < length (created s) \<and> name = conn_name nm ip j \<and> (j \<in> insert i closed \<longrightarrow> j \<in> set (i # removals s))" for name j
    using s(1) by (simp add: server_inv_def)
  have other: "conn_name nm ip j \<noteq> ?nm" if "j < length (created s)" "j \<noteq> i" for j
    using conn_name_inj [OF b(1), of j i nm] that b(2) i by auto
  have "((connections s)(?nm := None)) name = Some j \<longleftrightarrow>
      j < length (created s) \<and> name = conn_name nm ip j \<and> (j \<in> insert i closed \<longrightarrow> j \<in> set (removals s))" for name j
  proof (cases "name = ?nm")
    case True
    then show ?thesis using other [of j] s(2) by (cases "j = i") auto
  qed (use conns [of name j] in auto)
  moreover have "filter (about j) (serverActs s @ [QueueInLoop ?l (ConnectDestroyed i)]) =
      conn_story base ls (length (created s)) (insert i closed - set (removals s)) j" for j
    using s i(1) by (auto simp: server_inv_def conn_story_def)
  moreover have "set (removals s) \<subseteq> insert i closed" "distinct (removals s)" "insert i closed \<subseteq> {..<length (created s)}"
    using s(1) by (simp_all add: server_inv_def)
  ultimately have "server_inv nm ip base ls (insert i closed) ?s"
    using s(1) unfolding server_inv_def server_act_def by simp
  then show ?thesis unfolding r by (simp add: server_act_def)
qed

lemma server_inv_acceptor: "server_inv nm ip base ls closed (s\<lparr>acceptor := a\<rparr>) \<longleftrightarrow> server_inv nm ip base ls closed s"
  by (simp add: server_inv_def)

lemma server_readable_inv:
  assumes "server_inv nm ip base ls closed s" "length ls < 2 ^ 31" "length ip \<le> 51" "length (created s) < 2 ^ 31 - 2"
  shows "safeE {Fatal} (\<lambda>s'. server_inv nm ip base ls closed s' \<and> length (created s') \<le> Suc (length (created s))) (server_readable ans s)"
proof (cases "acceptor_handleRead True True ans (acceptor s)")
  case (Inl e)
  then have "e = Fatal"
    by (auto simp: acceptor_handleRead_def in_loop_def sockets_accept_def Let_def split: if_splits)
  then show ?thesis using Inl by (simp add: server_readable_def)
next
  case (Inr r)
  obtain connfd a where r: "r = (connfd, a)" by (cases r)
  have i: "server_inv nm ip base ls closed (s\<lparr>acceptor := a\<rparr>)" using assms(1) by (simp add: server_inv_acceptor)
  have "length (created (s\<lparr>acceptor := a\<rparr>)) < 2 ^ 31 - 2" using assms(4) by simp
  note new = safeE_faults [OF server_newConnection_inv [OF i assms(2,3) this], of "{Fatal}"]
  have "safeE {Fatal} (\<lambda>s'. server_inv nm ip base ls closed s' \<and> length (created s') \<le> Suc (length (created s)))
      (server_newConnection True (s\<lparr>acceptor := a\<rparr>))"
    by (rule safeE_mono [OF new]) simp_all
  then show ?thesis using Inr r i by (cases connfd) (simp_all add: server_readable_def Let_def)
qed

text \<open>A connection that closes: until the removal has run, it is one more to be removed.\<close>

lemma server_inv_closing:
  assumes "server_inv nm ip base ls closed s" "i < length (created s)" "i \<notin> closed"
    and "set rs = insert i (set (removals s))" "distinct rs"
  shows "server_inv nm ip base ls (insert i closed) (s\<lparr>removals := rs\<rparr>)"
proof -
  have "insert i closed - set rs = closed - set (removals s)" using assms(3,4) by auto
  moreover have "(j \<in> insert i closed \<longrightarrow> j \<in> set rs) \<longleftrightarrow> (j \<in> closed \<longrightarrow> j \<in> set (removals s))" for j
    using assms(3,4) by auto
  moreover have "set rs \<subseteq> insert i closed" "insert i closed \<subseteq> {..<length (created s)}"
    using assms by (auto simp: server_inv_def)
  ultimately show ?thesis using assms(1,5) unfolding server_inv_def by (simp del: insert_iff)
qed

lemma server_step_inv:
  assumes s: "server_inv nm ip base ls closed s" and b: "length ls < 2 ^ 31" "length ip \<le> 51" "length (created s) < 2 ^ 31 - 2"
    and ev: "case ev of SvClosed conn \<Rightarrow> conn < length (created s) \<and> conn \<notin> closed | _ \<Rightarrow> True"
  shows "safeE {Fatal} (\<lambda>s'. server_inv nm ip base ls (case ev of SvClosed conn \<Rightarrow> insert conn closed | _ \<Rightarrow> closed) s' \<and>
      length (created s') \<le> Suc (length (created s))) (server_step ev s)"
proof (cases ev)
  case (SvReadable ans)
  then show ?thesis using server_readable_inv [OF s b] by simp
next
  case (SvClosed i)
  have i: "i < length (created s)" "i \<notin> closed" using ev SvClosed by simp_all
  then have fresh: "i \<notin> set (removals s)" "distinct (removals s)" using s by (auto simp: server_inv_def)
  have c: "server_inv nm ip base ls (insert i closed) (s\<lparr>removals := i # removals s\<rparr>)"
    "server_inv nm ip base ls (insert i closed) (s\<lparr>removals := removals s @ [i]\<rparr>)"
    using fresh by (intro server_inv_closing [OF s i]; simp)+
  have "length (created s) < 2 ^ 31 - 1" using b(3) by simp
  from safeE_faults [OF removeConnectionInLoop_inv [OF c(1) fresh(1) b(2) this], of "{Fatal}"]
  have "safeE {Fatal} (\<lambda>s'. server_inv nm ip base ls (insert i closed) s' \<and> length (created s') \<le> Suc (length (created s)))
      (removeConnectionInLoop True i s)"
    by (rule safeE_mono) simp_all
  then show ?thesis using c(2) SvClosed by (simp add: server_removeConnection_def)
next
  case SvFunctor
  show ?thesis
  proof (cases "removals s")
    case Nil
    then show ?thesis using SvFunctor s by simp
  next
    case (Cons i rest)
    let ?s = "s\<lparr>removals := rest\<rparr>"
    have "?s\<lparr>removals := i # removals ?s\<rparr> = s" "i \<in> closed" "i \<notin> set (removals ?s)" "length (created ?s) < 2 ^ 31 - 1"
      using Cons s b(3) by (auto simp: server_inv_def)
    moreover from this have "insert i closed = closed" by blast
    ultimately have "safeE {} (\<lambda>s'. server_inv nm ip base ls closed s' \<and> created s' = created ?s) (removeConnectionInLoop True i ?s)"
      using removeConnectionInLoop_inv [of nm ip base ls i closed ?s, OF _ _ b(2)] s by simp
    from safeE_faults [OF this, of "{Fatal}"]
    have "safeE {Fatal} (\<lambda>s'. server_inv nm ip base ls closed s' \<and> length (created s') \<le> Suc (length (created s)))
        (removeConnectionInLoop True i ?s)"
      by (rule safeE_mono) simp_all
    then show ?thesis using SvFunctor Cons by simp
  qed
qed

definition closed_in :: "server_event list \<Rightarrow> nat set" where
  "closed_in evs = {i. SvClosed i \<in> set evs}"

lemma closed_in_Cons: "closed_in (ev # evs) = (case ev of SvClosed i \<Rightarrow> insert i (closed_in evs) | _ \<Rightarrow> closed_in evs)"
  by (auto simp: closed_in_def split: server_event.splits)

lemma server_run_inv:
  assumes "server_inv nm ip base ls closed s" "length ls < 2 ^ 31" "length ip \<le> 51" "length (created s) + length evs < 2 ^ 31 - 1"
    and "closes_ok evs closed s"
  shows "safeE {Fatal} (\<lambda>s'. server_inv nm ip base ls (closed \<union> closed_in evs) s' \<and> length (created s') \<le> length (created s) + length evs)
    (server_run evs s)"
  using assms
proof (induction evs arbitrary: s closed)
  case Nil
  then show ?case by (simp add: server_run_def closed_in_def)
next
  case (Cons ev evs)
  let ?closed = "case ev of SvClosed conn \<Rightarrow> insert conn closed | _ \<Rightarrow> closed"
  have "length (created s) < 2 ^ 31 - 2" using Cons.prems(4) by simp
  from server_step_inv [OF Cons.prems(1-3) this, of ev] Cons.prems(5)
  have "safeE {Fatal} (\<lambda>s'. server_inv nm ip base ls ?closed s' \<and> length (created s') \<le> Suc (length (created s)) \<and> closes_ok evs ?closed s')
      (server_step ev s)"
    by (cases "server_step ev s") simp_all
  then have "safeE {Fatal} (\<lambda>s'. server_inv nm ip base ls (?closed \<union> closed_in evs) s' \<and>
      length (created s') \<le> length (created s) + length (ev # evs)) (bindE (server_step ev s) (server_run evs))"
  proof (rule safeE_bind)
    fix t assume t: "server_inv nm ip base ls ?closed t \<and> length (created t) \<le> Suc (length (created s)) \<and> closes_ok evs ?closed t"
    then have "length (created t) + length evs < 2 ^ 31 - 1" using Cons.prems(4) by simp
    then have "safeE {Fatal} (\<lambda>s'. server_inv nm ip base ls (?closed \<union> closed_in evs) s' \<and> length (created s') \<le> length (created t) + length evs)
        (server_run evs t)"
      using Cons.IH [OF _ Cons.prems(2,3)] t by blast
    then show "safeE {Fatal} (\<lambda>s'. server_inv nm ip base ls (?closed \<union> closed_in evs) s' \<and>
      length (created s') \<le> length (created s) + length (ev # evs)) (server_run evs t)"
      by (rule safeE_mono) (use t in auto)
  qed
  moreover have "?closed \<union> closed_in evs = closed \<union> closed_in (ev # evs)" by (auto simp: closed_in_Cons split: server_event.splits)
  ultimately show ?case by (simp add: server_run_def [abs_def])
qed

text \<open>
  C13. A started server accepts and loses connections in any order, from any of its loops. Its map always
  holds exactly the connections that were made and not yet removed, under distinct names; the \<open>i\<close>-th
  connection belongs to the loop that is \<open>i\<close>-th in turn; for each connection the server asks that loop
  for \<^verbatim>\<open>connectEstablished\<close> once and, after it closed, for \<^verbatim>\<open>connectDestroyed\<close> once; no assertion
  fails.
\<close>

theorem server_connections:
  assumes start: "bindE (server_setThreadNum n (TcpServer_new base ip nm a)) (server_start True startLoop hasInit) = Inr s0"
    and "n < 2 ^ 31" "length ip \<le> 51" "length evs < 2 ^ 31 - 1" "closes_ok evs {} s0"
  shows "safeE {Fatal} (\<lambda>s. distinct (map fst (created s)) \<and>
      (\<forall>name i. connections s name = Some i \<longleftrightarrow>
         i < length (created s) \<and> name = fst (created s ! i) \<and> (i \<in> closed_in evs \<longrightarrow> i \<in> set (removals s))) \<and>
      (\<forall>i<length (created s). snd (created s ! i) = conn_loop base (map startLoop [0..<nat n]) i) \<and>
      (\<forall>i. filter (about i) (serverActs s) =
         conn_story base (map startLoop [0..<nat n]) (length (created s)) (closed_in evs - set (removals s)) i))
    (server_run evs s0)"
proof -
  let ?ls = "map startLoop [0..<nat n]"
  have "server_inv nm ip base ?ls {} s0" "created s0 = []"
    using start
    by (auto simp: server_setThreadNum_def server_start_def TcpServer_new_def looppool_start_def pool_setThreadNum_def in_loop_def
        EventLoopThreadPool_new_def assert_that_def server_act_def server_inv_def conn_story_def about_def Let_def split: if_splits)
  then have r: "safeE {Fatal} (\<lambda>s. server_inv nm ip base ?ls ({} \<union> closed_in evs) s \<and> length (created s) \<le> length (created s0) + length evs)
      (server_run evs s0)"
    using assms(2-) by (intro server_run_inv) simp_all
  have names: "distinct (map fst (created s))" if "server_inv nm ip base ?ls closed s" "length (created s) < 2 ^ 31 - 1" for closed s
    using that(2) conn_name_inj [OF assms(3), of _ _ nm]
    by (fastforce simp: distinct_conv_nth server_inv_created [OF that(1)])
  show ?thesis
  proof (rule safeE_mono [OF r])
    fix s assume "server_inv nm ip base ?ls ({} \<union> closed_in evs) s \<and> length (created s) \<le> length (created s0) + length evs"
    then have s: "server_inv nm ip base ?ls (closed_in evs) s" "length (created s) < 2 ^ 31 - 1"
      using assms(4) \<open>created s0 = []\<close> by simp_all
    from s(1) show "distinct (map fst (created s)) \<and>
      (\<forall>name i. connections s name = Some i \<longleftrightarrow>
         i < length (created s) \<and> name = fst (created s ! i) \<and> (i \<in> closed_in evs \<longrightarrow> i \<in> set (removals s))) \<and>
      (\<forall>i<length (created s). snd (created s ! i) = conn_loop base ?ls i) \<and>
      (\<forall>i. filter (about i) (serverActs s) = conn_story base ?ls (length (created s)) (closed_in evs - set (removals s)) i)"
      using names [OF s] by (auto simp: server_inv_def)
  qed
qed

section \<open>Examples\<close>

definition sample_answer :: "int \<Rightarrow> accept_answer" where
  "sample_answer fd = \<lparr>ans_connfd = fd, ans_errno = 0, ans_second = -1, ans_reopened = -1\<rparr>"

definition sample_acceptor :: Acceptor where
  "sample_acceptor = \<lparr>acceptFd = 3, listening = False, idleFd = 4, acceptorActs = []\<rparr>"

definition sample_server :: TcpServer where
  "sample_server = (case bindE (server_setThreadNum 2 (TcpServer_new 0 ''1.2.3.4:80'' ''S'' sample_acceptor)) (server_start True Suc False) of
     Inr s \<Rightarrow> s | Inl _ \<Rightarrow> TcpServer_new 0 [] [] sample_acceptor)"

definition sample_server_events :: "server_event list" where
  "sample_server_events = [SvReadable (sample_answer 5), SvReadable (sample_answer 6), SvReadable (sample_answer 7), SvClosed 1, SvFunctor]"

lemmas server_ops = server_setThreadNum_def server_start_def TcpServer_new_def looppool_start_def pool_setThreadNum_def in_loop_def
  EventLoopThreadPool_new_def assert_that_def server_act_def server_readable_def acceptor_handleRead_def sockets_accept_def open_fd_def
  acceptor_act_def server_newConnection_def getNextLoop_def ints32_def in_int32_def server_removeConnection_def removeConnectionInLoop_def
  sample_answer_def sample_acceptor_def Let_def

lemma digit_char_eq: "a < 10 \<Longrightarrow> b < 10 \<Longrightarrow> digit_char a = digit_char b \<longleftrightarrow> a = b"
  by (metis char_digit_char option.inject)

theorem server_connections_witness:
  "\<exists>s. server_run sample_server_events sample_server = Inr s \<and>
     filter (about 1) (serverActs s) = [RunInLoop 2 (ConnectEstablished 1), QueueInLoop 2 (ConnectDestroyed 1)] \<and>
     snd (created s ! 2) = 1"
proof -
  have start: "bindE (server_setThreadNum 2 (TcpServer_new 0 ''1.2.3.4:80'' ''S'' sample_acceptor)) (server_start True Suc False) =
      Inr sample_server"
    by (simp add: sample_server_def server_ops)
  have loops: "map Suc [0..<nat 2] = [1, 2]" by (simp add: upt_rec)
  note names = snprintf_buf_def fmt_d_def dec_digits_small digit_char_eq
  have ok: "closes_ok sample_server_events {} sample_server"
    by (simp add: sample_server_events_def sample_server_def server_ops names upt_rec)
  obtain s where s: "server_run sample_server_events sample_server = Inr s" "length (created s) = 3" "removals s = []"
    by (simp add: server_run_def sample_server_events_def sample_server_def server_ops names upt_rec)
  have "closed_in sample_server_events = {1}" by (auto simp: closed_in_def sample_server_events_def)
  with server_connections [OF start _ _ _ ok] s show ?thesis
    by (auto simp: loops conn_story_def conn_loop_def sample_server_events_def)
qed

end
