(* ===== verification/Rpc.thy ===== *)
theory Rpc
  imports Prelude
begin

text \<open>
  \<^verbatim>\<open>muduo/net/protorpc/RpcChannel.cc\<close> and \<^verbatim>\<open>RpcServer.cc\<close>, with the counter of \<^verbatim>\<open>muduo/base/Atomic.h\<close>: both ends
  of a channel, and the two joined by a connection that keeps messages in order. Services, and the
  parsing of their requests, are protobuf's: they are arguments.
\<close>

section \<open>Atomic\<close>

text \<open>The atomic built-ins wrap around; the addition after them is a signed one, which must not overflow.\<close>

definition atomic_get :: "'a::len word \<Rightarrow> 'a word" where
  "atomic_get value = value"

definition getAndAdd :: "'a::len word \<Rightarrow> 'a word \<Rightarrow> 'a word \<times> 'a word" where
  "getAndAdd x value = (value, value + x)"

definition addAndGet :: "'a::len word \<Rightarrow> 'a word \<Rightarrow> ('a word \<times> 'a word) res" where
  "addAndGet x value =
     (let (old, value) = getAndAdd x value
      in if sint (old + x) = sint old + sint x then Inr (old + x, value) else Inl UndefinedBehaviour)"

definition incrementAndGet :: "'a::len word \<Rightarrow> ('a word \<times> 'a word) res" where
  "incrementAndGet value = addAndGet 1 value"

definition decrementAndGet :: "'a::len word \<Rightarrow> ('a word \<times> 'a word) res" where
  "decrementAndGet value = addAndGet (-1) value"

definition atomic_add :: "'a::len word \<Rightarrow> 'a word \<Rightarrow> 'a word" where
  "atomic_add x value = snd (getAndAdd x value)"

definition increment :: "'a::len word \<Rightarrow> 'a word res" where
  "increment value = bindE (incrementAndGet value) (\<lambda>(_, value). Inr value)"

definition decrement :: "'a::len word \<Rightarrow> 'a word res" where
  "decrement value = bindE (decrementAndGet value) (\<lambda>(_, value). Inr value)"

definition getAndSet :: "'a::len word \<Rightarrow> 'a word \<Rightarrow> 'a word \<times> 'a word" where
  "getAndSet newValue value = (value, newValue)"

section \<open>Messages\<close>

datatype MessageType = REQUEST | RESPONSE | ERROR

datatype RpcErrorCode = NO_ERROR | WRONG_PROTO | NO_SERVICE | NO_METHOD | INVALID_REQUEST | INVALID_RESPONSE | TIMEOUT

record RpcMessage =
  rm_type :: MessageType
  rm_id :: "64 word"
  service :: string
  rm_method :: string
  request :: "string option"
  response :: "string option"
  error :: "RpcErrorCode option"

definition RpcMessage_new :: "MessageType \<Rightarrow> 64 word \<Rightarrow> RpcMessage" where
  "RpcMessage_new t i = \<lparr>rm_type = t, rm_id = i, service = '''', rm_method = '''', request = None, response = None, error = None\<rparr>"

section \<open>RpcChannel\<close>

text \<open>Response objects and closures are numbered; NULL is \<open>None\<close>.\<close>

record OutstandingCall =
  out_response :: "nat option"
  out_done :: "nat option"

text \<open>
  A service: its methods by name, each with the parser of its requests. What the channel does outside
  itself is a list of effects.
\<close>

type_synonym services = "string \<rightharpoonup> (string \<rightharpoonup> (string \<Rightarrow> bool))"

record RpcChannel =
  nextId :: "64 word"
  outstandings :: "64 word \<rightharpoonup> OutstandingCall"
  services :: "services option"

datatype rpc_effect =
    SendMessage RpcMessage | ParseInto nat string | RunDone nat | DeleteResponse nat | DeleteDone nat | CallService string string string "64 word"

definition RpcChannel_new :: RpcChannel where
  "RpcChannel_new = \<lparr>nextId = 0, outstandings = Map.empty, services = None\<rparr>"

definition setServices :: "services \<Rightarrow> RpcChannel \<Rightarrow> RpcChannel" where
  "setServices svs c = c\<lparr>services := Some svs\<rparr>"

definition CallMethod :: "string \<Rightarrow> string \<Rightarrow> string \<Rightarrow> OutstandingCall \<Rightarrow> RpcChannel \<Rightarrow> (rpc_effect list \<times> RpcChannel) res" where
  "CallMethod serviceName methodName requestBytes out c =
     bindE (incrementAndGet (nextId c)) (\<lambda>(i, counter).
       let message = (RpcMessage_new REQUEST i)\<lparr>service := serviceName, rm_method := methodName, request := Some requestBytes\<rparr>
       in Inr ([SendMessage message], c\<lparr>nextId := counter, outstandings := (outstandings c)(i \<mapsto> out)\<rparr>))"

text \<open>The fields of an absent optional string read as empty.\<close>

definition optional :: "string option \<Rightarrow> string" where
  "optional field = (case field of Some v \<Rightarrow> v | None \<Rightarrow> '''')"

definition rpc_onResponse :: "RpcMessage \<Rightarrow> RpcChannel \<Rightarrow> (rpc_effect list \<times> RpcChannel) res" where
  "rpc_onResponse message c =
     assert_that (response message \<noteq> None \<or> error message \<noteq> None)
       (case outstandings c (rm_id message) of
          None \<Rightarrow> Inr ([], c)
        | Some out \<Rightarrow>
            let c = c\<lparr>outstandings := (outstandings c)(rm_id message := None)\<rparr>
            in case out_response out of
                 None \<Rightarrow> Inr ([], c)
               | Some r \<Rightarrow>
                   Inr ((case response message of Some bytes \<Rightarrow> [ParseInto r bytes] | None \<Rightarrow> []) @
                     (case out_done out of Some d \<Rightarrow> [RunDone d] | None \<Rightarrow> []) @ [DeleteResponse r], c))"

definition rpc_onRequest :: "RpcMessage \<Rightarrow> RpcChannel \<Rightarrow> (rpc_effect list \<times> RpcChannel) res" where
  "rpc_onRequest message c =
     (let (called, err) =
        (case services c of
           None \<Rightarrow> ([], NO_SERVICE)
         | Some svs \<Rightarrow>
             (case svs (service message) of
                None \<Rightarrow> ([], NO_SERVICE)
              | Some methods \<Rightarrow>
                  (case methods (rm_method message) of
                     None \<Rightarrow> ([], NO_METHOD)
                   | Some parses \<Rightarrow>
                       if parses (optional (request message))
                       then ([CallService (service message) (rm_method message) (optional (request message)) (rm_id message)], NO_ERROR)
                       else ([], INVALID_REQUEST))))
      in Inr (called @ (if err \<noteq> NO_ERROR then [SendMessage ((RpcMessage_new RESPONSE (rm_id message))\<lparr>error := Some err\<rparr>)] else []), c))"

definition onRpcMessage :: "bool \<Rightarrow> RpcMessage \<Rightarrow> RpcChannel \<Rightarrow> (rpc_effect list \<times> RpcChannel) res" where
  "onRpcMessage sameConn message c =
     assert_that sameConn
       (case rm_type message of RESPONSE \<Rightarrow> rpc_onResponse message c | REQUEST \<Rightarrow> rpc_onRequest message c | ERROR \<Rightarrow> Inr ([], c))"

definition doneCallback :: "string \<Rightarrow> 64 word \<Rightarrow> rpc_effect list" where
  "doneCallback responseBytes i = [SendMessage ((RpcMessage_new RESPONSE i)\<lparr>response := Some responseBytes\<rparr>)]"

text \<open>The destructor visits the outstanding calls in the order of their numbers; deleting NULL does nothing.\<close>

definition RpcChannel_destroy :: "64 word list \<Rightarrow> RpcChannel \<Rightarrow> rpc_effect list" where
  "RpcChannel_destroy order c =
     concat (map (\<lambda>i. case outstandings c i of
         Some out \<Rightarrow> (case out_response out of Some r \<Rightarrow> [DeleteResponse r] | None \<Rightarrow> []) @
           (case out_done out of Some d \<Rightarrow> [DeleteDone d] | None \<Rightarrow> [])
       | None \<Rightarrow> []) order)"

section \<open>RpcServer\<close>

definition registerService :: "string \<Rightarrow> (string \<rightharpoonup> (string \<Rightarrow> bool)) \<Rightarrow> services \<Rightarrow> services" where
  "registerService full_name methods svs = svs(full_name \<mapsto> methods)"

text \<open>The context of a connection: a channel while it is up.\<close>

definition rpc_onConnection :: "bool \<Rightarrow> services \<Rightarrow> RpcChannel option" where
  "rpc_onConnection connected svs = (if connected then Some (setServices svs RpcChannel_new) else None)"

section \<open>A client and a server\<close>

text \<open>
  The connection delivers messages in order in each direction. The services answer the calls they
  received in any order: \<open>serves s m q r\<close> says that \<open>r\<close> is an answer to the request \<open>q\<close>. The call \<open>n\<close> uses the
  response object and the closure \<open>n\<close>; \<open>results\<close> lists the closures run with what their response
  object holds.
\<close>

record rpc_system =
  client :: RpcChannel
  server :: RpcChannel
  toServer :: "RpcMessage list"
  toClient :: "RpcMessage list"
  working :: "(string \<times> string \<times> string \<times> 64 word) list"
  calls :: "(string \<times> string \<times> string) list"
  results :: "(nat \<times> string option) list"

fun sent :: "rpc_effect list \<Rightarrow> RpcMessage list" where
  "sent [] = []"
| "sent (SendMessage m # es) = m # sent es"
| "sent (_ # es) = sent es"

fun called :: "rpc_effect list \<Rightarrow> (string \<times> string \<times> string \<times> 64 word) list" where
  "called [] = []"
| "called (CallService s m q i # es) = (s, m, q, i) # called es"
| "called (_ # es) = called es"

fun ran :: "(nat \<rightharpoonup> string) \<Rightarrow> rpc_effect list \<Rightarrow> (nat \<times> string option) list" where
  "ran filled [] = []"
| "ran filled (ParseInto r bytes # es) = ran (filled(r \<mapsto> bytes)) es"
| "ran filled (RunDone d # es) = (d, filled d) # ran filled es"
| "ran filled (_ # es) = ran filled es"

inductive rpc_step ::
    "(string \<Rightarrow> string \<Rightarrow> string \<Rightarrow> string \<Rightarrow> bool) \<Rightarrow> rpc_system \<Rightarrow> rpc_system \<Rightarrow> bool" for serves where
  call: "n = length (calls y) \<Longrightarrow>
    CallMethod s m q \<lparr>out_response = Some n, out_done = Some n\<rparr> (client y) = Inr (es, c) \<Longrightarrow>
    rpc_step serves y (y\<lparr>client := c, toServer := toServer y @ sent es, calls := calls y @ [(s, m, q)]\<rparr>)"
| serve: "toServer y = msg # rest \<Longrightarrow> onRpcMessage True msg (server y) = Inr (es, c) \<Longrightarrow>
    rpc_step serves y (y\<lparr>server := c, toServer := rest, toClient := toClient y @ sent es, working := working y @ called es\<rparr>)"
| finish: "working y = before @ (s, m, q, i) # after \<Longrightarrow> serves s m q r \<Longrightarrow>
    rpc_step serves y (y\<lparr>working := before @ after, toClient := toClient y @ sent (doneCallback r i)\<rparr>)"
| receive: "toClient y = msg # rest \<Longrightarrow> onRpcMessage True msg (client y) = Inr (es, c) \<Longrightarrow>
    rpc_step serves y (y\<lparr>client := c, toClient := rest, results := results y @ ran Map.empty es\<rparr>)"

definition rpc_start :: "services \<Rightarrow> rpc_system" where
  "rpc_start svs = \<lparr>client = RpcChannel_new, server = setServices svs RpcChannel_new, toServer = [], toClient = [], working = [],
     calls = [], results = []\<rparr>"

section \<open>Each call is answered once\<close>

definition call_id :: "nat \<Rightarrow> 64 word" where
  "call_id n = of_nat (Suc n)"

lemma unat_call_id: "n < 2 ^ 64 - 1 \<Longrightarrow> unat (call_id n) = Suc n"
proof -
  assume "n < 2 ^ 64 - 1"
  then have "Suc n < 2 ^ LENGTH(64)" by simp
  then show ?thesis unfolding call_id_def unat_of_nat by (rule mod_less)
qed

lemma call_id_inj: "n < 2 ^ 64 - 1 \<Longrightarrow> k < 2 ^ 64 - 1 \<Longrightarrow> call_id n = call_id k \<longleftrightarrow> n = k"
proof -
  assume n: "n < 2 ^ 64 - 1" and k: "k < 2 ^ 64 - 1"
  show ?thesis using unat_call_id [OF n] unat_call_id [OF k] by (metis nat.inject)
qed

definition accepted :: "services \<Rightarrow> string \<Rightarrow> string \<Rightarrow> string \<Rightarrow> bool" where
  "accepted svs s m q \<longleftrightarrow> (\<exists>methods parses. svs s = Some methods \<and> methods m = Some parses \<and> parses q)"

definition request_of :: "nat \<Rightarrow> string \<times> string \<times> string \<Rightarrow> RpcMessage" where
  "request_of n c = (case c of (s, m, q) \<Rightarrow> (RpcMessage_new REQUEST (call_id n))\<lparr>service := s, rm_method := m, request := Some q\<rparr>)"

text \<open>A right answer to a call: what a service gave, or an error if no service accepts it.\<close>

definition right_answer ::
    "(string \<Rightarrow> string \<Rightarrow> string \<Rightarrow> string \<Rightarrow> bool) \<Rightarrow> services \<Rightarrow> string \<times> string \<times> string \<Rightarrow> string option \<Rightarrow> bool" where
  "right_answer serves svs c r \<longleftrightarrow> (case c of (s, m, q) \<Rightarrow> if accepted svs s m q then \<exists>b. r = Some b \<and> serves s m q b else r = None)"

definition reply_to ::
    "(string \<Rightarrow> string \<Rightarrow> string \<Rightarrow> string \<Rightarrow> bool) \<Rightarrow> services \<Rightarrow> nat \<Rightarrow> string \<times> string \<times> string \<Rightarrow> RpcMessage \<Rightarrow> bool" where
  "reply_to serves svs n c msg \<longleftrightarrow> rm_type msg = RESPONSE \<and> rm_id msg = call_id n \<and> right_answer serves svs c (response msg) \<and>
     (response msg \<noteq> None \<or> error msg \<noteq> None)"

definition tokens :: "rpc_system \<Rightarrow> 64 word list" where
  "tokens y = map rm_id (toServer y) @ map (\<lambda>(s, m, q, i). i) (working y) @ map rm_id (toClient y)"

definition tokens_ok :: "rpc_system \<Rightarrow> bool" where
  "tokens_ok y \<longleftrightarrow> distinct (tokens y) \<and> set (tokens y) = call_id ` {n. n < length (calls y) \<and> n \<notin> fst ` set (results y)}"

definition outstandings_ok :: "rpc_system \<Rightarrow> bool" where
  "outstandings_ok y \<longleftrightarrow> nextId (client y) = of_nat (length (calls y)) \<and>
     dom (outstandings (client y)) \<subseteq> call_id ` {..<length (calls y)} \<and>
     (\<forall>n<length (calls y). outstandings (client y) (call_id n) =
        (if n \<in> fst ` set (results y) then None else Some \<lparr>out_response = Some n, out_done = Some n\<rparr>))"

definition requests_ok :: "rpc_system \<Rightarrow> bool" where
  "requests_ok y \<longleftrightarrow> (\<forall>msg\<in>set (toServer y). \<exists>n<length (calls y). msg = request_of n (calls y ! n))"

definition working_ok :: "services \<Rightarrow> rpc_system \<Rightarrow> bool" where
  "working_ok svs y \<longleftrightarrow> services (server y) = Some svs \<and>
     (\<forall>s m q i. (s, m, q, i) \<in> set (working y) \<longrightarrow>
        accepted svs s m q \<and> (\<exists>n<length (calls y). i = call_id n \<and> calls y ! n = (s, m, q)))"

definition replies_ok :: "(string \<Rightarrow> string \<Rightarrow> string \<Rightarrow> string \<Rightarrow> bool) \<Rightarrow> services \<Rightarrow> rpc_system \<Rightarrow> bool" where
  "replies_ok serves svs y \<longleftrightarrow> (\<forall>msg\<in>set (toClient y). \<exists>n<length (calls y). reply_to serves svs n (calls y ! n) msg)"

definition results_ok :: "(string \<Rightarrow> string \<Rightarrow> string \<Rightarrow> string \<Rightarrow> bool) \<Rightarrow> services \<Rightarrow> rpc_system \<Rightarrow> bool" where
  "results_ok serves svs y \<longleftrightarrow> distinct (map fst (results y)) \<and>
     (\<forall>n r. (n, r) \<in> set (results y) \<longrightarrow> n < length (calls y) \<and> right_answer serves svs (calls y ! n) r)"

definition rpc_inv :: "(string \<Rightarrow> string \<Rightarrow> string \<Rightarrow> string \<Rightarrow> bool) \<Rightarrow> services \<Rightarrow> rpc_system \<Rightarrow> bool" where
  "rpc_inv serves svs y \<longleftrightarrow> tokens_ok y \<and> outstandings_ok y \<and> requests_ok y \<and> working_ok svs y \<and> replies_ok serves svs y \<and>
     results_ok serves svs y"

lemmas rpc_parts = tokens_ok_def outstandings_ok_def requests_ok_def working_ok_def replies_ok_def results_ok_def

lemma rpc_inv_start: "rpc_inv serves svs (rpc_start svs)"
  by (simp add: rpc_inv_def rpc_parts rpc_start_def RpcChannel_new_def setServices_def tokens_def)

lemma next_call_id:
  assumes "n < 2 ^ 63 - 1"
  shows "incrementAndGet (of_nat n :: 64 word) = Inr (call_id n, call_id n)"
proof -
  have "sint (of_nat n :: 64 word) = int n" "sint (of_nat (Suc n) :: 64 word) = int (Suc n)"
    using assms unfolding signed_of_nat by (simp_all add: signed_take_bit_int_eq_self)
  then show ?thesis by (simp add: incrementAndGet_def addAndGet_def getAndAdd_def call_id_def add.commute)
qed

lemma call_effects:
  assumes "nextId c = of_nat n" "n < 2 ^ 63 - 1"
  shows "CallMethod s m q out c =
    Inr ([SendMessage (request_of n (s, m, q))], c\<lparr>nextId := call_id n, outstandings := (outstandings c)(call_id n \<mapsto> out)\<rparr>)"
  unfolding CallMethod_def assms(1) next_call_id [OF assms(2)] by (simp add: request_of_def)

lemma serve_effects:
  assumes "services c = Some svs"
  shows "\<exists>err. onRpcMessage True (request_of n (s, m, q)) c =
    Inr (if accepted svs s m q then [CallService s m q (call_id n)]
         else [SendMessage ((RpcMessage_new RESPONSE (call_id n))\<lparr>error := Some err\<rparr>)], c)"
  using assms
  by (auto simp: onRpcMessage_def rpc_onRequest_def assert_that_def request_of_def RpcMessage_new_def optional_def accepted_def Let_def
      split: option.splits)

lemma receive_effects:
  assumes "reply_to serves svs n c msg" "outstandings ch (call_id n) = Some \<lparr>out_response = Some n, out_done = Some n\<rparr>"
  shows "\<exists>es. onRpcMessage True msg ch = Inr (es, ch\<lparr>outstandings := (outstandings ch)(call_id n := None)\<rparr>) \<and>
    ran Map.empty es = [(n, response msg)]"
  using assms
  by (auto simp: onRpcMessage_def rpc_onResponse_def assert_that_def reply_to_def Let_def split: option.splits)

lemma rpc_call_inv:
  assumes y: "rpc_inv serves svs y" and b: "length (calls y) < 2 ^ 63 - 1"
    and c: "CallMethod s m q \<lparr>out_response = Some (length (calls y)), out_done = Some (length (calls y))\<rparr> (client y) = Inr (es, ch)"
  shows "rpc_inv serves svs (y\<lparr>client := ch, toServer := toServer y @ sent es, calls := calls y @ [(s, m, q)]\<rparr>)"
proof -
  let ?N = "length (calls y)" and ?D = "fst ` set (results y)" and ?calls = "calls y @ [(s, m, q)]"
  let ?y = "y\<lparr>client := ch, toServer := toServer y @ sent es, calls := ?calls\<rparr>"
  have o: "outstandings_ok y" and res: "?D \<subseteq> {..<?N}" using y by (auto simp: rpc_inv_def results_ok_def)
  then have "nextId (client y) = of_nat ?N" by (simp add: outstandings_ok_def)
  from call_effects [OF this b] c have es: "es = [SendMessage (request_of ?N (s, m, q))]"
    and ch: "ch = (client y)\<lparr>nextId := call_id ?N, outstandings := (outstandings (client y))
      (call_id ?N \<mapsto> \<lparr>out_response = Some ?N, out_done = Some ?N\<rparr>)\<rparr>"
    by simp_all
  have new: "call_id n \<noteq> call_id ?N" if "n < ?N" for n using call_id_inj [of ?N n] that b by simp
  have tok: "set (tokens y) = call_id ` {n. n < ?N \<and> n \<notin> ?D}" "distinct (tokens y)" using y by (simp_all add: rpc_inv_def tokens_ok_def)
  have "tokens ?y = map rm_id (toServer y) @ [call_id ?N] @ map (\<lambda>(s, m, q, i). i) (working y) @ map rm_id (toClient y)"
    by (simp add: tokens_def es request_of_def RpcMessage_new_def)
  moreover have "call_id ?N \<notin> set (tokens y)"
  proof
    assume "call_id ?N \<in> set (tokens y)"
    then obtain k where "k < ?N" "call_id ?N = call_id k" unfolding tok(1) by blast
    then show False using new [of k] by simp
  qed
  moreover have "{n. n < Suc ?N \<and> n \<notin> ?D} = insert ?N {n. n < ?N \<and> n \<notin> ?D}" using res by auto
  ultimately have "tokens_ok ?y" using tok by (auto simp: tokens_def tokens_ok_def)
  moreover have "outstandings_ok ?y"
    using o res new by (auto simp: outstandings_ok_def ch less_Suc_eq call_id_def)
  moreover have up: "\<exists>n<Suc ?N. P n (?calls ! n)" if "\<exists>n<?N. P n (calls y ! n)" for P :: "nat \<Rightarrow> _ \<Rightarrow> bool"
    using that by (auto simp: nth_append intro: less_SucI)
  have "requests_ok ?y"
    using y up [of "\<lambda>n c. msg = request_of n c" for msg] by (auto simp: rpc_inv_def requests_ok_def es)
  moreover have "working_ok svs ?y"
    using y up [of "\<lambda>n c. i = call_id n \<and> c = (s', m', q')" for i s' m' q'] by (simp add: rpc_inv_def working_ok_def)
  moreover have "replies_ok serves svs ?y"
    using y up [of "\<lambda>n c. reply_to serves svs n c msg" for msg] by (simp add: rpc_inv_def replies_ok_def)
  moreover have "results_ok serves svs ?y" using y by (auto simp: rpc_inv_def results_ok_def nth_append less_Suc_eq)
  ultimately show ?thesis by (simp add: rpc_inv_def)
qed

text \<open>The token of a call moves from one place to the next; nothing else changes.\<close>

lemma rpc_serve_inv:
  assumes y: "rpc_inv serves svs y" and m: "toServer y = msg # rest" and e: "onRpcMessage True msg (server y) = Inr (es, ch)"
  shows "rpc_inv serves svs (y\<lparr>server := ch, toServer := rest, toClient := toClient y @ sent es, working := working y @ called es\<rparr>)"
proof -
  let ?y = "y\<lparr>server := ch, toServer := rest, toClient := toClient y @ sent es, working := working y @ called es\<rparr>"
  obtain n where n: "n < length (calls y)" "msg = request_of n (calls y ! n)" using y m by (auto simp: rpc_inv_def requests_ok_def)
  obtain s me q where c: "calls y ! n = (s, me, q)" by (cases "calls y ! n")
  have "services (server y) = Some svs" using y by (simp add: rpc_inv_def working_ok_def)
  then obtain err where es: "es = (if accepted svs s me q then [CallService s me q (call_id n)]
      else [SendMessage ((RpcMessage_new RESPONSE (call_id n))\<lparr>error := Some err\<rparr>)])" and ch: "ch = server y"
    using serve_effects [of "server y" svs n s me q] e n c by auto
  let ?msg = "(RpcMessage_new RESPONSE (call_id n))\<lparr>error := Some err\<rparr>"
  have i: "rm_id msg = call_id n" "rm_id ?msg = call_id n" using n c by (simp_all add: request_of_def RpcMessage_new_def)
  have reply: "reply_to serves svs n (calls y ! n) ?msg" if "\<not> accepted svs s me q"
    using that c by (simp add: reply_to_def right_answer_def RpcMessage_new_def)
  have "tokens_ok ?y" using y m es i by (auto simp: rpc_inv_def tokens_ok_def tokens_def)
  moreover have "outstandings_ok ?y" "requests_ok ?y" "results_ok serves svs ?y"
    using y m by (simp_all add: rpc_inv_def outstandings_ok_def requests_ok_def results_ok_def)
  moreover have "working_ok svs ?y" using y n c es ch by (auto simp: rpc_inv_def working_ok_def)
  moreover have "replies_ok serves svs ?y" using y n(1) es reply by (auto simp: rpc_inv_def replies_ok_def)
  ultimately show ?thesis by (simp add: rpc_inv_def)
qed

lemma rpc_finish_inv:
  assumes y: "rpc_inv serves svs y" and w: "working y = before @ (s, m, q, i) # after" "serves s m q r"
  shows "rpc_inv serves svs (y\<lparr>working := before @ after, toClient := toClient y @ sent (doneCallback r i)\<rparr>)"
proof -
  let ?y = "y\<lparr>working := before @ after, toClient := toClient y @ sent (doneCallback r i)\<rparr>"
  have a: "accepted svs s m q" "\<exists>n<length (calls y). i = call_id n \<and> calls y ! n = (s, m, q)"
    using y w by (auto simp: rpc_inv_def working_ok_def)
  then obtain n where n: "n < length (calls y)" "i = call_id n" "calls y ! n = (s, m, q)" by blast
  let ?msg = "(RpcMessage_new RESPONSE i)\<lparr>response := Some r\<rparr>"
  have msg: "reply_to serves svs n (calls y ! n) ?msg" "rm_id ?msg = i"
    using a n w(2) by (simp_all add: reply_to_def right_answer_def RpcMessage_new_def)
  have "tokens_ok ?y" using y w msg(2) by (auto simp: rpc_inv_def tokens_ok_def tokens_def doneCallback_def)
  moreover have "outstandings_ok ?y" "requests_ok ?y" "results_ok serves svs ?y"
    using y by (simp_all add: rpc_inv_def outstandings_ok_def requests_ok_def results_ok_def)
  moreover have "working_ok svs ?y" using y w by (auto simp: rpc_inv_def working_ok_def)
  moreover have "replies_ok serves svs ?y" using y n(1) msg(1) by (auto simp: rpc_inv_def replies_ok_def doneCallback_def)
  ultimately show ?thesis by (simp add: rpc_inv_def)
qed

lemma rpc_receive_inv:
  assumes y: "rpc_inv serves svs y" and b: "length (calls y) < 2 ^ 63"
    and m: "toClient y = msg # rest" and e: "onRpcMessage True msg (client y) = Inr (es, ch)"
  shows "rpc_inv serves svs (y\<lparr>client := ch, toClient := rest, results := results y @ ran Map.empty es\<rparr>)"
proof -
  let ?N = "length (calls y)" and ?D = "fst ` set (results y)"
  let ?y = "y\<lparr>client := ch, toClient := rest, results := results y @ ran Map.empty es\<rparr>"
  obtain n where n: "n < ?N" "reply_to serves svs n (calls y ! n) msg" using y m by (auto simp: rpc_inv_def replies_ok_def)
  then have i: "rm_id msg = call_id n" and ans: "right_answer serves svs (calls y ! n) (response msg)" by (simp_all add: reply_to_def)
  have inj: "call_id k = call_id l \<longleftrightarrow> k = l" if "k < ?N" "l < ?N" for k l using call_id_inj that b by simp
  have tok: "set (tokens y) = call_id ` {n. n < ?N \<and> n \<notin> ?D}" "distinct (tokens y)" using y by (simp_all add: rpc_inv_def tokens_ok_def)
  have "call_id n \<in> set (tokens y)" using m i by (simp add: tokens_def)
  then have nD: "n \<notin> ?D" using tok(1) inj n(1) by auto
  then have "outstandings (client y) (call_id n) = Some \<lparr>out_response = Some n, out_done = Some n\<rparr>"
    using y n(1) by (simp add: rpc_inv_def outstandings_ok_def)
  from receive_effects [OF n(2) this] e
  have ch: "ch = (client y)\<lparr>outstandings := (outstandings (client y))(call_id n := None)\<rparr>" and es: "ran Map.empty es = [(n, response msg)]"
    by auto
  have split: "tokens y = (map rm_id (toServer y) @ map (\<lambda>(s, m, q, i). i) (working y)) @ call_id n # map rm_id rest"
    "tokens ?y = (map rm_id (toServer y) @ map (\<lambda>(s, m, q, i). i) (working y)) @ map rm_id rest"
    using m i by (simp_all add: tokens_def)
  have "distinct (tokens ?y)" "set (tokens ?y) = set (tokens y) - {call_id n}" using tok(2) unfolding split by auto
  moreover have "call_id ` {k. k < ?N \<and> k \<notin> ?D} - {call_id n} = call_id ` {k. k < ?N \<and> k \<notin> insert n ?D}"
    using inj n(1) by auto
  ultimately have "tokens_ok ?y" using tok(1) by (simp add: tokens_ok_def es)
  moreover have "outstandings_ok ?y" using y inj n(1) by (auto simp: rpc_inv_def outstandings_ok_def ch es)
  moreover have "requests_ok ?y" "working_ok svs ?y" "replies_ok serves svs ?y"
    using y m by (simp_all add: rpc_inv_def requests_ok_def working_ok_def replies_ok_def)
  moreover have "results_ok serves svs ?y" using y n(1) ans nD by (auto simp: rpc_inv_def results_ok_def es)
  ultimately show ?thesis by (simp add: rpc_inv_def)
qed


lemma rpc_step_inv:
  assumes "rpc_step serves y y'" "length (calls y) < 2 ^ 63 \<longrightarrow> rpc_inv serves svs y"
  shows "length (calls y') < 2 ^ 63 \<longrightarrow> rpc_inv serves svs y'"
  using assms
proof cases
  case (call n s m q es c)
  have "rpc_inv serves svs y'" if "length (calls y') < 2 ^ 63"
  proof -
    have b: "length (calls y) < 2 ^ 63 - 1" "length (calls y) < 2 ^ 63" using that call(1) by simp_all
    from rpc_call_inv [OF _ b(1) call(3) [unfolded call(2)]] assms(2) b(2) show ?thesis unfolding call(1) by blast
  qed
  then show ?thesis ..
next
  case (serve msg rest es c)
  then show ?thesis using rpc_serve_inv [OF _ serve(2,3)] assms(2) by simp
next
  case (finish before s m q i after r)
  then show ?thesis using rpc_finish_inv [where s = s and serves = serves, OF _ finish(2,3)] assms(2) by simp
next
  case (receive msg rest es c)
  then show ?thesis using rpc_receive_inv [OF _ _ receive(2,3)] assms(2) by simp
qed

lemma rpc_reach:
  assumes "(rpc_step serves)\<^sup>*\<^sup>* (rpc_start svs) y" "length (calls y) < 2 ^ 63"
  shows "rpc_inv serves svs y"
proof -
  have "length (calls y) < 2 ^ 63 \<longrightarrow> rpc_inv serves svs y"
    by (rule invariant_star [OF assms(1)]) (use rpc_inv_start rpc_step_inv in blast)+
  then show ?thesis using assms(2) by blast
qed

text \<open>When nothing is on the way, every call has been answered and nothing is kept for it.\<close>

lemma rpc_quiet:
  assumes y: "rpc_inv serves svs y" and quiet: "tokens y = []"
  shows "fst ` set (results y) = {..<length (calls y)}" "outstandings (client y) = Map.empty"
proof -
  have t: "tokens_ok y" and o: "outstandings_ok y" and r: "results_ok serves svs y" using y unfolding rpc_inv_def by blast+
  have "call_id ` {n. n < length (calls y) \<and> n \<notin> fst ` set (results y)} = {}"
    using t quiet unfolding tokens_ok_def by simp
  then have all: "n \<in> fst ` set (results y)" if "n < length (calls y)" for n using that by blast
  moreover have "n < length (calls y)" if "n \<in> fst ` set (results y)" for n using r that unfolding results_ok_def by force
  ultimately show "fst ` set (results y) = {..<length (calls y)}" by blast
  have "outstandings (client y) i = None" for i
  proof (cases "i \<in> call_id ` {..<length (calls y)}")
    case True
    then obtain n where "n < length (calls y)" "i = call_id n" by blast
    then show ?thesis using o all [of n] unfolding outstandings_ok_def by simp
  next
    case False
    then show ?thesis using o unfolding outstandings_ok_def by blast
  qed
  then show "outstandings (client y) = Map.empty" by blast
qed

text \<open>A channel end never gets stuck on a message that is on its way to it.\<close>

lemma rpc_not_stuck:
  assumes y: "rpc_inv serves svs y" and b: "length (calls y) < 2 ^ 63"
  shows "toServer y \<noteq> [] \<or> toClient y \<noteq> [] \<Longrightarrow> \<exists>y'. rpc_step serves y y'"
proof -
  assume "toServer y \<noteq> [] \<or> toClient y \<noteq> []"
  then show ?thesis
  proof
    assume "toServer y \<noteq> []"
    then obtain msg rest where m: "toServer y = msg # rest" by (cases "toServer y") auto
    then obtain n where n: "msg = request_of n (calls y ! n)" using y by (auto simp: rpc_inv_def requests_ok_def)
    have "services (server y) = Some svs" using y by (simp add: rpc_inv_def working_ok_def)
    from serve_effects [OF this, of n "fst (calls y ! n)" "fst (snd (calls y ! n))" "snd (snd (calls y ! n))"] n
    obtain es c where "onRpcMessage True msg (server y) = Inr (es, c)" by auto
    then show ?thesis using rpc_step.serve [OF m] by blast
  next
    assume "toClient y \<noteq> []"
    then obtain msg rest where m: "toClient y = msg # rest" by (cases "toClient y") auto
    then obtain n where n: "n < length (calls y)" "reply_to serves svs n (calls y ! n) msg"
      using y by (auto simp: rpc_inv_def replies_ok_def)
    then have "call_id n \<in> set (tokens y)" using m by (simp add: tokens_def reply_to_def)
    then obtain k where k: "k < length (calls y)" "k \<notin> fst ` set (results y)" "call_id n = call_id k"
      using y by (auto simp: rpc_inv_def tokens_ok_def)
    then have "k = n" using call_id_inj [of n k] n(1) b by simp
    then have "outstandings (client y) (call_id n) = Some \<lparr>out_response = Some n, out_done = Some n\<rparr>"
      using y k by (simp add: rpc_inv_def outstandings_ok_def)
    from receive_effects [OF n(2) this] show ?thesis using rpc_step.receive [OF m] by blast
  qed
qed

section \<open>Property\<close>


section \<open>An example\<close>

definition echo_services :: services where
  "echo_services = registerService ''Echo'' [''echo'' \<mapsto> \<lambda>q. True] Map.empty"

definition echoes :: "string \<Rightarrow> string \<Rightarrow> string \<Rightarrow> string \<Rightarrow> bool" where
  "echoes s m q r \<longleftrightarrow> r = q"

definition sample_call :: "string \<times> string \<times> string" where
  "sample_call = (''Echo'', ''echo'', ''hi'')"

lemma sample_rpc_run:
  "\<exists>y. (rpc_step echoes)\<^sup>*\<^sup>* (rpc_start echo_services) y \<and> calls y = [sample_call] \<and> tokens y = []"
proof -
  let ?out = "\<lparr>out_response = Some 0, out_done = Some 0\<rparr>" and ?c0 = "RpcChannel_new"
  let ?req = "request_of 0 sample_call" and ?ans = "(RpcMessage_new RESPONSE 1)\<lparr>response := Some ''hi''\<rparr>"
  let ?c1 = "?c0\<lparr>nextId := 1, outstandings := [1 \<mapsto> ?out]\<rparr>" and ?y0 = "rpc_start echo_services"
  let ?y1 = "?y0\<lparr>client := ?c1, toServer := [?req], calls := [sample_call]\<rparr>"
  let ?y2 = "?y0\<lparr>client := ?c1, calls := [sample_call], working := [(''Echo'', ''echo'', ''hi'', 1)]\<rparr>"
  let ?y3 = "?y0\<lparr>client := ?c1, calls := [sample_call], toClient := [?ans]\<rparr>"
  let ?y4 = "?y0\<lparr>client := ?c1\<lparr>outstandings := Map.empty\<rparr>, calls := [sample_call], results := [(0, Some ''hi'')]\<rparr>"
  note defs = rpc_start_def RpcChannel_new_def CallMethod_def incrementAndGet_def addAndGet_def getAndAdd_def request_of_def call_id_def
    sample_call_def onRpcMessage_def rpc_onRequest_def rpc_onResponse_def assert_that_def RpcMessage_new_def optional_def setServices_def
    echo_services_def registerService_def doneCallback_def echoes_def
  have a: "rpc_step echoes ?y0 ?y1"
    using rpc_step.call [of 0 ?y0 "''Echo''" "''echo''" "''hi''" "[SendMessage ?req]" ?c1 echoes] by (simp add: defs)
  have b: "rpc_step echoes ?y1 ?y2"
    using rpc_step.serve [of ?y1 ?req "[]" "[CallService ''Echo'' ''echo'' ''hi'' 1]" "server ?y0" echoes] by (simp add: defs)
  have c: "rpc_step echoes ?y2 ?y3"
    using rpc_step.finish [of ?y2 "[]" "''Echo''" "''echo''" "''hi''" 1 "[]" echoes "''hi''"] by (simp add: defs)
  have d: "rpc_step echoes ?y3 ?y4"
    using rpc_step.receive [of ?y3 ?ans "[]" "[ParseInto 0 ''hi'', RunDone 0, DeleteResponse 0]" "?c1\<lparr>outstandings := Map.empty\<rparr>" echoes]
    by (simp add: defs)
  have "(rpc_step echoes)\<^sup>*\<^sup>* ?y0 ?y4"
    using a b c d by (meson converse_rtranclp_into_rtranclp rtranclp.rtrancl_refl)
  then show ?thesis by (intro exI [of _ ?y4]) (simp add: tokens_def rpc_start_def)
qed


end
