(* ===== verification/FileUtil.thy ===== *)
theory FileUtil
  imports Double Format Timestamp
begin

text \<open>
  \<^verbatim>\<open>muduo/base/FileUtil.cc\<close> and \<^verbatim>\<open>ProcessInfo.cc\<close>: a file that is appended to, a small file that is read, and
  what is read from \<^verbatim>\<open>/proc\<close>. What \<^verbatim>\<open>fwrite\<close> and \<^verbatim>\<open>read\<close> answer are parameters.
\<close>

section \<open>AppendFile\<close>

text \<open>
  The file is the bytes that \<^verbatim>\<open>fwrite\<close> accepted; at least the first \<open>af_flushed\<close> of them have left the buffer of the
  stream. \<open>disk k m\<close> is the answer to the \<open>k\<close>-th call, for \<open>m\<close> bytes: how many it
  accepted and whether the error flag is set afterwards. The loop may not end, if \<^verbatim>\<open>fwrite\<close> accepts
  nothing and reports no error.
\<close>

type_synonym disk = "nat \<Rightarrow> nat \<Rightarrow> nat \<times> bool"

record AppendFile =
  af_data :: string
  af_flushed :: nat
  af_calls :: nat
  writtenBytes :: int

definition AppendFile_new :: "bool \<Rightarrow> AppendFile res" where
  "AppendFile_new opened = assert_that opened (Inr \<lparr>af_data = '''', af_flushed = 0, af_calls = 0, writtenBytes = 0\<rparr>)"

definition af_flush :: "AppendFile \<Rightarrow> AppendFile" where
  "af_flush f = f\<lparr>af_flushed := length (af_data f)\<rparr>"

text \<open>\<^verbatim>\<open>fclose\<close> flushes the stream.\<close>

definition AppendFile_destroy :: "AppendFile \<Rightarrow> AppendFile" where
  "AppendFile_destroy f = af_flush f"

definition af_write :: "disk \<Rightarrow> string \<Rightarrow> AppendFile \<Rightarrow> (nat \<times> bool) \<times> AppendFile" where
  "af_write disk s f =
     (let (n, err) = disk (af_calls f) (length s)
      in ((n, err), f\<lparr>af_data := af_data f @ take n s, af_calls := Suc (af_calls f)\<rparr>))"

partial_function (option) af_append_loop :: "disk \<Rightarrow> string \<Rightarrow> nat \<Rightarrow> AppendFile \<Rightarrow> (nat \<times> AppendFile) option" where
  "af_append_loop disk logline written f =
     (if written \<noteq> length logline
      then let remain = length logline - written;
               ((n, err), f) = af_write disk (drop written logline) f
           in if n \<noteq> remain \<and> err then Some (written, f) else af_append_loop disk logline (written + n) f
      else Some (written, f))"

definition af_append :: "disk \<Rightarrow> string \<Rightarrow> AppendFile \<Rightarrow> AppendFile option" where
  "af_append disk logline f =
     Option.bind (af_append_loop disk logline 0 f) (\<lambda>(written, f). Some (f\<lparr>writtenBytes := writtenBytes f + int written\<rparr>))"

text \<open>
  What the manual says of \<^verbatim>\<open>fwrite\<close>: it accepts at most what it is given, and less only if there is an
  error.
\<close>

definition disk_works :: "disk \<Rightarrow> bool" where
  "disk_works disk \<longleftrightarrow> (\<forall>k m n err. disk k m = (n, err) \<longrightarrow> n \<le> m \<and> (n = m \<or> err))"

text \<open>\<^verbatim>\<open>append\<close> returns; what it wrote is a prefix of the line, and all of it unless an error was reported.\<close>

lemma af_append_works:
  assumes "disk_works disk"
  shows "\<exists>k f'. af_append disk logline f = Some f' \<and> k \<le> length logline \<and> af_data f' = af_data f @ take k logline \<and>
    writtenBytes f' \<le> writtenBytes f + int k \<and>
    ((\<forall>c m. \<not> snd (disk c m)) \<longrightarrow> k = length logline \<and> writtenBytes f' = writtenBytes f + int (length logline))"
proof (cases "logline = []")
  case True
  then show ?thesis by (simp add: af_append_def af_append_loop.simps)
next
  case False
  obtain n err where d: "disk (af_calls f) (length logline) = (n, err)" by (cases "disk (af_calls f) (length logline)")
  then have n: "n \<le> length logline" "n = length logline \<or> err" using assms by (auto simp: disk_works_def)
  have "(\<forall>c m. \<not> snd (disk c m)) \<longrightarrow> \<not> err" using d by (metis snd_conv)
  then show ?thesis using False d n
    by (cases "n = length logline") (auto simp: af_append_def af_append_loop.simps [of disk logline] af_write_def)
qed

section \<open>ReadSmallFile\<close>

definition kBufferSize :: nat where
  "kBufferSize = 64 * 1024"

text \<open>\<open>fd\<close> is the answer of \<^verbatim>\<open>open\<close>, \<open>err\<close> the value of \<^verbatim>\<open>errno\<close> after it.\<close>

record ReadSmallFile =
  rs_fd :: int
  rs_err :: int

definition ReadSmallFile_new :: "int \<Rightarrow> int \<Rightarrow> ReadSmallFile" where
  "ReadSmallFile_new fd err = \<lparr>rs_fd = fd, rs_err = (if fd < 0 then err else 0)\<rparr>"

text \<open>The kind of file that \<^verbatim>\<open>fstat\<close> reports with its times, or its error.\<close>

datatype file_kind = RegularFile int | Directory | OtherFile

record file_stat =
  st_kind :: file_kind
  st_mtime :: int
  st_ctime :: int

text \<open>
  \<open>reads off m\<close> is what \<^verbatim>\<open>read\<close> of \<open>m\<close> bytes gives after \<open>off\<close> bytes were read: some bytes, none at the end, or an error. It
  never gives more than \<open>m\<close>.
\<close>

type_synonym reads = "nat \<Rightarrow> nat \<Rightarrow> int + string"

function read_loop :: "reads \<Rightarrow> nat \<Rightarrow> string \<Rightarrow> int \<Rightarrow> string \<times> int" where
  "read_loop reads maxSize content err =
     (if length content < maxSize
      then let toRead = min (maxSize - length content) kBufferSize
           in case reads (length content) toRead of
                Inr bytes \<Rightarrow> if bytes = '''' then (content, err) else read_loop reads maxSize (content @ take toRead bytes) err
              | Inl e \<Rightarrow> (content, e)
      else (content, err))"
  by auto

termination
  by (relation "measure (\<lambda>(reads, maxSize, content, err). maxSize - length content)") (auto simp: kBufferSize_def min_def length_greater_0_conv [symmetric] simp del: length_greater_0_conv)

declare read_loop.simps [simp del]

abbreviation (input) EISDIR :: int where "EISDIR \<equiv> 21"

text \<open>With the size and the times asked for; \<open>None\<close> is what \<^verbatim>\<open>fstat\<close> or a NULL argument leaves unset.\<close>

definition readToString ::
    "reads \<Rightarrow> int \<Rightarrow> bool \<Rightarrow> int + file_stat \<Rightarrow> ReadSmallFile \<Rightarrow> string \<Rightarrow> int \<times> string \<times> int option \<times> (int \<times> int) option" where
  "readToString reads maxSize wantStat fstat f content =
     (if rs_fd f \<ge> 0
      then let (err, fileSize, times) =
                 (if wantStat
                  then case fstat of
                         Inr st \<Rightarrow>
                           (case st_kind st of
                              RegularFile n \<Rightarrow> (rs_err f, Some n, Some (st_mtime st, st_ctime st))
                            | Directory \<Rightarrow> (EISDIR, None, Some (st_mtime st, st_ctime st))
                            | OtherFile \<Rightarrow> (rs_err f, None, Some (st_mtime st, st_ctime st)))
                       | Inl e \<Rightarrow> (e, None, None)
                  else (rs_err f, None, None));
               (content, err) = read_loop reads (nat (maxSize mod 2 ^ 64)) '''' err
           in (err, content, fileSize, times)
      else (rs_err f, content, None, None))"

text \<open>\<open>answer\<close> is what \<^verbatim>\<open>pread\<close> gives.\<close>

definition readToBuffer :: "int + string \<Rightarrow> ReadSmallFile \<Rightarrow> int \<times> (int \<times> string) option" where
  "readToBuffer answer f =
     (if rs_fd f \<ge> 0
      then case answer of
             Inr bytes \<Rightarrow> (rs_err f, Some (int (length (take (kBufferSize - 1) bytes)), take (kBufferSize - 1) bytes @ [CHR 0x00]))
           | Inl e \<Rightarrow> (e, None)
      else (rs_err f, None))"

definition readFile :: "int \<times> int \<Rightarrow> reads \<Rightarrow> int \<Rightarrow> string \<Rightarrow> int \<times> string" where
  "readFile opened reads maxSize content =
     (let (err, content, _, _) = readToString reads maxSize False (Inl 0) (ReadSmallFile_new (fst opened) (snd opened)) content
      in (err, content))"

text \<open>A file that keeps its contents while it is read: each \<^verbatim>\<open>read\<close> gives some of the bytes that follow.\<close>

definition reads_file :: "string \<Rightarrow> reads \<Rightarrow> bool" where
  "reads_file file rd \<longleftrightarrow> (\<forall>off m. 0 < m \<longrightarrow>
     (\<exists>k. rd off m = Inr (take k (drop off file)) \<and> k \<le> m \<and> (k = 0 \<longrightarrow> length file \<le> off)))"

lemma read_loop_file:
  assumes "reads_file file rd" "content = take (length content) file" "length content \<le> maxSize"
  shows "read_loop rd maxSize content err = (take maxSize file, err)"
  using assms
proof (induction rd maxSize content err rule: read_loop.induct)
  case (1 rd maxSize content err)
  let ?m = "min (maxSize - length content) kBufferSize"
  show ?case
  proof (cases "length content < maxSize")
    case True
    then have m: "0 < ?m" by (simp add: kBufferSize_def)
    then obtain k where k: "rd (length content) ?m = Inr (take k (drop (length content) file))" "k \<le> ?m"
        "k = 0 \<longrightarrow> length file \<le> length content"
      using "1.prems"(1) unfolding reads_file_def by blast
    let ?b = "take k (drop (length content) file)"
    have b: "take ?m ?b = ?b" using k(2) by simp
    have grow: "content @ ?b = take (length content + k) file" using "1.prems"(2) by (metis take_add)
    show ?thesis
    proof (cases "?b = []")
      case stop: True
      then have "length file \<le> length content" using k(3) by auto
      then have "take maxSize file = content" using "1.prems"(2) True by simp
      then show ?thesis using True k(1) stop by (simp add: read_loop.simps [of rd maxSize content])
    next
      case False
      have "read_loop rd maxSize (content @ take ?m ?b) err = (take maxSize file, err)"
      proof (rule "1.IH" [OF True refl k(1) False "1.prems"(1)])
        show "content @ take ?m ?b = take (length (content @ take ?m ?b)) file"
          unfolding b using grow by (metis append_take_drop_id length_append take_take append_eq_conv_conj)
        show "length (content @ take ?m ?b) \<le> maxSize" using True by simp
      qed
      then show ?thesis using True k(1) False by (simp add: read_loop.simps [of rd maxSize content])
    qed
  next
    case False
    then have "length content = maxSize" using "1.prems"(3) by simp
    then have "take maxSize file = content" using "1.prems"(2) by simp
    moreover have "read_loop rd maxSize content err = (content, err)" using False by (subst read_loop.simps) simp
    ultimately show ?thesis by simp
  qed
qed

lemma readFile_whole:
  assumes "reads_file file rd" "0 \<le> fd" "int (length file) \<le> maxSize" "maxSize < 2 ^ 31"
  shows "readFile (fd, e) rd maxSize content = (0, file)"
proof -
  have "read_loop rd (nat maxSize) '''' 0 = (take (nat maxSize) file, 0)" by (rule read_loop_file [OF assms(1)]) simp_all
  moreover have "nat (maxSize mod 2 ^ 64) = nat maxSize" using assms(3,4) by simp
  ultimately show ?thesis using assms by (simp add: readFile_def readToString_def ReadSmallFile_new_def)
qed


section \<open>ProcessInfo\<close>

text \<open>\<^verbatim>\<open>atoi\<close>: blanks, a sign, digits; a value out of range is undefined.\<close>

fun digits_of :: "string \<Rightarrow> string" where
  "digits_of '''' = ''''"
| "digits_of (c # s) = (if char_digit c = None then '''' else c # digits_of s)"

definition atoi :: "string \<Rightarrow> int res" where
  "atoi s =
     (let s = dropWhile (\<lambda>c. c \<in> {CHR '' '', CHR 0x09, CHR 0x0A, CHR 0x0B, CHR 0x0C, CHR 0x0D}) s;
          (negative, s) = (case s of c # t \<Rightarrow> if c = CHR ''-'' then (True, t) else if c = CHR ''+'' then (False, t) else (False, s) | [] \<Rightarrow> (False, s));
          v = (case dec_value (digits_of s) of Some n \<Rightarrow> int n | None \<Rightarrow> 0);
          r = (if negative then - v else v)
      in ints32 [r] (Inr r))"

definition pidString :: "int \<Rightarrow> string" where
  "pidString pid = snprintf_buf 32 (fmt_d pid)"

definition username :: "string option \<Rightarrow> string" where
  "username pw_name = (case pw_name of Some name \<Rightarrow> name | None \<Rightarrow> ''unknownuser'')"

text \<open>\<open>answer\<close> is the name that \<^verbatim>\<open>gethostname\<close> stored, or its failure. A long name is cut.\<close>

definition hostname :: "string option \<Rightarrow> string" where
  "hostname answer = (case answer of Some name \<Rightarrow> take 255 name | None \<Rightarrow> ''unknownhost'')"

fun find_last :: "char \<Rightarrow> string \<Rightarrow> nat option" where
  "find_last c '''' = None"
| "find_last c (x # s) = (case find_last c s of Some i \<Rightarrow> Some (Suc i) | None \<Rightarrow> if x = c then Some 0 else None)"

definition procname :: "string \<Rightarrow> string" where
  "procname stat =
     (case (memchr (CHR ''('') stat, find_last (CHR '')'') stat) of
        (Some lp, Some rp) \<Rightarrow> if lp < rp then take (rp - lp - 1) (drop (lp + 1) stat) else ''''
      | _ \<Rightarrow> '''')"

definition procStatus :: "int \<times> int \<Rightarrow> reads \<Rightarrow> string" where
  "procStatus opened reads = snd (readFile opened reads 65536 '''')"

definition procStat :: "int \<times> int \<Rightarrow> reads \<Rightarrow> string" where
  "procStat opened reads = snd (readFile opened reads 65536 '''')"

definition threadStat_path :: "int \<Rightarrow> string" where
  "threadStat_path tid = snprintf_buf 64 (''/proc/self/task/'' @ fmt_d tid @ ''/stat'')"

definition exePath :: "string option \<Rightarrow> string" where
  "exePath link = (case link of Some target \<Rightarrow> take 1024 target | None \<Rightarrow> '''')"

text \<open>The filters return 0 for every entry, so \<^verbatim>\<open>scandir\<close> allocates no list; they count or collect as they go.\<close>

fun fdDirFilter :: "string \<Rightarrow> nat \<Rightarrow> nat" where
  "fdDirFilter '''' t_numOpenedFiles = t_numOpenedFiles"
| "fdDirFilter (c # name) t_numOpenedFiles = (if char_digit c \<noteq> None then Suc t_numOpenedFiles else t_numOpenedFiles)"

fun taskDirFilter :: "string \<Rightarrow> int list \<Rightarrow> int list res" where
  "taskDirFilter '''' t_pids = Inr t_pids"
| "taskDirFilter (c # name) t_pids =
     (if char_digit c \<noteq> None then bindE (atoi (c # name)) (\<lambda>pid. Inr (t_pids @ [pid])) else Inr t_pids)"

definition openedFiles :: "string list \<Rightarrow> nat" where
  "openedFiles entries = fold fdDirFilter entries 0"

definition maxOpenFiles :: "int option \<Rightarrow> string list \<Rightarrow> int" where
  "maxOpenFiles rlim entries = (case rlim of Some n \<Rightarrow> to_int32 n | None \<Rightarrow> int (openedFiles entries))"

text \<open>\<^verbatim>\<open>CpuTime\<close>: user and system seconds; zero when \<^verbatim>\<open>times\<close> fails.\<close>

definition cpuTime :: "int \<Rightarrow> (int \<times> int) option \<Rightarrow> rat \<times> rat" where
  "cpuTime clockTicks tms =
     (case tms of
        Some (utime, stime) \<Rightarrow>
          (let hz = dbl (of_int clockTicks) in (dbl (dbl (of_int utime) / hz), dbl (dbl (of_int stime) / hz)))
      | None \<Rightarrow> (0, 0))"

definition numThreads_of :: "string \<Rightarrow> int res" where
  "numThreads_of status =
     (let pos = std_search status ''Threads:'' in if pos < length status then atoi (drop (pos + 8) status) else Inr 0)"

definition threads_of :: "string list \<Rightarrow> int list res" where
  "threads_of entries = bindE (foldE taskDirFilter entries []) (\<lambda>pids. Inr (sort pids))"

text \<open>What the kernel writes is read back, whatever name the program gave itself.\<close>

lemma memchr_append: "c \<notin> set xs \<Longrightarrow> memchr c (xs @ c # ys) = Some (length xs)"
  by (induction xs) (auto simp: memchr_def Let_def)

lemma find_last_append: "c \<notin> set ys \<Longrightarrow> find_last c (xs @ c # ys) = Some (length xs)"
proof (induction xs)
  case Nil
  have "find_last c ys = None" using Nil by (induction ys) auto
  then show ?case by simp
qed simp

lemma dec_digits_no_paren: "CHR ''('' \<notin> set (dec_digits n)" "CHR '')'' \<notin> set (dec_digits n)"
proof -
  have "char_digit c \<noteq> None" if "c \<in> set (dec_digits n)" for c using that dec_digits_numeral [of n] by auto
  moreover have "char_digit (CHR ''('') = None" "char_digit (CHR '')'') = None" by (simp_all add: char_digit_def)
  ultimately show "CHR ''('' \<notin> set (dec_digits n)" "CHR '')'' \<notin> set (dec_digits n)" by metis+
qed

lemma procname_of_stat:
  assumes "CHR '')'' \<notin> set rest"
  shows "procname (dec_digits pid @ '' ('' @ name @ '')'' @ rest) = name"
proof -
  let ?stat = "dec_digits pid @ '' ('' @ name @ '')'' @ rest"
  have "memchr (CHR ''('') ?stat = Some (Suc (length (dec_digits pid)))"
    using memchr_append [of "CHR ''(''" "dec_digits pid @ '' ''"] dec_digits_no_paren(1) by simp
  moreover have "find_last (CHR '')'') ?stat = Some (Suc (Suc (length (dec_digits pid) + length name)))"
    using find_last_append [OF assms, of "dec_digits pid @ '' ('' @ name"] by simp
  ultimately show ?thesis by (simp add: procname_def)
qed

end
