(* ===== verification/LogFile.thy ===== *)
theory LogFile
  imports FileUtil LogStream
begin

text \<open>
  \<^verbatim>\<open>muduo/base/LogFile.cc\<close> and \<^verbatim>\<open>AsyncLogging.cc\<close>: log files that roll over by size and by day, and the back end that
  collects the buffers the logging threads fill.
\<close>

section \<open>LogFile\<close>

text \<open>
  The files written and closed so far are kept with their names, before the current one. The clock is
  read anew for every decision: its readings are arguments.
\<close>

record LogFile =
  basename :: string
  rollSize :: int
  flushInterval :: int
  checkEveryN :: int
  count :: int
  startOfPeriod :: int
  lastRoll :: int
  lastFlush :: int
  outFile :: "(string \<times> AppendFile) option"
  oldFiles :: "(string \<times> AppendFile) list"

definition kRollPerSeconds :: int where
  "kRollPerSeconds = 60 * 60 * 24"

text \<open>\<^verbatim>\<open>strftime\<close> leaves the buffer undefined when the text does not fit.\<close>

definition strftime_stamp :: "tm \<Rightarrow> string res" where
  "strftime_stamp t =
     (let s = ''.'' @ fmt_d (tm_year t + 1900) @ fmt_0wd 2 (tm_mon t + 1) @ fmt_0wd 2 (tm_mday t) @ ''-'' @
        fmt_0wd 2 (tm_hour t) @ fmt_0wd 2 (tm_min t) @ fmt_0wd 2 (tm_sec t) @ ''.''
      in if length s < 32 then Inr s else Inl UndefinedBehaviour)"

record log_env =
  e_gmtime :: "int \<Rightarrow> tm"
  e_hostname :: string
  e_pid :: int
  e_disk :: disk

definition getLogFileName :: "log_env \<Rightarrow> string \<Rightarrow> int \<Rightarrow> string res" where
  "getLogFileName env base now =
     bindE (strftime_stamp (e_gmtime env now)) (\<lambda>timebuf.
       Inr (base @ timebuf @ e_hostname env @ snprintf_buf 32 (''.'' @ fmt_d (e_pid env)) @ ''.log''))"

definition rollFile :: "log_env \<Rightarrow> int \<Rightarrow> LogFile \<Rightarrow> (bool \<times> LogFile) res" where
  "rollFile env now f =
     bindE (getLogFileName env (basename f) now) (\<lambda>filename.
       let start = now sdiv kRollPerSeconds * kRollPerSeconds
       in if now > lastRoll f
          then bindE (AppendFile_new True) (\<lambda>new.
            Inr (True, f\<lparr>lastRoll := now, lastFlush := now, startOfPeriod := start, outFile := Some (filename, new),
              oldFiles := oldFiles f @ (case outFile f of Some (name, af) \<Rightarrow> [(name, AppendFile_destroy af)] | None \<Rightarrow> [])\<rparr>))
          else Inr (False, f))"

definition LogFile_new :: "log_env \<Rightarrow> string \<Rightarrow> int \<Rightarrow> int \<Rightarrow> int \<Rightarrow> int \<Rightarrow> LogFile res" where
  "LogFile_new env base rollBytes flushSecs everyN now =
     assert_that (CHR ''/'' \<notin> set base)
       (bindE (rollFile env now
         \<lparr>basename = base, rollSize = rollBytes, flushInterval = flushSecs, checkEveryN = everyN, count = 0, startOfPeriod = 0, lastRoll = 0,
          lastFlush = 0, outFile = None, oldFiles = []\<rparr>) (\<lambda>(_, f). Inr f))"

definition flush :: "LogFile \<Rightarrow> LogFile res" where
  "flush f = (case outFile f of None \<Rightarrow> Inl UndefinedBehaviour | Some (filename, af) \<Rightarrow> Inr (f\<lparr>outFile := Some (filename, af_flush af)\<rparr>))"

text \<open>
  \<open>None\<close> if the append to the file does not return. \<open>now\<close> is the reading for the check, \<open>later\<close> the one in
  \<^verbatim>\<open>getLogFileName\<close>. A \<^verbatim>\<open>LogFile\<close> whose first roll was refused has no file.
\<close>

definition append_unlocked :: "log_env \<Rightarrow> int \<times> int \<Rightarrow> string \<Rightarrow> LogFile \<Rightarrow> LogFile res option" where
  "append_unlocked env clock logline f =
     (case outFile f of
        None \<Rightarrow> Some (Inl UndefinedBehaviour)
      | Some (filename, af) \<Rightarrow>
          Option.bind (af_append (e_disk env) logline af) (\<lambda>af.
            let f = f\<lparr>outFile := Some (filename, af)\<rparr>; (now, later) = clock
            in Some
              (if writtenBytes af > rollSize f then bindE (rollFile env later f) (\<lambda>(_, f). Inr f)
               else ints32 [count f + 1]
                 (let f = f\<lparr>count := count f + 1\<rparr>
                  in if count f \<ge> checkEveryN f
                     then let f = f\<lparr>count := 0\<rparr>; thisPeriod = now sdiv kRollPerSeconds * kRollPerSeconds
                          in if thisPeriod \<noteq> startOfPeriod f then bindE (rollFile env later f) (\<lambda>(_, f). Inr f)
                             else if now - lastFlush f > flushInterval f then flush (f\<lparr>lastFlush := now\<rparr>)
                             else Inr f
                     else Inr f))))"

text \<open>All that was logged: the closed files, then the current one.\<close>

definition log_content :: "LogFile \<Rightarrow> string" where
  "log_content f = concat (map (\<lambda>(_, af). af_data af) (oldFiles f)) @ (case outFile f of Some (_, af) \<Rightarrow> af_data af | None \<Rightarrow> '''')"

text \<open>
  What the manual says of \<^verbatim>\<open>gmtime_r\<close>, and a disk that reports no error.
\<close>

definition gmtime_works :: "(int \<Rightarrow> tm) \<Rightarrow> bool" where
  "gmtime_works g \<longleftrightarrow> (\<forall>t. in_int32 (tm_year (g t)) \<and> 0 \<le> tm_mon (g t) \<and> tm_mon (g t) \<le> 11 \<and> 1 \<le> tm_mday (g t) \<and> tm_mday (g t) \<le> 31 \<and>
     0 \<le> tm_hour (g t) \<and> tm_hour (g t) \<le> 23 \<and> 0 \<le> tm_min (g t) \<and> tm_min (g t) \<le> 59 \<and> 0 \<le> tm_sec (g t) \<and> tm_sec (g t) \<le> 60)"

definition env_works :: "log_env \<Rightarrow> bool" where
  "env_works env \<longleftrightarrow> gmtime_works (e_gmtime env) \<and> disk_works (e_disk env) \<and> (\<forall>k m. \<not> snd (e_disk env k m))"

lemma fmt_02_length: "0 \<le> v \<Longrightarrow> v \<le> 99 \<Longrightarrow> length (fmt_0wd 2 v) = 2"
  using dec_digits_length [of 2 "nat v"] by (simp add: fmt_0wd_def)

lemma fmt_d_length: "\<bar>v\<bar> < 10 ^ 10 \<Longrightarrow> length (fmt_d v) \<le> 11"
  using dec_digits_length [of 10 "nat \<bar>v\<bar>"] by (auto simp: fmt_d_def)

lemma strftime_fits:
  assumes "gmtime_works g"
  shows "\<exists>s. strftime_stamp (g t) = Inr s"
proof -
  have r: "in_int32 (tm_year (g t))" "0 \<le> tm_mon (g t)" "tm_mon (g t) \<le> 11" "1 \<le> tm_mday (g t)" "tm_mday (g t) \<le> 31"
    "0 \<le> tm_hour (g t)" "tm_hour (g t) \<le> 23" "0 \<le> tm_min (g t)" "tm_min (g t) \<le> 59" "0 \<le> tm_sec (g t)" "tm_sec (g t) \<le> 60"
    using assms by (simp_all add: gmtime_works_def)
  have "length (fmt_d (tm_year (g t) + 1900)) \<le> 11" using r(1) by (intro fmt_d_length) (auto simp: in_int32_def abs_if)
  moreover have "length (fmt_0wd 2 (tm_mon (g t) + 1)) = 2" "length (fmt_0wd 2 (tm_mday (g t))) = 2" "length (fmt_0wd 2 (tm_hour (g t))) = 2"
    "length (fmt_0wd 2 (tm_min (g t))) = 2" "length (fmt_0wd 2 (tm_sec (g t))) = 2"
    using r by (simp_all add: fmt_02_length)
  ultimately show ?thesis by (simp add: strftime_stamp_def)
qed

definition logfile_inv :: "LogFile \<Rightarrow> bool" where
  "logfile_inv f \<longleftrightarrow> outFile f \<noteq> None \<and> in_int32 (checkEveryN f) \<and> 0 \<le> count f \<and> count f < max 1 (checkEveryN f)"

lemma rollFile_keeps:
  assumes "env_works env" "logfile_inv f"
  shows "\<exists>b f'. rollFile env now f = Inr (b, f') \<and> logfile_inv f' \<and> log_content f' = log_content f"
proof -
  obtain s where "strftime_stamp (e_gmtime env now) = Inr s" using strftime_fits assms(1) unfolding env_works_def by blast
  then show ?thesis
    using assms(2) by (auto simp: rollFile_def getLogFileName_def AppendFile_new_def AppendFile_destroy_def af_flush_def logfile_inv_def log_content_def
      split: option.splits)
qed

lemma flush_keeps:
  assumes "logfile_inv f"
  shows "\<exists>f'. flush f = Inr f' \<and> logfile_inv f' \<and> log_content f' = log_content f"
  using assms by (auto simp: flush_def af_flush_def logfile_inv_def log_content_def)

text \<open>Nothing that is appended is lost or reordered, whenever the file rolls.\<close>

lemma append_unlocked_keeps:
  assumes "env_works env" "logfile_inv f"
  shows "\<exists>f'. append_unlocked env clock logline f = Some (Inr f') \<and> logfile_inv f' \<and> log_content f' = log_content f @ logline"
proof -
  obtain filename af where outf: "outFile f = Some (filename, af)" using assms(2) by (auto simp: logfile_inv_def)
  obtain af' where af: "af_append (e_disk env) logline af = Some af'" "af_data af' = af_data af @ logline"
    using af_append_works [of "e_disk env" logline af] assms(1) by (auto simp: env_works_def)
  let ?f = "f\<lparr>outFile := Some (filename, af')\<rparr>"
  have c: "log_content ?f = log_content f @ logline" using outf af by (simp add: log_content_def)
  have i: "logfile_inv ?f" using assms(2) by (simp add: logfile_inv_def)
  have roll: "\<exists>f'. bindE (rollFile env t g) (\<lambda>(_, f). Inr f) = Inr f' \<and> logfile_inv f' \<and> log_content f' = log_content f @ logline"
    if "logfile_inv g" "log_content g = log_content ?f" for g t
    using rollFile_keeps [OF assms(1) that(1), of t] that(2) c by auto
  have n: "in_int32 (count f + 1)" using assms(2) by (auto simp: logfile_inv_def in_int32_def max_def split: if_splits)
  have reset: "logfile_inv (?f\<lparr>count := 0\<rparr>)" "log_content (?f\<lparr>count := 0\<rparr>) = log_content ?f"
    using assms(2) by (simp_all add: logfile_inv_def log_content_def)
  have incr: "logfile_inv (?f\<lparr>count := count f + 1\<rparr>)" if "\<not> checkEveryN f \<le> count f + 1"
    using assms(2) that by (simp add: logfile_inv_def)
  have same: "log_content (?f\<lparr>count := k\<rparr>) = log_content f @ logline" "log_content (?f\<lparr>count := k, lastFlush := t\<rparr>) = log_content f @ logline"
    "logfile_inv (?f\<lparr>count := 0, lastFlush := t\<rparr>)" for k t
    using c assms(2) by (simp_all add: log_content_def logfile_inv_def)
  have fl: "\<exists>f'. flush (?f\<lparr>count := 0, lastFlush := t\<rparr>) = Inr f' \<and> logfile_inv f' \<and> log_content f' = log_content f @ logline" for t
    using flush_keeps [OF same(3), of t] same(2) [of t 0] by simp
  show ?thesis
    unfolding append_unlocked_def outf af(1) option.case prod.case Option.bind.bind_lunit
    using roll [OF i refl] roll [OF reset] n incr reset(1) same fl
    by (cases clock) (auto simp: Let_def outf af(1) ints32_def)
qed

section \<open>AsyncLogging\<close>

text \<open>
  The buffers are \<^verbatim>\<open>unique_ptr\<close>s: \<open>None\<close> is NULL. \<open>mem\<close> is what the memory of a new buffer holds; its length is the
  size of a buffer. The back end is before its test of \<^verbatim>\<open>running_\<close>, before the critical section, writing, or gone.
\<close>

datatype async_point = AtTest | AtCollect | AtWrite | Exited

record AsyncLogging =
  running :: bool
  currentBuffer :: "FixedBuffer option"
  nextBuffer :: "FixedBuffer option"
  buffers :: "FixedBuffer list"
  backPoint :: async_point
  newBuffer1 :: "FixedBuffer option"
  newBuffer2 :: "FixedBuffer option"
  buffersToWrite :: "FixedBuffer list"
  logOut :: LogFile

definition AsyncLogging_new :: "char list \<Rightarrow> LogFile \<Rightarrow> AsyncLogging" where
  "AsyncLogging_new mem out = \<lparr>running = False, currentBuffer = Some (fixed_bzero (FixedBuffer_new mem)),
     nextBuffer = Some (fixed_bzero (FixedBuffer_new mem)), buffers = [], backPoint = AtTest, newBuffer1 = None, newBuffer2 = None,
     buffersToWrite = [], logOut = out\<rparr>"

definition async_start :: "AsyncLogging \<Rightarrow> AsyncLogging" where
  "async_start a = a\<lparr>running := True\<rparr>"

text \<open>The back end before its loop; \<open>out\<close> is the log file it makes.\<close>

definition threadFunc_begin :: "char list \<Rightarrow> LogFile \<Rightarrow> AsyncLogging \<Rightarrow> AsyncLogging res" where
  "threadFunc_begin mem out a =
     assert_that (running a)
       (Inr (a\<lparr>logOut := out, newBuffer1 := Some (fixed_bzero (FixedBuffer_new mem)), newBuffer2 := Some (fixed_bzero (FixedBuffer_new mem)),
         buffersToWrite := [], backPoint := AtTest\<rparr>))"

definition async_stop :: "AsyncLogging \<Rightarrow> AsyncLogging" where
  "async_stop a = a\<lparr>running := False\<rparr>"

definition deref :: "'a option \<Rightarrow> 'a res" where
  "deref p = (case p of Some x \<Rightarrow> Inr x | None \<Rightarrow> Inl UndefinedBehaviour)"

definition async_append :: "char list \<Rightarrow> string \<Rightarrow> AsyncLogging \<Rightarrow> AsyncLogging res" where
  "async_append mem logline a =
     bindE (deref (currentBuffer a)) (\<lambda>b.
       if avail b > int (length logline)
       then bindE (fixed_append logline b) (\<lambda>b. Inr (a\<lparr>currentBuffer := Some b\<rparr>))
       else let a = a\<lparr>buffers := buffers a @ [b]\<rparr>;
                (fresh, a) = (case nextBuffer a of Some n \<Rightarrow> (n, a\<lparr>nextBuffer := None\<rparr>) | None \<Rightarrow> (FixedBuffer_new mem, a))
            in bindE (fixed_append logline fresh) (\<lambda>b. Inr (a\<lparr>currentBuffer := Some b\<rparr>)))"

text \<open>The head of the loop of \<^verbatim>\<open>threadFunc\<close>: its test and its assertions, or the last \<^verbatim>\<open>flush\<close>.\<close>

definition empty_buffer :: "FixedBuffer option \<Rightarrow> bool" where
  "empty_buffer p \<longleftrightarrow> (case p of Some b \<Rightarrow> fixed_length b = 0 | None \<Rightarrow> False)"

definition async_test :: "AsyncLogging \<Rightarrow> AsyncLogging res" where
  "async_test a =
     (if running a
      then assert_that (empty_buffer (newBuffer1 a)) (assert_that (empty_buffer (newBuffer2 a)) (assert_that (buffersToWrite a = [])
        (Inr (a\<lparr>backPoint := AtCollect\<rparr>))))
      else bindE (flush (logOut a)) (\<lambda>out. Inr (a\<lparr>logOut := out, backPoint := Exited\<rparr>)))"

text \<open>
  The critical section, after the wait for a full buffer. The wait has a timeout and is not repeated,
  so it may end at any time.
\<close>

definition async_collect :: "AsyncLogging \<Rightarrow> AsyncLogging res" where
  "async_collect a =
     bindE (deref (currentBuffer a)) (\<lambda>b.
       let bs = buffers a @ [b]; a = a\<lparr>buffers := [], buffersToWrite := bs, currentBuffer := newBuffer1 a, newBuffer1 := None\<rparr>;
           a = (if nextBuffer a = None then a\<lparr>nextBuffer := newBuffer2 a, newBuffer2 := None\<rparr> else a)
       in Inr (a\<lparr>backPoint := AtWrite\<rparr>))"

fun append_all :: "log_env \<Rightarrow> (int \<times> int) list \<Rightarrow> string list \<Rightarrow> LogFile \<Rightarrow> LogFile res option" where
  "append_all env clocks [] f = Some (Inr f)"
| "append_all env clocks (s # ss) f =
     (case append_unlocked env (hd (clocks @ [(0, 0)])) s f of
        Some (Inr f') \<Rightarrow> append_all env (tl clocks) ss f'
      | r \<Rightarrow> r)"

definition drop_notice :: "string \<Rightarrow> nat \<Rightarrow> string" where
  "drop_notice stamp n =
     snprintf_buf 256 (''Dropped log messages at '' @ stamp @ '', '' @ dec_digits (n - 2) @ '' larger buffers'' @ [CHR 0x0A])"

text \<open>Taking a buffer back from those that were written, for the next turn.\<close>

definition refill :: "FixedBuffer option \<Rightarrow> FixedBuffer list \<Rightarrow> (FixedBuffer option \<times> FixedBuffer list) res" where
  "refill p bs =
     (case p of
        Some b \<Rightarrow> Inr (Some b, bs)
      | None \<Rightarrow> assert_that (bs \<noteq> []) (Inr (Some (fixed_reset (last bs)), butlast bs)))"

definition async_write :: "log_env \<Rightarrow> (int \<times> int) list \<Rightarrow> string \<Rightarrow> AsyncLogging \<Rightarrow> AsyncLogging res option" where
  "async_write env clocks stamp a =
     (if buffersToWrite a = [] then Some (Inl AssertFail)
      else let bs = buffersToWrite a;
               notice = (if length bs > 25 then [drop_notice stamp (length bs)] else []);
               bs = (if length bs > 25 then take 2 bs else bs)
           in case append_all env clocks (notice @ map fixed_toString bs) (logOut a) of
                Some (Inr out) \<Rightarrow>
                  Some (bindE (refill (newBuffer1 a) (take 2 bs)) (\<lambda>(b1, bs).
                    bindE (refill (newBuffer2 a) bs) (\<lambda>(b2, _).
                      bindE (flush out) (\<lambda>out.
                        Inr (a\<lparr>newBuffer1 := b1, newBuffer2 := b2, buffersToWrite := [], logOut := out, backPoint := AtTest\<rparr>)))))
              | Some (Inl e) \<Rightarrow> Some (Inl e)
              | None \<Rightarrow> None)"

section \<open>Threads that log\<close>

text \<open>
  \<open>logged\<close> lists the lines in the order in which the lock let them in, \<open>batches\<close> the texts of the buffers collected
  at each turn, with the notice for the case that they are too many.
\<close>

record async_config =
  async :: AsyncLogging
  logged :: "string list"
  batches :: "(string list \<times> string) list"

inductive async_step :: "log_env \<Rightarrow> char list \<Rightarrow> async_config \<Rightarrow> async_config \<Rightarrow> bool" for env mem where
  log_line: "async_append mem line (async c) = Inr a \<Longrightarrow> async_step env mem c (c\<lparr>async := a, logged := logged c @ [line]\<rparr>)"
| stop: "async_step env mem c (c\<lparr>async := async_stop (async c)\<rparr>)"
| test: "backPoint (async c) = AtTest \<Longrightarrow> async_test (async c) = Inr a \<Longrightarrow> async_step env mem c (c\<lparr>async := a\<rparr>)"
| collect: "backPoint (async c) = AtCollect \<Longrightarrow> async_collect (async c) = Inr a \<Longrightarrow>
    async_step env mem c (c\<lparr>async := a, batches := batches c @ [(map fixed_toString (buffersToWrite a), '''')]\<rparr>)"
| write_out: "backPoint (async c) = AtWrite \<Longrightarrow> async_write env clocks stamp (async c) = Some (Inr a) \<Longrightarrow>
    batches c = bs @ [(texts, n)] \<Longrightarrow>
    async_step env mem c (c\<lparr>async := a, batches := bs @ [(texts, drop_notice stamp (length texts))]\<rparr>)"

definition written :: "string list \<times> string \<Rightarrow> string" where
  "written batch = (case batch of (texts, notice) \<Rightarrow> if length texts > 25 then notice @ concat (take 2 texts) else concat texts)"

section \<open>The buffers of the back end\<close>

definition buf_ok :: "nat \<Rightarrow> FixedBuffer \<Rightarrow> bool" where
  "buf_ok n b \<longleftrightarrow> fixed_inv b \<and> length (fdata b) = n"

definition blank :: "nat \<Rightarrow> FixedBuffer \<Rightarrow> bool" where
  "blank n b \<longleftrightarrow> buf_ok n b \<and> cur b = 0"

lemma blank_text: "blank n b \<Longrightarrow> fixed_toString b = '''' \<and> fixed_length b = 0"
  using fixed_inv_text(1) [of b] by (auto simp: blank_def buf_ok_def fixed_length_def to_int32_def)

lemma blank_new: "length mem = n \<Longrightarrow> 0 < n \<Longrightarrow> n < 2 ^ 31 \<Longrightarrow> blank n (FixedBuffer_new mem) \<and> blank n (fixed_bzero (FixedBuffer_new mem))"
  by (simp add: blank_def buf_ok_def fixed_inv_def FixedBuffer_new_def fixed_bzero_def)

lemma blank_reset: "buf_ok n b \<Longrightarrow> blank n (fixed_reset b)"
  by (auto simp: blank_def buf_ok_def fixed_inv_def fixed_reset_def)

lemma buf_append:
  assumes "buf_ok n b" "cur b + length s < n"
  shows "\<exists>b'. fixed_append s b = Inr b' \<and> buf_ok n b' \<and> fixed_toString b' = fixed_toString b @ s"
  using fixed_append_ok [of b s] assms by (auto simp: buf_ok_def)

lemma buf_avail: "buf_ok n b \<Longrightarrow> avail b > int k \<longleftrightarrow> cur b + k < n"
  using fixed_inv_text(3) [of b] by (auto simp: buf_ok_def)

text \<open>Of the buffers in circulation the next one is missing only when a full one waits to be collected.\<close>

definition front_ok :: "nat \<Rightarrow> AsyncLogging \<Rightarrow> bool" where
  "front_ok n a \<longleftrightarrow> (\<exists>b. currentBuffer a = Some b \<and> buf_ok n b) \<and> list_all (buf_ok n) (buffers a) \<and>
     (case nextBuffer a of Some b \<Rightarrow> blank n b | None \<Rightarrow> buffers a \<noteq> [])"

definition spare_ok :: "nat \<Rightarrow> FixedBuffer option \<Rightarrow> bool" where
  "spare_ok n p \<longleftrightarrow> (case p of Some b \<Rightarrow> blank n b | None \<Rightarrow> False)"

definition back_ok :: "nat \<Rightarrow> AsyncLogging \<Rightarrow> bool" where
  "back_ok n a \<longleftrightarrow> (case backPoint a of
       AtWrite \<Rightarrow> newBuffer1 a = None \<and> buffersToWrite a \<noteq> [] \<and> list_all (buf_ok n) (buffersToWrite a) \<and>
         (spare_ok n (newBuffer2 a) \<or> newBuffer2 a = None \<and> 2 \<le> length (buffersToWrite a))
     | Exited \<Rightarrow> True
     | _ \<Rightarrow> spare_ok n (newBuffer1 a) \<and> spare_ok n (newBuffer2 a) \<and> buffersToWrite a = [])"

lemma front_ok_same:
  "currentBuffer a' = currentBuffer a \<Longrightarrow> nextBuffer a' = nextBuffer a \<Longrightarrow> buffers a' = buffers a \<Longrightarrow> front_ok n a' = front_ok n a"
  unfolding front_ok_def by (cases "nextBuffer a") simp_all

lemma back_ok_same:
  "backPoint a' = backPoint a \<Longrightarrow> newBuffer1 a' = newBuffer1 a \<Longrightarrow> newBuffer2 a' = newBuffer2 a \<Longrightarrow>
   buffersToWrite a' = buffersToWrite a \<Longrightarrow> back_ok n a' = back_ok n a"
  unfolding back_ok_def by (cases "backPoint a") simp_all

text \<open>Every line is whole in one buffer, in order.\<close>

definition texts :: "async_config \<Rightarrow> string list" where
  "texts c = concat (map fst (batches c)) @ map fixed_toString (buffers (async c)) @
     (case currentBuffer (async c) of Some b \<Rightarrow> [fixed_toString b] | None \<Rightarrow> [])"

definition lines_ok :: "async_config \<Rightarrow> bool" where
  "lines_ok c \<longleftrightarrow> (\<exists>gs. concat gs = logged c \<and> map concat gs = texts c)"

definition output_ok :: "async_config \<Rightarrow> bool" where
  "output_ok c \<longleftrightarrow> logfile_inv (logOut (async c)) \<and>
     (if backPoint (async c) = AtWrite
      then \<exists>bs n. batches c = bs @ [(map fixed_toString (buffersToWrite (async c)), n)] \<and>
        log_content (logOut (async c)) = concat (map written bs)
      else log_content (logOut (async c)) = concat (map written (batches c)))"

lemma output_ok_same:
  "backPoint (async c') = backPoint (async c) \<Longrightarrow> buffersToWrite (async c') = buffersToWrite (async c) \<Longrightarrow>
   logOut (async c') = logOut (async c) \<Longrightarrow> batches c' = batches c \<Longrightarrow> output_ok c' = output_ok c"
  unfolding output_ok_def by (cases "backPoint (async c) = AtWrite") simp_all

definition async_inv :: "nat \<Rightarrow> async_config \<Rightarrow> bool" where
  "async_inv n c \<longleftrightarrow> front_ok n (async c) \<and> back_ok n (async c) \<and> lines_ok c \<and> output_ok c"

lemma append_front:
  assumes "front_ok (length mem) a" "length line < length mem" "length mem < 2 ^ 31"
  shows "\<exists>a' b b'. async_append mem line a = Inr a' \<and> front_ok (length mem) a' \<and>
    currentBuffer a = Some b \<and> currentBuffer a' = Some b' \<and>
    (buffers a' = buffers a \<and> fixed_toString b' = fixed_toString b @ line \<or>
     buffers a' = buffers a @ [b] \<and> fixed_toString b' = line) \<and>
    running a' = running a \<and> backPoint a' = backPoint a \<and> newBuffer1 a' = newBuffer1 a \<and> newBuffer2 a' = newBuffer2 a \<and>
    buffersToWrite a' = buffersToWrite a \<and> logOut a' = logOut a"
proof -
  let ?n = "length mem"
  obtain b where b: "currentBuffer a = Some b" "buf_ok ?n b" using assms(1) by (auto simp: front_ok_def)
  show ?thesis
  proof (cases "cur b + length line < ?n")
    case True
    then obtain b' where "fixed_append line b = Inr b'" "buf_ok ?n b'" "fixed_toString b' = fixed_toString b @ line"
      using buf_append [OF b(2)] by blast
    then show ?thesis
      using assms(1) b True buf_avail [OF b(2), of "length line"]
      by (cases "nextBuffer a") (simp_all add: async_append_def deref_def front_ok_def)
  next
    case False
    define fresh where "fresh = (case nextBuffer a of Some x \<Rightarrow> x | None \<Rightarrow> FixedBuffer_new mem)"
    have "0 < ?n" using assms(2) by (rule le_less_trans [OF le0])
    then have new: "blank ?n (FixedBuffer_new mem)" by (rule conjunct1 [OF blank_new [OF refl _ assms(3)]])
    have f: "blank ?n fresh"
      using assms(1) new by (cases "nextBuffer a") (simp_all add: fresh_def front_ok_def)
    then obtain b' where "fixed_append line fresh = Inr b'" "buf_ok ?n b'" "fixed_toString b' = line"
      using buf_append [of ?n fresh line] assms(2) blank_text [OF f] by (auto simp: blank_def)
    then show ?thesis
      using assms(1) b False buf_avail [OF b(2), of "length line"]
      by (cases "nextBuffer a") (simp_all add: async_append_def deref_def fresh_def front_ok_def)
  qed
qed

lemma append_lines:
  assumes "map concat gs = ts @ us @ [t]" "concat gs = ls"
  shows "\<exists>gs'. map concat gs' = ts @ us @ [t @ line] \<and> concat gs' = ls @ [line]"
    and "\<exists>gs'. map concat gs' = ts @ us @ [t, line] \<and> concat gs' = ls @ [line]"
proof -
  have "gs \<noteq> []" using assms(1) by auto
  then obtain hs g where g: "gs = hs @ [g]" by (metis rev_exhaust)
  then have "map concat hs = ts @ us" "concat g = t" using assms(1) by simp_all
  then show "\<exists>gs'. map concat gs' = ts @ us @ [t @ line] \<and> concat gs' = ls @ [line]"
    using assms(2) g by (intro exI [of _ "hs @ [g @ [line]]"]) simp
  show "\<exists>gs'. map concat gs' = ts @ us @ [t, line] \<and> concat gs' = ls @ [line]"
    using assms by (intro exI [of _ "gs @ [[line]]"]) simp
qed

lemma log_line_inv:
  assumes c: "async_inv (length mem) c" and l: "length line < length mem" "length mem < 2 ^ 31"
    and a: "async_append mem line (async c) = Inr a"
  shows "async_inv (length mem) (c\<lparr>async := a, logged := logged c @ [line]\<rparr>)"
proof -
  let ?c = "c\<lparr>async := a, logged := logged c @ [line]\<rparr>"
  obtain b b' where b: "front_ok (length mem) a" "currentBuffer (async c) = Some b" "currentBuffer a = Some b'"
      "buffers a = buffers (async c) \<and> fixed_toString b' = fixed_toString b @ line \<or>
       buffers a = buffers (async c) @ [b] \<and> fixed_toString b' = line"
    and same: "backPoint a = backPoint (async c)" "newBuffer1 a = newBuffer1 (async c)" "newBuffer2 a = newBuffer2 (async c)"
      "buffersToWrite a = buffersToWrite (async c)" "logOut a = logOut (async c)"
    using append_front [OF _ l, of "async c"] c a by (auto simp: async_inv_def)
  obtain gs where gs: "concat gs = logged c"
      "map concat gs = concat (map fst (batches c)) @ map fixed_toString (buffers (async c)) @ [fixed_toString b]"
    using c b(2) by (auto simp: async_inv_def lines_ok_def texts_def)
  have "lines_ok ?c"
    using append_lines [OF gs(2,1), of line] b(3,4) by (auto simp: lines_ok_def texts_def)
  moreover have "back_ok (length mem) a" using c back_ok_same [OF same(1-4)] by (simp add: async_inv_def)
  moreover have "output_ok ?c" using c same output_ok_same [of ?c c] by (simp add: async_inv_def)
  ultimately show ?thesis using b(1) by (simp add: async_inv_def)
qed

lemma stop_inv: "async_inv n c \<Longrightarrow> async_inv n (c\<lparr>async := async_stop (async c)\<rparr>)"
  using front_ok_same [of "async_stop (async c)" "async c" n] back_ok_same [of "async_stop (async c)" "async c" n]
    output_ok_same [of "c\<lparr>async := async_stop (async c)\<rparr>" c]
  by (simp add: async_inv_def lines_ok_def texts_def async_stop_def)

lemma test_ok:
  assumes "async_inv n c" "backPoint (async c) = AtTest"
  shows "\<exists>a. async_test (async c) = Inr a \<and> async_inv n (c\<lparr>async := a\<rparr>) \<and> running a = running (async c) \<and>
    backPoint a = (if running (async c) then AtCollect else Exited) \<and> currentBuffer a = currentBuffer (async c) \<and>
    buffers a = buffers (async c) \<and> log_content (logOut a) = log_content (logOut (async c))"
proof -
  let ?a = "async c" and ?p = "if running (async c) then AtCollect else Exited"
  have e: "empty_buffer (newBuffer1 ?a)" "empty_buffer (newBuffer2 ?a)" "buffersToWrite ?a = []"
    using assms blank_text by (auto simp: async_inv_def back_ok_def spare_ok_def empty_buffer_def split: option.splits)
  obtain out where out: "flush (logOut ?a) = Inr out" "logfile_inv out" "log_content out = log_content (logOut ?a)"
    using flush_keeps assms(1) by (auto simp: async_inv_def output_ok_def)
  define a where "a = ?a\<lparr>backPoint := ?p, logOut := (if running ?a then logOut ?a else out)\<rparr>"
  have r: "async_test ?a = Inr a" using e out(1) by (simp add: async_test_def assert_that_def a_def)
  have "front_ok n a" using assms(1) front_ok_same [of a ?a n] by (simp add: a_def async_inv_def)
  moreover have "back_ok n a" using assms by (auto simp: a_def async_inv_def back_ok_def)
  moreover have "lines_ok (c\<lparr>async := a\<rparr>)" "output_ok (c\<lparr>async := a\<rparr>)"
    using assms out(2,3) by (auto simp: a_def async_inv_def lines_ok_def texts_def output_ok_def)
  ultimately show ?thesis using r out(3) by (simp add: async_inv_def a_def)
qed

lemma collect_ok:
  assumes "async_inv n c" "backPoint (async c) = AtCollect"
  shows "\<exists>a. async_collect (async c) = Inr a \<and> async_inv n (c\<lparr>async := a, batches := batches c @ [(map fixed_toString (buffersToWrite a), '''')]\<rparr>) \<and>
    running a = running (async c) \<and> backPoint a = AtWrite \<and> buffers a = [] \<and> (\<exists>b. currentBuffer a = Some b \<and> fixed_toString b = '''')"
proof -
  let ?a = "async c"
  obtain b where b: "currentBuffer ?a = Some b" "buf_ok n b" using assms(1) by (auto simp: async_inv_def front_ok_def)
  obtain n1 n2 where s: "newBuffer1 ?a = Some n1" "blank n n1" "newBuffer2 ?a = Some n2" "blank n n2"
    using assms by (auto simp: async_inv_def back_ok_def spare_ok_def split: option.splits)
  let ?bs = "buffers ?a @ [b]"
  let ?a' = "?a\<lparr>buffers := [], buffersToWrite := ?bs, currentBuffer := Some n1, newBuffer1 := None, backPoint := AtWrite,
      nextBuffer := (if nextBuffer ?a = None then Some n2 else nextBuffer ?a), newBuffer2 := (if nextBuffer ?a = None then None else Some n2)\<rparr>"
  have r: "async_collect ?a = Inr ?a'" using b(1) s by (simp add: async_collect_def deref_def Let_def)
  have f: "front_ok n ?a'" using assms(1) s by (auto simp: async_inv_def front_ok_def blank_def split: option.splits)
  have "nextBuffer ?a = None \<Longrightarrow> buffers ?a \<noteq> []" "list_all (buf_ok n) (buffers ?a)"
    using assms(1) by (auto simp: async_inv_def front_ok_def)
  then have bk: "back_ok n ?a'"
    using b(2) s by (auto simp: back_ok_def spare_ok_def Suc_le_eq)
  obtain gs where gs: "concat gs = logged c"
      "map concat gs = concat (map fst (batches c)) @ map fixed_toString ?bs"
    using assms(1) b(1) by (auto simp: async_inv_def lines_ok_def texts_def)
  have "lines_ok (c\<lparr>async := ?a', batches := batches c @ [(map fixed_toString ?bs, '''')]\<rparr>)"
    unfolding lines_ok_def using gs blank_text [OF s(2)] by (intro exI [of _ "gs @ [[]]"]) (simp add: texts_def)
  then show ?thesis using r f bk assms blank_text [OF s(2)] by (auto simp: async_inv_def output_ok_def)
qed

lemma append_all_keeps:
  assumes "env_works env" "logfile_inv f"
  shows "\<exists>f'. append_all env clocks ss f = Some (Inr f') \<and> logfile_inv f' \<and> log_content f' = log_content f @ concat ss"
  using assms(2)
proof (induction ss arbitrary: f clocks)
  case (Cons s ss)
  then show ?case
    using append_unlocked_keeps [OF assms(1), of f "hd (clocks @ [(0, 0)])" s] by fastforce
qed simp

lemma refills:
  assumes "list_all (buf_ok n) bs" "bs \<noteq> []" "spare_ok n p \<or> p = None \<and> 2 \<le> length bs"
  shows "\<exists>b1 bs' b2 bs''. refill None (take 2 bs) = Inr (Some b1, bs') \<and> blank n b1 \<and> refill p bs' = Inr (Some b2, bs'') \<and> blank n b2"
proof -
  obtain x rest where bs: "bs = x # rest" "buf_ok n x" using assms(1,2) by (cases bs) auto
  show ?thesis
  proof (cases "2 \<le> length bs")
    case True
    then obtain y rest' where y: "rest = y # rest'" "buf_ok n y" using bs assms(1) by (cases rest) auto
    then have "take 2 bs = [x, y]" using bs by (simp add: numeral_2_eq_2)
    then show ?thesis using bs y assms(3) blank_reset
      by (auto simp: refill_def assert_that_def spare_ok_def split: option.splits)
  next
    case False
    then have "take 2 bs = [x]" using bs by (cases rest) simp_all
    then show ?thesis using bs False assms(3) blank_reset
      by (auto simp: refill_def assert_that_def spare_ok_def split: option.splits)
  qed
qed

lemma write_ok:
  assumes env: "env_works env" and c: "async_inv n c" "backPoint (async c) = AtWrite"
  shows "\<exists>a. async_write env clocks stamp (async c) = Some (Inr a) \<and> running a = running (async c) \<and> backPoint a = AtTest \<and>
    buffers a = buffers (async c) \<and> currentBuffer a = currentBuffer (async c) \<and> (\<exists>bs ts m. batches c = bs @ [(ts, m)]) \<and>
    (\<forall>bs ts m. batches c = bs @ [(ts, m)] \<longrightarrow>
      async_inv n (c\<lparr>async := a, batches := bs @ [(ts, drop_notice stamp (length ts))]\<rparr>))"
proof -
  let ?a = "async c" and ?bs = "buffersToWrite (async c)" and ?notice = "drop_notice stamp (length (buffersToWrite (async c)))"
  let ?out = "(if length ?bs > 25 then [?notice] else []) @ map fixed_toString (if length ?bs > 25 then take 2 ?bs else ?bs)"
  have b: "newBuffer1 ?a = None" "?bs \<noteq> []" "list_all (buf_ok n) ?bs" "spare_ok n (newBuffer2 ?a) \<or> newBuffer2 ?a = None \<and> 2 \<le> length ?bs"
    using c by (simp_all add: async_inv_def back_ok_def)
  obtain old m where d: "batches c = old @ [(map fixed_toString ?bs, m)]" "log_content (logOut ?a) = concat (map written old)"
      and lf: "logfile_inv (logOut ?a)"
    using c by (auto simp: async_inv_def output_ok_def)
  obtain out0 where out0: "append_all env clocks ?out (logOut ?a) = Some (Inr out0)" "logfile_inv out0"
      "log_content out0 = log_content (logOut ?a) @ concat ?out"
    using append_all_keeps [OF env lf] by blast
  obtain out where out: "flush out0 = Inr out" "logfile_inv out" "log_content out = log_content (logOut ?a) @ concat ?out"
    using flush_keeps [OF out0(2)] out0(3) by auto
  obtain b1 bs' b2 bs'' where r: "refill None (take 2 ?bs) = Inr (Some b1, bs')" "blank n b1" "refill (newBuffer2 ?a) bs' = Inr (Some b2, bs'')" "blank n b2"
    using refills [OF b(3,2,4)] by blast
  define a where "a = ?a\<lparr>newBuffer1 := Some b1, newBuffer2 := Some b2, buffersToWrite := [], logOut := out, backPoint := AtTest\<rparr>"
  have "take 2 (if length ?bs > 25 then take 2 ?bs else ?bs) = take 2 ?bs" by simp
  then have w: "async_write env clocks stamp ?a = Some (Inr a)"
    using b(1,2) out0(1) out(1) r(1,3) by (simp add: async_write_def Let_def a_def del: take_take)
  let ?c = "c\<lparr>async := a, batches := old @ [(map fixed_toString ?bs, ?notice)]\<rparr>"
  have "front_ok n a" using c(1) front_ok_same [of a ?a n] by (simp add: a_def async_inv_def)
  moreover have "back_ok n a" using r by (simp add: a_def back_ok_def spare_ok_def)
  moreover have "lines_ok ?c" using c(1) d(1) by (simp add: async_inv_def lines_ok_def texts_def a_def)
  moreover have "concat ?out = written (map fixed_toString ?bs, ?notice)" by (simp add: written_def take_map)
  then have "output_ok ?c" using d(2) out(2,3) by (simp add: output_ok_def a_def)
  ultimately show ?thesis using w d(1) by (auto simp: async_inv_def a_def)
qed

lemma async_step_inv:
  assumes "env_works env" "length mem < 2 ^ 31" "async_step env mem c c'" "async_inv (length mem) c"
    and "list_all (\<lambda>l. length l < length mem) (logged c')"
  shows "async_inv (length mem) c'"
  using assms(3-5)
proof cases
  case (log_line line a)
  then show ?thesis using log_line_inv [OF assms(4) _ assms(2)] assms(5) by simp
next
  case stop
  then show ?thesis using stop_inv assms(4) by simp
next
  case (test a)
  then show ?thesis using test_ok [OF assms(4)] by fastforce
next
  case (collect a)
  then show ?thesis using collect_ok [OF assms(4)] by fastforce
next
  case (write_out clocks stamp a bs ts n)
  then show ?thesis using write_ok [OF assms(1,4), of clocks stamp] by fastforce
qed

lemma async_step_logged: "async_step env mem c c' \<Longrightarrow> \<exists>ls. logged c' = logged c @ ls"
  by (cases rule: async_step.cases) auto

lemma async_run_inv:
  assumes "(async_step env mem)\<^sup>*\<^sup>* c c'" "env_works env" "length mem < 2 ^ 31" "async_inv (length mem) c"
    and "list_all (\<lambda>l. length l < length mem) (logged c')"
  shows "async_inv (length mem) c'"
  using assms(1,5)
proof (induction rule: rtranclp_induct)
  case base
  then show ?case using assms(4) by simp
next
  case (step c1 c2)
  obtain ls where "logged c2 = logged c1 @ ls" using async_step_logged [OF step(2)] by blast
  then have "async_inv (length mem) c1" using step by simp
  then show ?case using async_step_inv [OF assms(2,3) step(2)] step(4) by simp
qed

definition async_begin :: "char list \<Rightarrow> LogFile \<Rightarrow> async_config res" where
  "async_begin mem out = bindE (threadFunc_begin mem out (async_start (AsyncLogging_new mem out))) (\<lambda>a. Inr \<lparr>async = a, logged = [], batches = []\<rparr>)"

lemma async_begin_inv:
  assumes "0 < length mem" "length mem < 2 ^ 31" "logfile_inv out" "log_content out = ''''" "async_begin mem out = Inr c"
  shows "async_inv (length mem) c"
proof -
  let ?b = "fixed_bzero (FixedBuffer_new mem)"
  have b: "blank (length mem) ?b" by (rule conjunct2 [OF blank_new [OF refl assms(1,2)]])
  have c: "c = \<lparr>async = \<lparr>running = True, currentBuffer = Some ?b, nextBuffer = Some ?b, buffers = [], backPoint = AtTest,
      newBuffer1 = Some ?b, newBuffer2 = Some ?b, buffersToWrite = [], logOut = out\<rparr>, logged = [], batches = []\<rparr>"
    using assms(5) by (simp add: async_begin_def async_start_def threadFunc_begin_def AsyncLogging_new_def assert_that_def)
  have "lines_ok c" unfolding lines_ok_def using blank_text [OF b] by (intro exI [of _ "[[]]"]) (simp add: c texts_def)
  then show ?thesis
    using b assms(3,4) by (simp add: async_inv_def front_ok_def back_ok_def spare_ok_def output_ok_def c blank_def)
qed

section \<open>A turn of the back end\<close>

definition drained :: "async_config \<Rightarrow> bool" where
  "drained c \<longleftrightarrow> buffers (async c) = [] \<and> (\<exists>b. currentBuffer (async c) = Some b \<and> fixed_toString b = '''')"

lemma concat_twice: "concat (map concat xs) = concat (concat xs)"
  by (induction xs) simp_all

lemma drained_content:
  assumes "async_inv n c" "drained c" "backPoint (async c) \<noteq> AtWrite" "\<forall>(texts, m) \<in> set (batches c). length texts \<le> 25"
  shows "log_content (logOut (async c)) = concat (logged c)"
proof -
  obtain gs where gs: "concat gs = logged c" "map concat gs = concat (map fst (batches c)) @ ['''']"
    using assms(1,2) by (auto simp: async_inv_def lines_ok_def texts_def drained_def)
  have "map written (batches c) = map concat (map fst (batches c))"
    using assms(4) by (auto simp: written_def)
  then have "log_content (logOut (async c)) = concat (concat (map fst (batches c)))"
    using assms(1,3) by (simp add: async_inv_def output_ok_def concat_twice del: map_map)
  also have "\<dots> = concat (map concat gs)" using gs(2) by simp
  finally show ?thesis using gs(1) by (simp add: concat_twice)
qed

definition can_drain :: "log_env \<Rightarrow> char list \<Rightarrow> async_config \<Rightarrow> bool" where
  "can_drain env mem c \<longleftrightarrow> (\<exists>c'. (async_step env mem)\<^sup>*\<^sup>* c c' \<and> logged c' = logged c \<and> async_inv (length mem) c' \<and>
     drained c' \<and> backPoint (async c') = AtTest)"

lemma can_drain_step: "async_step env mem c c' \<Longrightarrow> logged c' = logged c \<Longrightarrow> can_drain env mem c' \<Longrightarrow> can_drain env mem c"
  unfolding can_drain_def by (metis converse_rtranclp_into_rtranclp)

lemma drain_write:
  assumes "env_works env" "async_inv (length mem) c" "backPoint (async c) = AtWrite"
  shows "\<exists>c'. async_step env mem c c' \<and> logged c' = logged c \<and> async_inv (length mem) c' \<and> backPoint (async c') = AtTest \<and>
    running (async c') = running (async c) \<and> buffers (async c') = buffers (async c) \<and> currentBuffer (async c') = currentBuffer (async c)"
proof -
  obtain a bs ts m where a: "async_write env [] '''' (async c) = Some (Inr a)" "batches c = bs @ [(ts, m)]" "running a = running (async c)"
      "backPoint a = AtTest" "buffers a = buffers (async c)" "currentBuffer a = currentBuffer (async c)"
      "async_inv (length mem) (c\<lparr>async := a, batches := bs @ [(ts, drop_notice '''' (length ts))]\<rparr>)"
    using write_ok [OF assms, of "[]" "''''"] by metis
  show ?thesis using async_step.write_out [OF assms(3) a(1,2), of mem] a by fastforce
qed

lemma drain_collect:
  assumes "env_works env" "async_inv (length mem) c" "backPoint (async c) = AtCollect" "running (async c)"
  shows "can_drain env mem c"
proof -
  obtain a where a: "async_collect (async c) = Inr a" "running a = running (async c)" "backPoint a = AtWrite" "buffers a = []"
      "\<exists>b. currentBuffer a = Some b \<and> fixed_toString b = ''''"
      "async_inv (length mem) (c\<lparr>async := a, batches := batches c @ [(map fixed_toString (buffersToWrite a), '''')]\<rparr>)"
    using collect_ok [OF assms(2,3)] by blast
  let ?c = "c\<lparr>async := a, batches := batches c @ [(map fixed_toString (buffersToWrite a), '''')]\<rparr>"
  have s: "async_step env mem c ?c" by (rule async_step.collect [OF assms(3) a(1)])
  obtain c' where "async_step env mem ?c c'" "logged c' = logged c" "async_inv (length mem) c'" "backPoint (async c') = AtTest"
      "buffers (async c') = []" "currentBuffer (async c') = currentBuffer a"
    using drain_write [OF assms(1) a(6)] a(3,4) by auto
  then have "can_drain env mem ?c" using a(5) unfolding can_drain_def drained_def
    by (intro exI [of _ c']) (simp add: r_into_rtranclp)
  then show ?thesis using can_drain_step [OF s] by simp
qed

lemma drain_test:
  assumes "env_works env" "async_inv (length mem) c" "backPoint (async c) = AtTest" "running (async c)"
  shows "can_drain env mem c"
proof -
  obtain a where a: "async_test (async c) = Inr a" "async_inv (length mem) (c\<lparr>async := a\<rparr>)" "running a" "backPoint a = AtCollect"
    using test_ok [OF assms(2,3)] assms(4) by auto
  then have "can_drain env mem (c\<lparr>async := a\<rparr>)" using drain_collect [OF assms(1) a(2)] by simp
  then show ?thesis using can_drain_step [OF async_step.test [OF assms(3) a(1)]] by simp
qed

lemma drain:
  assumes "env_works env" "async_inv (length mem) c" "backPoint (async c) \<noteq> Exited" "running (async c)"
  shows "can_drain env mem c"
proof (cases "backPoint (async c)")
  case AtWrite
  obtain c' where c: "async_step env mem c c'" "logged c' = logged c" "async_inv (length mem) c'" "backPoint (async c') = AtTest" "running (async c')"
    using drain_write [OF assms(1,2) AtWrite] assms(4) by auto
  show ?thesis by (rule can_drain_step [OF c(1,2) drain_test [OF assms(1) c(3-5)]])
qed (use assms drain_test drain_collect in auto)

lemma LogFile_new_inv:
  assumes "env_works env" "LogFile_new env base rollBytes flushSecs everyN now = Inr out" "0 < now" "in_int32 everyN"
  shows "logfile_inv out \<and> log_content out = ''''"
proof -
  obtain s where "strftime_stamp (e_gmtime env now) = Inr s" using strftime_fits assms(1) unfolding env_works_def by blast
  then show ?thesis
    using assms(2-4) by (auto simp: LogFile_new_def rollFile_def getLogFileName_def AppendFile_new_def assert_that_def logfile_inv_def
        log_content_def split: if_splits)
qed

text \<open>
  C18. Threads log lines in any interleaving with the back end, each line shorter than a buffer, on a
  disk that works. Every line is whole in one buffer, in the order of logging; the files hold exactly
  the texts of the batches the back end finished, except that of a batch of more than 25 buffers only
  the first two are written, after a notice. While logging is on the back end can always finish its
  turn and the next one, and then the files hold every line logged, unless a batch was too long.
\<close>

theorem async_logging_keeps_lines:
  assumes "env_works env" "0 < length mem" "length mem < 2 ^ 31" "LogFile_new env base rollBytes 3 1024 now = Inr out" "0 < now"
    and "async_begin mem out = Inr c0" "(async_step env mem)\<^sup>*\<^sup>* c0 c" "list_all (\<lambda>l. length l < length mem) (logged c)"
  shows "(\<exists>gs b. currentBuffer (async c) = Some b \<and> concat gs = logged c \<and>
      map concat gs = concat (map fst (batches c)) @ map fixed_toString (buffers (async c)) @ [fixed_toString b]) \<and>
    log_content (logOut (async c)) = concat (map written (if backPoint (async c) = AtWrite then butlast (batches c) else batches c)) \<and>
    (running (async c) \<and> backPoint (async c) \<noteq> Exited \<longrightarrow>
      (\<exists>c'. (async_step env mem)\<^sup>*\<^sup>* c c' \<and> logged c' = logged c \<and>
        ((\<forall>(texts, n) \<in> set (batches c'). length texts \<le> 25) \<longrightarrow> log_content (logOut (async c')) = concat (logged c))))"
proof -
  have "logfile_inv out \<and> log_content out = ''''" using LogFile_new_inv [OF assms(1,4,5)] by (simp add: in_int32_def)
  then have "async_inv (length mem) c0" using async_begin_inv [OF assms(2,3) _ _ assms(6)] by simp
  then have i: "async_inv (length mem) c" by (rule async_run_inv [OF assms(7,1,3) _ assms(8)])
  obtain b where b: "currentBuffer (async c) = Some b" using i by (auto simp: async_inv_def front_ok_def)
  then have "\<exists>gs b. currentBuffer (async c) = Some b \<and> concat gs = logged c \<and>
      map concat gs = concat (map fst (batches c)) @ map fixed_toString (buffers (async c)) @ [fixed_toString b]"
    using i by (auto simp: async_inv_def lines_ok_def texts_def)
  moreover have "log_content (logOut (async c)) = concat (map written (if backPoint (async c) = AtWrite then butlast (batches c) else batches c))"
    using i by (auto simp: async_inv_def output_ok_def)
  moreover have "\<exists>c'. (async_step env mem)\<^sup>*\<^sup>* c c' \<and> logged c' = logged c \<and>
        ((\<forall>(texts, n) \<in> set (batches c'). length texts \<le> 25) \<longrightarrow> log_content (logOut (async c')) = concat (logged c))"
    if r: "running (async c)" "backPoint (async c) \<noteq> Exited"
  proof -
    obtain c' where c: "(async_step env mem)\<^sup>*\<^sup>* c c'" "logged c' = logged c" "async_inv (length mem) c'" "drained c'" "backPoint (async c') = AtTest"
      using drain [OF assms(1) i r(2,1)] by (auto simp: can_drain_def)
    then show ?thesis using drained_content [OF c(3,4)] by auto
  qed
  ultimately show ?thesis by blast
qed

text \<open>A disk that works, small buffers, and one line logged before the back end turns.\<close>

definition demo_env :: log_env where
  "demo_env = \<lparr>e_gmtime = (\<lambda>_. \<lparr>tm_year = 70, tm_mon = 0, tm_mday = 1, tm_hour = 0, tm_min = 0, tm_sec = 0\<rparr>), e_hostname = ''h'', e_pid = 7,
     e_disk = (\<lambda>_ m. (m, False))\<rparr>"

definition demo_mem :: "char list" where
  "demo_mem = replicate 8 (CHR 0x00)"

definition demo_out :: LogFile where
  "demo_out = projr (LogFile_new demo_env ''log'' 1000 3 1024 5)"

definition demo_c0 :: async_config where
  "demo_c0 = projr (async_begin demo_mem demo_out)"

definition demo_c1 :: async_config where
  "demo_c1 = demo_c0\<lparr>async := projr (async_append demo_mem ''ab'' (async demo_c0)), logged := [''ab'']\<rparr>"

lemma demo_env_works: "env_works demo_env"
  by (simp add: demo_env_def env_works_def gmtime_works_def disk_works_def in_int32_def)

lemma demo_log: "LogFile_new demo_env ''log'' 1000 3 1024 5 = Inr demo_out" "async_begin demo_mem demo_out = Inr demo_c0"
proof -
  obtain t where "strftime_stamp (e_gmtime demo_env 5) = Inr t" using strftime_fits demo_env_works unfolding env_works_def by blast
  then show "LogFile_new demo_env ''log'' 1000 3 1024 5 = Inr demo_out"
    by (simp add: demo_out_def LogFile_new_def rollFile_def getLogFileName_def AppendFile_new_def assert_that_def)
  show "async_begin demo_mem demo_out = Inr demo_c0"
    by (simp add: demo_c0_def async_begin_def async_start_def threadFunc_begin_def assert_that_def AsyncLogging_new_def)
qed

lemma demo_out_inv: "logfile_inv demo_out \<and> log_content demo_out = ''''"
  by (rule LogFile_new_inv [OF demo_env_works demo_log(1)]) (simp_all add: in_int32_def)

lemma demo_line: "async_append demo_mem ''ab'' (async demo_c0) = Inr (async demo_c1)" "logged demo_c0 = []" "logged demo_c1 = [''ab'']"
    "running (async demo_c1)" "backPoint (async demo_c1) = AtTest" "logOut (async demo_c1) = demo_out"
  by (simp_all add: demo_c1_def demo_c0_def demo_mem_def async_begin_def async_start_def threadFunc_begin_def assert_that_def AsyncLogging_new_def
      async_append_def deref_def avail_def fixed_append_def FixedBuffer_new_def fixed_bzero_def to_int32_def mem_write_def)

lemma demo_mem_length: "0 < length demo_mem" "length demo_mem < 2 ^ 31" "list_all (\<lambda>l. length l < length demo_mem) (logged demo_c1)"
  by (simp_all add: demo_mem_def demo_line(3))

lemma demo_run: "(async_step demo_env demo_mem)\<^sup>*\<^sup>* demo_c0 demo_c1"
proof -
  have "demo_c0\<lparr>async := async demo_c1, logged := logged demo_c0 @ [''ab'']\<rparr> = demo_c1" using demo_line(2) by (simp add: demo_c1_def)
  then show ?thesis using async_step.log_line [OF demo_line(1), of demo_env] by (simp only: r_into_rtranclp)
qed

theorem async_logging_keeps_lines_witness:
  "\<exists>c'. (async_step demo_env demo_mem)\<^sup>*\<^sup>* demo_c1 c' \<and> logged c' = [''ab''] \<and>
     ((\<forall>(texts, n) \<in> set (batches c'). length texts \<le> 25) \<longrightarrow> log_content (logOut (async c')) = ''ab'')"
proof -
  have "0 < (5::int)" by simp
  note conjunct2 [OF conjunct2 [OF async_logging_keeps_lines
    [OF demo_env_works demo_mem_length(1,2) demo_log(1) this demo_log(2) demo_run demo_mem_length(3)]]]
  then show ?thesis using demo_line(3-5) by simp
qed

text \<open>
  \<^verbatim>\<open>stop\<close> loses what was logged since the back end last collected: it leaves its loop, flushes the
  file and never looks at the buffers again.
\<close>

lemma async_stop_loses_lines:
  "\<exists>c. (async_step demo_env demo_mem)\<^sup>*\<^sup>* demo_c1 c \<and> backPoint (async c) = Exited \<and> logged c = [''ab''] \<and> log_content (logOut (async c)) = ''''"
proof -
  let ?a = "async_stop (async demo_c1)"
  have s: "async_step demo_env demo_mem demo_c1 (demo_c1\<lparr>async := ?a\<rparr>)" by (rule async_step.stop)
  have o: "logOut ?a = demo_out" "running ?a = False" "backPoint ?a = AtTest"
    using demo_line(5,6) by (simp_all add: async_stop_def)
  obtain out where "flush demo_out = Inr out" "log_content out = ''''" using flush_keeps demo_out_inv by metis
  then have t: "async_test ?a = Inr (projr (async_test ?a))" "backPoint (projr (async_test ?a)) = Exited"
    "log_content (logOut (projr (async_test ?a))) = ''''" using o by (simp_all add: async_test_def)
  have "async_step demo_env demo_mem (demo_c1\<lparr>async := ?a\<rparr>) (demo_c1\<lparr>async := projr (async_test ?a)\<rparr>)"
    using async_step.test [of "demo_c1\<lparr>async := ?a\<rparr>" "projr (async_test ?a)" demo_env demo_mem] t(1) o(3) by simp
  then show ?thesis using s t(2,3) demo_line(3)
    by (intro exI [of _ "demo_c1\<lparr>async := projr (async_test ?a)\<rparr>"]) (auto intro: converse_rtranclp_into_rtranclp)
qed

end
