(* ===== verification/Logging.thy ===== *)
theory Logging
  imports Rpc FileUtil LogStream TimeZone
begin

text \<open>
  \<^verbatim>\<open>muduo/base/CurrentThread.cc\<close>, \<^verbatim>\<open>Thread.cc\<close> and \<^verbatim>\<open>Logging.cc\<close>: what a thread keeps about itself, the start and the
  end of threads, and the records that the macros \<^verbatim>\<open>LOG_INFO\<close> etc. write.
\<close>

section \<open>CurrentThread\<close>

text \<open>The thread-local variables. \<open>gettid\<close> is the answer of the system call in this thread.\<close>

record CurrentThread =
  t_cachedTid :: int
  t_tidString :: string
  t_tidStringLength :: int
  t_threadName :: string

definition CurrentThread_init :: CurrentThread where
  "CurrentThread_init = \<lparr>t_cachedTid = 0, t_tidString = '''', t_tidStringLength = 6, t_threadName = ''unknown''\<rparr>"

definition cacheTid :: "int \<Rightarrow> CurrentThread \<Rightarrow> CurrentThread" where
  "cacheTid gettid ct =
     (if t_cachedTid ct = 0
      then let printed = fmt_wd 5 gettid @ '' ''
           in ct\<lparr>t_cachedTid := gettid, t_tidString := snprintf_buf 32 printed, t_tidStringLength := int (length printed)\<rparr>
      else ct)"

definition current_tid :: "int \<Rightarrow> CurrentThread \<Rightarrow> int \<times> CurrentThread" where
  "current_tid gettid ct =
     (let ct = (if t_cachedTid ct = 0 then cacheTid gettid ct else ct) in (t_cachedTid ct, ct))"

definition afterFork :: "int \<Rightarrow> CurrentThread \<Rightarrow> CurrentThread" where
  "afterFork gettid ct = snd (current_tid gettid (ct\<lparr>t_cachedTid := 0, t_threadName := ''main''\<rparr>))"

definition ThreadNameInitializer :: "int \<Rightarrow> CurrentThread \<Rightarrow> CurrentThread" where
  "ThreadNameInitializer gettid ct = snd (current_tid gettid (ct\<lparr>t_threadName := ''main''\<rparr>))"

definition isMainThread :: "int \<Rightarrow> int \<Rightarrow> CurrentThread \<Rightarrow> bool" where
  "isMainThread gettid getpid ct \<longleftrightarrow> fst (current_tid gettid ct) = getpid"

text \<open>The seconds and nanoseconds given to \<^verbatim>\<open>nanosleep\<close>.\<close>

definition sleepUsec :: "int \<Rightarrow> int \<times> int" where
  "sleepUsec usec = (usec sdiv kMicroSecondsPerSecond, usec smod kMicroSecondsPerSecond * 1000)"

text \<open>
  \<open>frames\<close> is what \<^verbatim>\<open>backtrace_symbols\<close> gives, \<open>cxa_demangle\<close> the library's function, with \<open>None\<close> for a bad status.
\<close>

definition frame_text :: "(string \<Rightarrow> string option) \<Rightarrow> bool \<Rightarrow> string \<Rightarrow> string" where
  "frame_text cxa_demangle demangle s =
     (case (demangle, find_last (CHR ''('') s, find_last (CHR ''+'') s) of
        (True, Some left_par, Some pl) \<Rightarrow>
          (case cxa_demangle (drop (Suc left_par) (take (if left_par < pl then pl else length s) s)) of
             Some demangled \<Rightarrow> take (Suc left_par) s @ demangled @ drop pl s
           | None \<Rightarrow> s)
      | _ \<Rightarrow> s) @ [CHR 0x0A]"

definition stackTrace :: "(string \<Rightarrow> string option) \<Rightarrow> bool \<Rightarrow> string list option \<Rightarrow> string" where
  "stackTrace cxa_demangle demangle frames =
     (case frames of None \<Rightarrow> '''' | Some ss \<Rightarrow> concat (map (frame_text cxa_demangle demangle) (drop 1 ss)))"

section \<open>Thread\<close>

record Thread =
  started :: bool
  joined :: bool
  tid :: int
  thread_name :: string

definition setDefaultName :: "32 word \<Rightarrow> Thread \<Rightarrow> (32 word \<times> Thread) res" where
  "setDefaultName numCreated t =
     bindE (incrementAndGet numCreated) (\<lambda>(num, numCreated).
       Inr (numCreated,
         if thread_name t = '''' then t\<lparr>thread_name := snprintf_buf 32 (''Thread'' @ fmt_d (sint num))\<rparr> else t))"

definition Thread_new :: "32 word \<Rightarrow> string \<Rightarrow> (32 word \<times> Thread) res" where
  "Thread_new numCreated n = setDefaultName numCreated \<lparr>started = False, joined = False, tid = 0, thread_name = n\<rparr>"

text \<open>Whether the destructor detaches the thread.\<close>

definition Thread_destroy :: "Thread \<Rightarrow> bool" where
  "Thread_destroy t \<longleftrightarrow> started t \<and> \<not> joined t"

datatype func_end = Returned | ThrewException | ThrewStdException | ThrewOther

text \<open>What the new thread does: the id it stores before the latch, its variables, and whether the process survives.\<close>

definition data_runInThread :: "int \<Rightarrow> string \<Rightarrow> func_end \<Rightarrow> CurrentThread \<Rightarrow> int \<times> CurrentThread res" where
  "data_runInThread gettid n outcome ct =
     (let (id, ct) = current_tid gettid ct; ct = ct\<lparr>t_threadName := (if n = '''' then ''muduoThread'' else n)\<rparr>
      in (id, if outcome = Returned then Inr (ct\<lparr>t_threadName := ''finished''\<rparr>) else Inl Fatal))"

text \<open>\<open>created\<close> says whether \<^verbatim>\<open>pthread_create\<close> succeeded; then \<open>start\<close> waits for the latch, after which the id is stored.\<close>

definition thread_start :: "bool \<Rightarrow> int \<Rightarrow> Thread \<Rightarrow> Thread res" where
  "thread_start created gettid t =
     assert_that (\<not> started t)
       (let t = t\<lparr>started := True\<rparr>
        in if created
           then let t = t\<lparr>tid := fst (data_runInThread gettid (thread_name t) Returned CurrentThread_init)\<rparr>
                in assert_that (0 < tid t) (Inr t)
           else Inl Fatal)"

definition thread_join :: "Thread \<Rightarrow> Thread res" where
  "thread_join t = assert_that (started t) (assert_that (\<not> joined t) (Inr (t\<lparr>joined := True\<rparr>)))"

section \<open>Logger\<close>

datatype LogLevel = TRACE | DEBUG | INFO | WARN | ERROR | FATAL

fun level_number :: "LogLevel \<Rightarrow> nat" where
  "level_number TRACE = 0"
| "level_number DEBUG = 1"
| "level_number INFO = 2"
| "level_number WARN = 3"
| "level_number ERROR = 4"
| "level_number FATAL = 5"

definition initLogLevel :: "(string \<Rightarrow> string option) \<Rightarrow> LogLevel" where
  "initLogLevel getenv =
     (if getenv ''MUDUO_LOG_TRACE'' \<noteq> None then TRACE
      else if getenv ''MUDUO_LOG_DEBUG'' \<noteq> None then DEBUG
      else INFO)"

definition LogLevelName :: "string list" where
  "LogLevelName = [''TRACE '', ''DEBUG '', ''INFO  '', ''WARN  '', ''ERROR '', ''FATAL '']"

text \<open>The text before the zero that ends a C string; the helper \<^verbatim>\<open>T\<close> asserts its length.\<close>

definition T_new :: "string \<Rightarrow> int \<Rightarrow> string res" where
  "T_new str len = assert_that (int (length str) = len) (Inr str)"

record SourceFile =
  sf_data :: string
  sf_size :: int

definition SourceFile_array :: "string \<Rightarrow> SourceFile" where
  "SourceFile_array arr =
     (case find_last (CHR ''/'') arr of
        Some slash \<Rightarrow> \<lparr>sf_data = drop (Suc slash) arr, sf_size = int (length arr) - int (Suc slash)\<rparr>
      | None \<Rightarrow> \<lparr>sf_data = arr, sf_size = int (length arr)\<rparr>)"

definition SourceFile_cstring :: "string \<Rightarrow> SourceFile" where
  "SourceFile_cstring filename =
     (let d = (case find_last (CHR ''/'') filename of Some slash \<Rightarrow> drop (Suc slash) filename | None \<Rightarrow> filename)
      in \<lparr>sf_data = d, sf_size = to_int32 (int (length d))\<rparr>)"

text \<open>
  The globals with what went to \<^verbatim>\<open>g_output\<close>, and the variables of the thread that logs. The operators \<^verbatim>\<open><<\<close> are the
  operations of \<^verbatim>\<open>LogStream\<close>, in a row.
\<close>

record log_globals =
  g_logLevel :: LogLevel
  g_logTimeZone :: TimeZone
  g_outputs :: "string list"
  g_flushes :: nat

record log_thread =
  lt_current :: CurrentThread
  t_time :: string
  t_lastSecond :: int

record LoggerImpl =
  i_stream :: FixedBuffer
  i_level :: LogLevel
  i_line :: int
  i_basename :: SourceFile

abbreviation stream_all :: "stream_op list \<Rightarrow> FixedBuffer \<Rightarrow> FixedBuffer res" where
  "stream_all \<equiv> foldE stream_step"

definition stamp_text :: "DateTime \<Rightarrow> string" where
  "stamp_text dt =
     fmt_wd 4 (dt_year dt) @ fmt_0wd 2 (dt_month dt) @ fmt_0wd 2 (dt_day dt) @ '' '' @
     fmt_0wd 2 (dt_hour dt) @ '':'' @ fmt_0wd 2 (dt_minute dt) @ '':'' @ fmt_0wd 2 (dt_second dt)"

definition log_time :: "TimeZone \<Rightarrow> int \<Rightarrow> DateTime res" where
  "log_time zone seconds = (if zone \<noteq> None then bindE (toLocalTime seconds zone) (\<lambda>(dt, _). Inr dt) else toUtcTime seconds)"

definition formatTime :: "TimeZone \<Rightarrow> Timestamp \<Rightarrow> log_thread \<Rightarrow> FixedBuffer \<Rightarrow> (log_thread \<times> FixedBuffer) res" where
  "formatTime zone time th b =
     (let seconds = time sdiv kMicroSecondsPerSecond; microseconds = to_int32 (time smod kMicroSecondsPerSecond)
      in bindE
        (if seconds \<noteq> t_lastSecond th
         then bindE (log_time zone seconds) (\<lambda>dt.
           let printed = stamp_text dt
           in assert_that (length printed = 17) (Inr (th\<lparr>t_lastSecond := seconds, t_time := snprintf_buf 64 printed\<rparr>)))
         else Inr th) (\<lambda>th.
           let n = (if zone \<noteq> None then 8 else 9)
           in bindE (Fmt_new (''.'' @ fmt_0wd 6 microseconds @ (if zone \<noteq> None then '' '' else ''Z ''))) (\<lambda>us.
             assert_that (length us = n)
               (bindE (T_new (t_time th) 17) (\<lambda>t. bindE (T_new us (int n)) (\<lambda>us.
                  bindE (stream_all [SString t, SString us] b) (\<lambda>b. Inr (th, b))))))))"

text \<open>\<open>mem\<close> is what the memory of the new stream's buffer holds; \<open>strerror\<close> is \<^verbatim>\<open>strerror_r\<close>.\<close>

definition Impl_new ::
    "char list \<Rightarrow> (int \<Rightarrow> string) \<Rightarrow> int \<Rightarrow> TimeZone \<Rightarrow> Timestamp \<Rightarrow> LogLevel \<Rightarrow> int \<Rightarrow> SourceFile \<Rightarrow> int \<Rightarrow> log_thread \<Rightarrow>
     (LoggerImpl \<times> log_thread) res" where
  "Impl_new mem strerror gettid zone now level savedErrno sf line th =
     bindE (formatTime zone now th (FixedBuffer_new mem)) (\<lambda>(th, b).
       let (_, ct) = current_tid gettid (lt_current th); th = th\<lparr>lt_current := ct\<rparr>
       in bindE (T_new (t_tidString ct) (t_tidStringLength ct)) (\<lambda>id.
         bindE (T_new (LogLevelName ! level_number level) 6) (\<lambda>nm.
         bindE (stream_all [SString id, SString nm] b) (\<lambda>b.
         bindE (if savedErrno \<noteq> 0
                then stream_all [SCString (Some (strerror savedErrno)), SCString (Some '' (errno=''), SInteger savedErrno, SCString (Some '') '')] b
                else Inr b) (\<lambda>b.
           Inr (\<lparr>i_stream = b, i_level = level, i_line = line, i_basename = sf\<rparr>, th))))))"

definition finish :: "LoggerImpl \<Rightarrow> LoggerImpl res" where
  "finish i =
     bindE (stream_all [SCString (Some '' - ''), SString (take (nat (sf_size (i_basename i))) (sf_data (i_basename i))), SChar (CHR '':''),
         SInteger (i_line i), SChar (CHR 0x0A)] (i_stream i)) (\<lambda>b.
       Inr (i\<lparr>i_stream := b\<rparr>))"

text \<open>The destructor hands the record over; whether it aborts is the second component.\<close>

definition Logger_destroy :: "LoggerImpl \<Rightarrow> log_globals \<Rightarrow> (log_globals \<times> bool) res" where
  "Logger_destroy i g =
     bindE (finish i) (\<lambda>i.
       let g = g\<lparr>g_outputs := g_outputs g @ [fixed_toString (i_stream i)]\<rparr>
       in if i_level i = FATAL then Inr (g\<lparr>g_flushes := Suc (g_flushes g)\<rparr>, True) else Inr (g, False))"

definition setLogLevel :: "LogLevel \<Rightarrow> log_globals \<Rightarrow> log_globals" where
  "setLogLevel level g = g\<lparr>g_logLevel := level\<rparr>"

definition setTimeZone :: "TimeZone \<Rightarrow> log_globals \<Rightarrow> log_globals" where
  "setTimeZone tz g = g\<lparr>g_logTimeZone := tz\<rparr>"

section \<open>The macros\<close>

text \<open>A statement: the macro with \<^verbatim>\<open>__func__\<close> or \<^verbatim>\<open>errno\<close> where it uses them, and the operands that follow.\<close>

datatype log_macro =
    LOG_TRACE string | LOG_DEBUG string | LOG_INFO | LOG_WARN | LOG_ERROR | LOG_FATAL
  | LOG_SYSERR int | LOG_SYSFATAL int

fun enabled :: "LogLevel \<Rightarrow> log_macro \<Rightarrow> bool" where
  "enabled level (LOG_TRACE _) \<longleftrightarrow> level_number level \<le> level_number TRACE"
| "enabled level (LOG_DEBUG _) \<longleftrightarrow> level_number level \<le> level_number DEBUG"
| "enabled level LOG_INFO \<longleftrightarrow> level_number level \<le> level_number INFO"
| "enabled level _ \<longleftrightarrow> True"

fun macro_level :: "log_macro \<Rightarrow> LogLevel" where
  "macro_level (LOG_TRACE _) = TRACE"
| "macro_level (LOG_DEBUG _) = DEBUG"
| "macro_level LOG_INFO = INFO"
| "macro_level LOG_WARN = WARN"
| "macro_level LOG_ERROR = ERROR"
| "macro_level LOG_FATAL = FATAL"
| "macro_level (LOG_SYSERR _) = ERROR"
| "macro_level (LOG_SYSFATAL _) = FATAL"

text \<open>The constructors of \<^verbatim>\<open>Logger\<close>: without more, with the name of the function, or with \<^verbatim>\<open>errno\<close>.\<close>

definition Logger_new ::
    "char list \<Rightarrow> (int \<Rightarrow> string) \<Rightarrow> int \<Rightarrow> TimeZone \<Rightarrow> Timestamp \<Rightarrow> log_macro \<Rightarrow> SourceFile \<Rightarrow> int \<Rightarrow> log_thread \<Rightarrow>
     (LoggerImpl \<times> log_thread) res" where
  "Logger_new mem strerror gettid zone now m sf line th =
     bindE (Impl_new mem strerror gettid zone now (macro_level m) (case m of LOG_SYSERR e \<Rightarrow> e | LOG_SYSFATAL e \<Rightarrow> e | _ \<Rightarrow> 0) sf line th) (\<lambda>(i, th).
       case m of
         LOG_TRACE func \<Rightarrow> bindE (stream_all [SCString (Some func), SChar (CHR '' '')] (i_stream i)) (\<lambda>b. Inr (i\<lparr>i_stream := b\<rparr>, th))
       | LOG_DEBUG func \<Rightarrow> bindE (stream_all [SCString (Some func), SChar (CHR '' '')] (i_stream i)) (\<lambda>b. Inr (i\<lparr>i_stream := b\<rparr>, th))
       | _ \<Rightarrow> Inr (i, th))"

record log_statement =
  ls_macro :: log_macro
  ls_file :: string
  ls_line :: int
  ls_now :: Timestamp
  ls_message :: "stream_op list"

definition log_statement_run ::
    "char list \<Rightarrow> (int \<Rightarrow> string) \<Rightarrow> int \<Rightarrow> log_statement \<Rightarrow> log_globals \<times> log_thread \<Rightarrow> (log_globals \<times> log_thread) res" where
  "log_statement_run mem strerror gettid s = (\<lambda>(g, th).
     if enabled (g_logLevel g) (ls_macro s)
     then bindE (Logger_new mem strerror gettid (g_logTimeZone g) (ls_now s) (ls_macro s) (SourceFile_array (ls_file s)) (ls_line s) th) (\<lambda>(i, th).
       bindE (stream_all (ls_message s) (i_stream i)) (\<lambda>b.
         bindE (Logger_destroy (i\<lparr>i_stream := b\<rparr>) g) (\<lambda>(g, aborted).
           if aborted then Inl Fatal else Inr (g, th))))
     else Inr (g, th))"

section \<open>The text of a record\<close>

definition seconds_of :: "Timestamp \<Rightarrow> int" where
  "seconds_of t = t div 1000000"

definition stamp_of :: "TimeZone \<Rightarrow> int \<Rightarrow> string" where
  "stamp_of zone seconds = (case log_time zone seconds of Inr dt \<Rightarrow> stamp_text dt | Inl _ \<Rightarrow> '''')"

definition tid_text :: "int \<Rightarrow> string" where
  "tid_text gettid = fmt_wd 5 gettid @ '' ''"

definition base_name :: "string \<Rightarrow> string" where
  "base_name path = (case find_last (CHR ''/'') path of Some i \<Rightarrow> drop (Suc i) path | None \<Rightarrow> path)"

definition micro_text :: "TimeZone \<Rightarrow> Timestamp \<Rightarrow> string" where
  "micro_text zone t = ''.'' @ fmt_0wd 6 (t mod 1000000) @ (if zone = None then ''Z '' else '' '')"

fun macro_text :: "(int \<Rightarrow> string) \<Rightarrow> log_macro \<Rightarrow> string" where
  "macro_text strerror (LOG_TRACE func) = func @ '' ''"
| "macro_text strerror (LOG_DEBUG func) = func @ '' ''"
| "macro_text strerror (LOG_SYSERR e) = (if e = 0 then '''' else strerror e @ '' (errno='' @ fmt_d e @ '') '')"
| "macro_text strerror (LOG_SYSFATAL e) = (if e = 0 then '''' else strerror e @ '' (errno='' @ fmt_d e @ '') '')"
| "macro_text strerror _ = ''''"

definition record_text :: "(int \<Rightarrow> string) \<Rightarrow> int \<Rightarrow> TimeZone \<Rightarrow> log_statement \<Rightarrow> string" where
  "record_text strerror gettid zone s =
     stamp_of zone (seconds_of (ls_now s)) @ micro_text zone (ls_now s) @ tid_text gettid @
     LogLevelName ! level_number (macro_level (ls_macro s)) @ macro_text strerror (ls_macro s) @
     concat (map op_text (ls_message s)) @ '' - '' @ base_name (ls_file s) @ '':'' @ fmt_d (ls_line s) @ [CHR 0x0A]"

text \<open>
  A statement that the clock, the zone and the buffer allow: after the first second of 1970, in a year of at most
  four digits, and short enough.
\<close>

definition zone_ok :: "TimeZone \<Rightarrow> int \<Rightarrow> bool" where
  "zone_ok zone seconds \<longleftrightarrow> (case log_time zone seconds of Inr dt \<Rightarrow> valid_dt dt \<and> 0 \<le> dt_year dt \<and> dt_year dt \<le> 9999 | Inl _ \<Rightarrow> False)"

definition statement_ok :: "(int \<Rightarrow> string) \<Rightarrow> int \<Rightarrow> TimeZone \<Rightarrow> log_statement \<Rightarrow> bool" where
  "statement_ok strerror gettid zone s \<longleftrightarrow>
     1000000 \<le> ls_now s \<and> zone_ok zone (seconds_of (ls_now s)) \<and> list_all op_ok (ls_message s) \<and> in_int32 (ls_line s) \<and>
     (case ls_macro s of LOG_SYSERR e \<Rightarrow> in_int32 e | LOG_SYSFATAL e \<Rightarrow> in_int32 e | _ \<Rightarrow> True) \<and>
     length (record_text strerror gettid zone s) + 48 \<le> kSmallBuffer"

section \<open>Streams with room\<close>

definition holds :: "nat \<Rightarrow> string \<Rightarrow> FixedBuffer \<Rightarrow> bool" where
  "holds n s b \<longleftrightarrow> fixed_inv b \<and> length (fdata b) = n \<and> fixed_toString b = s"

lemma stream_fits:
  assumes "holds n s b" "list_all op_ok ps" "length s + length (concat (map op_text ps)) + 48 \<le> n"
  shows "\<exists>b'. stream_all ps b = Inr b' \<and> holds n (s @ concat (map op_text ps)) b'"
  using assms
proof (induction ps arbitrary: s b)
  case (Cons p ps)
  obtain b1 where b1: "stream_step p b = Inr b1" "fixed_inv b1" "length (fdata b1) = length (fdata b)"
      "fixed_toString b1 = (if op_fits (length (fdata b)) (fixed_toString b) p then fixed_toString b @ op_text p else fixed_toString b)"
    using stream_step_ok [of b p] Cons.prems(1,2) by (auto simp: holds_def)
  have "op_fits n s p" using Cons.prems(3) by (simp add: op_fits_def)
  then have "holds n (s @ op_text p) b1" using b1 Cons.prems(1) by (simp add: holds_def)
  from Cons.IH [OF this] show ?case using b1(1) Cons.prems(2,3) by simp
qed (simp add: holds_def)

lemma stamp_17:
  assumes "zone_ok zone seconds"
  shows "\<exists>dt. log_time zone seconds = Inr dt \<and> stamp_of zone seconds = stamp_text dt \<and> length (stamp_text dt) = 17"
proof -
  obtain dt where dt: "log_time zone seconds = Inr dt" "valid_dt dt" "0 \<le> dt_year dt" "dt_year dt \<le> 9999"
    using assms by (auto simp: zone_ok_def split: sum.splits)
  have "1 \<le> dt_month dt" "dt_month dt \<le> 12" "1 \<le> dt_day dt" "dt_day dt \<le> 31"
    using dt(2) by (auto simp: valid_dt_def dt_ymd_def valid_ymd_def month_days_def split: if_splits)
  moreover have "length (fmt_wd 4 (dt_year dt)) = 4"
    using dt(3,4) dec_digits_length [of 4 "nat (dt_year dt)"] by (simp add: fmt_wd_def fmt_d_def)
  moreover have "length (fmt_0wd 2 v) = 2" if "0 \<le> v" "v < 100" for v
    using dec_digits_length [of 2 "nat v"] that by (simp add: fmt_0wd_def)
  ultimately have "length (stamp_text dt) = 17" using dt(2) by (simp add: stamp_text_def valid_dt_def)
  then show ?thesis using dt(1) by (simp add: stamp_of_def)
qed

section \<open>What a thread remembers\<close>

text \<open>The cached second is shown right as long as the zone stays the same.\<close>

definition clock_ok :: "TimeZone \<Rightarrow> log_thread \<Rightarrow> bool" where
  "clock_ok zone th \<longleftrightarrow> t_lastSecond th = 0 \<or> t_time th = stamp_of zone (t_lastSecond th) \<and> length (t_time th) = 17"

definition tid_ok :: "int \<Rightarrow> CurrentThread \<Rightarrow> bool" where
  "tid_ok gettid ct \<longleftrightarrow> t_cachedTid ct = 0 \<or> t_tidString ct = tid_text gettid \<and> t_tidStringLength ct = int (length (tid_text gettid))"

lemma micro_length: "length (micro_text zone t) = (if zone = None then 9 else 8)"
proof -
  have "nat (t mod 1000000) < 10 ^ 6" by (simp add: nat_less_iff)
  then have "length (dec_digits (nat (t mod 1000000))) \<le> 6" using dec_digits_length [of 6] by simp
  then show ?thesis by (simp add: micro_text_def fmt_0wd_def)
qed

lemma micros_of:
  assumes "1000000 \<le> t"
  shows "t sdiv kMicroSecondsPerSecond = seconds_of t" "to_int32 (t smod kMicroSecondsPerSecond) = t mod 1000000"
proof -
  have "0 \<le> t mod 1000000" "t mod 1000000 < 1000000" by simp_all
  moreover have "in_int32 v" if "0 \<le> v" "v < 1000000" for v using that by (simp add: in_int32_def)
  ultimately have "in_int32 (t mod 1000000)" by blast
  then have "to_int32 (t mod 1000000) = t mod 1000000" by (rule to_int32_exact)
  then show "t sdiv kMicroSecondsPerSecond = seconds_of t" "to_int32 (t smod kMicroSecondsPerSecond) = t mod 1000000"
    using assms by (simp_all add: sdiv_nonneg smod_nonneg seconds_of_def)
qed

lemma formatTime_ok:
  assumes "clock_ok zone th" "1000000 \<le> t" "zone_ok zone (seconds_of t)" "holds n s b"
    "length s + length (stamp_of zone (seconds_of t) @ micro_text zone t) + 48 \<le> n"
  shows "\<exists>th' b'. formatTime zone t th b = Inr (th', b') \<and> clock_ok zone th' \<and> lt_current th' = lt_current th \<and>
    holds n (s @ stamp_of zone (seconds_of t) @ micro_text zone t) b'"
proof -
  note sec = micros_of [OF assms(2)]
  have pos: "seconds_of t \<noteq> 0" using assms(2) by (simp add: seconds_of_def)
  obtain dt where dt: "log_time zone (seconds_of t) = Inr dt" "stamp_of zone (seconds_of t) = stamp_text dt" "length (stamp_text dt) = 17"
    using stamp_17 [OF assms(3)] by blast
  define th' where "th' = (if seconds_of t \<noteq> t_lastSecond th then th\<lparr>t_lastSecond := seconds_of t, t_time := stamp_text dt\<rparr> else th)"
  have th': "clock_ok zone th'" "t_time th' = stamp_of zone (seconds_of t)" "lt_current th' = lt_current th"
    using assms(1) dt pos by (auto simp: th'_def clock_ok_def)
  have step: "(if seconds_of t \<noteq> t_lastSecond th
       then bindE (log_time zone (seconds_of t)) (\<lambda>dt.
         let printed = stamp_text dt
         in assert_that (length printed = 17) (Inr (th\<lparr>t_lastSecond := seconds_of t, t_time := snprintf_buf 64 printed\<rparr>)))
       else Inr th) = Inr th'"
    using dt(1,3) by (simp add: th'_def assert_that_def snprintf_buf_def)
  let ?us = "micro_text zone t"
  have us: "''.'' @ fmt_0wd 6 (t mod 1000000) @ (if zone \<noteq> None then '' '' else ''Z '') = ?us" by (simp add: micro_text_def)
  have "length (t_time th') = 17" using th'(2) dt(2,3) by simp
  moreover obtain b' where "stream_all [SString (t_time th'), SString ?us] b = Inr b'" "holds n (s @ t_time th' @ ?us) b'"
    using stream_fits [OF assms(4), of "[SString (t_time th'), SString ?us]"] assms(5) th'(2) by auto
  ultimately show ?thesis
    unfolding formatTime_def sec Let_def step [unfolded Let_def] us
    using th' micro_length [of zone t] by (cases "zone = None") (simp_all add: Fmt_new_def assert_that_def T_new_def)
qed

lemma current_tid_ok:
  assumes "tid_ok gettid ct" "in_int32 gettid"
  shows "tid_ok gettid (snd (current_tid gettid ct))" "t_tidString (snd (current_tid gettid ct)) = tid_text gettid"
    "t_tidStringLength (snd (current_tid gettid ct)) = int (length (tid_text gettid))"
proof -
  have "length (dec_digits (nat \<bar>gettid\<bar>)) \<le> 10" using assms(2) dec_digits_length [of 10 "nat \<bar>gettid\<bar>"] by (auto simp: in_int32_def nat_less_iff)
  then have "length (fmt_d gettid) \<le> 11" by (auto simp: fmt_d_def)
  then have "length (tid_text gettid) \<le> 12" by (simp add: tid_text_def fmt_wd_def)
  then have "snprintf_buf 32 (tid_text gettid) = tid_text gettid" by (simp add: snprintf_buf_def)
  then show "tid_ok gettid (snd (current_tid gettid ct))" "t_tidString (snd (current_tid gettid ct)) = tid_text gettid"
    "t_tidStringLength (snd (current_tid gettid ct)) = int (length (tid_text gettid))"
    using assms(1) by (auto simp: current_tid_def cacheTid_def tid_ok_def Let_def tid_text_def [symmetric])
qed

definition thread_ok :: "int \<Rightarrow> TimeZone \<Rightarrow> log_thread \<Rightarrow> bool" where
  "thread_ok gettid zone th \<longleftrightarrow> clock_ok zone th \<and> tid_ok gettid (lt_current th)"

definition macro_errno :: "log_macro \<Rightarrow> int" where
  "macro_errno m = (case m of LOG_SYSERR e \<Rightarrow> e | LOG_SYSFATAL e \<Rightarrow> e | _ \<Rightarrow> 0)"

definition errno_text :: "(int \<Rightarrow> string) \<Rightarrow> int \<Rightarrow> string" where
  "errno_text strerror e = (if e = 0 then '''' else strerror e @ '' (errno='' @ fmt_d e @ '') '')"

lemma level_name: "length (LogLevelName ! level_number l) = 6"
  by (cases l) (simp_all add: LogLevelName_def)

lemma op_ok_int: "in_int32 i \<Longrightarrow> op_ok (SInteger i)"
  by (simp add: in_int32_def)

lemma Impl_new_ok:
  assumes "length mem = n" "n < 2 ^ 31" "thread_ok gettid zone th" "in_int32 gettid" "1000000 \<le> t" "zone_ok zone (seconds_of t)" "in_int32 e"
    and fits: "length (stamp_of zone (seconds_of t) @ micro_text zone t @ tid_text gettid @ LogLevelName ! level_number l @ errno_text strerror e) + 48 \<le> n"
  shows "\<exists>th' b. Impl_new mem strerror gettid zone t l e sf line th =
      Inr (\<lparr>i_stream = b, i_level = l, i_line = line, i_basename = sf\<rparr>, th') \<and> thread_ok gettid zone th' \<and>
    holds n (stamp_of zone (seconds_of t) @ micro_text zone t @ tid_text gettid @ LogLevelName ! level_number l @ errno_text strerror e) b"
proof -
  have h0: "holds n '''' (FixedBuffer_new mem)" using assms(1,2) fits fixed_inv_text(1) [of "FixedBuffer_new mem"]
    by (auto simp: holds_def fixed_inv_def FixedBuffer_new_def)
  obtain th1 b1 where f: "formatTime zone t th (FixedBuffer_new mem) = Inr (th1, b1)" "clock_ok zone th1" "lt_current th1 = lt_current th"
      "holds n (stamp_of zone (seconds_of t) @ micro_text zone t) b1"
    using formatTime_ok [OF _ assms(5,6) h0, of th] assms(3) fits by (auto simp: thread_ok_def)
  obtain i ct where ct: "current_tid gettid (lt_current th1) = (i, ct)" by fastforce
  have ok: "tid_ok gettid ct" "t_tidString ct = tid_text gettid" "t_tidStringLength ct = int (length (tid_text gettid))"
    using current_tid_ok [of gettid "lt_current th1"] assms(3,4) f(3) ct by (auto simp: thread_ok_def)
  let ?ps = "[SString (tid_text gettid), SString (LogLevelName ! level_number l)]"
  obtain b2 where b2: "stream_all ?ps b1 = Inr b2"
      "holds n (stamp_of zone (seconds_of t) @ micro_text zone t @ tid_text gettid @ LogLevelName ! level_number l) b2"
    using stream_fits [OF f(4), of ?ps] fits by auto
  let ?es = "[SCString (Some (strerror e)), SCString (Some '' (errno=''), SInteger e, SCString (Some '') '')]"
  have "\<exists>b3. (if e \<noteq> 0 then stream_all ?es b2 else Inr b2) = Inr b3 \<and>
      holds n (stamp_of zone (seconds_of t) @ micro_text zone t @ tid_text gettid @ LogLevelName ! level_number l @ errno_text strerror e) b3"
    using stream_fits [OF b2(2), of ?es] fits b2(2) op_ok_int [OF assms(7)] by (auto simp: errno_text_def)
  then obtain b3 where b3: "(if e \<noteq> 0 then stream_all ?es b2 else Inr b2) = Inr b3"
      "holds n (stamp_of zone (seconds_of t) @ micro_text zone t @ tid_text gettid @ LogLevelName ! level_number l @ errno_text strerror e) b3"
    by blast
  have "Impl_new mem strerror gettid zone t l e sf line th =
      Inr (\<lparr>i_stream = b3, i_level = l, i_line = line, i_basename = sf\<rparr>, th1\<lparr>lt_current := ct\<rparr>)"
    unfolding Impl_new_def f(1) using ok(2,3) b2(1) b3(1) level_name [of l]
    by (simp add: ct T_new_def assert_that_def del: foldE.simps)
  moreover have "thread_ok gettid zone (th1\<lparr>lt_current := ct\<rparr>)" using f(2) ok(1) by (simp add: thread_ok_def clock_ok_def)
  ultimately show ?thesis using b3(2) by blast
qed

lemma base_name_size: "take (nat (sf_size (SourceFile_array p))) (sf_data (SourceFile_array p)) = base_name p"
  by (auto simp: SourceFile_array_def base_name_def nat_diff_distrib split: option.splits)

abbreviation head_text :: "(int \<Rightarrow> string) \<Rightarrow> int \<Rightarrow> TimeZone \<Rightarrow> Timestamp \<Rightarrow> log_macro \<Rightarrow> string" where
  "head_text strerror gettid zone t m \<equiv> stamp_of zone (seconds_of t) @ micro_text zone t @ tid_text gettid @
     LogLevelName ! level_number (macro_level m) @ macro_text strerror m"

lemma Logger_new_ok:
  assumes "length mem = n" "n < 2 ^ 31" "thread_ok gettid zone th" "in_int32 gettid" "1000000 \<le> t" "zone_ok zone (seconds_of t)"
    "in_int32 (macro_errno m)" "length (head_text strerror gettid zone t m) + 48 \<le> n"
  shows "\<exists>th' i. Logger_new mem strerror gettid zone t m sf line th = Inr (i, th') \<and> thread_ok gettid zone th' \<and>
    i_level i = macro_level m \<and> i_line i = line \<and> i_basename i = sf \<and> holds n (head_text strerror gettid zone t m) (i_stream i)"
proof -
  let ?p = "stamp_of zone (seconds_of t) @ micro_text zone t @ tid_text gettid @ LogLevelName ! level_number (macro_level m) @
    errno_text strerror (macro_errno m)"
  have mt: "macro_text strerror m = errno_text strerror (macro_errno m) @ (case m of LOG_TRACE f \<Rightarrow> f @ '' '' | LOG_DEBUG f \<Rightarrow> f @ '' '' | _ \<Rightarrow> [])"
    by (cases m) (simp_all add: macro_errno_def errno_text_def)
  obtain th' b where b: "Impl_new mem strerror gettid zone t (macro_level m) (macro_errno m) sf line th =
      Inr (\<lparr>i_stream = b, i_level = macro_level m, i_line = line, i_basename = sf\<rparr>, th')" "thread_ok gettid zone th'" "holds n ?p b"
    using Impl_new_ok [OF assms(1-7), of "macro_level m" strerror sf line] assms(8) mt by (auto simp del: append_assoc)
  have func: "\<exists>b'. stream_all [SCString (Some f), SChar (CHR '' '')] b = Inr b' \<and> holds n (?p @ f @ '' '') b'"
    if "length (?p @ f @ '' '') + 48 \<le> n" for f
    using stream_fits [OF b(3), of "[SCString (Some f), SChar (CHR '' '')]"] that by (simp del: foldE.simps)
  show ?thesis
  proof (cases m)
    case (LOG_TRACE f)
    then show ?thesis using func [of f] b assms(8) unfolding Logger_new_def macro_errno_def [symmetric]
      by (auto simp: errno_text_def macro_errno_def simp del: foldE.simps)
  next
    case (LOG_DEBUG f)
    then show ?thesis using func [of f] b assms(8) unfolding Logger_new_def macro_errno_def [symmetric]
      by (auto simp: errno_text_def macro_errno_def simp del: foldE.simps)
  qed (use b mt in \<open>auto simp: Logger_new_def macro_errno_def errno_text_def\<close>)
qed

lemma statement_ok_errno: "statement_ok strerror gettid zone s \<Longrightarrow> in_int32 (macro_errno (ls_macro s))"
  by (auto simp: statement_ok_def macro_errno_def in_int32_def split: log_macro.splits)

lemma statement_run:
  assumes "length mem = kSmallBuffer" "thread_ok gettid (g_logTimeZone g) th" "in_int32 gettid"
    "enabled (g_logLevel g) (ls_macro s)" "statement_ok strerror gettid (g_logTimeZone g) s"
  shows "\<exists>th'. thread_ok gettid (g_logTimeZone g) th' \<and> log_statement_run mem strerror gettid s (g, th) =
    (if macro_level (ls_macro s) = FATAL then Inl Fatal
     else Inr (g\<lparr>g_outputs := g_outputs g @ [record_text strerror gettid (g_logTimeZone g) s]\<rparr>, th'))"
proof -
  let ?z = "g_logTimeZone g" and ?n = kSmallBuffer and ?m = "ls_macro s" and ?msg = "concat (map op_text (ls_message s))"
  have n: "?n < 2 ^ 31" by (simp add: kSmallBuffer_def)
  have ok: "1000000 \<le> ls_now s" "zone_ok ?z (seconds_of (ls_now s))" "list_all op_ok (ls_message s)" "in_int32 (ls_line s)"
      "length (record_text strerror gettid ?z s) + 48 \<le> ?n"
    using assms(5) by (simp_all add: statement_ok_def)
  let ?h = "head_text strerror gettid ?z (ls_now s) ?m" and ?sf = "SourceFile_array (ls_file s)"
  let ?e = "[SCString (Some '' - ''), SString (base_name (ls_file s)), SChar (CHR '':''), SInteger (ls_line s), SChar (CHR 0x0A)]"
  have rt: "record_text strerror gettid ?z s = ?h @ ?msg @ concat (map op_text ?e)" by (simp add: record_text_def)
  obtain th' i where i: "Logger_new mem strerror gettid ?z (ls_now s) ?m ?sf (ls_line s) th = Inr (i, th')" "thread_ok gettid ?z th'"
      "i_level i = macro_level ?m" "i_line i = ls_line s" "i_basename i = ?sf" "holds ?n ?h (i_stream i)"
    using Logger_new_ok [OF assms(1) n assms(2,3) ok(1,2) statement_ok_errno [OF assms(5)], of strerror ?sf "ls_line s"] ok(5)
    unfolding rt by auto
  obtain b where b: "stream_all (ls_message s) (i_stream i) = Inr b" "holds ?n (?h @ ?msg) b"
    using stream_fits [OF i(6) ok(3)] ok(5) unfolding rt by auto
  obtain b' where b': "stream_all ?e b = Inr b'" "holds ?n ((?h @ ?msg) @ concat (map op_text ?e)) b'"
    using stream_fits [OF b(2), of ?e] ok(5) op_ok_int [OF ok(4)] unfolding rt by (auto simp del: foldE.simps)
  have f: "finish (i\<lparr>i_stream := b\<rparr>) = Inr (i\<lparr>i_stream := b'\<rparr>)"
    using b'(1) by (simp add: finish_def i(4,5) base_name_size del: foldE.simps)
  have "fixed_toString b' = record_text strerror gettid ?z s" using b'(2) unfolding rt holds_def by (simp only: append_assoc)
  then show ?thesis
    using assms(4) i(1-3) b(1) f by (auto simp: log_statement_run_def Logger_destroy_def)
qed

section \<open>Properties\<close>


definition demo_thread :: log_thread where
  "demo_thread = \<lparr>lt_current = CurrentThread_init, t_time = '''', t_lastSecond = 0\<rparr>"

definition demo_globals :: log_globals where
  "demo_globals = \<lparr>g_logLevel = INFO, g_logTimeZone = None, g_outputs = [], g_flushes = 0\<rparr>"

definition demo_info :: log_statement where
  "demo_info = \<lparr>ls_macro = LOG_INFO, ls_file = ''a/b.cc'', ls_line = 7, ls_now = 1000005, ls_message = [SString ''up'']\<rparr>"

lemma demo_info_text: "record_text (\<lambda>_. '''') 42 None demo_info = ''19700101 00:00:01.000005Z    42 INFO  up - b.cc:7'' @ [CHR 0x0A]"
  by code_simp

lemma demo_info_ok: "statement_ok (\<lambda>_. '''') 42 None demo_info"
proof -
  have "zone_ok None 1" by code_simp
  then show ?thesis unfolding statement_ok_def demo_info_text by (simp add: demo_info_def seconds_of_def in_int32_def kSmallBuffer_def)
qed


text \<open>A record always fits a buffer of the asynchronous back end.\<close>

lemma output_short: "fixed_inv b \<Longrightarrow> length (fdata b) = kSmallBuffer \<Longrightarrow> length (fixed_toString b) < kLargeBuffer"
  using fixed_inv_text(2) [of b] by (simp add: fixed_inv_def kSmallBuffer_def kLargeBuffer_def)

text \<open>
  \<^verbatim>\<open>setTimeZone\<close> keeps the second that is cached: a record of the same second still shows the time of the old
  zone, without its mark.
\<close>

lemma set_zone_keeps_old_time:
  assumes "clock_ok zone th" "t_lastSecond th = seconds_of t" "1000000 \<le> t" "holds n s b" "length s + 73 \<le> n"
  shows "\<exists>b'. formatTime (Some data) t th b = Inr (th, b') \<and> holds n (s @ stamp_of zone (seconds_of t) @ micro_text (Some data) t) b'"
proof -
  have pos: "seconds_of t \<noteq> 0" using assms(3) by (simp add: seconds_of_def)
  then have tm: "t_time th = stamp_of zone (seconds_of t)" "length (t_time th) = 17" using assms(1,2) by (auto simp: clock_ok_def)
  obtain b' where b': "stream_all [SString (t_time th), SString (micro_text (Some data) t)] b = Inr b'"
      "holds n (s @ t_time th @ micro_text (Some data) t) b'"
    using stream_fits [OF assms(4), of "[SString (t_time th), SString (micro_text (Some data) t)]"] assms(5) tm(2) micro_length [of "Some data" t] by auto
  have us: "''.'' @ fmt_0wd 6 (t mod 1000000) @ '' '' = micro_text (Some data) t" by (simp add: micro_text_def)
  show ?thesis
    unfolding formatTime_def micros_of [OF assms(3)] Let_def
    using b' tm us micro_length [of "Some data" t] assms(2) by (simp add: Fmt_new_def T_new_def assert_that_def)
qed

text \<open>A message that fills the buffer leaves no room for the end of the record: the next one follows on the same line.\<close>

lemma full_record_has_no_end:
  assumes "fixed_inv b" "cur b + 1 = length (fdata b)"
  shows "finish \<lparr>i_stream = b, i_level = l, i_line = line, i_basename = \<lparr>sf_data = c # cs, sf_size = int (length (c # cs))\<rparr>\<rparr> =
    Inr \<lparr>i_stream = b, i_level = l, i_line = line, i_basename = \<lparr>sf_data = c # cs, sf_size = int (length (c # cs))\<rparr>\<rparr>"
proof -
  have "avail b = 1" using fixed_inv_text(3) [OF assms(1)] assms(2) by simp
  then show ?thesis
    by (simp add: finish_def stream_cstring_def stream_string_def stream_char_def formatInteger_def fixed_append_def kMaxNumericSize_def)
qed

text \<open>
  A thread is started and joined at most once; what is started and never joined is detached by the destructor,
  and after \<^verbatim>\<open>start\<close> its id is known.
\<close>

lemma thread_life:
  assumes "\<not> started t" "\<not> joined t" "0 < gettid"
  shows "thread_start True gettid t = Inr (t\<lparr>started := True, tid := gettid\<rparr>) \<and>
    thread_start True gettid (t\<lparr>started := True, tid := gettid\<rparr>) = Inl AssertFail \<and>
    thread_join t = Inl AssertFail \<and>
    thread_join (t\<lparr>started := True, tid := gettid\<rparr>) = Inr (t\<lparr>started := True, tid := gettid, joined := True\<rparr>) \<and>
    thread_join (t\<lparr>started := True, tid := gettid, joined := True\<rparr>) = Inl AssertFail \<and>
    Thread_destroy (t\<lparr>started := True, tid := gettid\<rparr>) \<and> \<not> Thread_destroy (t\<lparr>started := True, tid := gettid, joined := True\<rparr>)"
  using assms by (simp add: thread_start_def thread_join_def Thread_destroy_def data_runInThread_def current_tid_def cacheTid_def CurrentThread_init_def
      assert_that_def Let_def)

text \<open>The child of a \<^verbatim>\<open>fork\<close> shows its own id, whatever the parent had cached.\<close>

lemma fork_refreshes_tid:
  assumes "child \<noteq> 0" "in_int32 child"
  shows "current_tid child (afterFork child ct) = (child, afterFork child ct) \<and> t_tidString (afterFork child ct) = tid_text child"
  using assms current_tid_ok(2) [of child "ct\<lparr>t_cachedTid := 0, t_threadName := ''main''\<rparr>"]
  by (simp add: afterFork_def tid_ok_def current_tid_def cacheTid_def Let_def)

end
