(* ===== verification/StringPiece.thy ===== *)
theory StringPiece
  imports Prelude "HOL-Library.Sublist"
begin

text \<open>
  \<^verbatim>\<open>muduo/base/StringPiece.h\<close>: a piece of someone else's memory, and its comparisons.
\<close>

section \<open>Definitions\<close>

text \<open>
  The pointer is given by the bytes from there to the end of the object it points into; reading past
  them is undefined.
\<close>

record StringPiece =
  sp_ptr :: string
  sp_length :: int

definition StringPiece_empty :: StringPiece where
  "StringPiece_empty = \<lparr>sp_ptr = '''', sp_length = 0\<rparr>"

text \<open>A C string is followed by a zero, and so are the bytes of a \<^verbatim>\<open>std::string\<close>.\<close>

definition StringPiece_cstring :: "string \<Rightarrow> StringPiece" where
  "StringPiece_cstring str = \<lparr>sp_ptr = str @ [CHR 0x00], sp_length = to_int32 (int (length str))\<rparr>"

definition StringPiece_string :: "string \<Rightarrow> StringPiece" where
  "StringPiece_string str = \<lparr>sp_ptr = str @ [CHR 0x00], sp_length = to_int32 (int (length str))\<rparr>"

definition StringPiece_offset :: "string \<Rightarrow> int \<Rightarrow> StringPiece" where
  "StringPiece_offset offset len = \<lparr>sp_ptr = offset, sp_length = len\<rparr>"

definition sp_clear :: "StringPiece \<Rightarrow> StringPiece" where
  "sp_clear p = \<lparr>sp_ptr = '''', sp_length = 0\<rparr>"

definition sp_set :: "string \<Rightarrow> int \<Rightarrow> StringPiece \<Rightarrow> StringPiece" where
  "sp_set buffer len p = \<lparr>sp_ptr = buffer, sp_length = len\<rparr>"

definition sp_set_cstring :: "string \<Rightarrow> StringPiece \<Rightarrow> StringPiece" where
  "sp_set_cstring str p = \<lparr>sp_ptr = str @ [CHR 0x00], sp_length = to_int32 (int (length str))\<rparr>"

definition sp_empty :: "StringPiece \<Rightarrow> bool" where
  "sp_empty p \<longleftrightarrow> sp_length p = 0"

definition sp_nth :: "int \<Rightarrow> StringPiece \<Rightarrow> char res" where
  "sp_nth i p = (if 0 \<le> i \<and> nat i < length (sp_ptr p) then Inr (sp_ptr p ! nat i) else Inl UndefinedBehaviour)"

definition remove_prefix :: "int \<Rightarrow> StringPiece \<Rightarrow> StringPiece res" where
  "remove_prefix n p =
     (if 0 \<le> n \<and> nat n \<le> length (sp_ptr p)
      then ints32 [sp_length p - n] (Inr \<lparr>sp_ptr = drop (nat n) (sp_ptr p), sp_length = sp_length p - n\<rparr>)
      else Inl UndefinedBehaviour)"

definition remove_suffix :: "int \<Rightarrow> StringPiece \<Rightarrow> StringPiece res" where
  "remove_suffix n p = ints32 [sp_length p - n] (Inr (p\<lparr>sp_length := sp_length p - n\<rparr>))"

text \<open>\<^verbatim>\<open>memcmp\<close> compares as \<^verbatim>\<open>unsigned char\<close>; a negative length is a huge \<^verbatim>\<open>size_t\<close>.\<close>

fun compare_bytes :: "string \<Rightarrow> string \<Rightarrow> int" where
  "compare_bytes (x # xs) (y # ys) =
     (if (of_char x :: nat) < of_char y then -1 else if (of_char y :: nat) < of_char x then 1 else compare_bytes xs ys)"
| "compare_bytes _ _ = 0"

definition memcmp :: "string \<Rightarrow> string \<Rightarrow> int \<Rightarrow> int res" where
  "memcmp a b n =
     (if 0 \<le> n \<and> nat n \<le> length a \<and> nat n \<le> length b then Inr (compare_bytes (take (nat n) a) (take (nat n) b))
      else Inl UndefinedBehaviour)"

definition sp_equal :: "StringPiece \<Rightarrow> StringPiece \<Rightarrow> bool res" where
  "sp_equal p x =
     (if sp_length p = sp_length x then bindE (memcmp (sp_ptr p) (sp_ptr x) (sp_length p)) (\<lambda>r. Inr (r = 0)) else Inr False)"

definition sp_differs :: "StringPiece \<Rightarrow> StringPiece \<Rightarrow> bool res" where
  "sp_differs p x = bindE (sp_equal p x) (\<lambda>b. Inr (\<not> b))"

text \<open>The macro \<^verbatim>\<open>STRINGPIECE_BINARY_PREDICATE\<close> with its two comparisons.\<close>

definition sp_predicate :: "(int \<Rightarrow> int \<Rightarrow> bool) \<Rightarrow> (int \<Rightarrow> int \<Rightarrow> bool) \<Rightarrow> StringPiece \<Rightarrow> StringPiece \<Rightarrow> bool res" where
  "sp_predicate cmp auxcmp p x =
     bindE (memcmp (sp_ptr p) (sp_ptr x) (if sp_length p < sp_length x then sp_length p else sp_length x)) (\<lambda>r.
       Inr (auxcmp r 0 \<or> r = 0 \<and> cmp (sp_length p) (sp_length x)))"

definition sp_less :: "StringPiece \<Rightarrow> StringPiece \<Rightarrow> bool res" where
  "sp_less = sp_predicate (<) (<)"

definition sp_less_eq :: "StringPiece \<Rightarrow> StringPiece \<Rightarrow> bool res" where
  "sp_less_eq = sp_predicate (\<le>) (<)"

definition sp_greater_eq :: "StringPiece \<Rightarrow> StringPiece \<Rightarrow> bool res" where
  "sp_greater_eq = sp_predicate (\<ge>) (>)"

definition sp_greater :: "StringPiece \<Rightarrow> StringPiece \<Rightarrow> bool res" where
  "sp_greater = sp_predicate (>) (>)"

definition sp_compare :: "StringPiece \<Rightarrow> StringPiece \<Rightarrow> int res" where
  "sp_compare p x =
     bindE (memcmp (sp_ptr p) (sp_ptr x) (if sp_length p < sp_length x then sp_length p else sp_length x)) (\<lambda>r.
       Inr (if r = 0 then if sp_length p < sp_length x then -1 else if sp_length p > sp_length x then 1 else r else r))"

definition as_string :: "StringPiece \<Rightarrow> string res" where
  "as_string p =
     (if 0 \<le> sp_length p \<and> nat (sp_length p) \<le> length (sp_ptr p) then Inr (take (nat (sp_length p)) (sp_ptr p))
      else Inl UndefinedBehaviour)"

definition CopyToString :: "StringPiece \<Rightarrow> string res" where
  "CopyToString p = as_string p"

definition starts_with :: "StringPiece \<Rightarrow> StringPiece \<Rightarrow> bool res" where
  "starts_with p x =
     (if sp_length p \<ge> sp_length x then bindE (memcmp (sp_ptr p) (sp_ptr x) (sp_length x)) (\<lambda>r. Inr (r = 0)) else Inr False)"

section \<open>The text of a piece\<close>

definition sp_ok :: "StringPiece \<Rightarrow> bool" where
  "sp_ok p \<longleftrightarrow> 0 \<le> sp_length p \<and> in_int32 (sp_length p) \<and> nat (sp_length p) \<le> length (sp_ptr p)"

definition sp_text :: "StringPiece \<Rightarrow> string" where
  "sp_text p = take (nat (sp_length p)) (sp_ptr p)"

definition sp_bytes :: "StringPiece \<Rightarrow> nat list" where
  "sp_bytes p = map of_char (sp_text p)"

lemma sp_length_text: "sp_ok p \<Longrightarrow> sp_length p = int (length (sp_text p))"
  by (simp add: sp_ok_def sp_text_def)

lemma compare_bytes_equal: "length xs = length ys \<Longrightarrow> compare_bytes xs ys = 0 \<longleftrightarrow> xs = ys"
  by (induction xs ys rule: compare_bytes.induct) (auto simp: not_less_iff_gr_or_eq)

lemma compare_bytes_order:
  fixes xs ys :: string
  defines "k \<equiv> min (length xs) (length ys)"
  defines "r \<equiv> compare_bytes (take k xs) (take k ys)" and "a \<equiv> map of_char xs :: nat list" and "b \<equiv> map of_char ys :: nat list"
  shows "(ord_class.lexordp a b \<longleftrightarrow> r < 0 \<or> r = 0 \<and> length xs < length ys) \<and> (xs = ys \<longleftrightarrow> r = 0 \<and> length xs = length ys)"
  unfolding assms by (induction xs ys rule: compare_bytes.induct) (auto simp: not_less_iff_gr_or_eq neq_Nil_conv)

lemma memcmp_text:
  assumes "sp_ok p" "sp_ok q" "0 \<le> n" "n \<le> sp_length p" "n \<le> sp_length q"
  shows "memcmp (sp_ptr p) (sp_ptr q) n = Inr (compare_bytes (take (nat n) (sp_text p)) (take (nat n) (sp_text q)))"
  using assms by (auto simp: memcmp_def sp_ok_def sp_text_def min_def)

lemma sp_bytes_eq: "sp_bytes p = sp_bytes q \<longleftrightarrow> sp_text p = sp_text q"
  unfolding sp_bytes_def by (rule inj_map_eq_map) (simp add: inj_def)

lemma memcmp_order:
  assumes "sp_ok p" "sp_ok q"
  shows "\<exists>r. memcmp (sp_ptr p) (sp_ptr q) (if sp_length p < sp_length q then sp_length p else sp_length q) = Inr r \<and>
    (ord_class.lexordp (sp_bytes p) (sp_bytes q) \<longleftrightarrow> r < 0 \<or> r = 0 \<and> sp_length p < sp_length q) \<and>
    (sp_text p = sp_text q \<longleftrightarrow> r = 0 \<and> sp_length p = sp_length q)"
proof -
  let ?n = "if sp_length p < sp_length q then sp_length p else sp_length q"
  have n: "nat ?n = min (length (sp_text p)) (length (sp_text q))" using assms by (simp add: sp_length_text)
  have "memcmp (sp_ptr p) (sp_ptr q) ?n = Inr (compare_bytes (take (nat ?n) (sp_text p)) (take (nat ?n) (sp_text q)))"
    using assms by (intro memcmp_text) (simp_all add: sp_ok_def)
  then show ?thesis
    using compare_bytes_order [of "sp_text p" "sp_text q"] unfolding n sp_bytes_def [symmetric]
    by (simp add: sp_length_text [OF assms(1)] sp_length_text [OF assms(2)])
qed

lemma starts_with_prefix:
  assumes "sp_ok p" "sp_ok q"
  shows "starts_with p q = Inr (prefix (sp_text q) (sp_text p))"
proof (cases "sp_length p \<ge> sp_length q")
  case True
  let ?n = "length (sp_text q)"
  have n: "nat (sp_length q) = ?n" "?n \<le> length (sp_text p)" using True assms by (simp_all add: sp_length_text)
  have "memcmp (sp_ptr p) (sp_ptr q) (sp_length q) = Inr (compare_bytes (take ?n (sp_text p)) (take ?n (sp_text q)))"
    using memcmp_text [OF assms, of "sp_length q"] assms(2) True n(1) by (simp add: sp_ok_def)
  moreover have "compare_bytes (take ?n (sp_text p)) (sp_text q) = 0 \<longleftrightarrow> prefix (sp_text q) (sp_text p)"
    using compare_bytes_equal [of "take ?n (sp_text p)" "sp_text q"] n(2) by (metis append_eq_conv_conj length_take min.absorb2 prefix_def take_is_prefix)
  ultimately show ?thesis using True by (simp add: starts_with_def)
next
  case False
  then have "\<not> prefix (sp_text q) (sp_text p)" using assms prefix_length_le by (fastforce simp: sp_length_text)
  then show ?thesis using False by (simp add: starts_with_def)
qed

text \<open>
  The comparisons of two pieces within their memory are those of their texts: equality, the
  lexicographic order of the bytes in all its forms and with \<^verbatim>\<open>compare\<close>, and prefixes.
\<close>

theorem string_pieces_compare:
  assumes "sp_ok p" "sp_ok q"
  defines "lt \<equiv> ord_class.lexordp (sp_bytes p) (sp_bytes q)" and "gt \<equiv> ord_class.lexordp (sp_bytes q) (sp_bytes p)"
  shows "sp_equal p q = Inr (sp_text p = sp_text q) \<and> sp_differs p q = Inr (sp_text p \<noteq> sp_text q) \<and>
    sp_less p q = Inr lt \<and> sp_greater p q = Inr gt \<and> sp_less_eq p q = Inr (\<not> gt) \<and> sp_greater_eq p q = Inr (\<not> lt) \<and>
    (\<exists>r. sp_compare p q = Inr r \<and> (r < 0 \<longleftrightarrow> lt) \<and> (0 < r \<longleftrightarrow> gt)) \<and>
    starts_with p q = Inr (prefix (sp_text q) (sp_text p))"
proof -
  obtain r where r: "memcmp (sp_ptr p) (sp_ptr q) (if sp_length p < sp_length q then sp_length p else sp_length q) = Inr r"
      "lt \<longleftrightarrow> r < 0 \<or> r = 0 \<and> sp_length p < sp_length q" "sp_text p = sp_text q \<longleftrightarrow> r = 0 \<and> sp_length p = sp_length q"
    using memcmp_order [OF assms(1,2)] unfolding lt_def by blast
  have "gt \<longleftrightarrow> \<not> lt \<and> sp_bytes p \<noteq> sp_bytes q"
    unfolding lt_def gt_def by (metis lexordp_antisym lexordp_irreflexive' lexordp_linear)
  then have gt: "gt \<longleftrightarrow> 0 < r \<or> r = 0 \<and> sp_length q < sp_length p" using r(2,3) sp_bytes_eq by auto
  have eq: "sp_equal p q = Inr (sp_text p = sp_text q)"
    using r(1,3) by (cases "sp_length p = sp_length q") (auto simp: sp_equal_def)
  show ?thesis
    using r gt eq starts_with_prefix [OF assms(1,2)]
    by (auto simp: sp_differs_def sp_less_def sp_greater_def sp_less_eq_def sp_greater_eq_def sp_predicate_def sp_compare_def)
qed

theorem string_pieces_compare_witness:
  "sp_less (StringPiece_string ''ab'') (StringPiece_string ''b'') = Inr True"
proof -
  have ok: "sp_ok (StringPiece_string ''ab'')" "sp_ok (StringPiece_string ''b'')"
    by (simp_all add: sp_ok_def StringPiece_string_def to_int32_exact in_int32_def)
  from string_pieces_compare [OF this] show ?thesis by (simp add: sp_bytes_def sp_text_def StringPiece_string_def to_int32_exact in_int32_def)
qed

lemma remove_prefix_text:
  assumes "sp_ok p" "0 \<le> n" "n \<le> sp_length p"
  shows "\<exists>p'. remove_prefix n p = Inr p' \<and> sp_ok p' \<and> sp_text p' = drop (nat n) (sp_text p)"
  using assms by (auto simp: remove_prefix_def ints32_def sp_ok_def sp_text_def in_int32_def drop_take nat_diff_distrib)

lemma as_string_text: "sp_ok p \<Longrightarrow> as_string p = Inr (sp_text p)"
  by (simp add: as_string_def sp_ok_def sp_text_def)

lemma StringPiece_string_text: "length s < 2 ^ 31 \<Longrightarrow> sp_ok (StringPiece_string s) \<and> sp_text (StringPiece_string s) = s"
  by (simp add: sp_ok_def sp_text_def StringPiece_string_def to_int32_exact in_int32_def)

end
