(* ===== verification/Inspect.thy ===== *)
theory Inspect
  imports Http FileUtil FormatSI StringPiece
begin

text \<open>
  \<^verbatim>\<open>muduo/net/inspect/\<close>: the commands that a browser can send to a running process, and what the
  commands about the process and the system answer. The answers of system calls and the files of
  \<^verbatim>\<open>/proc\<close> are arguments.
\<close>

section \<open>Inspector\<close>

lemma memchr_less: "memchr c xs = Some i \<Longrightarrow> i < length xs"
  using std_find_le [of c xs] by (auto simp: memchr_def Let_def split: if_splits)

text \<open>\<^verbatim>\<open>split\<close>: \<open>start\<close> is after the last slash found.\<close>

function split_loop :: "string \<Rightarrow> nat \<Rightarrow> string list \<Rightarrow> string list" where
  "split_loop str start result =
     (case memchr (CHR ''/'') (drop start str) of
        Some i \<Rightarrow>
          (let pos = start + i; result = (if pos > start then result @ [take (pos - start) (drop start str)] else result)
           in split_loop str (pos + 1) result)
      | None \<Rightarrow> if start < length str then result @ [drop start str] else result)"
  by auto

termination
  by (relation "measure (\<lambda>(str, start, result). length str - start)") (auto dest: memchr_less)

declare split_loop.simps [simp del]

definition split :: "string \<Rightarrow> string list" where
  "split str = split_loop str 0 []"

text \<open>A \<^verbatim>\<open>std::function\<close> may be empty.\<close>

type_synonym callback = "(Method \<Rightarrow> string list \<Rightarrow> string res) option"

record Inspector =
  modules :: "(string \<times> (string \<times> callback) list) list"
  helps :: "(string \<times> (string \<times> string) list) list"

text \<open>\<^verbatim>\<open>operator[]\<close> of the outer map makes an empty inner one.\<close>

definition smap_at :: "(string \<times> 'v list) list \<Rightarrow> string \<Rightarrow> 'v list" where
  "smap_at m k = (case map_of m k of Some l \<Rightarrow> l | None \<Rightarrow> [])"

definition inspector_add :: "string \<Rightarrow> string \<Rightarrow> callback \<Rightarrow> string \<Rightarrow> Inspector \<Rightarrow> Inspector" where
  "inspector_add mdl command cb help ins =
     ins\<lparr>modules := smap_set mdl (smap_set command cb (smap_at (modules ins) mdl)) (modules ins),
       helps := smap_set mdl (smap_set command help (smap_at (helps ins) mdl)) (helps ins)\<rparr>"

definition inspector_remove :: "string \<Rightarrow> string \<Rightarrow> Inspector \<Rightarrow> Inspector" where
  "inspector_remove mdl command ins =
     (case map_of (modules ins) mdl of
        Some list \<Rightarrow>
          ins\<lparr>modules := smap_set mdl (smap_erase command list) (modules ins),
            helps := smap_set mdl (smap_erase command (smap_at (helps ins) mdl)) (helps ins)\<rparr>
      | None \<Rightarrow> ins)"

definition help_line :: "string \<Rightarrow> string \<times> string \<Rightarrow> string" where
  "help_line mdl entry =
     (let len = length mdl + length (fst entry)
      in ''/'' @ mdl @ ''/'' @ fst entry @ replicate (if len \<ge> 25 then 1 else 25 - len) (CHR '' '') @ snd entry @ [CHR 0x0A])"

definition favicon :: string where
  "favicon = map char_of ([
     137, 80, 78, 71, 13, 10, 26, 10, 0, 0, 0, 13, 73, 72, 68, 82, 0, 0, 0, 16, 0, 0, 0, 16, 8, 6, 0, 0, 0, 31, 243, 255, 97, 0, 0, 0, 4, 115, 66, 73, 84, 
     8, 8, 8, 8, 124, 8, 100, 136, 0, 0, 0, 9, 112, 72, 89, 115, 0, 0, 11, 18, 0, 0, 11, 18, 1, 210, 221, 126, 252, 0, 0, 0, 28, 116, 69, 88, 116, 83, 
     111, 102, 116, 119, 97, 114, 101, 0, 65, 100, 111, 98, 101, 32, 70, 105, 114, 101, 119, 111, 114, 107, 115, 32, 67, 83, 51, 152, 214, 70, 3, 0, 0, 0, 
     21, 116, 69, 88, 116, 67, 114, 101, 97, 116, 105, 111, 110, 32, 84, 105, 109, 101, 0, 50, 47, 49, 55, 47, 48, 56, 32, 156, 170, 88, 0, 0, 4, 17, 116, 
     69, 88, 116, 88, 77, 76, 58, 99, 111, 109, 46, 97, 100, 111, 98, 101, 46, 120, 109, 112, 0, 60, 63, 120, 112, 97, 99, 107, 101, 116, 32, 98, 101, 
     103, 105, 110, 61, 34, 32, 32, 32, 34, 32, 105, 100, 61, 34, 87, 53, 77, 48, 77, 112, 67, 101, 104, 105, 72, 122, 114, 101, 83, 122, 78, 84, 99, 122, 
     107, 99, 57, 100, 34, 63, 62, 10, 60, 120, 58, 120, 109, 112, 109, 101, 116, 97, 32, 120, 109, 108, 110, 115, 58, 120, 61, 34, 97, 100, 111, 98, 101, 
     58, 110, 115, 58, 109, 101, 116, 97, 47, 34, 32, 120, 58, 120, 109, 112, 116, 107, 61, 34, 65, 100, 111, 98, 101, 32, 88, 77, 80, 32, 67, 111, 114, 
     101, 32, 52, 46, 49, 45, 99, 48, 51, 52, 32, 52, 54, 46, 50, 55, 50, 57, 55, 54, 44, 32, 83, 97, 116, 32, 74, 97, 110, 32, 50, 55, 32, 50, 48, 48, 
     55, 32, 50, 50, 58, 49, 49, 58, 52, 49, 32, 32, 32, 32, 32, 32, 32, 32, 34, 62, 10, 32, 32, 32, 60, 114, 100, 102, 58, 82, 68, 70, 32, 120, 109, 108, 
     110, 115, 58, 114, 100, 102, 61, 34, 104, 116, 116, 112, 58, 47, 47, 119, 119, 119, 46, 119, 51, 46, 111, 114, 103, 47, 49, 57, 57, 57, 47, 48, 50, 
     47, 50, 50, 45, 114, 100, 102, 45, 115, 121, 110, 116, 97, 120, 45, 110, 115, 35, 34, 62, 10, 32, 32, 32, 32, 32, 32, 60, 114, 100, 102, 58, 68, 101, 
     115, 99, 114, 105, 112, 116, 105, 111, 110, 32, 114, 100, 102, 58, 97, 98, 111, 117, 116, 61, 34, 34, 10, 32, 32, 32, 32, 32, 32, 32, 32, 32, 32, 32, 
     32, 120, 109, 108, 110, 115, 58, 120, 97, 112, 61, 34, 104, 116, 116, 112, 58, 47, 47, 110, 115, 46, 97, 100, 111, 98, 101, 46, 99, 111, 109, 47, 
     120, 97, 112, 47, 49, 46, 48, 47, 34, 62, 10, 32, 32, 32, 32, 32, 32, 32, 32, 32, 60, 120, 97, 112, 58, 67, 114, 101, 97, 116, 111, 114, 84, 111, 
     111, 108, 62, 65, 100, 111, 98, 101, 32, 70, 105, 114, 101, 119, 111, 114, 107, 115, 32, 67, 83, 51, 60, 47, 120, 97, 112, 58, 67, 114, 101, 97, 116, 
     111, 114, 84, 111, 111, 108, 62, 10, 32, 32, 32, 32, 32, 32, 32, 32, 32, 60, 120, 97, 112, 58, 67, 114, 101, 97, 116, 101, 68, 97, 116, 101, 62, 50, 
     48, 48, 56, 45, 48, 50, 45, 49, 55, 84, 48, 50, 58, 51, 54, 58, 52, 53, 90, 60, 47, 120, 97, 112, 58, 67, 114, 101, 97, 116, 101, 68, 97, 116, 101, 
     62, 10, 32, 32, 32, 32, 32, 32, 32, 32, 32, 60, 120, 97, 112, 58, 77, 111, 100, 105, 102, 121, 68, 97, 116, 101, 62, 50, 48, 48, 56, 45, 48, 51, 45, 
     50, 52, 84, 49, 57, 58, 48, 48, 58, 52, 50, 90, 60, 47, 120, 97, 112, 58, 77, 111, 100, 105, 102, 121, 68, 97, 116, 101, 62, 10, 32, 32, 32, 32, 32, 
     32, 60, 47, 114, 100, 102, 58, 68, 101, 115, 99, 114, 105, 112, 116, 105, 111, 110, 62, 10, 32, 32, 32, 32, 32, 32, 60, 114, 100, 102, 58, 68, 101, 
     115, 99, 114, 105, 112, 116, 105, 111, 110, 32, 114, 100, 102, 58, 97, 98, 111, 117, 116, 61, 34, 34, 10, 32, 32, 32, 32, 32, 32, 32, 32, 32, 32, 32, 
     32, 120, 109, 108, 110, 115, 58, 100, 99, 61, 34, 104, 116, 116, 112, 58, 47, 47, 112, 117, 114, 108, 46, 111, 114, 103, 47, 100, 99, 47, 101, 108, 
     101, 109, 101, 110, 116, 115, 47, 49, 46, 49, 47, 34, 62, 10, 32, 32, 32, 32, 32, 32, 32, 32, 32, 60, 100, 99, 58, 102, 111, 114, 109, 97, 116, 62, 
     105, 109, 97, 103, 101, 47, 112, 110, 103, 60, 47, 100, 99, 58, 102, 111, 114, 109, 97, 116, 62, 10, 32, 32, 32, 32, 32, 32, 60, 47, 114, 100, 102, 
     58, 68, 101, 115, 99, 114, 105, 112, 116, 105, 111, 110, 62, 10, 32, 32, 32, 60, 47, 114, 100, 102, 58, 82, 68, 70, 62, 10, 60, 47, 120, 58, 120, 
     109, 112, 109, 101, 116, 97, 62, 10, 32, 32, 32, 32, 32, 32, 32, 32, 32, 32, 32, 32, 32, 32, 32, 32, 32, 32, 32, 32, 32, 32, 32, 32, 32, 32, 32, 32, 
     32, 32, 32, 32, 32, 32, 32, 32, 32, 32, 32, 32, 32, 32, 32, 32, 32, 32, 32, 32, 32, 32, 32, 32, 32, 32, 32, 32, 32, 32, 32, 32, 32, 32, 32, 32, 32, 
     32, 32, 32, 32, 32, 32, 32, 32, 32, 32, 32, 32, 32, 32, 32, 32, 32, 32, 32, 32, 32, 32, 32, 32, 32, 32, 32, 32, 32, 32, 32, 32, 32, 32, 32, 10, 32, 
     32, 32, 32, 32, 32, 32, 32, 32, 32, 32, 32, 32, 32, 32, 32, 32, 32, 32, 32, 32, 32, 32, 32, 32, 32, 32, 32, 32, 32, 32, 32, 32, 32, 32, 32, 32, 32, 
     32, 32, 32, 32, 32, 32, 32, 32, 32, 32, 32, 32, 32, 32, 32, 32, 32, 32, 32, 32, 32, 32, 32, 32, 32, 32, 32, 32, 32, 32, 32, 32, 32, 32, 32, 32, 32, 
     32, 32, 32, 32, 32, 32, 32, 32, 32, 32, 32, 32, 32, 32, 32, 32, 32, 32, 32, 32, 32, 32, 32, 32, 32, 10, 32, 32, 32, 32, 32, 32, 32, 32, 32, 32, 32, 
     32, 32, 32, 32, 32, 32, 32, 32, 32, 32, 32, 32, 32, 32, 32, 32, 32, 32, 32, 32, 32, 32, 32, 32, 32, 32, 32, 32, 32, 32, 32, 32, 32, 32, 32, 32, 32, 
     32, 32, 32, 32, 32, 32, 32, 32, 32, 32, 32, 32, 32, 32, 32, 32, 32, 32, 32, 32, 32, 32, 32, 32, 32, 32, 32, 32, 32, 32, 32, 32, 32, 32, 32, 32, 32, 
     32, 32, 32, 32, 32, 32, 53, 29, 82, 100, 0, 0, 2, 11, 73, 68, 65, 84, 56, 141, 165, 147, 65, 107, 26, 65, 24, 134, 159, 137, 6, 35, 46, 116, 245, 32, 
     74, 14, 107, 32, 228, 226, 165, 120, 200, 161, 120, 137, 130, 23, 133, 130, 130, 61, 38, 98, 88, 114, 205, 79, 241, 24, 75, 27, 47, 165, 50, 224, 
     181, 158, 53, 26, 88, 47, 233, 15, 232, 101, 109, 132, 162, 132, 44, 10, 107, 88, 98, 167, 135, 104, 104, 19, 161, 165, 121, 225, 59, 12, 195, 251, 
     204, 55, 239, 124, 35, 148, 82, 188, 68, 126, 0, 33, 4, 0, 173, 86, 203, 24, 143, 199, 13, 219, 182, 211, 142, 227, 248, 131, 193, 160, 138, 199, 
     227, 63, 18, 137, 68, 185, 92, 46, 247, 86, 166, 223, 15, 21, 74, 41, 132, 16, 52, 155, 205, 119, 150, 101, 125, 54, 12, 67, 228, 114, 57, 226, 241, 
     56, 183, 183, 183, 244, 251, 125, 6, 131, 1, 169, 84, 234, 67, 165, 82, 57, 126, 10, 64, 41, 69, 171, 213, 50, 78, 79, 79, 127, 74, 41, 213, 221, 
     221, 221, 179, 234, 245, 122, 234, 228, 228, 68, 73, 41, 211, 43, 207, 170, 54, 0, 198, 227, 113, 99, 103, 103, 71, 228, 243, 121, 0, 60, 207, 163, 
     80, 40, 224, 186, 46, 158, 231, 145, 74, 165, 216, 219, 219, 99, 52, 26, 125, 124, 154, 193, 6, 128, 109, 219, 233, 108, 54, 139, 207, 231, 195, 243, 
     60, 92, 215, 5, 96, 54, 155, 225, 186, 46, 139, 197, 130, 76, 38, 131, 109, 219, 187, 107, 67, 116, 28, 199, 31, 139, 197, 0, 40, 22, 139, 143, 155, 
     213, 106, 21, 0, 41, 37, 154, 166, 49, 159, 207, 197, 90, 192, 214, 214, 150, 154, 76, 38, 34, 20, 10, 33, 165, 100, 54, 155, 81, 173, 86, 169, 213, 
     106, 104, 154, 6, 192, 245, 245, 53, 186, 174, 223, 175, 189, 130, 97, 24, 223, 44, 203, 122, 32, 250, 253, 4, 2, 1, 0, 52, 77, 35, 16, 8, 176, 88, 
     44, 232, 118, 187, 36, 18, 137, 139, 181, 29, 108, 111, 111, 31, 117, 58, 157, 126, 56, 28, 38, 151, 203, 33, 132, 64, 74, 9, 192, 230, 230, 38, 237, 
     118, 155, 201, 100, 162, 166, 211, 233, 39, 120, 152, 155, 213, 83, 62, 206, 193, 249, 249, 249, 251, 193, 96, 112, 156, 76, 38, 217, 223, 223, 39, 
     18, 137, 48, 28, 14, 185, 188, 188, 228, 230, 230, 70, 249, 124, 190, 47, 211, 233, 52, 15, 52, 234, 245, 122, 229, 25, 96, 25, 214, 155, 209, 104, 
     212, 24, 14, 135, 187, 243, 249, 92, 232, 186, 126, 111, 24, 198, 69, 52, 26, 61, 44, 149, 74, 223, 77, 211, 188, 2, 94, 3, 95, 129, 131, 179, 179, 
     51, 231, 15, 192, 223, 100, 154, 166, 177, 52, 235, 128, 3, 28, 108, 252, 147, 115, 169, 122, 189, 110, 3, 71, 203, 165, 14, 188, 226, 127, 126, 163, 
     105, 154, 135, 166, 105, 190, 85, 74, 61, 100, 240, 18, 253, 2, 13, 83, 6, 36, 136, 63, 225, 105, 0, 0, 0, 0, 73, 69, 78, 68, 174, 66, 96, 130] :: nat list)"

definition answer :: "string \<Rightarrow> string \<Rightarrow> HttpResponse \<Rightarrow> HttpResponse" where
  "answer contentType body resp = setBody body (setContentType contentType (setStatusMessage ''OK'' (setStatusCode k200Ok resp)))"

definition inspector_onRequest :: "Inspector \<Rightarrow> HttpRequest \<Rightarrow> HttpResponse \<Rightarrow> HttpResponse res" where
  "inspector_onRequest ins req resp =
     (let notFound = setStatusMessage ''Not Found'' (setStatusCode k404NotFound resp)
      in if req_path req = ''/''
         then Inr (answer ''text/plain'' (concat (map (\<lambda>(mdl, list). concat (map (help_line mdl) list)) (helps ins))) resp)
         else case split (req_path req) of
           [] \<Rightarrow> Inr notFound
         | [mdl] \<Rightarrow> if mdl = ''favicon.ico'' then Inr (answer ''image/png'' favicon resp) else Inr notFound
         | mdl # command # args \<Rightarrow>
             (case map_of (modules ins) mdl of
                Some commList \<Rightarrow>
                  (case map_of commList command of
                     Some (Some cb) \<Rightarrow> bindE (cb (req_method req) args) (\<lambda>body. Inr (answer ''text/plain'' body resp))
                   | _ \<Rightarrow> Inr notFound)
              | None \<Rightarrow> Inr notFound))"

section \<open>ProcessInspector\<close>

definition uptime :: "Timestamp \<Rightarrow> Timestamp \<Rightarrow> bool \<Rightarrow> string res" where
  "uptime now start showMicroseconds =
     ints64 [now - start]
       (let age = now - start; seconds = to_int32 (age sdiv kMicroSecondsPerSecond); days = seconds sdiv 86400;
            hours = (seconds smod 86400) sdiv 3600; minutes = (seconds smod 3600) sdiv 60;
            text = fmt_d days @ '' days '' @ fmt_0wd 2 hours @ '':'' @ fmt_0wd 2 minutes @ '':'' @ fmt_0wd 2 (seconds smod 60)
        in Inr (snprintf_buf 256
          (if showMicroseconds then text @ ''.'' @ fmt_0wd 6 (to_int32 (age smod kMicroSecondsPerSecond)) else text)))"

text \<open>\<^verbatim>\<open>strtol\<close> in base 10: blanks, a sign, digits; the value is cut to the range of \<^verbatim>\<open>long\<close>. \<^verbatim>\<open>atol\<close> is the same call.\<close>

definition strtol :: "string \<Rightarrow> int" where
  "strtol s =
     (let s = dropWhile (\<lambda>c. c \<in> {CHR '' '', CHR 0x09, CHR 0x0A, CHR 0x0B, CHR 0x0C, CHR 0x0D}) s;
          (negative, s) = (case s of c # t \<Rightarrow> if c = CHR ''-'' then (True, t) else if c = CHR ''+'' then (False, t) else (False, s) | [] \<Rightarrow> (False, s));
          v = (case dec_value (digits_of s) of Some n \<Rightarrow> int n | None \<Rightarrow> 0)
      in if negative then max (- (2 ^ 63)) (- v) else min (2 ^ 63 - 1) v)"

definition getLong :: "string \<Rightarrow> string \<Rightarrow> int" where
  "getLong status key =
     (let pos = std_search status key in if pos < length status then strtol (drop (pos + length key) status) else 0)"

text \<open>The second loop runs past the end if there is no end of line.\<close>

definition getProcessName :: "string \<Rightarrow> string res" where
  "getProcessName status =
     (let pos = std_search status ''Name:''
      in if pos < length status
         then let rest = dropWhile (\<lambda>c. c = CHR 0x09) (drop (pos + 5) status)
              in case memchr (CHR 0x0A) rest of Some n \<Rightarrow> Inr (take n rest) | None \<Rightarrow> Inl UndefinedBehaviour
         else Inr '''')"

definition next_field :: "StringPiece \<Rightarrow> StringPiece res" where
  "next_field p =
     (if 0 \<le> sp_length p \<and> nat (sp_length p) \<le> length (sp_ptr p)
      then case memchr (CHR '' '') (take (nat (sp_length p)) (sp_ptr p)) of
             Some i \<Rightarrow> remove_prefix (int (Suc i)) p
           | None \<Rightarrow> Inr (StringPiece_cstring '''')
      else Inl UndefinedBehaviour)"

fun next_fields :: "nat \<Rightarrow> StringPiece \<Rightarrow> StringPiece res" where
  "next_fields 0 p = Inr p"
| "next_fields (Suc n) p = bindE (next_field p) (next_fields n)"

text \<open>The text from the pointer to the zero that ends it.\<close>

definition c_text :: "string \<Rightarrow> string" where
  "c_text s = takeWhile (\<lambda>c. c \<noteq> CHR 0x00) s"

definition getCpuTime :: "int \<Rightarrow> StringPiece \<Rightarrow> (rat \<times> rat) res" where
  "getCpuTime clockTicks p =
     bindE (next_fields 10 p) (\<lambda>p.
       let utime = strtol (c_text (sp_ptr p))
       in bindE (next_field p) (\<lambda>p.
         let stime = strtol (c_text (sp_ptr p)); hz = dbl (of_int clockTicks)
         in Inr (dbl (dbl (of_int utime) / hz), dbl (dbl (of_int stime) / hz))))"

definition stringPrintf :: "string \<Rightarrow> string \<Rightarrow> string" where
  "stringPrintf out printed = out @ snprintf_buf 256 printed"

text \<open>The conversions \<^verbatim>\<open>%12.3f\<close> and \<^verbatim>\<open>%-16s\<close>.\<close>

definition fmt_12_3f :: "rat \<Rightarrow> string" where
  "fmt_12_3f x = pad_left (CHR '' '') 12 (fmt_f 3 x)"

definition pad_right :: "nat \<Rightarrow> string \<Rightarrow> string" where
  "pad_right w s = s @ replicate (w - length s) (CHR '' '')"

text \<open>What the process finds when it looks at itself.\<close>

record proc_env =
  pe_now :: Timestamp
  pe_start :: Timestamp
  pe_gmtime :: "int \<Rightarrow> tm"
  pe_open :: "string \<Rightarrow> int \<times> int"
  pe_reads :: "string \<Rightarrow> reads"
  pe_exe :: "string option"
  pe_user :: "string option"
  pe_host :: "string option"
  pe_debug :: bool
  pe_pid :: int
  pe_fds :: "string list"
  pe_rlimit :: "int option"
  pe_tasks :: "string list"
  pe_clockTicks :: int
  pe_tms :: "(int \<times> int) option"
  pe_uname :: "(string \<times> string \<times> string \<times> string \<times> string) option"

definition read_proc :: "proc_env \<Rightarrow> string \<Rightarrow> string \<Rightarrow> int \<times> string" where
  "read_proc env path old = readFile (pe_open env path) (pe_reads env path) 65536 old"

definition proc_overview :: "proc_env \<Rightarrow> string res" where
  "proc_overview env =
     bindE (uptime (pe_now env) (pe_start env) True) (\<lambda>up.
       let status = snd (read_proc env ''/proc/self/status'' '''')
       in bindE (getProcessName status) (\<lambda>name.
         let result = ''Page generated at '' @ toFormattedString (pe_gmtime env) True (pe_now env) @ '' (UTC)'' @ [CHR 0x0A] @ ''Started at '' @
               toFormattedString (pe_gmtime env) True (pe_start env) @ '' (UTC), up for '' @ up @ [CHR 0x0A] @
               name @ '' ('' @ exePath (pe_exe env) @ '') running as '' @ username (pe_user env) @ '' on '' @ hostname (pe_host env) @ [CHR 0x0A] @
               (if pe_debug env then ''WARNING: debug build!'' @ [CHR 0x0A] else '''');
             result = stringPrintf result (''pid '' @ fmt_d (pe_pid env) @ '', num of threads '' @ fmt_d (getLong status ''Threads:'') @ '', bits 64'' @ [CHR 0x0A]);
             result = stringPrintf (result @ ''Virtual memory: '') (fmt_f 3 (dbl (dbl (of_int (getLong status ''VmSize:'')) / 1024)) @ '' MiB, '');
             result = stringPrintf (result @ ''RSS memory: '') (fmt_f 3 (dbl (dbl (of_int (getLong status ''VmRSS:'')) / 1024)) @ '' MiB'' @ [CHR 0x0A]);
             result = stringPrintf result (''Opened files: '' @ fmt_d (int (openedFiles (pe_fds env))) @ '', limit: '' @
               fmt_d (maxOpenFiles (pe_rlimit env) (pe_fds env)) @ [CHR 0x0A]);
             (user, sys) = cpuTime (pe_clockTicks env) (pe_tms env)
         in Inr (stringPrintf result (''User time: '' @ fmt_12_3f user @ ''s'' @ [CHR 0x0A] @ ''Sys time:  '' @ fmt_12_3f sys @ ''s'' @ [CHR 0x0A]))))"

definition proc_pid :: "proc_env \<Rightarrow> string" where
  "proc_pid env = snprintf_buf 32 (fmt_d (pe_pid env))"

definition proc_status :: "proc_env \<Rightarrow> string" where
  "proc_status env = snd (read_proc env ''/proc/self/status'' '''')"

definition proc_openedFiles :: "proc_env \<Rightarrow> string" where
  "proc_openedFiles env = snprintf_buf 32 (fmt_d (int (openedFiles (pe_fds env))))"

text \<open>
  One line of \<^verbatim>\<open>threads\<close>. The closing parenthesis is overwritten by a zero, for \<^verbatim>\<open>%s\<close>; a file without a name in
  parentheses gives a null pointer.
\<close>

definition thread_line :: "int \<Rightarrow> int \<Rightarrow> string \<Rightarrow> string res" where
  "thread_line clockTicks tid stat =
     (case (memchr (CHR ''('') stat, find_last (CHR '')'') stat) of
        (Some lp, Some rp) \<Rightarrow>
          if lp < rp
          then let name = procname stat; state = rp + 2
               in bindE (sp_nth (int state) (StringPiece_string stat)) (\<lambda>c.
                 bindE (remove_prefix (int (state + 2)) (StringPiece_string stat)) (\<lambda>p.
                   bindE (getCpuTime clockTicks p) (\<lambda>(user, sys).
                     Inr (c_text (snprintf_buf 256 (fmt_wd 5 tid @ '' '' @ pad_right 16 (c_text name) @ '' '' @ [c] @ '' '' @ fmt_12_3f user @ '' '' @
                       fmt_12_3f sys @ [CHR 0x0A]))))))
          else Inl UndefinedBehaviour
      | _ \<Rightarrow> Inl UndefinedBehaviour)"

definition proc_threads :: "proc_env \<Rightarrow> string res" where
  "proc_threads env =
     bindE (threads_of (pe_tasks env)) (\<lambda>tids.
       bindE (foldE (\<lambda>tid (result, stat).
           let path = snprintf_buf 256 (''/proc/'' @ fmt_d (pe_pid env) @ ''/task/'' @ fmt_d tid @ ''/stat''); (err, stat) = read_proc env path stat
           in if err = 0 then bindE (thread_line (pe_clockTicks env) tid stat) (\<lambda>line. Inr (result @ line, stat)) else Inr (result, stat))
         tids (''  TID NAME             S    User Time  System Time'' @ [CHR 0x0A], '''')) (\<lambda>(result, _). Inr result))"

definition proc_registerCommands :: "proc_env \<Rightarrow> Inspector \<Rightarrow> Inspector" where
  "proc_registerCommands env =
     inspector_add ''proc'' ''threads'' (Some (\<lambda>_ _. proc_threads env)) ''list /proc/self/task'' \<circ>
     inspector_add ''proc'' ''status'' (Some (\<lambda>_ _. Inr (proc_status env))) ''print /proc/self/status'' \<circ>
     inspector_add ''proc'' ''pid'' (Some (\<lambda>_ _. Inr (proc_pid env))) ''print pid'' \<circ>
     inspector_add ''proc'' ''overview'' (Some (\<lambda>_ _. proc_overview env)) ''print basic overview''"

section \<open>SystemInspector\<close>

definition sys_file :: "proc_env \<Rightarrow> string \<Rightarrow> string" where
  "sys_file env name = snd (read_proc env (''/proc/'' @ name) '''')"

definition sys_overview :: "proc_env \<Rightarrow> string res" where
  "sys_overview env =
     (let nl = [CHR 0x0A]; result = ''Page generated at '' @ toFormattedString (pe_gmtime env) True (pe_now env) @ '' (UTC)'' @ nl;
          result = (case pe_uname env of
              Some (sysname, nodename, release, version, machine) \<Rightarrow>
                stringPrintf (stringPrintf (stringPrintf result (''Hostname: '' @ nodename @ nl)) (''Machine: '' @ machine @ nl))
                  (''OS: '' @ sysname @ '' '' @ release @ '' '' @ version @ nl)
            | None \<Rightarrow> result);
          stat = sys_file env ''stat''; bootTime = kMicroSecondsPerSecond * getLong stat ''btime ''
      in ints64 [bootTime] (bindE (uptime (pe_now env) bootTime False) (\<lambda>up.
        let result = result @ ''Boot time: '' @ toFormattedString (pe_gmtime env) False bootTime @ '' (UTC)'' @ nl @ ''Up time: '' @ up @ nl;
            result = stringPrintf result (''Processes created: '' @ fmt_d (getLong stat ''processes '') @ nl);
            result = stringPrintf result (''Loadavg: '' @ c_text (sys_file env ''loadavg'') @ nl);
            meminfo = sys_file env ''meminfo''; total_kb = getLong meminfo ''MemTotal:''; free_kb = getLong meminfo ''MemFree:'';
            buffers_kb = getLong meminfo ''Buffers:''; cached_kb = getLong meminfo ''Cached:'';
            mem = (\<lambda>label kb result. stringPrintf result (label @ fmt_wd 6 (kb sdiv 1024) @ '' MiB'' @ nl))
        in ints64 [total_kb - free_kb, total_kb - free_kb - buffers_kb, total_kb - free_kb - buffers_kb - cached_kb, free_kb + buffers_kb,
              free_kb + buffers_kb + cached_kb]
          (Inr ((mem ''Real Free:    '' (free_kb + buffers_kb + cached_kb) \<circ>
            mem ''Real Used:    '' (total_kb - free_kb - buffers_kb - cached_kb) \<circ> mem ''Cached:       '' cached_kb \<circ>
            mem ''Buffers:      '' buffers_kb \<circ> mem ''Free Memory:  '' free_kb \<circ> mem ''Total Memory: '' total_kb) result)))))"

definition sys_registerCommands :: "proc_env \<Rightarrow> Inspector \<Rightarrow> Inspector" where
  "sys_registerCommands env =
     inspector_add ''sys'' ''stat'' (Some (\<lambda>_ _. Inr (sys_file env ''stat''))) ''print /proc/stat'' \<circ>
     inspector_add ''sys'' ''meminfo'' (Some (\<lambda>_ _. Inr (sys_file env ''meminfo''))) ''print /proc/meminfo'' \<circ>
     inspector_add ''sys'' ''cpuinfo'' (Some (\<lambda>_ _. Inr (sys_file env ''cpuinfo''))) ''print /proc/cpuinfo'' \<circ>
     inspector_add ''sys'' ''version'' (Some (\<lambda>_ _. Inr (sys_file env ''version''))) ''print /proc/version'' \<circ>
     inspector_add ''sys'' ''loadavg'' (Some (\<lambda>_ _. Inr (sys_file env ''loadavg''))) ''print /proc/loadavg'' \<circ>
     inspector_add ''sys'' ''overview'' (Some (\<lambda>_ _. sys_overview env)) ''print system overview''"

text \<open>The constructor, in a build without \<^verbatim>\<open>tcmalloc\<close>.\<close>

definition Inspector_new :: "proc_env \<Rightarrow> Inspector" where
  "Inspector_new env = sys_registerCommands env (proc_registerCommands env \<lparr>modules = [], helps = []\<rparr>)"

section \<open>The parts of a path\<close>

text \<open>The pieces between slashes, empty ones included.\<close>

fun segments :: "string \<Rightarrow> string list" where
  "segments '''' = ['''']"
| "segments (c # s) = (if c = CHR ''/'' then '''' # segments s else case segments s of x # xs \<Rightarrow> (c # x) # xs | [] \<Rightarrow> [])"

lemma segments_no_slash: "CHR ''/'' \<notin> set s \<Longrightarrow> segments s = [s]"
  by (induction s) auto

lemma segments_slash: "CHR ''/'' \<notin> set x \<Longrightarrow> segments (x @ CHR ''/'' # s) = x # segments s"
  by (induction x) auto

lemma memchr_split:
  "case memchr c xs of Some i \<Rightarrow> xs = take i xs @ c # drop (Suc i) xs \<and> c \<notin> set (take i xs) | None \<Rightarrow> c \<notin> set xs"
proof (cases "memchr c xs")
  case None
  then show ?thesis using std_find_less_iff [of c xs] by (auto simp: memchr_def Let_def split: if_splits)
next
  case (Some i)
  then have i: "i = std_find c xs" "i < length xs" using memchr_less [OF Some] Some by (auto simp: memchr_def Let_def split: if_splits)
  then show ?thesis using Some std_find_nth [of c xs] std_find_before [of c xs] id_take_nth_drop [of i xs] by simp
qed

lemma split_loop_segments: "split_loop str start result = result @ filter (\<lambda>x. x \<noteq> '''') (segments (drop start str))"
proof (induction str start result rule: split_loop.induct)
  case (1 str start result)
  show ?case
  proof (cases "memchr (CHR ''/'') (drop start str)")
    case None
    then have "segments (drop start str) = [drop start str]" using memchr_split [of "CHR ''/''" "drop start str"] segments_no_slash by simp
    then show ?thesis using None by (subst split_loop.simps) auto
  next
    case (Some i)
    let ?x = "take i (drop start str)"
    have d: "drop start str = ?x @ CHR ''/'' # drop (start + i + 1) str" "CHR ''/'' \<notin> set ?x"
      using Some memchr_split [of "CHR ''/''" "drop start str"] by (simp_all add: add.commute)
    then have "segments (drop start str) = ?x # segments (drop (start + i + 1) str)" using segments_slash by metis
    moreover have "?x \<noteq> '''' \<longleftrightarrow> 0 < i" using memchr_less [OF Some] by auto
    ultimately show ?thesis using "1.IH" [OF Some refl refl] Some by (subst split_loop.simps) (auto simp: Let_def)
  qed
qed

lemma split_segments: "split str = filter (\<lambda>x. x \<noteq> '''') (segments str)"
  by (simp add: split_def split_loop_segments)

definition path_of :: "string list \<Rightarrow> string" where
  "path_of xs = concat (map (\<lambda>x. ''/'' @ x) xs)"

definition part_ok :: "string \<Rightarrow> bool" where
  "part_ok x \<longleftrightarrow> x \<noteq> '''' \<and> CHR ''/'' \<notin> set x"

lemma segments_path: "list_all part_ok xs \<Longrightarrow> segments (path_of xs) = '''' # xs"
proof (induction xs)
  case (Cons x xs)
  have x: "CHR ''/'' \<notin> set x" using Cons.prems by (simp add: part_ok_def)
  show ?case
  proof (cases "xs = []")
    case True
    then show ?thesis using segments_no_slash [OF x] by (simp add: path_of_def)
  next
    case False
    then obtain s where s: "path_of xs = CHR ''/'' # s" by (cases xs) (auto simp: path_of_def)
    then have "segments s = xs" using Cons.IH Cons.prems by simp
    then show ?thesis using segments_slash [OF x, of s] s by (simp add: path_of_def)
  qed
qed (simp add: path_of_def)

lemma split_path: "list_all part_ok xs \<Longrightarrow> split (path_of xs) = xs"
  by (simp add: split_segments segments_path list_all_iff part_ok_def filter_id_conv)

section \<open>The registry\<close>

lemma smap_erase_keys: "set (map fst (smap_erase k m)) \<subseteq> set (map fst m)"
  by (induction k m rule: smap_erase.induct) auto

lemma smap_erase_ok: "smap_ok m \<Longrightarrow> smap_ok (smap_erase k m)"
  unfolding smap_ok_def
proof (induction k m rule: smap_erase.induct)
  case (2 k l w m)
  have "x \<in> set (map fst m)" if "x \<in> set (map fst (smap_erase k m))" for x using that smap_erase_keys [of k m] by blast
  then show ?case using 2 by (simp only: smap_erase.simps list.map sorted_wrt.simps fst_conv split: if_split) blast
qed simp

lemma smap_lookup_erase: "smap_ok m \<Longrightarrow> map_of (smap_erase k m) = (map_of m)(k := None)"
  unfolding smap_ok_def
proof (induction k m rule: smap_erase.induct)
  case (2 k l w m)
  have "map_of m l = None" using 2(2) by (force simp: map_of_eq_None_iff)
  then show ?case using 2 by (auto simp: fun_eq_iff)
qed auto

text \<open>The map with other values, and its keys.\<close>

definition vmap :: "('v \<Rightarrow> 'w) \<Rightarrow> (string \<times> 'v) list \<Rightarrow> (string \<times> 'w) list" where
  "vmap f m = map (\<lambda>(k, v). (k, f v)) m"

lemma vmap_set: "vmap f (smap_set k v m) = smap_set k (f v) (vmap f m)"
  by (induction k v m rule: smap_set.induct) (auto simp: vmap_def)

lemma vmap_erase: "vmap f (smap_erase k m) = smap_erase k (vmap f m)"
  by (induction k m rule: smap_erase.induct) (auto simp: vmap_def)

lemma vmap_lookup: "map_of (vmap f m) k = map_option f (map_of m k)"
  by (induction m) (auto simp: vmap_def)

lemma vmap_at: "smap_at (vmap (vmap f) m) k = vmap f (smap_at m k)"
  by (simp add: smap_at_def vmap_lookup split: option.split) (simp add: vmap_def)

abbreviation "shape \<equiv> vmap (vmap (\<lambda>_. ()))"

definition inspector_ok :: "Inspector \<Rightarrow> bool" where
  "inspector_ok ins \<longleftrightarrow> smap_ok (modules ins) \<and> (\<forall>l \<in> ran (map_of (modules ins)). smap_ok l) \<and> shape (modules ins) = shape (helps ins)"

definition lookup :: "Inspector \<Rightarrow> string \<Rightarrow> string \<Rightarrow> callback option" where
  "lookup ins m c = Option.bind (map_of (modules ins) m) (\<lambda>l. map_of l c)"

lemma smap_at_ok: "inspector_ok ins \<Longrightarrow> smap_ok (smap_at (modules ins) m)"
  by (auto simp: inspector_ok_def smap_at_def ran_def split: option.splits)

lemma add_ok: "inspector_ok ins \<Longrightarrow> inspector_ok (inspector_add m c cb help ins)"
  using smap_at_ok [of ins m]
  by (auto simp: inspector_ok_def inspector_add_def smap_set_ok smap_lookup_set vmap_set vmap_at [symmetric] ran_def split: if_splits)

lemma add_lookup:
  assumes "inspector_ok ins"
  shows "lookup (inspector_add m c cb help ins) m' c' = (if m' = m \<and> c' = c then Some cb else lookup ins m' c')"
  using assms smap_at_ok [OF assms, of m]
  by (auto simp: lookup_def inspector_add_def smap_lookup_set inspector_ok_def smap_at_def split: option.splits)

lemma remove_ok:
  assumes "inspector_ok ins"
  shows "inspector_ok (inspector_remove m c ins)"
proof (cases "map_of (modules ins) m")
  case (Some l)
  then have "smap_ok l" "smap_at (modules ins) m = l" using assms by (auto simp: inspector_ok_def ran_def smap_at_def)
  then show ?thesis using assms Some
    by (auto simp: inspector_ok_def inspector_remove_def smap_set_ok smap_erase_ok smap_lookup_set vmap_set vmap_erase vmap_at [symmetric] ran_def
        split: if_splits)
qed (use assms in \<open>simp add: inspector_remove_def\<close>)

lemma remove_lookup:
  assumes "inspector_ok ins"
  shows "lookup (inspector_remove m c ins) m' c' = (if m' = m \<and> c' = c then None else lookup ins m' c')"
proof (cases "map_of (modules ins) m")
  case (Some l)
  then have "smap_ok l" using assms by (auto simp: inspector_ok_def ran_def)
  then show ?thesis using assms Some by (auto simp: lookup_def inspector_remove_def smap_lookup_set smap_lookup_erase inspector_ok_def)
qed (auto simp: lookup_def inspector_remove_def)

definition not_found :: "HttpResponse \<Rightarrow> HttpResponse" where
  "not_found resp = setStatusMessage ''Not Found'' (setStatusCode k404NotFound resp)"

lemma request_served:
  assumes "list_all part_ok (m # c # args)" "req_path req = path_of (m # c # args)"
  shows "inspector_onRequest ins req resp =
    (case lookup ins m c of
       Some (Some cb) \<Rightarrow> bindE (cb (req_method req) args) (\<lambda>body. Inr (answer ''text/plain'' body resp))
     | _ \<Rightarrow> Inr (not_found resp))"
proof -
  have s: "split (req_path req) = m # c # args" using split_path [OF assms(1)] assms(2) by simp
  have "req_path req \<noteq> ''/''" using assms by (auto simp: path_of_def part_ok_def)
  then show ?thesis
    by (auto simp: inspector_onRequest_def s lookup_def not_found_def Let_def split: option.splits)
qed

text \<open>
  C36. A request for \<^verbatim>\<open>/module/command/args\<close> is answered by the callback last added for the module and
  the command, with these arguments; after the command is removed it is not found. Adding and
  removing other commands changes nothing for it, and the page of all commands lists exactly those
  that are registered.
\<close>

theorem inspector_serves:
  assumes ins: "inspector_ok ins" and path: "list_all part_ok (m # c # args)" "req_path req = path_of (m # c # args)"
  shows "inspector_onRequest (inspector_add m c (Some cb) help ins) req resp =
      bindE (cb (req_method req) args) (\<lambda>body. Inr (answer ''text/plain'' body resp)) \<and>
    inspector_onRequest (inspector_remove m c ins) req resp = Inr (not_found resp) \<and>
    ((m', c') \<noteq> (m, c) \<longrightarrow>
      inspector_onRequest (inspector_add m' c' cb' help' ins) req resp = inspector_onRequest ins req resp \<and>
      inspector_onRequest (inspector_remove m' c' ins) req resp = inspector_onRequest ins req resp) \<and>
    inspector_ok (inspector_add m c (Some cb) help ins) \<and> inspector_ok (inspector_remove m c ins)"
  using add_ok [OF ins] remove_ok [OF ins] by (auto simp: request_served [OF path] add_lookup [OF ins] remove_lookup [OF ins])

theorem inspector_serves_witness:
  "inspector_onRequest (inspector_add ''a'' ''b'' (Some (\<lambda>_ args. Inr (concat args))) ''help'' \<lparr>modules = [], helps = []\<rparr>)
     (HttpRequest_new\<lparr>req_path := ''/a/b/x/y''\<rparr>) (HttpResponse_new True) = Inr (answer ''text/plain'' ''xy'' (HttpResponse_new True))"
proof -
  have "inspector_ok \<lparr>modules = [], helps = []\<rparr>" by (simp add: inspector_ok_def vmap_def)
  moreover have "list_all part_ok [''a'', ''b'', ''x'', ''y'']" by (simp add: part_ok_def)
  moreover have "req_path (HttpRequest_new\<lparr>req_path := ''/a/b/x/y''\<rparr>) = path_of [''a'', ''b'', ''x'', ''y'']" by (simp add: path_of_def)
  ultimately show ?thesis using inspector_serves [of "\<lparr>modules = [], helps = []\<rparr>" "''a''" "''b''" "[''x'', ''y'']"
      "HttpRequest_new\<lparr>req_path := ''/a/b/x/y''\<rparr>" "\<lambda>_ args. Inr (concat args)"] by simp
qed

section \<open>The times of a thread\<close>

lemma next_field_text:
  assumes "sp_ok p" "sp_text p = f @ CHR '' '' # s" "CHR '' '' \<notin> set f"
  shows "\<exists>p'. next_field p = Inr p' \<and> sp_ok p' \<and> sp_text p' = s \<and> sp_ptr p' = drop (Suc (length f)) (sp_ptr p)"
proof -
  have "memchr (CHR '' '') (sp_text p) = Some (length f)" using assms(2,3) memchr_append [of "CHR '' ''" f s] by simp
  then have n: "next_field p = remove_prefix (int (Suc (length f))) p" using assms(1) by (simp add: next_field_def sp_ok_def sp_text_def)
  have "int (Suc (length f)) \<le> sp_length p" using assms(2) sp_length_text [OF assms(1)] by simp
  then obtain p' where p': "remove_prefix (int (Suc (length f))) p = Inr p'" "sp_ok p'" "sp_text p' = drop (Suc (length f)) (sp_text p)"
    using remove_prefix_text [OF assms(1), of "int (Suc (length f))"] by (auto simp del: of_nat_Suc)
  have "sp_ptr p' = drop (Suc (length f)) (sp_ptr p)"
    using p'(1) by (auto simp: remove_prefix_def ints32_def split: if_splits simp del: of_nat_Suc)
  then show ?thesis using n p' assms(2) by auto
qed

lemma next_fields_text:
  assumes "sp_ok p" "sp_text p = concat (map (\<lambda>f. f @ '' '') fs) @ s" "list_all (\<lambda>f. CHR '' '' \<notin> set f) fs" "sp_ptr p = sp_text p @ t"
  shows "\<exists>p'. next_fields (length fs) p = Inr p' \<and> sp_ok p' \<and> sp_text p' = s \<and> sp_ptr p' = s @ t"
  using assms
proof (induction fs arbitrary: p)
  case (Cons f fs)
  have f: "sp_text p = f @ CHR '' '' # (concat (map (\<lambda>f. f @ '' '') fs) @ s)" "CHR '' '' \<notin> set f" using Cons.prems by simp_all
  obtain p1 where p1: "next_field p = Inr p1" "sp_ok p1" "sp_text p1 = concat (map (\<lambda>f. f @ '' '') fs) @ s"
      "sp_ptr p1 = drop (Suc (length f)) (sp_ptr p)"
    using next_field_text [OF Cons.prems(1) f] by blast
  have "sp_ptr p1 = sp_text p1 @ t" using p1(3,4) Cons.prems(4) f(1) by simp
  then show ?case using Cons.IH [OF p1(2,3)] p1(1) Cons.prems(3) by simp
qed auto

lemma digits_of_append: "digits_of (dec_digits n @ s) = dec_digits n" if "s = [] \<or> char_digit (hd s) = None"
proof -
  have "digits_of (ds @ s) = ds" if "\<forall>c \<in> set ds. char_digit c \<noteq> None" for ds
    using that \<open>s = [] \<or> char_digit (hd s) = None\<close> by (induction ds) (cases s, auto)
  moreover have "\<forall>c \<in> set (dec_digits n). char_digit c \<noteq> None" using dec_digits_numeral [of n] by auto
  ultimately show ?thesis by blast
qed

lemma dec_digits_head: "\<exists>d t. dec_digits n = digit_char d # t \<and> d < 10"
proof -
  obtain c t where "dec_digits n = c # t" using dec_digits_not_Nil [of n] by (cases "dec_digits n") blast+
  then show ?thesis using dec_digits_numeral [of n] by auto
qed

lemma strtol_digits:
  assumes "int n < 2 ^ 63" "s = [] \<or> char_digit (hd s) = None"
  shows "strtol (dec_digits n @ s) = int n"
proof -
  obtain d t where d: "dec_digits n = digit_char d # t" "d < 10" using dec_digits_head by blast
  have c: "digit_char d \<notin> {CHR '' '', CHR 0x09, CHR 0x0A, CHR 0x0B, CHR 0x0C, CHR 0x0D}" "digit_char d \<noteq> CHR ''-''" "digit_char d \<noteq> CHR ''+''"
    using d(2) char_digit_char [OF d(2)] by (auto simp: char_digit_def)
  have "dec_value (digits_of (dec_digits n @ s)) = Some n" using digits_of_append [OF assms(2)] by simp
  then show ?thesis using c d(1) assms(1) by (simp add: strtol_def)
qed

definition stat_line :: "nat \<Rightarrow> string \<Rightarrow> char \<Rightarrow> string list \<Rightarrow> nat \<Rightarrow> nat \<Rightarrow> string \<Rightarrow> string" where
  "stat_line pid name state fs utime stime following =
     dec_digits pid @ '' ('' @ name @ '') '' @ [state] @ '' '' @ concat (map (\<lambda>f. f @ '' '') fs) @ dec_digits utime @ '' '' @ dec_digits stime @ following"

lemma c_text_zero: "CHR 0x00 \<notin> set s \<Longrightarrow> c_text (s @ [CHR 0x00]) = s"
  unfolding c_text_def by (subst takeWhile_tail) (auto simp: takeWhile_eq_all_conv)

lemma char_digit_blank: "char_digit (CHR '' '') = None"
  by (simp add: char_digit_def)

lemma getCpuTime_text:
  assumes "sp_ok p" "sp_text p = concat (map (\<lambda>f. f @ '' '') fs) @ dec_digits utime @ '' '' @ dec_digits stime @ following"
    and "length fs = 10" "list_all (\<lambda>f. CHR '' '' \<notin> set f) fs" "sp_ptr p = sp_text p @ [CHR 0x00]" "CHR 0x00 \<notin> set (sp_text p)"
    and "int utime < 2 ^ 63" "int stime < 2 ^ 63" "following = [] \<or> char_digit (hd following) = None"
  shows "getCpuTime hz p = Inr (cpuTime hz (Some (int utime, int stime)))"
proof -
  let ?s = "dec_digits utime @ '' '' @ dec_digits stime @ following"
  obtain p1 where p1: "next_fields 10 p = Inr p1" "sp_ok p1" "sp_text p1 = ?s" "sp_ptr p1 = ?s @ [CHR 0x00]"
    using next_fields_text [OF assms(1,2,4,5)] assms(3) by auto
  have z: "CHR 0x00 \<notin> set ?s" using assms(2,6) by auto
  have "strtol (c_text (sp_ptr p1)) = strtol (dec_digits utime @ '' '' @ dec_digits stime @ following)" using p1(4) c_text_zero [OF z] by simp
  also have "\<dots> = int utime" using assms(7) by (intro strtol_digits) (simp_all add: char_digit_def)
  finally have u: "strtol (c_text (sp_ptr p1)) = int utime" .
  have "CHR '' '' \<notin> set (dec_digits utime)" 
  proof
    assume "CHR '' '' \<in> set (dec_digits utime)"
    then obtain d where "CHR '' '' = digit_char d" "d < 10" using dec_digits_numeral [of utime] by auto
    then show False using char_digit_char [of d] by (metis char_digit_blank option.distinct(1))
  qed
  then obtain p2 where p2: "next_field p1 = Inr p2" "sp_ptr p2 = drop (Suc (length (dec_digits utime))) (sp_ptr p1)"
    using next_field_text [OF p1(2), of "dec_digits utime" "dec_digits stime @ following"] p1(3) by auto
  then have "sp_ptr p2 = (dec_digits stime @ following) @ [CHR 0x00]" using p1(4) by simp
  then have "c_text (sp_ptr p2) = dec_digits stime @ following" using c_text_zero [of "dec_digits stime @ following"] z by simp
  then have "strtol (c_text (sp_ptr p2)) = int stime" using strtol_digits [OF assms(8,9)] by simp
  then show ?thesis using p1(1) p2(1) u by (simp add: getCpuTime_def cpuTime_def Let_def)
qed

text \<open>
  What the kernel writes about a thread is shown under its name, whatever characters the name has,
  with its state and its two times in seconds.
\<close>

lemma thread_line_shows:
  fixes hz :: int
  assumes len: "length fs = 10" and fs: "list_all (\<lambda>f. CHR '' '' \<notin> set f \<and> CHR '')'' \<notin> set f) fs"
    and zero: "CHR 0x00 \<notin> set (stat_line pid name state fs utime stime following)"
    and short: "length (stat_line pid name state fs utime stime following) < 2 ^ 31"
    and range: "int utime < 2 ^ 63" "int stime < 2 ^ 63" and following: "following = [] \<or> char_digit (hd following) = None" "CHR '')'' \<notin> set following" "state \<noteq> CHR '')''"
  defines "t \<equiv> cpuTime hz (Some (int utime, int stime))"
  shows "thread_line hz tid (stat_line pid name state fs utime stime following) =
    Inr (c_text (snprintf_buf 256 (fmt_wd 5 tid @ '' '' @ pad_right 16 name @ '' '' @ [state] @ '' '' @ fmt_12_3f (fst t) @ '' '' @
      fmt_12_3f (snd t) @ [CHR 0x0A])))"
proof -
  let ?stat = "stat_line pid name state fs utime stime following"
  let ?data = "concat (map (\<lambda>f. f @ '' '') fs) @ dec_digits utime @ '' '' @ dec_digits stime @ following"
  let ?rest = "'' '' @ [state] @ '' '' @ ?data"
  define pre where "pre = dec_digits pid @ '' ('' @ name"
  have stat: "?stat = pre @ CHR '')'' # ?rest" "?stat = dec_digits pid @ '' ('' @ name @ '')'' @ ?rest" by (simp_all add: stat_line_def pre_def)
  have rest: "CHR '')'' \<notin> set ?rest"
    using fs following dec_digits_no_paren(2) [of utime] dec_digits_no_paren(2) [of stime] by (auto simp: list_all_iff)
  have lp: "memchr (CHR ''('') ?stat = Some (Suc (length (dec_digits pid)))"
    using memchr_append [of "CHR ''(''" "dec_digits pid @ '' ''"] dec_digits_no_paren(1) [of pid] unfolding stat(2) by simp
  have rp: "find_last (CHR '')'') ?stat = Some (length pre)" using find_last_append [OF rest] unfolding stat(1) by simp
  have name: "procname ?stat = name" using procname_of_stat [OF rest] unfolding stat(2) by simp
  have nm: "c_text name = name" using zero unfolding stat(2) c_text_def by (auto simp: takeWhile_eq_all_conv)
  have sp: "sp_ok (StringPiece_string ?stat)" "sp_text (StringPiece_string ?stat) = ?stat" "sp_ptr (StringPiece_string ?stat) = ?stat @ [CHR 0x00]"
    using StringPiece_string_text [OF short] by (simp_all add: StringPiece_string_def)
  have st: "sp_nth (int (length pre + 2)) (StringPiece_string ?stat) = Inr state" unfolding sp_nth_def sp(3) nat_int unfolding stat(1) by (simp add: nth_append)
  have "int (length pre + 4) \<le> sp_length (StringPiece_string ?stat)" using sp_length_text [OF sp(1)] unfolding sp(2) unfolding stat(1) by simp
  then obtain p where p: "remove_prefix (int (length pre + 4)) (StringPiece_string ?stat) = Inr p" "sp_ok p"
      "sp_text p = drop (length pre + 4) ?stat"
    using remove_prefix_text [OF sp(1), of "int (length pre + 4)"] sp(2) by (auto simp del: of_nat_add of_nat_numeral)
  have d: "sp_text p = ?data" unfolding p(3) unfolding stat(1) by simp
  have "sp_ptr p = drop (length pre + 4) (?stat @ [CHR 0x00])"
    using p(1) unfolding remove_prefix_def sp(3) by (auto simp: ints32_def split: if_splits simp del: of_nat_add of_nat_numeral)
  then have ptr: "sp_ptr p = sp_text p @ [CHR 0x00]" unfolding p(3) unfolding stat(1) by simp
  have "getCpuTime hz p = Inr t"
    unfolding t_def using fs zero by (intro getCpuTime_text [OF p(2) d len _ ptr _ range following(1)]) (auto simp: list_all_iff d stat_line_def)
  moreover have "Suc (length (dec_digits pid)) < length pre" by (simp add: pre_def)
  ultimately show ?thesis
    using lp rp name nm st p(1) by (cases t) (simp add: thread_line_def add.commute)
qed

end
