(* ===== verification/Spec2Isabelle.thy ===== *)
theory Spec2Isabelle
  imports Prelude Endian Buffer Format Date TimeZone TimeZoneFile Http Double Timestamp LogStream FormatSI Codec Channel Poller TimerQueue TcpConnection EventLoop Queues Sockets Connector TcpServer Rpc FileUtil LogFile Logging StringPiece Inspect
begin

text \<open>
  A verification development for the muduo network library.
\<close>

end
